(* ===== verification/Xacpp_Prelude.thy ===== *)
theory Xacpp_Prelude
  imports Main "HOL-Library.Word" "HOL-Library.AList"
begin

text \<open>
  Shared vocabulary of the development: the machine types of the Rust sources, big-endian byte
  encodings (\<open>to_be_bytes\<close> / \<open>from_be_bytes\<close>), and the \<open>HashMap\<close> interface as a locale with
  its interpretation on association lists.

  \<^item> \<open>u8\<close>, \<open>u16\<close>, \<open>u32\<close> are machine words; a \<open>[u8; 16]\<close> transaction id is the 128-bit word whose
    big-endian bytes are the array (a bijection, see \<open>txid_of_bytes_inverse\<close>).
  \<^item> \<open>u64\<close> quantities (millisecond instants and byte counters) and \<open>usize\<close> lengths are natural
    numbers; \<open>saturating_sub\<close> is then exactly the subtraction of \<open>nat\<close>. The only \<open>u64\<close>
    operation of the sources that can reach the width, \<open>saturating_mul\<close> in \<open>current_rto\<close>, is
    written out with its bound.
  \<^item> a \<open>Result\<close> is a sum with the error on the left.
\<close>

section \<open>Machine types\<close>

type_synonym byte = "8 word"
type_synonym u8 = "8 word"
type_synonym u16 = "16 word"
type_synonym u32 = "32 word"
type_synonym txid = "128 word"
type_synonym crc_fn = "byte list \<Rightarrow> u32"

named_theorems codec_simps "byte-level facts used by every codec proof"
named_theorems table_simps "lookup, update and removal in hash tables"

definition u64_max :: nat where
  "u64_max = 2 ^ 64 - 1"

definition u32_max :: nat where
  "u32_max = 2 ^ 32 - 1"

lemma unat_u32_le [simp]: "unat (w :: u32) \<le> u32_max"
  using unsigned_less [of w, where ?'a = nat] by (simp add: u32_max_def)

lemma unat_of_nat_u32: "n < 2 ^ 32 \<Longrightarrow> unat (of_nat n :: u32) = n"
  by (simp add: unat_of_nat take_bit_nat_eq_self)

lemma of_nat_u32_inj:
  "m < 2 ^ 32 \<Longrightarrow> n < 2 ^ 32 \<Longrightarrow> (of_nat m :: u32) = of_nat n \<longleftrightarrow> m = n"
  by (metis unat_of_nat_u32)

section \<open>Big-endian byte encodings\<close>

definition nat_of_be :: "byte list \<Rightarrow> nat" where
  "nat_of_be bs = foldl (\<lambda>a b. a * 256 + unat b) 0 bs"

primrec be_of_nat :: "nat \<Rightarrow> nat \<Rightarrow> byte list" where
  "be_of_nat 0 k = []"
| "be_of_nat (Suc n) k = be_of_nat n (k div 256) @ [of_nat k]"

lemma nat_of_be_Nil [simp]: "nat_of_be [] = 0"
  by (simp add: nat_of_be_def)

lemma nat_of_be_snoc [simp]: "nat_of_be (bs @ [b]) = nat_of_be bs * 256 + unat b"
  by (simp add: nat_of_be_def)

lemma length_be_of_nat [simp, codec_simps]: "length (be_of_nat n k) = n"
  by (induction n arbitrary: k) auto

lemma unat_byte_less [simp]: "unat (b :: byte) < 256"
  using unsigned_less [of b] by simp

lemma nat_of_be_less: "nat_of_be bs < 256 ^ length bs"
proof (induction bs rule: rev_induct)
  case Nil
  then show ?case by simp
next
  case (snoc b bs)
  have "nat_of_be bs * 256 + unat b < (nat_of_be bs + 1) * 256"
    by simp
  also have "\<dots> \<le> 256 ^ length bs * 256"
    using snoc by (intro mult_right_mono) auto
  finally show ?case by simp
qed

lemma nat_of_be_of_nat: "k < 256 ^ n \<Longrightarrow> nat_of_be (be_of_nat n k) = k"
proof (induction n arbitrary: k)
  case 0
  then show ?case by simp
next
  case (Suc n)
  have "k div 256 < 256 ^ n"
    using Suc.prems by (simp add: less_mult_imp_div_less mult.commute)
  then show ?case
    using Suc.IH by (simp add: unat_of_nat take_bit_eq_mod)
qed

lemma be_of_nat_of_be: "be_of_nat (length bs) (nat_of_be bs) = bs"
proof (induction bs rule: rev_induct)
  case Nil
  then show ?case by simp
next
  case (snoc b bs)
  have "unat (of_nat (nat_of_be bs * 256 + unat b) :: byte) = unat b"
    by (simp add: unat_of_nat take_bit_eq_mod del: of_nat_add of_nat_mult)
  then have "(of_nat (nat_of_be bs * 256 + unat b) :: byte) = b"
    by (simp only: word_unat_eq_iff)
  then show ?case
    using snoc by simp
qed

definition u16_to_be :: "u16 \<Rightarrow> byte list" where
  "u16_to_be w = be_of_nat 2 (unat w)"

definition u16_of_be :: "byte list \<Rightarrow> u16" where
  "u16_of_be bs = of_nat (nat_of_be bs)"

definition u32_to_be :: "u32 \<Rightarrow> byte list" where
  "u32_to_be w = be_of_nat 4 (unat w)"

definition u32_of_be :: "byte list \<Rightarrow> u32" where
  "u32_of_be bs = of_nat (nat_of_be bs)"

definition u64_to_be :: "64 word \<Rightarrow> byte list" where
  "u64_to_be w = be_of_nat 8 (unat w)"

definition u64_of_be :: "byte list \<Rightarrow> 64 word" where
  "u64_of_be bs = of_nat (nat_of_be bs)"

definition txid_to_bytes :: "txid \<Rightarrow> byte list" where
  "txid_to_bytes w = be_of_nat 16 (unat w)"

definition txid_of_bytes :: "byte list \<Rightarrow> txid" where
  "txid_of_bytes bs = of_nat (nat_of_be bs)"

lemma be_lengths [simp, codec_simps]:
  "length (u16_to_be a) = 2" "length (u32_to_be b) = 4" "length (u64_to_be c) = 8"
  "length (txid_to_bytes d) = 16"
  by (simp_all add: u16_to_be_def u32_to_be_def u64_to_be_def txid_to_bytes_def)

lemma unat_bounds_256:
  "unat (a :: u16) < 256 ^ 2" "unat (b :: u32) < 256 ^ 4"
  "unat (c :: 64 word) < 256 ^ 8" "unat (d :: txid) < 256 ^ 16"
  using unsigned_less [of a] unsigned_less [of b] unsigned_less [of c] unsigned_less [of d]
  by simp_all

lemma be_roundtrips [simp, codec_simps]:
  "u16_of_be (u16_to_be a) = a" "u32_of_be (u32_to_be b) = b" "u64_of_be (u64_to_be c) = c"
  "txid_of_bytes (txid_to_bytes d) = d"
  by (simp_all add: u16_of_be_def u16_to_be_def u32_of_be_def u32_to_be_def u64_of_be_def
      u64_to_be_def txid_of_bytes_def txid_to_bytes_def
      nat_of_be_of_nat [OF unat_bounds_256(1)] nat_of_be_of_nat [OF unat_bounds_256(2)]
      nat_of_be_of_nat [OF unat_bounds_256(3)] nat_of_be_of_nat [OF unat_bounds_256(4)])

lemma unat_of_nat_be:
  "length bs = n \<Longrightarrow> 256 ^ n \<le> (2 :: nat) ^ LENGTH('a :: len) \<Longrightarrow>
   unat (of_nat (nat_of_be bs) :: 'a word) = nat_of_be bs"
  using nat_of_be_less [of bs] by (simp add: unat_of_nat take_bit_nat_eq_self)

lemma u16_of_be_inverse [codec_simps]: "length bs = 2 \<Longrightarrow> u16_to_be (u16_of_be bs) = bs"
  using be_of_nat_of_be [of bs] by (simp add: u16_to_be_def u16_of_be_def unat_of_nat_be)

lemma u32_of_be_inverse [codec_simps]: "length bs = 4 \<Longrightarrow> u32_to_be (u32_of_be bs) = bs"
  using be_of_nat_of_be [of bs] by (simp add: u32_to_be_def u32_of_be_def unat_of_nat_be)

lemma u64_of_be_inverse [codec_simps]: "length bs = 8 \<Longrightarrow> u64_to_be (u64_of_be bs) = bs"
  using be_of_nat_of_be [of bs] by (simp add: u64_to_be_def u64_of_be_def unat_of_nat_be)

lemma txid_of_bytes_inverse [codec_simps]:
  "length bs = 16 \<Longrightarrow> txid_to_bytes (txid_of_bytes bs) = bs"
  using be_of_nat_of_be [of bs] by (simp add: txid_to_bytes_def txid_of_bytes_def unat_of_nat_be)

text \<open>A fixed-width list is the list of its indexed elements, as the sources read headers.\<close>

lemma list_eq_nth2: "length bs = 2 \<Longrightarrow> [bs ! 0, bs ! 1] = bs"
  by (auto simp: numeral_eq_Suc length_Suc_conv)

lemma list_eq_nth4: "length bs = 4 \<Longrightarrow> [bs ! 0, bs ! 1, bs ! 2, bs ! 3] = bs"
  by (auto simp: numeral_eq_Suc length_Suc_conv)

text \<open>The slice \<open>bs[i..j]\<close> of the sources.\<close>

definition slice :: "nat \<Rightarrow> nat \<Rightarrow> 'a list \<Rightarrow> 'a list" where
  "slice i j bs = take (j - i) (drop i bs)"

lemma length_slice [simp, codec_simps]:
  "length (slice i j bs) = min (j - i) (length bs - i)"
  by (simp add: slice_def)

section \<open>Results\<close>

text \<open>The \<open>?\<close> operator, and \<open>collect\<close> of an iterator of results (the first error wins).\<close>

fun and_then :: "'e + 'a \<Rightarrow> ('a \<Rightarrow> 'e + 'b) \<Rightarrow> 'e + 'b" where
  "and_then (Inl e) k = Inl e"
| "and_then (Inr x) k = k x"

primrec collect :: "('a \<Rightarrow> 'e + 'b) \<Rightarrow> 'a list \<Rightarrow> 'e + 'b list" where
  "collect f [] = Inr []"
| "collect f (x # xs) = and_then (f x) (\<lambda>y. and_then (collect f xs) (\<lambda>ys. Inr (y # ys)))"

lemma and_then_Inr [simp]: "and_then r k = Inr y \<longleftrightarrow> (\<exists>x. r = Inr x \<and> k x = Inr y)"
  by (cases r) auto

lemma collect_map: "(\<And>x. x \<in> set xs \<Longrightarrow> f (g x) = Inr x) \<Longrightarrow> collect f (map g xs) = Inr xs"
  by (induction xs) auto

lemma collect_Inr: "collect f cs = Inr xs \<longleftrightarrow> list_all2 (\<lambda>c x. f c = Inr x) cs xs"
  by (induction cs arbitrary: xs) (auto simp: list_all2_Cons1)

lemma collect_inverse:
  "collect f cs = Inr xs \<Longrightarrow> (\<And>c x. c \<in> set cs \<Longrightarrow> f c = Inr x \<Longrightarrow> g x = c) \<Longrightarrow> map g xs = cs"
  by (induction cs arbitrary: xs) auto

section \<open>Fixed-width chunks\<close>

function chunks_exact :: "nat \<Rightarrow> 'a list \<Rightarrow> 'a list list" where
  "chunks_exact n xs =
    (if n = 0 \<or> length xs < n then [] else take n xs # chunks_exact n (drop n xs))"
  by pat_completeness auto
termination
  by (relation "measure (\<lambda>(n, xs). length xs)") auto

declare chunks_exact.simps [simp del]

lemma chunks_exact_Nil [simp]: "chunks_exact n [] = []"
  by (auto simp: chunks_exact.simps)

lemma chunks_exact_append:
  "0 < n \<Longrightarrow> length c = n \<Longrightarrow> chunks_exact n (c @ xs) = c # chunks_exact n xs"
  by (subst chunks_exact.simps) auto

lemma chunks_exact_concat_map:
  "0 < n \<Longrightarrow> (\<And>x. length (g x) = n) \<Longrightarrow> chunks_exact n (concat (map g xs)) = map g xs"
  by (induction xs) (simp_all add: chunks_exact_append)

lemma chunks_exact_length: "c \<in> set (chunks_exact n xs) \<Longrightarrow> length c = n"
proof (induction n xs rule: chunks_exact.induct)
  case (1 n xs)
  then show ?case
    by (auto simp: chunks_exact.simps [of n xs] split: if_splits)
qed

lemma concat_chunks_exact: "length xs = k * n \<Longrightarrow> concat (chunks_exact n xs) = xs"
proof (induction n xs arbitrary: k rule: chunks_exact.induct)
  case (1 n xs)
  show ?case
  proof (cases "n = 0 \<or> length xs < n")
    case True
    with "1.prems" have "xs = []" by (cases k) auto
    then show ?thesis by simp
  next
    case False
    then have "length (drop n xs) = (k - 1) * n"
      using "1.prems" by (simp add: algebra_simps)
    with False "1.IH" show ?thesis
      by (subst chunks_exact.simps) simp
  qed
qed

lemma length_chunks_exact: "0 < n \<Longrightarrow> length xs = k * n \<Longrightarrow> length (chunks_exact n xs) = k"
proof (induction n xs arbitrary: k rule: chunks_exact.induct)
  case (1 n xs)
  show ?case
  proof (cases "length xs < n")
    case True
    with 1 show ?thesis by (cases k) auto
  next
    case False
    then have k: "k \<noteq> 0" "length (drop n xs) = (k - 1) * n"
      using 1 by (auto simp: algebra_simps)
    with False "1.IH" "1.prems"(1) show ?thesis
      by (subst chunks_exact.simps) simp
  qed
qed

section \<open>UTF-8\<close>

text \<open>
  Rust strings are byte lists that pass \<open>String::from_utf8\<close>, i.e. are well-formed UTF-8 (shortest
  forms, no surrogates, at most \<open>U+10FFFF\<close>).
\<close>

definition utf8_cont :: "byte \<Rightarrow> bool" where
  "utf8_cont b \<longleftrightarrow> 0x80 \<le> b \<and> b \<le> 0xBF"

fun utf8_valid :: "byte list \<Rightarrow> bool" where
  "utf8_valid [] = True"
| "utf8_valid (b # bs) =
    (if b < 0x80 then utf8_valid bs
     else case bs of
         [] \<Rightarrow> False
       | c # cs \<Rightarrow>
         (if 0xC2 \<le> b \<and> b \<le> 0xDF then utf8_cont c \<and> utf8_valid cs
          else case cs of
              [] \<Rightarrow> False
            | d # ds \<Rightarrow>
              (if 0xE0 \<le> b \<and> b \<le> 0xEF then
                 utf8_cont c \<and> (b = 0xE0 \<longrightarrow> 0xA0 \<le> c) \<and> (b = 0xED \<longrightarrow> c \<le> 0x9F)
                   \<and> utf8_cont d \<and> utf8_valid ds
               else case ds of
                   [] \<Rightarrow> False
                 | e # es \<Rightarrow>
                   0xF0 \<le> b \<and> b \<le> 0xF4 \<and> utf8_cont c \<and> (b = 0xF0 \<longrightarrow> 0x90 \<le> c)
                     \<and> (b = 0xF4 \<longrightarrow> c \<le> 0x8F) \<and> utf8_cont d \<and> utf8_cont e \<and> utf8_valid es)))"

section \<open>Hash tables\<close>

text \<open>
  The interface of \<open>HashMap\<close> the sources rely on: lookup, insertion, removal and iteration over
  the entries, each key once. Iteration order is the order of \<open>entries\<close>; no lemma below depends
  on which order that is.
\<close>

locale hash_table =
  fixes get :: "'m \<Rightarrow> 'k \<Rightarrow> 'v option"
    and put :: "'k \<Rightarrow> 'v \<Rightarrow> 'm \<Rightarrow> 'm"
    and del :: "'k \<Rightarrow> 'm \<Rightarrow> 'm"
    and entries :: "'m \<Rightarrow> ('k \<times> 'v) list"
    and inv :: "'m \<Rightarrow> bool"
  assumes get_entries: "inv m \<Longrightarrow> get m k = map_of (entries m) k"
    and distinct_entries: "inv m \<Longrightarrow> distinct (map fst (entries m))"
    and get_put: "inv m \<Longrightarrow> get (put k v m) = (get m)(k \<mapsto> v)"
    and get_del: "inv m \<Longrightarrow> get (del k m) = (get m)(k := None)"
    and inv_put: "inv m \<Longrightarrow> inv (put k v m)"
    and inv_del: "inv m \<Longrightarrow> inv (del k m)"
begin

definition total :: "('v \<Rightarrow> nat) \<Rightarrow> 'm \<Rightarrow> nat" where
  "total g m = sum_list (map (g \<circ> snd) (entries m))"

lemma get_eq_map_of: "inv m \<Longrightarrow> get m = map_of (entries m)"
  by (rule ext) (rule get_entries)

lemma finite_keys: "inv m \<Longrightarrow> finite (dom (get m))"
  by (simp add: get_eq_map_of finite_dom_map_of)

lemma entries_iff: "inv m \<Longrightarrow> (k, v) \<in> set (entries m) \<longleftrightarrow> get m k = Some v"
  by (simp add: get_entries distinct_entries)

lemma keys_entries: "inv m \<Longrightarrow> fst ` set (entries m) = dom (get m)"
  by (simp add: get_eq_map_of dom_map_of_conv_image_fst)

lemma total_dom: "inv m \<Longrightarrow> total g m = (\<Sum>k\<in>dom (get m). g (the (get m k)))"
proof -
  assume m: "inv m"
  have "total g m = sum_list (map (\<lambda>k. g (the (get m k))) (map fst (entries m)))"
    unfolding total_def map_map
    by (rule arg_cong [where f = sum_list], rule map_cong [OF refl])
      (auto simp: entries_iff [OF m])
  also have "\<dots> = sum (\<lambda>k. g (the (get m k))) (set (map fst (entries m)))"
    by (rule sum_list_distinct_conv_sum_set [OF distinct_entries [OF m]])
  also have "set (map fst (entries m)) = dom (get m)"
    using keys_entries [OF m] by simp
  finally show ?thesis .
qed

lemma total_split:
  "inv m \<Longrightarrow> get m k = Some v \<Longrightarrow>
   total g m = g v + (\<Sum>j\<in>dom (get m) - {k}. g (the (get m j)))"
  by (subst total_dom, assumption, subst sum.remove [of _ k]) (auto intro: finite_keys)

lemma total_ge: "inv m \<Longrightarrow> get m k = Some v \<Longrightarrow> g v \<le> total g m"
  by (simp add: total_split)

lemma total_put:
  assumes "inv m" "get m k = Some v"
  shows "total g (put k w m) + g v = total g m + g w"
proof -
  have "(\<Sum>j\<in>dom (get (put k w m)) - {k}. g (the (get (put k w m) j)))
      = (\<Sum>j\<in>dom (get m) - {k}. g (the (get m j)))"
    using assms by (intro sum.cong) (auto simp: get_put)
  then show ?thesis
    using assms total_split [of "put k w m" k w g] total_split [of m k v g]
    by (simp add: get_put inv_put)
qed

lemma total_put_fresh:
  assumes "inv m" "get m k = None"
  shows "total g (put k w m) = total g m + g w"
proof -
  have "(\<Sum>j\<in>dom (get (put k w m)) - {k}. g (the (get (put k w m) j)))
      = (\<Sum>j\<in>dom (get m). g (the (get m j)))"
    using assms by (intro sum.cong) (auto simp: get_put)
  then show ?thesis
    using assms total_split [of "put k w m" k w g]
    by (simp add: get_put inv_put total_dom)
qed

lemma total_del:
  assumes "inv m" "get m k = Some v"
  shows "total g (del k m) + g v = total g m"
proof -
  have "(\<Sum>j\<in>dom (get (del k m)). g (the (get (del k m) j)))
      = (\<Sum>j\<in>dom (get m) - {k}. g (the (get m j)))"
    using assms by (intro sum.cong) (auto simp: get_del)
  then show ?thesis
    using assms total_split [of m k v g] total_dom [of "del k m" g]
    by (simp add: inv_del)
qed

lemma total_del_le: "inv m \<Longrightarrow> total g (del k m) \<le> total g m"
proof (cases "get m k")
  case None
  assume "inv m"
  with None show ?thesis
    by (simp add: total_dom inv_del get_del fun_upd_idem)
next
  case (Some v)
  assume "inv m"
  with Some show ?thesis
    using total_del [of m k v g] by simp
qed

end

text \<open>
  The model's tables are association lists: the list order is the iteration order.
\<close>

type_synonym ('k, 'v) hash_map = "('k \<times> 'v) list"

definition hm_get :: "('k, 'v) hash_map \<Rightarrow> 'k \<Rightarrow> 'v option" where
  "hm_get m k = map_of m k"

definition hm_put :: "'k \<Rightarrow> 'v \<Rightarrow> ('k, 'v) hash_map \<Rightarrow> ('k, 'v) hash_map" where
  "hm_put k v m = AList.update k v m"

definition hm_del :: "'k \<Rightarrow> ('k, 'v) hash_map \<Rightarrow> ('k, 'v) hash_map" where
  "hm_del k m = AList.delete k m"

definition hm_keys :: "('k, 'v) hash_map \<Rightarrow> 'k list" where
  "hm_keys m = map fst m"

definition hm_contains :: "('k, 'v) hash_map \<Rightarrow> 'k \<Rightarrow> bool" where
  "hm_contains m k \<longleftrightarrow> hm_get m k \<noteq> None"

definition hm_inv :: "('k, 'v) hash_map \<Rightarrow> bool" where
  "hm_inv m \<longleftrightarrow> distinct (map fst m)"

interpretation hm: hash_table hm_get hm_put hm_del "\<lambda>m. m" hm_inv
  by unfold_locales
    (auto simp: hm_get_def hm_put_def hm_del_def hm_inv_def update_conv' delete_conv'
      intro: distinct_update distinct_delete)

lemma hm_get_put [simp, table_simps]: "hm_get (hm_put k v m) j = (if j = k then Some v else hm_get m j)"
  by (simp add: hm_get_def hm_put_def update_conv')

lemma hm_get_del [simp, table_simps]: "hm_get (hm_del k m) j = (if j = k then None else hm_get m j)"
  by (simp add: hm_get_def hm_del_def delete_conv')

lemma hm_get_Nil [simp, table_simps]: "hm_get [] k = None"
  by (simp add: hm_get_def)

lemma hm_inv_Nil [simp, table_simps]: "hm_inv []"
  by (simp add: hm_inv_def)

lemma hm_inv_put [simp, table_simps]: "hm_inv m \<Longrightarrow> hm_inv (hm_put k v m)"
  by (rule hm.inv_put)

lemma hm_inv_del [simp, table_simps]: "hm_inv m \<Longrightarrow> hm_inv (hm_del k m)"
  by (rule hm.inv_del)

lemma hm_in_set: "hm_inv m \<Longrightarrow> (k, v) \<in> set m \<longleftrightarrow> hm_get m k = Some v"
  by (rule hm.entries_iff)

lemma set_hm_keys: "set (hm_keys m) = dom (hm_get m)"
  by (induction m) (auto simp: hm_keys_def hm_get_def dom_def)

lemma hm_keys_iff: "k \<in> set (hm_keys m) \<longleftrightarrow> hm_contains m k"
  by (simp add: set_hm_keys hm_contains_def domIff)

lemma hm_contains_simps [simp, table_simps]:
  "hm_contains (hm_put k v m) j \<longleftrightarrow> j = k \<or> hm_contains m j"
  "hm_contains (hm_del k m) j \<longleftrightarrow> j \<noteq> k \<and> hm_contains m j"
  "\<not> hm_contains [] j"
  by (auto simp: hm_contains_def)

text \<open>Updating every entry in place, as an \<open>iter_mut\<close> loop does, keeps the keys.\<close>

lemma hm_get_map: "hm_get (map (\<lambda>(k, v). (k, f k v)) m) j = map_option (f j) (hm_get m j)"
  by (induction m) (auto simp: hm_get_def)

lemma hm_inv_map [simp]: "hm_inv (map (\<lambda>(k, v). (k, f k v)) m) \<longleftrightarrow> hm_inv m"
  by (simp add: hm_inv_def comp_def case_prod_beta)

section \<open>Ordered maps\<close>

text \<open>\<open>BTreeMap\<close>: a table whose entries come in ascending key order.\<close>

locale ordered_map = hash_table get put del entries inv
  for get :: "'m \<Rightarrow> 'k :: linorder \<Rightarrow> 'v option" and put del entries inv +
  assumes sorted_entries: "inv m \<Longrightarrow> sorted (map fst (entries m))"
begin

lemma entries_unique:
  assumes "inv m" "sorted (map fst xs)" "distinct (map fst xs)" "map_of xs = get m"
  shows "entries m = xs"
proof -
  have "(k, v) \<in> set xs \<longleftrightarrow> (k, v) \<in> set (entries m)" for k v
    using assms(1,4) map_of_eq_Some_iff [OF assms(3), of k v] by (simp add: entries_iff)
  then have eq: "set (entries m) = set xs"
    by auto
  have "inj_on fst (set (entries m) \<union> set xs)"
    using distinct_entries [OF assms(1)] by (simp add: eq [symmetric] distinct_map)
  then show ?thesis
    using assms eq by (intro map_sorted_distinct_set_unique [where f = fst])
      (simp_all add: sorted_entries distinct_entries)
qed

end

fun bt_insert :: "nat \<Rightarrow> 'v \<Rightarrow> (nat \<times> 'v) list \<Rightarrow> (nat \<times> 'v) list" where
  "bt_insert k v [] = [(k, v)]"
| "bt_insert k v ((j, w) # m) =
    (if k < j then (k, v) # (j, w) # m
     else if k = j then (k, v) # m
     else (j, w) # bt_insert k v m)"

definition bt_get :: "(nat \<times> 'v) list \<Rightarrow> nat \<Rightarrow> 'v option" where
  "bt_get m k = map_of m k"

definition bt_remove :: "nat \<Rightarrow> (nat \<times> 'v) list \<Rightarrow> (nat \<times> 'v) list" where
  "bt_remove k m = AList.delete k m"

definition bt_inv :: "(nat \<times> 'v) list \<Rightarrow> bool" where
  "bt_inv m \<longleftrightarrow> sorted (map fst m) \<and> distinct (map fst m)"

lemma set_bt_insert: "fst ` set (bt_insert k v m) = insert k (fst ` set m)"
  by (induction k v m rule: bt_insert.induct) auto

lemma bt_inv_insert: "bt_inv m \<Longrightarrow> bt_inv (bt_insert k v m)"
proof (induction k v m rule: bt_insert.induct)
  case (2 k v j w m)
  then show ?case
    using set_bt_insert [of k v m] by (auto simp: bt_inv_def image_iff)
qed (simp add: bt_inv_def)

lemma bt_get_insert: "bt_inv m \<Longrightarrow> bt_get (bt_insert k v m) = (bt_get m)(k \<mapsto> v)"
proof (induction k v m rule: bt_insert.induct)
  case (2 k v j w m)
  then show ?case
    by (auto simp: bt_inv_def bt_get_def fun_eq_iff)
qed (auto simp: bt_get_def fun_eq_iff)

lemma sorted_delete: "sorted (map fst m) \<Longrightarrow> sorted (map fst (AList.delete k m))"
  by (induction m) (auto simp: AList.delete_eq)

interpretation bt: ordered_map bt_get bt_insert bt_remove "\<lambda>m. m" bt_inv
  by unfold_locales
    (simp_all add: bt_get_insert bt_inv_insert,
     simp_all add: bt_inv_def bt_get_def [abs_def] bt_remove_def delete_conv' sorted_delete distinct_delete)

section \<open>Machines with an invariant\<close>

text \<open>
  A component whose operations are total functions on its state, and a predicate every operation
  keeps: then every run keeps it.
\<close>

locale invariant_machine =
  fixes step :: "'op \<Rightarrow> 's \<Rightarrow> 's"
    and good :: "'s \<Rightarrow> bool"
  assumes step_good: "good s \<Longrightarrow> good (step op s)"
begin

definition run :: "'op list \<Rightarrow> 's \<Rightarrow> 's" where
  "run ops s = fold step ops s"

lemma run_good: "good s \<Longrightarrow> good (run ops s)"
  unfolding run_def by (induction ops arbitrary: s) (simp_all add: step_good)

lemma run_append: "run (xs @ ys) s = run ys (run xs s)"
  by (simp add: run_def)

end

section \<open>Machines with a trace\<close>

text \<open>
  A component whose operations also report what they do to the outside: an invariant relates the
  trace so far to the state.
\<close>

locale traced_machine =
  fixes step :: "'op \<Rightarrow> 's \<Rightarrow> 'e list \<times> 's"
    and good :: "'e list \<Rightarrow> 's \<Rightarrow> bool"
  assumes step_traced: "good tr s \<Longrightarrow> step op s = (eff, s') \<Longrightarrow> good (tr @ eff) s'"
begin

fun trace_run :: "'op list \<Rightarrow> 's \<Rightarrow> 'e list \<times> 's" where
  "trace_run [] s = ([], s)"
| "trace_run (op # ops) s =
    (case step op s of (eff, s') \<Rightarrow> case trace_run ops s' of (eff', s'') \<Rightarrow> (eff @ eff', s''))"

lemma trace_run_good: "good tr s \<Longrightarrow> trace_run ops s = (eff, s') \<Longrightarrow> good (tr @ eff) s'"
proof (induction ops arbitrary: tr s eff s')
  case (Cons op ops)
  obtain e1 s1 where e1: "step op s = (e1, s1)"
    by (cases "step op s") simp
  obtain e2 s2 where e2: "trace_run ops s1 = (e2, s2)"
    by (cases "trace_run ops s1") simp
  show ?case
    using Cons.IH [OF step_traced [OF Cons.prems(1) e1] e2] Cons.prems(2) e1 e2 by simp
qed simp

end

end
