(* ===== verification/Wire_Frame.thy ===== *)
theory Wire_Frame
  imports Xacpp_Prelude
begin

text \<open>
  The binary frame layer, \<open>src/src/wire/frame.rs\<close>: frame types and their limits, the encoder, header
  validation and the incremental decoder with its resynchronisation scan.

  The CRC-32 is the third-party \<open>crc32fast\<close> crate; it is the parameter \<open>crc\<close> of every
  definition that computes a checksum, and no law about it is assumed anywhere. Feeding a hasher twice
  checksums the concatenation of both inputs.
\<close>

section \<open>Constants and frame types\<close>

definition MAGIC :: "byte list" where
  "MAGIC = [0x58, 0x41, 0x43, 0x50]"

definition VERSION_MAJOR :: u8 where
  "VERSION_MAJOR = 1"

definition VERSION_MINOR :: u8 where
  "VERSION_MINOR = 2"

definition HEADER_LEN :: nat where
  "HEADER_LEN = 36"

definition CRC_LEN :: nat where
  "CRC_LEN = 4"

definition FRAME_OVERHEAD :: nat where
  "FRAME_OVERHEAD = HEADER_LEN + CRC_LEN"

definition MAX_CONTROL_FRAME_LEN :: nat where
  "MAX_CONTROL_FRAME_LEN = 16 * 1024"

definition MAX_DATA_JSON_FRAME_LEN :: nat where
  "MAX_DATA_JSON_FRAME_LEN = 1024 * 1024"

definition MAX_DATA_BINARY_FRAME_LEN :: nat where
  "MAX_DATA_BINARY_FRAME_LEN = 16 * 1024 * 1024"

definition MAX_DECODE_TOTAL_CAP :: nat where
  "MAX_DECODE_TOTAL_CAP = 64 * 1024 * 1024"

lemmas frame_consts =
  VERSION_MAJOR_def VERSION_MINOR_def HEADER_LEN_def CRC_LEN_def FRAME_OVERHEAD_def
  MAX_CONTROL_FRAME_LEN_def MAX_DATA_JSON_FRAME_LEN_def MAX_DATA_BINARY_FRAME_LEN_def
  MAX_DECODE_TOTAL_CAP_def

datatype frame_type =
    Negotiate | Ack | Nack | Resume | ResumeResponse | Heartbeat | ErrorFrame
  | TransactionPause | TransactionAbort | TransactionCompleted | SecurityUpgrade
  | DataJson | DataBinary | UnknownType u16

fun to_u16 :: "frame_type \<Rightarrow> u16" where
  "to_u16 Negotiate = 0x0001"
| "to_u16 Ack = 0x0002"
| "to_u16 Nack = 0x0003"
| "to_u16 Resume = 0x0004"
| "to_u16 ResumeResponse = 0x0008"
| "to_u16 Heartbeat = 0x0005"
| "to_u16 ErrorFrame = 0x0006"
| "to_u16 TransactionPause = 0x0009"
| "to_u16 TransactionAbort = 0x000A"
| "to_u16 TransactionCompleted = 0x000B"
| "to_u16 SecurityUpgrade = 0x0007"
| "to_u16 DataJson = 0x1001"
| "to_u16 DataBinary = 0x1002"
| "to_u16 (UnknownType v) = v"

definition from_u16 :: "u16 \<Rightarrow> frame_type" where
  "from_u16 v =
    (if v = 0x0001 then Negotiate
     else if v = 0x0002 then Ack
     else if v = 0x0003 then Nack
     else if v = 0x0004 then Resume
     else if v = 0x0008 then ResumeResponse
     else if v = 0x0005 then Heartbeat
     else if v = 0x0006 then ErrorFrame
     else if v = 0x0009 then TransactionPause
     else if v = 0x000A then TransactionAbort
     else if v = 0x000B then TransactionCompleted
     else if v = 0x0007 then SecurityUpgrade
     else if v = 0x1001 then DataJson
     else if v = 0x1002 then DataBinary
     else UnknownType v)"

fun max_frame_len :: "frame_type \<Rightarrow> nat option" where
  "max_frame_len DataJson = Some MAX_DATA_JSON_FRAME_LEN"
| "max_frame_len DataBinary = Some MAX_DATA_BINARY_FRAME_LEN"
| "max_frame_len (UnknownType v) = None"
| "max_frame_len t = Some MAX_CONTROL_FRAME_LEN"

section \<open>Frames and encoding\<close>

record frame =
  f_type :: frame_type
  f_txid :: txid
  f_total_len :: u32
  f_seq :: u32
  f_payload :: "byte list"

definition frame_new :: "frame_type \<Rightarrow> txid \<Rightarrow> u32 \<Rightarrow> u32 \<Rightarrow> byte list \<Rightarrow> frame" where
  "frame_new t tx tot sq p =
    \<lparr>f_type = t, f_txid = tx, f_total_len = tot, f_seq = sq, f_payload = p\<rparr>"

datatype frame_error =
    VersionMismatch u8 u8
  | FrameTooLarge frame_type nat nat
  | CrcMismatch u32 u32
  | FieldLength nat nat

definition crc32 :: "crc_fn \<Rightarrow> byte list \<Rightarrow> u32" where
  "crc32 crc bytes = crc bytes"

definition write_header :: "frame_type \<Rightarrow> txid \<Rightarrow> u32 \<Rightarrow> u32 \<Rightarrow> nat \<Rightarrow> byte list" where
  "write_header t tx tot sq flen =
    MAGIC @ [VERSION_MAJOR] @ [VERSION_MINOR] @ u16_to_be (to_u16 t) @ txid_to_bytes tx
      @ u32_to_be tot @ u32_to_be sq @ u32_to_be (of_nat flen)"

definition encode_max :: "frame_type \<Rightarrow> nat" where
  "encode_max t = (case max_frame_len t of Some m \<Rightarrow> m | None \<Rightarrow> MAX_DECODE_TOTAL_CAP - FRAME_OVERHEAD)"

definition frame_encode :: "crc_fn \<Rightarrow> frame \<Rightarrow> frame_error + byte list" where
  "frame_encode crc f =
    (let mx = encode_max (f_type f) in
     if length (f_payload f) > mx
     then Inl (FrameTooLarge (f_type f) mx (length (f_payload f)))
     else
       let out = write_header (f_type f) (f_txid f) (f_total_len f) (f_seq f) (length (f_payload f))
                   @ f_payload f
       in Inr (out @ u32_to_be (crc32 crc out)))"

section \<open>Header validation\<close>

record header_info =
  h_type :: frame_type
  h_txid :: txid
  h_total_len :: u32
  h_seq :: u32
  h_frame_len :: nat

definition check_header :: "byte list \<Rightarrow> frame_error + header_info" where
  "check_header hdr =
    (let major = hdr ! 4 in
     if major \<noteq> VERSION_MAJOR then Inl (VersionMismatch major VERSION_MAJOR)
     else
       let t = from_u16 (u16_of_be [hdr ! 6, hdr ! 7]);
           flen = unat (u32_of_be [hdr ! 32, hdr ! 33, hdr ! 34, hdr ! 35]);
           info = (if length (slice 8 24 hdr) \<noteq> 16
                   then Inl (FieldLength 16 (length (slice 8 24 hdr)))
                   else Inr \<lparr>h_type = t,
                             h_txid = txid_of_bytes (slice 8 24 hdr),
                             h_total_len = u32_of_be [hdr ! 24, hdr ! 25, hdr ! 26, hdr ! 27],
                             h_seq = u32_of_be [hdr ! 28, hdr ! 29, hdr ! 30, hdr ! 31],
                             h_frame_len = flen\<rparr>)
       in (case max_frame_len t of
             Some mx \<Rightarrow> if flen > mx then Inl (FrameTooLarge t mx flen) else info
           | None \<Rightarrow>
               if FRAME_OVERHEAD + flen > MAX_DECODE_TOTAL_CAP
               then Inl (FrameTooLarge t (MAX_DECODE_TOTAL_CAP - FRAME_OVERHEAD) flen)
               else info))"

section \<open>The incremental decoder\<close>

datatype decoder_state = Sync | Body "byte list" header_info

record frame_decoder =
  d_buf :: "byte list"
  d_state :: decoder_state

definition decoder_new :: frame_decoder where
  "decoder_new = \<lparr>d_buf = [], d_state = Sync\<rparr>"

text \<open>The first window of four bytes that equals the magic, \<open>buf.windows(4).position(..)\<close>.\<close>

fun find_magic :: "byte list \<Rightarrow> nat option" where
  "find_magic [] = None"
| "find_magic (b # bs) = (if take 4 (b # bs) = MAGIC then Some 0 else map_option Suc (find_magic bs))"

definition progress_sync :: "frame_decoder \<Rightarrow> (frame_error + bool) \<times> frame_decoder" where
  "progress_sync d =
    (case find_magic (d_buf d) of
       None \<Rightarrow>
         let keep = min (length (d_buf d)) (length MAGIC - 1);
             drop_to = length (d_buf d) - keep
         in (Inr False, d\<lparr>d_buf := drop drop_to (d_buf d)\<rparr>)
     | Some pos \<Rightarrow>
         let buf = drop pos (d_buf d) in
         if length buf < HEADER_LEN then (Inr False, d\<lparr>d_buf := buf\<rparr>)
         else case check_header (take HEADER_LEN buf) of
             Inl e \<Rightarrow> (Inl e, \<lparr>d_buf = [], d_state = Sync\<rparr>)
           | Inr info \<Rightarrow>
               (Inr True, \<lparr>d_buf = drop HEADER_LEN buf,
                           d_state = Body (take HEADER_LEN buf) info\<rparr>))"

definition progress_body ::
  "crc_fn \<Rightarrow> byte list \<Rightarrow> header_info \<Rightarrow> frame_decoder \<Rightarrow> frame list
    \<Rightarrow> (frame_error + bool) \<times> frame_decoder \<times> frame list" where
  "progress_body crc header info d frames =
    (let flen = h_frame_len info; need = flen + CRC_LEN; buf = d_buf d in
     if length buf < need then (Inr False, d, frames)
     else
       let actual = crc (header @ take flen buf);
           expected = u32_of_be [buf ! flen, buf ! (flen + 1), buf ! (flen + 2), buf ! (flen + 3)]
       in if actual \<noteq> expected
          then (Inl (CrcMismatch expected actual), \<lparr>d_buf = [], d_state = Sync\<rparr>, frames)
          else
            let f = \<lparr>f_type = h_type info, f_txid = h_txid info, f_total_len = h_total_len info,
                     f_seq = h_seq info, f_payload = take flen buf\<rparr>
            in (Inr True, \<lparr>d_buf = drop need buf, d_state = Sync\<rparr>, frames @ [f]))"

definition progress ::
  "crc_fn \<Rightarrow> frame_decoder \<Rightarrow> frame list \<Rightarrow> (frame_error + bool) \<times> frame_decoder \<times> frame list" where
  "progress crc d frames =
    (case d_state d of
       Sync \<Rightarrow> (case progress_sync d of (r, d') \<Rightarrow> (r, d', frames))
     | Body header info \<Rightarrow> progress_body crc header info d frames)"

lemma progress_True_shrinks:
  "progress crc d frames = (Inr True, d', frames') \<Longrightarrow> length (d_buf d') < length (d_buf d)"
  by (auto simp: progress_def progress_sync_def progress_body_def Let_def frame_consts
      split: decoder_state.splits option.splits if_splits sum.splits)

function feed_loop ::
  "crc_fn \<Rightarrow> frame_decoder \<Rightarrow> frame list \<Rightarrow> (frame_error + frame list) \<times> frame_decoder" where
  "feed_loop crc d frames =
    (case progress crc d frames of
       (Inl e, d', frames') \<Rightarrow> (Inl e, d')
     | (Inr again, d', frames') \<Rightarrow>
         if again then feed_loop crc d' frames' else (Inr frames', d'))"
  by pat_completeness auto
termination
  by (relation "measure (\<lambda>(crc, d, frames). length (d_buf d))") (auto dest!: progress_True_shrinks [OF sym])

declare feed_loop.simps [simp del]

definition feed ::
  "crc_fn \<Rightarrow> frame_decoder \<Rightarrow> byte list \<Rightarrow> (frame_error + frame list) \<times> frame_decoder" where
  "feed crc d chunk = feed_loop crc (d\<lparr>d_buf := d_buf d @ chunk\<rparr>) []"

section \<open>Frame type codes\<close>

lemma to_from_u16 [simp]: "to_u16 (from_u16 v) = v"
  by (simp add: from_u16_def)

lemma from_to_u16_known: "max_frame_len t \<noteq> None \<Longrightarrow> from_u16 (to_u16 t) = t"
  by (cases t) (simp_all add: from_u16_def)

definition canonical_type :: "frame_type \<Rightarrow> bool" where
  "canonical_type t \<longleftrightarrow> from_u16 (to_u16 t) = t"

lemma canonical_from_u16 [simp]: "canonical_type (from_u16 v)"
  by (simp add: canonical_type_def)

lemma encode_max_le: "encode_max t \<le> MAX_DECODE_TOTAL_CAP - FRAME_OVERHEAD"
  by (cases t) (simp_all add: encode_max_def frame_consts)

section \<open>The magic scan\<close>

lemma length_MAGIC [simp]: "length MAGIC = 4"
  by (simp add: MAGIC_def)

lemma take4_MAGIC_length: "take 4 xs = MAGIC \<Longrightarrow> 4 \<le> length xs"
  by (drule arg_cong [where f = length]) simp

lemma find_magic_Some:
  "find_magic bs = Some p \<Longrightarrow> p + 4 \<le> length bs \<and> take 4 (drop p bs) = MAGIC"
proof (induction bs arbitrary: p)
  case Nil
  then show ?case by simp
next
  case (Cons b bs)
  show ?case
  proof (cases "take 4 (b # bs) = MAGIC")
    case True
    with Cons.prems take4_MAGIC_length [OF True] show ?thesis by simp
  next
    case False
    with Cons obtain q where "p = Suc q" "find_magic bs = Some q"
      by auto
    with Cons.IH show ?thesis by simp
  qed
qed

lemma find_magic_append_Some: "find_magic xs = Some p \<Longrightarrow> find_magic (xs @ ys) = Some p"
proof (induction xs arbitrary: p)
  case Nil
  then show ?case by simp
next
  case (Cons x xs)
  show ?case
  proof (cases "take 4 (x # xs) = MAGIC")
    case True
    with Cons.prems take4_MAGIC_length [OF True] show ?thesis by simp
  next
    case False
    then have False': "take 4 (x # xs @ ys) \<noteq> MAGIC" if "4 \<le> length (x # xs)"
      using that by simp
    from False Cons.prems obtain q where q: "p = Suc q" "find_magic xs = Some q"
      by auto
    then have "4 \<le> length (x # xs)"
      using find_magic_Some [of xs q] by simp
    with q Cons.IH False' show ?thesis by simp
  qed
qed

lemma find_magic_None_drop:
  "find_magic xs = None \<Longrightarrow> n + 3 \<le> length xs \<Longrightarrow>
   find_magic (xs @ ys) = map_option ((+) n) (find_magic (drop n xs @ ys))"
proof (induction n arbitrary: xs)
  case 0
  show ?case by (cases "find_magic (drop 0 xs @ ys)") auto
next
  case (Suc n)
  obtain x xs' where xs: "xs = x # xs'"
    using Suc.prems by (cases xs) auto
  have len: "4 \<le> length xs"
    using Suc.prems by simp
  have "take 4 (xs @ ys) \<noteq> MAGIC" "find_magic xs' = None"
    using Suc.prems(1) len by (auto simp: xs split: if_splits)
  moreover have "find_magic (xs' @ ys) = map_option ((+) n) (find_magic (drop n xs' @ ys))"
    using Suc.prems calculation by (intro Suc.IH) (auto simp: xs)
  ultimately show ?case
    by (simp add: xs option.map_comp comp_def)
qed

lemma find_magic_prefix: "find_magic (MAGIC @ bs) = Some 0"
  by (simp add: MAGIC_def)

section \<open>Decoding is independent of how the stream is cut into chunks\<close>

abbreviation extend :: "frame_decoder \<Rightarrow> byte list \<Rightarrow> frame_decoder" where
  "extend d bs \<equiv> d\<lparr>d_buf := d_buf d @ bs\<rparr>"

lemmas progress_defs = progress_def progress_sync_def progress_body_def Let_def

lemma progress_extend_Inl:
  "progress crc d fs = (Inl e, d', fs') \<Longrightarrow> progress crc (extend d bs) fs = (Inl e, d', fs')"
  using find_magic_append_Some [of "d_buf d" _ bs]
  by (auto simp: progress_defs nth_append frame_consts
      split: decoder_state.splits option.splits if_splits sum.splits)

lemma progress_extend_True:
  "progress crc d fs = (Inr True, d', fs') \<Longrightarrow>
   progress crc (extend d bs) fs = (Inr True, extend d' bs, fs')"
  using find_magic_append_Some [of "d_buf d" _ bs]
  by (auto simp: progress_defs nth_append frame_consts
      split: decoder_state.splits option.splits if_splits sum.splits)

lemma progress_sync_wait:
  assumes "d_state d = Sync" "find_magic (d_buf d) = None"
  shows "progress_sync (extend (snd (progress_sync d)) bs) = progress_sync (extend d bs)"
proof -
  define n where "n = length (d_buf d) - min (length (d_buf d)) 3"
  define B where "B = d_buf d @ bs"
  have n: "n \<le> length (d_buf d)" "n = 0 \<or> n + 3 \<le> length B"
    by (auto simp: n_def B_def)
  have d': "snd (progress_sync d) = d\<lparr>d_buf := drop n (d_buf d)\<rparr>"
    using assms by (simp add: progress_sync_def Let_def n_def)
  have B: "drop n (d_buf d) @ bs = drop n B"
    using n by (simp add: B_def)
  have "find_magic B = map_option ((+) n) (find_magic (drop n B))"
    using assms n find_magic_None_drop [of "d_buf d" n bs]
    by (cases "3 \<le> length (d_buf d)")
      (auto simp: B_def n_def min_def map_option_case split: option.splits)
  then have "progress_sync (d\<lparr>d_buf := drop n B\<rparr>) = progress_sync (d\<lparr>d_buf := B\<rparr>)"
    using n by (cases "find_magic (drop n B)") (auto simp: progress_sync_def Let_def add.commute)
  then show ?thesis
    by (simp add: d' B flip: B_def)
qed

lemma progress_extend_False:
  assumes "progress crc d fs = (Inr False, d', fs')"
  shows "fs' = fs \<and> progress crc (extend d' bs) fs = progress crc (extend d bs) fs"
proof (cases "d_state d")
  case Sync
  then have p: "progress_sync d = (Inr False, d')" "fs' = fs"
    using assms by (auto simp: progress_def split: prod.splits)
  have "progress_sync (extend d' bs) = progress_sync (extend d bs)"
  proof (cases "find_magic (d_buf d)")
    case None
    then show ?thesis
      using progress_sync_wait [OF Sync None, of bs] p by simp
  next
    case (Some q)
    then have d': "d' = d\<lparr>d_buf := drop q (d_buf d)\<rparr>" and q: "take 4 (drop q (d_buf d)) = MAGIC"
      using p find_magic_Some [OF Some]
      by (auto simp: progress_sync_def Let_def split: if_splits sum.splits)
    have "find_magic (drop q (d_buf d) @ bs) = Some 0"
      by (metis append.assoc append_take_drop_id find_magic_prefix q)
    then show ?thesis
      using Some find_magic_append_Some [OF Some, of bs] find_magic_Some [OF Some]
      by (simp add: d' progress_sync_def Let_def)
  qed
  moreover have "d_state d' = Sync"
    using p Sync by (auto simp: progress_sync_def Let_def split: option.splits if_splits sum.splits)
  ultimately show ?thesis
    using Sync p by (simp add: progress_def)
next
  case (Body h i)
  then show ?thesis
    using assms by (auto simp: progress_defs split: if_splits)
qed

lemma feed_loop_extend:
  "feed_loop crc (extend d bs) fs =
    (case feed_loop crc d fs of
       (Inl e, d') \<Rightarrow> (Inl e, d')
     | (Inr gs, d') \<Rightarrow> feed_loop crc (extend d' bs) gs)"
proof (induction crc d fs rule: feed_loop.induct)
  case (1 crc d fs)
  obtain r d' fs' where p: "progress crc d fs = (r, d', fs')"
    by (cases "progress crc d fs") auto
  consider (err) e where "r = Inl e" | (go) "r = Inr True" | (wait) "r = Inr False"
    by (cases r) auto
  then show ?case
  proof cases
    case err
    then show ?thesis
      using p progress_extend_Inl [of crc d fs e d' fs' bs]
      by (simp add: feed_loop.simps [of crc d] feed_loop.simps [of crc "extend d bs"])
  next
    case go
    then show ?thesis
      using p progress_extend_True [of crc d fs d' fs' bs] "1.IH" [OF p [symmetric]]
      by (simp add: feed_loop.simps [of crc d] feed_loop.simps [of crc "extend d bs"])
  next
    case wait
    then show ?thesis
      using p progress_extend_False [of crc d fs d' fs' bs]
      by (simp add: feed_loop.simps [of crc d] feed_loop.simps [of crc "extend d bs"]
          feed_loop.simps [of crc "extend d' bs"])
  qed
qed

lemma progress_acc:
  "progress crc d fs = (case progress crc d [] of (r, d', gs) \<Rightarrow> (r, d', fs @ gs))"
  by (auto simp: progress_defs split: decoder_state.splits option.splits sum.splits)

lemma feed_loop_acc:
  "feed_loop crc d (fs @ hs) = apfst (map_sum id (append fs)) (feed_loop crc d hs)"
proof (induction crc d hs rule: feed_loop.induct)
  case (1 crc d hs)
  obtain r d' gs where p: "progress crc d [] = (r, d', gs)"
    by (cases "progress crc d []") auto
  then have p': "progress crc d xs = (r, d', xs @ gs)" for xs
    by (subst progress_acc) simp
  show ?case
  proof (cases "r = Inr True")
    case True
    then show ?thesis
      using "1.IH" [OF p' [of hs, symmetric] True refl]
      by (simp add: feed_loop.simps [of crc d] p')
  next
    case False
    then show ?thesis
      by (auto simp: feed_loop.simps [of crc d] p' split: sum.splits)
  qed
qed

text \<open>
  What makes an incremental decoder usable on a byte stream: consuming a chunk is the same as
  consuming its two parts one after the other, an error ending the run.
\<close>

locale incremental_decoder =
  fixes consume :: "'d \<Rightarrow> 'b list \<Rightarrow> ('e + 'f list) \<times> 'd"
  assumes consume_append:
    "consume d (xs @ ys) =
      (case consume d xs of
         (Inl e, d') \<Rightarrow> (Inl e, d')
       | (Inr fs, d') \<Rightarrow> apfst (map_sum id (append fs)) (consume d' ys))"
begin

primrec consume_all :: "'d \<Rightarrow> 'b list list \<Rightarrow> ('e + 'f list) \<times> 'd" where
  "consume_all d [] = (Inr [], d)"
| "consume_all d (c # cs) =
    (case consume d c of
       (Inl e, d') \<Rightarrow> (Inl e, d')
     | (Inr fs, d') \<Rightarrow> apfst (map_sum id (append fs)) (consume_all d' cs))"

lemma consume_all_concat: "cs \<noteq> [] \<Longrightarrow> consume_all d cs = consume d (concat cs)"
proof (induction cs arbitrary: d)
  case Nil
  then show ?case by simp
next
  case (Cons c cs)
  show ?case
  proof (cases "cs = []")
    case True
    then show ?thesis
      by (auto split: prod.splits sum.splits)
  next
    case False
    then show ?thesis
      using Cons.IH by (simp add: consume_append cong: prod.case_cong sum.case_cong)
  qed
qed

lemma consume_all_segmentation:
  "cs \<noteq> [] \<Longrightarrow> cs' \<noteq> [] \<Longrightarrow> concat cs = concat cs' \<Longrightarrow> consume_all d cs = consume_all d cs'"
  by (simp add: consume_all_concat)

end

lemma feed_append:
  "feed crc d (xs @ ys) =
    (case feed crc d xs of
       (Inl e, d') \<Rightarrow> (Inl e, d')
     | (Inr fs, d') \<Rightarrow> apfst (map_sum id (append fs)) (feed crc d' ys))"
proof (cases "feed_loop crc (extend d xs) []")
  case (Pair r d')
  show ?thesis
  proof (cases r)
    case (Inl e)
    then show ?thesis
      using feed_loop_extend [of crc "extend d xs" ys "[]"] Pair by (simp add: feed_def)
  next
    case (Inr gs)
    then show ?thesis
      using feed_loop_extend [of crc "extend d xs" ys "[]"] Pair
        feed_loop_acc [of crc "extend d' ys" gs "[]"]
      by (simp add: feed_def)
  qed
qed

interpretation frames: incremental_decoder "feed crc" for crc
  by unfold_locales (rule feed_append)

section \<open>Encode / decode round trip\<close>

lemma length_write_header [simp]: "length (write_header t tx tot sq n) = HEADER_LEN"
  by (simp add: write_header_def frame_consts)

lemma u16_to_be_nth: "[u16_to_be w ! 0, u16_to_be w ! 1] = u16_to_be w"
  by (rule list_eq_nth2) simp

lemma u32_to_be_nth:
  "[u32_to_be w ! 0, u32_to_be w ! 1, u32_to_be w ! 2, u32_to_be w ! 3] = u32_to_be w"
  by (rule list_eq_nth4) simp

lemma check_write_header:
  assumes "canonical_type t" "n \<le> encode_max t"
  shows "check_header (write_header t tx tot sq n) =
    Inr \<lparr>h_type = t, h_txid = tx, h_total_len = tot, h_seq = sq, h_frame_len = n\<rparr>"
proof -
  let ?h = "write_header t tx tot sq n"
  have n: "n \<le> MAX_DECODE_TOTAL_CAP - FRAME_OVERHEAD"
    using assms(2) encode_max_le [of t] by simp
  then have un: "unat (of_nat n :: u32) = n"
    by (intro unat_of_nat_u32) (simp add: frame_consts)
  have f: "?h ! 4 = VERSION_MAJOR"
    "[?h ! 6, ?h ! 7] = u16_to_be (to_u16 t)"
    "slice 8 24 ?h = txid_to_bytes tx"
    "[?h ! 24, ?h ! 25, ?h ! 26, ?h ! 27] = u32_to_be tot"
    "[?h ! 28, ?h ! 29, ?h ! 30, ?h ! 31] = u32_to_be sq"
    "[?h ! 32, ?h ! 33, ?h ! 34, ?h ! 35] = u32_to_be (of_nat n)"
    using u16_to_be_nth u32_to_be_nth
    by (simp_all add: write_header_def nth_append MAGIC_def slice_def)
  show ?thesis
    using assms n unfolding check_header_def Let_def f
    by (simp add: un canonical_type_def encode_max_def frame_consts split: option.splits)
qed

text \<open>
  The frames a byte stream carries, as a grammar: skip to the first magic, a header that validates,
  the declared number of payload bytes and the checksum of both; the remainder carries no frame yet.
\<close>

definition frame_of :: "header_info \<Rightarrow> byte list \<Rightarrow> frame" where
  "frame_of i p = frame_new (h_type i) (h_txid i) (h_total_len i) (h_seq i) p"

definition wire_frame :: "crc_fn \<Rightarrow> byte list \<Rightarrow> byte list \<Rightarrow> byte list" where
  "wire_frame crc h p = h @ p @ u32_to_be (crc (h @ p))"

inductive carries :: "crc_fn \<Rightarrow> byte list \<Rightarrow> frame list \<Rightarrow> byte list \<Rightarrow> bool" for crc where
  carries_rest: "carries crc rest [] rest"
| carries_frame:
    "find_magic (g @ wire_frame crc h p @ bs) = Some (length g) \<Longrightarrow> length h = HEADER_LEN \<Longrightarrow>
     check_header h = Inr i \<Longrightarrow> length p = h_frame_len i \<Longrightarrow> carries crc bs fs rest \<Longrightarrow>
     carries crc (g @ wire_frame crc h p @ bs) (frame_of i p # fs) rest"

lemma progress_header:
  assumes "find_magic (g @ h @ bs) = Some (length g)" "length h = HEADER_LEN" "check_header h = Inr i"
  shows "progress crc \<lparr>d_buf = g @ h @ bs, d_state = Sync\<rparr> fs =
    (Inr True, \<lparr>d_buf = bs, d_state = Body h i\<rparr>, fs)"
  using assms by (simp add: progress_def progress_sync_def Let_def)

lemma progress_payload:
  assumes "length p = h_frame_len i"
  shows "progress crc \<lparr>d_buf = p @ u32_to_be (crc (h @ p)) @ bs, d_state = Body h i\<rparr> fs =
    (Inr True, \<lparr>d_buf = bs, d_state = Sync\<rparr>, fs @ [frame_of i p])"
  using assms u32_to_be_nth [of "crc (h @ p)"]
  by (simp add: progress_def progress_body_def Let_def nth_append CRC_LEN_def frame_of_def
      frame_new_def flip: assms)

lemma feed_loop_carries:
  "carries crc bs fs rest \<Longrightarrow>
   feed_loop crc \<lparr>d_buf = bs, d_state = Sync\<rparr> gs = feed_loop crc \<lparr>d_buf = rest, d_state = Sync\<rparr> (gs @ fs)"
proof (induction arbitrary: gs rule: carries.induct)
  case (carries_rest rest)
  then show ?case by simp
next
  case (carries_frame g h p bs i fs rest)
  have "progress crc \<lparr>d_buf = g @ wire_frame crc h p @ bs, d_state = Sync\<rparr> gs =
    (Inr True, \<lparr>d_buf = p @ u32_to_be (crc (h @ p)) @ bs, d_state = Body h i\<rparr>, gs)"
    using carries_frame.hyps progress_header [of g h "p @ u32_to_be (crc (h @ p)) @ bs" i crc gs]
    by (simp add: wire_frame_def)
  then have "feed_loop crc \<lparr>d_buf = g @ wire_frame crc h p @ bs, d_state = Sync\<rparr> gs =
    feed_loop crc \<lparr>d_buf = bs, d_state = Sync\<rparr> (gs @ [frame_of i p])"
    using carries_frame.hyps(4) by (simp add: feed_loop.simps [where frames = gs] progress_payload)
  then show ?case
    using carries_frame.IH by simp
qed

lemma carries_append: "carries crc bs fs rest \<Longrightarrow> carries crc rest gs rest' \<Longrightarrow> carries crc bs (fs @ gs) rest'"
  by (induction rule: carries.induct) (auto intro: carries.intros)

lemma carries_encoded:
  assumes "frame_encode crc f = Inr bs" "canonical_type (f_type f)"
    and "find_magic (g @ bs @ rest) = Some (length g)"
  shows "carries crc (g @ bs @ rest) [f] rest"
proof -
  let ?p = "f_payload f"
  let ?h = "write_header (f_type f) (f_txid f) (f_total_len f) (f_seq f) (length ?p)"
  let ?i = "\<lparr>h_type = f_type f, h_txid = f_txid f, h_total_len = f_total_len f,
              h_seq = f_seq f, h_frame_len = length ?p\<rparr>"
  have len: "length ?p \<le> encode_max (f_type f)" and bs: "bs = wire_frame crc ?h ?p"
    using assms(1) by (auto simp: frame_encode_def Let_def crc32_def wire_frame_def split: if_splits)
  moreover have "frame_of ?i ?p = f"
    by (simp add: frame_of_def frame_new_def)
  ultimately show ?thesis
    using carries_frame [of g crc ?h ?p rest ?i "[]" rest] assms(3)
      check_write_header [OF assms(2) len]
    by (simp add: carries_rest)
qed

lemma find_magic_encoded: "frame_encode crc f = Inr bs \<Longrightarrow> find_magic (bs @ rest) = Some 0"
  by (auto simp: frame_encode_def Let_def write_header_def find_magic_prefix split: if_splits)

text \<open>Frames as an encoder writes them: each one encodes, and its type code is its own.\<close>

definition encodes_to :: "crc_fn \<Rightarrow> frame \<Rightarrow> byte list \<Rightarrow> bool" where
  "encodes_to crc f bs \<longleftrightarrow> frame_encode crc f = Inr bs \<and> canonical_type (f_type f)"

lemma carries_encoded_list:
  "list_all2 (encodes_to crc) fs bss \<Longrightarrow> carries crc (concat bss @ rest) fs rest"
proof (induction rule: list_all2_induct)
  case Nil
  then show ?case by (simp add: carries_rest)
next
  case (Cons f fs bs bss)
  have "carries crc ([] @ bs @ concat bss @ rest) [f] (concat bss @ rest)"
    using Cons.hyps by (intro carries_encoded) (auto simp: encodes_to_def find_magic_encoded)
  then show ?case
    using carries_append [OF _ Cons.IH, of _ "[f]"] by simp
qed

section \<open>Decoder invariant\<close>

definition decoder_inv :: "frame_decoder \<Rightarrow> bool" where
  "decoder_inv d \<longleftrightarrow>
    (case d_state d of
       Sync \<Rightarrow> True
     | Body h i \<Rightarrow> length h = HEADER_LEN \<and> take 4 h = MAGIC \<and> check_header h = Inr i)"

lemma check_header_bound: "check_header h = Inr i \<Longrightarrow> FRAME_OVERHEAD + h_frame_len i \<le> MAX_DECODE_TOTAL_CAP"
  by (auto simp: check_header_def Let_def frame_consts
      elim: max_frame_len.elims split: if_splits option.splits)

lemma progress_inv: "progress crc d fs = (r, d', fs') \<Longrightarrow> decoder_inv d \<Longrightarrow> decoder_inv d'"
  by (auto simp: progress_defs decoder_inv_def HEADER_LEN_def min_def dest!: find_magic_Some
      split: decoder_state.splits option.splits if_splits sum.splits)

lemma progress_error_drains: "progress crc d fs = (Inl e, d', fs') \<Longrightarrow> d' = decoder_new"
  by (auto simp: progress_defs decoder_new_def
      split: decoder_state.splits option.splits if_splits sum.splits)

lemma progress_waits_bound:
  "progress crc d fs = (Inr False, d', fs') \<Longrightarrow> decoder_inv d \<Longrightarrow>
   length (d_buf d') < MAX_DECODE_TOTAL_CAP - HEADER_LEN"
  using check_header_bound
  by (fastforce simp: progress_defs decoder_inv_def frame_consts
      split: decoder_state.splits option.splits if_splits sum.splits)

lemma feed_loop_inv:
  "feed_loop crc d fs = (r, d') \<Longrightarrow> decoder_inv d \<Longrightarrow>
   decoder_inv d' \<and> length (d_buf d') < MAX_DECODE_TOTAL_CAP - HEADER_LEN \<and>
   (\<forall>e. r = Inl e \<longrightarrow> d' = decoder_new)"
proof (induction crc d fs rule: feed_loop.induct)
  case (1 crc d fs)
  obtain q d1 fs1 where p: "progress crc d fs = (q, d1, fs1)"
    by (cases "progress crc d fs") auto
  have inv: "decoder_inv d1"
    using progress_inv p "1.prems"(2) by blast
  show ?case
  proof (cases "q = Inr True")
    case True
    then show ?thesis
      using "1.IH" [OF p [symmetric] True refl] "1.prems"(1) p inv
      by (simp add: feed_loop.simps [of crc d])
  next
    case False
    then have d1: "d1 = d'" "\<And>e. r = Inl e \<Longrightarrow> q = Inl e" "\<And>x. r = Inr x \<Longrightarrow> q = Inr False"
      using "1.prems"(1) p by (auto simp: feed_loop.simps [of crc d] split: sum.splits)
    have "length (d_buf d') < MAX_DECODE_TOTAL_CAP - HEADER_LEN"
      using p d1 progress_error_drains [of crc d fs] progress_waits_bound [of crc d fs] "1.prems"(2)
      by (cases r) (auto simp: decoder_new_def frame_consts)
    then show ?thesis
      using p d1 inv progress_error_drains [of crc d fs] by auto
  qed
qed

section \<open>The decoder emits exactly the frames the stream carries\<close>

definition stream_view :: "frame_decoder \<Rightarrow> byte list" where
  "stream_view d = (case d_state d of Sync \<Rightarrow> d_buf d | Body h i \<Rightarrow> h @ d_buf d)"

lemma carries_skip:
  assumes "carries crc xs fs rest" "find_magic xs = Some 0" "find_magic (g @ xs) = Some (length g)"
  shows "\<exists>rest'. carries crc (g @ xs) fs rest'"
  using assms
proof (cases rule: carries.cases)
  case carries_rest
  then show ?thesis
    using carries.carries_rest by auto
next
  case (carries_frame g' h p bs i fs')
  then have "g' = []"
    using assms(2) by simp
  then have "carries crc (g @ wire_frame crc h p @ bs) (frame_of i p # fs') rest"
    using carries_frame assms(3) by (intro carries.carries_frame) simp_all
  then show ?thesis
    using carries_frame \<open>g' = []\<close> by auto
qed

lemma progress_True_cases:
  assumes "progress crc d fs = (Inr True, d', fs')" "decoder_inv d"
  obtains (header) g where "stream_view d = g @ stream_view d'" "fs' = fs"
      "find_magic (g @ stream_view d') = Some (length g)" "find_magic (stream_view d') = Some 0"
  | (payload) h i p where "stream_view d = wire_frame crc h p @ stream_view d'"
      "fs' = fs @ [frame_of i p]" "length h = HEADER_LEN" "check_header h = Inr i"
      "length p = h_frame_len i" "find_magic (stream_view d) = Some 0"
proof (cases "d_state d")
  case Sync
  then obtain q i where q: "find_magic (d_buf d) = Some q" "fs' = fs"
      "d' = \<lparr>d_buf = drop HEADER_LEN (drop q (d_buf d)), d_state = Body (take HEADER_LEN (drop q (d_buf d))) i\<rparr>"
    using assms(1) by (auto simp: progress_def progress_sync_def Let_def
        split: option.splits if_splits sum.splits)
  then have v: "stream_view d' = drop q (d_buf d)"
    by (simp add: stream_view_def del: drop_drop)
  have m: "q + 4 \<le> length (d_buf d)" "take 4 (drop q (d_buf d)) = MAGIC"
    using find_magic_Some [OF q(1)] by auto
  have "find_magic (drop q (d_buf d)) = Some 0"
    by (metis append_take_drop_id find_magic_prefix m(2))
  then show ?thesis
    using Sync q m v by (intro header [of "take q (d_buf d)"]) (auto simp: stream_view_def)
next
  case (Body h i)
  define n where "n = h_frame_len i"
  define b where "b = d_buf d"
  have p: "d' = \<lparr>d_buf = drop (n + 4) b, d_state = Sync\<rparr>" "fs' = fs @ [frame_of i (take n b)]"
    "n + 4 \<le> length b" "crc (h @ take n b) = u32_of_be [b ! n, b ! (n + 1), b ! (n + 2), b ! (n + 3)]"
    using assms(1) Body by (auto simp: progress_def progress_body_def Let_def n_def b_def frame_of_def
        frame_new_def CRC_LEN_def split: if_splits)
  have h: "length h = HEADER_LEN" "take 4 h = MAGIC" "check_header h = Inr i"
    using assms(2) Body by (auto simp: decoder_inv_def)
  have t: "[b ! n, b ! (n + 1), b ! (n + 2), b ! (n + 3)] = take 4 (drop n b)"
    using p(3) by (intro nth_equalityI) (auto simp: less_Suc_eq numeral_eq_Suc)
  then have "u32_to_be (crc (h @ take n b)) = take 4 (drop n b)"
    using p(3) unfolding p(4) by (subst u32_of_be_inverse) auto
  then have "b = take n b @ u32_to_be (crc (h @ take n b)) @ drop (n + 4) b"
    by (metis append_take_drop_id drop_drop add.commute)
  then have "stream_view d = wire_frame crc h (take n b) @ stream_view d'"
    using Body p(1) by (simp add: stream_view_def wire_frame_def b_def)
  moreover have "find_magic (h @ b) = Some 0"
    by (metis append.assoc append_take_drop_id find_magic_prefix h(2))
  ultimately show ?thesis
    using p h Body by (intro payload [of h "take n b" i]) (auto simp: stream_view_def n_def b_def)
qed

lemma feed_loop_sound:
  "feed_loop crc d fs = (Inr gs, d') \<Longrightarrow> decoder_inv d \<Longrightarrow>
   \<exists>hs rest. gs = fs @ hs \<and> carries crc (stream_view d) hs rest"
proof (induction crc d fs rule: feed_loop.induct)
  case (1 crc d fs)
  obtain q d1 fs1 where p: "progress crc d fs = (q, d1, fs1)"
    by (cases "progress crc d fs") auto
  show ?case
  proof (cases "q = Inr True")
    case False
    then have "gs = fs"
      using "1.prems"(1) p progress_extend_False [of crc d fs d1 fs1]
      by (auto simp: feed_loop.simps [of crc d] split: sum.splits)
    then show ?thesis
      using carries_rest [of crc "stream_view d"] by auto
  next
    case True
    then obtain hs rest where IH: "gs = fs1 @ hs" "carries crc (stream_view d1) hs rest"
      using "1.IH" [OF p [symmetric] True refl] "1.prems" p progress_inv [of crc d fs]
      by (auto simp: feed_loop.simps [of crc d])
    from p [unfolded True] "1.prems"(2) show ?thesis
    proof (cases rule: progress_True_cases)
      case (header g)
      then show ?thesis
        using IH carries_skip [of crc "stream_view d1" hs rest g] by auto
    next
      case (payload h i p)
      then have "carries crc ([] @ wire_frame crc h p @ stream_view d1) (frame_of i p # hs) rest"
        using IH(2) by (intro carries_frame) simp_all
      then show ?thesis
        using IH payload by auto
    qed
  qed
qed

section \<open>Properties of the frame codec\<close>

text \<open>Repeated calls of \<open>feed\<close>, one per chunk, up to the first error.\<close>

primrec feed_chunks ::
  "crc_fn \<Rightarrow> frame_decoder \<Rightarrow> byte list list \<Rightarrow> (frame_error + frame list) \<times> frame_decoder" where
  "feed_chunks crc d [] = (Inr [], d)"
| "feed_chunks crc d (c # cs) =
    (case feed crc d c of
       (Inl e, d') \<Rightarrow> (Inl e, d')
     | (Inr fs, d') \<Rightarrow> apfst (map_sum id (append fs)) (feed_chunks crc d' cs))"

lemma feed_chunks_all: "feed_chunks crc d cs = frames.consume_all crc d cs"
  by (induction cs arbitrary: d) (simp_all cong: prod.case_cong sum.case_cong)

lemma feed_chunks_concat: "cs \<noteq> [] \<Longrightarrow> feed_chunks crc d cs = feed crc d (concat cs)"
  by (simp add: feed_chunks_all frames.consume_all_concat)

lemma feed_new: "feed crc decoder_new bs = feed_loop crc \<lparr>d_buf = bs, d_state = Sync\<rparr> []"
  by (simp add: feed_def decoder_new_def)

lemma feed_loop_empty: "feed_loop crc \<lparr>d_buf = [], d_state = Sync\<rparr> fs = (Inr fs, decoder_new)"
  by (simp add: feed_loop.simps progress_def progress_sync_def Let_def decoder_new_def)

lemma feed_chunks_new:
  "feed_chunks crc decoder_new cs = feed_loop crc \<lparr>d_buf = concat cs, d_state = Sync\<rparr> []"
  by (cases "cs = []") (simp_all add: feed_chunks_concat feed_new feed_loop_empty)

lemma decoder_inv_new [simp]: "decoder_inv \<lparr>d_buf = bs, d_state = Sync\<rparr>"
  by (simp add: decoder_inv_def)

text \<open>
  C17. Frame round trip over any segmentation. Encode a list of frames whose payloads respect the
  per-type limits, concatenate the bytes, cut them anywhere into chunks: the decoder returns exactly
  those frames, in order, and is back in its initial state. The CRC function is arbitrary.
\<close>

theorem frame_stream_roundtrip:
  assumes "list_all2 (encodes_to crc) fs bss" "concat cs = concat bss"
  shows "feed_chunks crc decoder_new cs = (Inr fs, decoder_new)"
  using feed_loop_carries [OF carries_encoded_list [OF assms(1), of "[]"], of "[]"] assms(2)
  by (simp add: feed_chunks_new feed_loop_empty)

text \<open>Two frames and a stand-in checksum, to evaluate the codec on.\<close>

definition sample_crc :: crc_fn where
  "sample_crc bs = of_nat (length bs)"

definition sample_ack :: frame where
  "sample_ack = frame_new Ack 7 0 0 [1]"

definition sample_data :: frame where
  "sample_data = frame_new DataBinary 9 3 0 [88, 65, 67]"

lemmas sample_defs = sample_crc_def sample_ack_def sample_data_def

definition sample_bytes :: "frame \<Rightarrow> byte list" where
  "sample_bytes f = projr (frame_encode sample_crc f)"

lemma sample_encodes:
  "encodes_to sample_crc sample_ack (sample_bytes sample_ack)"
  "encodes_to sample_crc sample_data (sample_bytes sample_data)"
  by (simp_all add: encodes_to_def sample_bytes_def frame_encode_def sample_defs frame_new_def Let_def
      encode_max_def frame_consts canonical_type_def from_u16_def)

theorem frame_stream_roundtrip_witness:
  "feed_chunks sample_crc decoder_new
     [take 30 (sample_bytes sample_ack), drop 30 (sample_bytes sample_ack) @ take 5 (sample_bytes sample_data),
      drop 5 (sample_bytes sample_data)] = (Inr [sample_ack, sample_data], decoder_new)"
  by (rule frame_stream_roundtrip
      [where bss = "[sample_bytes sample_ack, sample_bytes sample_data]"])
    (simp_all add: sample_encodes flip: append.assoc)

text \<open>
  C18. The decoder is exact. When a chunked stream decodes without error, the emitted frames are
  carried by the stream in the declared format (magic found by the scan, validated header, declared
  payload length, matching checksum), and no carried frame is left out: every sequence of frames the
  stream carries is a prefix of what was emitted.
\<close>

theorem decoder_emits_carried_frames:
  assumes "feed_chunks crc decoder_new cs = (Inr fs, d)"
  shows "(\<exists>rest. carries crc (concat cs) fs rest) \<and>
    (\<forall>gs rest. carries crc (concat cs) gs rest \<longrightarrow> (\<exists>hs. fs = gs @ hs))"
proof -
  have f: "feed_loop crc \<lparr>d_buf = concat cs, d_state = Sync\<rparr> [] = (Inr fs, d)"
    using assms by (simp add: feed_chunks_new)
  have "\<exists>rest. carries crc (concat cs) fs rest"
    using feed_loop_sound [OF f] by (simp add: stream_view_def)
  moreover have "\<exists>hs. fs = gs @ hs" if "carries crc (concat cs) gs rest" for gs rest
    using feed_loop_carries [OF that, of "[]"] f
      feed_loop_sound [of crc "\<lparr>d_buf = rest, d_state = Sync\<rparr>" gs fs d] by auto
  ultimately show ?thesis by blast
qed

theorem decoder_emits_carried_frames_witness:
  "feed_chunks sample_crc decoder_new [sample_bytes sample_ack] = (Inr [sample_ack], decoder_new) \<and>
   (\<exists>rest. carries sample_crc (sample_bytes sample_ack) [sample_ack] rest)"
proof -
  have "feed_chunks sample_crc decoder_new [sample_bytes sample_ack] = (Inr [sample_ack], decoder_new)"
    using feed_loop_carries [OF carries_encoded_list
        [of sample_crc "[sample_ack]" "[sample_bytes sample_ack]" "[]"], of "[]"]
    by (simp add: feed_chunks_new feed_loop_empty sample_encodes del: feed_chunks.simps)
  with decoder_emits_carried_frames [OF this] show ?thesis by simp
qed

text \<open>
  Resynchronisation. Bytes before a frame in which the magic does not start (not even partly
  overlapping the frame's own magic) are discarded and the frame is decoded as if they were absent.
\<close>

theorem decoder_skips_garbage:
  assumes "encodes_to crc f bs" "find_magic (g @ take 3 MAGIC) = None" "concat cs = g @ bs"
  shows "feed_chunks crc decoder_new cs = (Inr [f], decoder_new)"
proof -
  obtain ys where bs: "bs = take 3 MAGIC @ ys"
    using assms(1) by (auto simp: encodes_to_def frame_encode_def Let_def write_header_def MAGIC_def
        split: if_splits)
  have "find_magic ((g @ take 3 MAGIC) @ ys) =
      map_option ((+) (length g)) (find_magic (take 3 MAGIC @ ys))"
    using find_magic_None_drop [OF assms(2), of "length g" ys] by simp
  moreover have "find_magic bs = Some 0"
    using assms(1) find_magic_encoded [of crc f bs "[]"] by (simp add: encodes_to_def)
  ultimately have "find_magic (g @ bs @ []) = Some (length g)"
    by (simp add: bs)
  then have "carries crc (g @ bs @ []) [f] []"
    using assms(1) by (intro carries_encoded) (auto simp: encodes_to_def)
  then show ?thesis
    using feed_loop_carries [of crc "g @ bs" "[f]" "[]" "[]"] assms(3)
    by (simp add: feed_chunks_new feed_loop_empty)
qed

theorem decoder_skips_garbage_witness:
  "feed_chunks sample_crc decoder_new [[88, 65, 88], sample_bytes sample_data] =
    (Inr [sample_data], decoder_new)"
  by (rule decoder_skips_garbage [where g = "[88, 65, 88]"])
    (simp_all add: sample_encodes MAGIC_def)

text \<open>
  C19. Memory bound and fatal errors. Whatever bytes a peer sends, between two reads the decoder
  retains less than the decode cap (64 MiB less a header), and after a fatal error it has dropped
  everything it had buffered.
\<close>

theorem decoder_buffer_bounded:
  assumes "feed_chunks crc decoder_new cs = (r, d)"
  shows "length (d_buf d) < MAX_DECODE_TOTAL_CAP - HEADER_LEN \<and> (\<forall>e. r = Inl e \<longrightarrow> d = decoder_new)"
  using feed_loop_inv [of crc "\<lparr>d_buf = concat cs, d_state = Sync\<rparr>" "[]" r d] assms
  by (simp add: feed_chunks_new)

theorem decoder_buffer_bounded_witness:
  "feed_chunks sample_crc decoder_new [MAGIC, replicate 32 0] =
    (Inl (VersionMismatch 0 1), decoder_new)"
proof -
  let ?r = "feed_chunks sample_crc decoder_new [MAGIC, replicate 32 0]"
  have "fst ?r = Inl (VersionMismatch 0 1)"
    by (simp add: feed_chunks_new feed_loop.simps progress_def progress_sync_def find_magic_prefix
        check_header_def frame_consts nth_append MAGIC_def del: feed_chunks.simps)
  then show ?thesis
    using decoder_buffer_bounded [of sample_crc "[MAGIC, replicate 32 0]" "fst ?r" "snd ?r"]
    by (simp add: prod_eq_iff)
qed

text \<open>
  Type codes. Classifying a wire code and writing it back is the identity on all 65536 codes, so
  an unknown code survives; conversely the code of a type that has its own size limit classifies as
  that type.
\<close>

theorem frame_type_code_roundtrip:
  "to_u16 (from_u16 v) = v \<and> (max_frame_len t \<noteq> None \<longrightarrow> from_u16 (to_u16 t) = t)"
  using from_to_u16_known by simp

theorem frame_type_code_roundtrip_witness:
  "to_u16 (from_u16 0x2222) = 0x2222 \<and> from_u16 (to_u16 TransactionCompleted) = TransactionCompleted"
  using frame_type_code_roundtrip [of "0x2222" TransactionCompleted] by simp

end
