(* ===== verification/Wire_Control.thy ===== *)
theory Wire_Control
  imports Wire_Frame
begin

text \<open>
  Control frame payloads, \<open>src/src/wire/control.rs\<close>: one record per payload, its encoder and its
  strict decoder. The contract every pair satisfies is the locale \<open>byte_codec\<close>, interpreted below on
  each of the nine payload types.
\<close>

section \<open>Payload types\<close>

definition CONTROL_PAYLOAD_CAP :: nat where
  "CONTROL_PAYLOAD_CAP = MAX_CONTROL_FRAME_LEN"

definition PROTOCOL_VERSION_UNSUPPORTED :: u16 where
  "PROTOCOL_VERSION_UNSUPPORTED = 0x0001"

definition TRANSACTION_EXPIRED :: u16 where
  "TRANSACTION_EXPIRED = 0x0002"

definition BACKPRESSURE_STALL :: u16 where
  "BACKPRESSURE_STALL = 0x0003"

record ack_entry =
  ae_txid :: txid
  ae_highest_contiguous_seq :: u32
  ae_received_frames :: u32

definition ACK_ENTRY_LEN :: nat where
  "ACK_ENTRY_LEN = 24"

definition RESUME_STATUS_ENTRY_LEN :: nat where
  "RESUME_STATUS_ENTRY_LEN = 17"

record ack_payload =
  ack_entries :: "ack_entry list"

record nack_entry =
  ne_txid :: txid
  ne_missing_seqs :: "u32 list"

record nack_payload =
  nack_entries :: "nack_entry list"

record resume_request_payload =
  rr_entries :: "ack_entry list"

datatype resume_status = Resumed | Rejected | UnknownTx

record resume_status_entry =
  rs_txid :: txid
  rs_status :: resume_status

record resume_response_payload =
  rp_entries :: "resume_status_entry list"

record pause_payload =
  pp_txid :: txid

record abort_payload =
  ap_txid :: txid

record completed_payload =
  cp_txid :: txid

record heartbeat_payload =
  hb_monotonic_seq :: u32
  hb_sender_epoch_ms :: "64 word"

record error_payload =
  ep_code :: u16
  ep_message :: "byte list"

datatype control_error =
    CountOutOfRange nat nat nat
  | LengthMismatch nat nat
  | MissingSeqOverflow nat nat
  | PayloadTooLarge nat nat
  | UnknownResumeStatus u8
  | InvalidUtf8
  | HeartbeatLength nat

section \<open>Encoders and decoders\<close>

fun status_to_u8 :: "resume_status \<Rightarrow> u8" where
  "status_to_u8 Resumed = 0x01"
| "status_to_u8 Rejected = 0x02"
| "status_to_u8 UnknownTx = 0x03"

definition status_from_u8 :: "u8 \<Rightarrow> control_error + resume_status" where
  "status_from_u8 v =
    (if v = 0x01 then Inr Resumed
     else if v = 0x02 then Inr Rejected
     else if v = 0x03 then Inr UnknownTx
     else Inl (UnknownResumeStatus v))"

text \<open>Post-encode bound check, \<open>finish\<close>.\<close>

definition finish_payload :: "byte list \<Rightarrow> control_error + byte list" where
  "finish_payload out =
    (if length out > CONTROL_PAYLOAD_CAP then Inl (PayloadTooLarge (length out) CONTROL_PAYLOAD_CAP)
     else Inr out)"

definition fixed_field :: "nat \<Rightarrow> byte list \<Rightarrow> control_error + byte list" where
  "fixed_field n bytes =
    (if length bytes \<noteq> n then Inl (LengthMismatch n (length bytes)) else Inr bytes)"

definition check_count :: "nat \<Rightarrow> nat \<Rightarrow> nat \<Rightarrow> control_error + unit" where
  "check_count count mn mx =
    (if count < mn \<or> count > mx then Inl (CountOutOfRange count mn mx) else Inr ())"

definition txid_payload_decode :: "byte list \<Rightarrow> control_error + txid" where
  "txid_payload_decode bytes =
    (if length bytes \<noteq> 16 then Inl (LengthMismatch 16 (length bytes))
     else and_then (fixed_field 16 bytes) (\<lambda>b. Inr (txid_of_bytes b)))"

definition pause_encode :: "pause_payload \<Rightarrow> control_error + byte list" where
  "pause_encode p = finish_payload (txid_to_bytes (pp_txid p))"

definition pause_decode :: "byte list \<Rightarrow> control_error + pause_payload" where
  "pause_decode bytes = and_then (txid_payload_decode bytes) (\<lambda>t. Inr \<lparr>pp_txid = t\<rparr>)"

definition abort_encode :: "abort_payload \<Rightarrow> control_error + byte list" where
  "abort_encode p = finish_payload (txid_to_bytes (ap_txid p))"

definition abort_decode :: "byte list \<Rightarrow> control_error + abort_payload" where
  "abort_decode bytes = and_then (txid_payload_decode bytes) (\<lambda>t. Inr \<lparr>ap_txid = t\<rparr>)"

definition completed_encode :: "completed_payload \<Rightarrow> control_error + byte list" where
  "completed_encode p = finish_payload (txid_to_bytes (cp_txid p))"

definition completed_decode :: "byte list \<Rightarrow> control_error + completed_payload" where
  "completed_decode bytes = and_then (txid_payload_decode bytes) (\<lambda>t. Inr \<lparr>cp_txid = t\<rparr>)"

definition write_ack_entry :: "ack_entry \<Rightarrow> byte list" where
  "write_ack_entry e =
    txid_to_bytes (ae_txid e) @ u32_to_be (ae_highest_contiguous_seq e) @ u32_to_be (ae_received_frames e)"

definition write_ack_entries :: "ack_entry list \<Rightarrow> byte list" where
  "write_ack_entries es = concat (map write_ack_entry es)"

definition read_ack_entry :: "byte list \<Rightarrow> control_error + ack_entry" where
  "read_ack_entry chunk =
    and_then (fixed_field 16 (slice 0 16 chunk)) (\<lambda>t.
    and_then (fixed_field 4 (slice 16 20 chunk)) (\<lambda>h.
    and_then (fixed_field 4 (slice 20 24 chunk)) (\<lambda>r.
      Inr \<lparr>ae_txid = txid_of_bytes t, ae_highest_contiguous_seq = u32_of_be h,
            ae_received_frames = u32_of_be r\<rparr>)))"

definition read_ack_entries :: "byte list \<Rightarrow> nat \<Rightarrow> control_error + ack_entry list" where
  "read_ack_entries bytes count = collect read_ack_entry (take count (chunks_exact ACK_ENTRY_LEN bytes))"

definition entries_encode :: "nat \<Rightarrow> ack_entry list \<Rightarrow> control_error + byte list" where
  "entries_encode mn es =
    and_then (check_count (length es) mn 255) (\<lambda>_.
      finish_payload (of_nat (length es) # write_ack_entries es))"

definition entries_decode :: "nat \<Rightarrow> byte list \<Rightarrow> control_error + ack_entry list" where
  "entries_decode mn bytes =
    (case bytes of
       [] \<Rightarrow> Inl (LengthMismatch 1 0)
     | count_byte # rest \<Rightarrow>
         let count = unat count_byte in
         and_then (check_count count mn 255) (\<lambda>_.
           let expected = count * ACK_ENTRY_LEN in
           if length rest \<noteq> expected then Inl (LengthMismatch expected (length rest))
           else read_ack_entries rest count))"

definition ack_encode :: "ack_payload \<Rightarrow> control_error + byte list" where
  "ack_encode p = entries_encode 1 (ack_entries p)"

definition ack_decode :: "byte list \<Rightarrow> control_error + ack_payload" where
  "ack_decode bytes = and_then (entries_decode 1 bytes) (\<lambda>es. Inr \<lparr>ack_entries = es\<rparr>)"

definition resume_request_encode :: "resume_request_payload \<Rightarrow> control_error + byte list" where
  "resume_request_encode p = entries_encode 0 (rr_entries p)"

definition resume_request_decode :: "byte list \<Rightarrow> control_error + resume_request_payload" where
  "resume_request_decode bytes = and_then (entries_decode 0 bytes) (\<lambda>es. Inr \<lparr>rr_entries = es\<rparr>)"

primrec write_nack_entries :: "nack_entry list \<Rightarrow> control_error + byte list" where
  "write_nack_entries [] = Inr []"
| "write_nack_entries (e # es) =
    (let len = length (ne_missing_seqs e) in
     if len > 65535 then Inl (MissingSeqOverflow len 65535)
     else and_then (write_nack_entries es) (\<lambda>out.
       Inr (txid_to_bytes (ne_txid e) @ u16_to_be (of_nat len)
              @ concat (map u32_to_be (ne_missing_seqs e)) @ out)))"

definition nack_encode :: "nack_payload \<Rightarrow> control_error + byte list" where
  "nack_encode p =
    and_then (check_count (length (nack_entries p)) 1 255) (\<lambda>_.
    and_then (write_nack_entries (nack_entries p)) (\<lambda>out.
      finish_payload (of_nat (length (nack_entries p)) # out)))"

definition read_nack_entry :: "byte list \<Rightarrow> control_error + (nack_entry \<times> byte list)" where
  "read_nack_entry rest =
    (if length rest < 18 then Inl (LengthMismatch 18 (length rest))
     else
       and_then (fixed_field 16 (slice 0 16 rest)) (\<lambda>t.
         let missing_count = unat (u16_of_be [rest ! 16, rest ! 17]);
             rest1 = drop 18 rest;
             expected = missing_count * 4
         in if length rest1 < expected then Inl (LengthMismatch expected (length rest1))
            else and_then (collect (\<lambda>c. and_then (fixed_field 4 c) (\<lambda>b. Inr (u32_of_be b)))
                     (chunks_exact 4 (take expected rest1))) (\<lambda>missing.
              Inr (\<lparr>ne_txid = txid_of_bytes t, ne_missing_seqs = missing\<rparr>, drop expected rest1))))"

primrec read_nack_entries :: "nat \<Rightarrow> byte list \<Rightarrow> control_error + (nack_entry list \<times> byte list)" where
  "read_nack_entries 0 rest = Inr ([], rest)"
| "read_nack_entries (Suc n) rest =
    and_then (read_nack_entry rest) (\<lambda>(e, rest1).
    and_then (read_nack_entries n rest1) (\<lambda>(es, rest2). Inr (e # es, rest2)))"

definition nack_decode :: "byte list \<Rightarrow> control_error + nack_payload" where
  "nack_decode bytes =
    (case bytes of
       [] \<Rightarrow> Inl (LengthMismatch 1 0)
     | count_byte # rest \<Rightarrow>
         let count = unat count_byte in
         and_then (check_count count 1 255) (\<lambda>_.
         and_then (read_nack_entries count rest) (\<lambda>(es, rest1).
           if rest1 \<noteq> [] then Inl (LengthMismatch 0 (length rest1)) else Inr \<lparr>nack_entries = es\<rparr>)))"

definition write_status_entry :: "resume_status_entry \<Rightarrow> byte list" where
  "write_status_entry e = txid_to_bytes (rs_txid e) @ [status_to_u8 (rs_status e)]"

definition resume_response_encode :: "resume_response_payload \<Rightarrow> control_error + byte list" where
  "resume_response_encode p =
    and_then (check_count (length (rp_entries p)) 0 255) (\<lambda>_.
      finish_payload (of_nat (length (rp_entries p)) # concat (map write_status_entry (rp_entries p))))"

definition read_status_entry :: "byte list \<Rightarrow> control_error + resume_status_entry" where
  "read_status_entry chunk =
    and_then (fixed_field 16 (slice 0 16 chunk)) (\<lambda>t.
    and_then (status_from_u8 (chunk ! 16)) (\<lambda>s.
      Inr \<lparr>rs_txid = txid_of_bytes t, rs_status = s\<rparr>))"

definition resume_response_decode :: "byte list \<Rightarrow> control_error + resume_response_payload" where
  "resume_response_decode bytes =
    (case bytes of
       [] \<Rightarrow> Inl (LengthMismatch 1 0)
     | count_byte # rest \<Rightarrow>
         let count = unat count_byte in
         and_then (check_count count 0 255) (\<lambda>_.
           let expected = count * RESUME_STATUS_ENTRY_LEN in
           if length rest \<noteq> expected then Inl (LengthMismatch expected (length rest))
           else and_then (collect read_status_entry (chunks_exact RESUME_STATUS_ENTRY_LEN rest))
                  (\<lambda>es. Inr \<lparr>rp_entries = es\<rparr>)))"

definition heartbeat_encode :: "heartbeat_payload \<Rightarrow> control_error + byte list" where
  "heartbeat_encode p =
    finish_payload (u32_to_be (hb_monotonic_seq p) @ u64_to_be (hb_sender_epoch_ms p))"

definition heartbeat_decode :: "byte list \<Rightarrow> control_error + heartbeat_payload" where
  "heartbeat_decode bytes =
    (if length bytes \<noteq> 12 then Inl (HeartbeatLength (length bytes))
     else
       and_then (fixed_field 4 (slice 0 4 bytes)) (\<lambda>s.
       and_then (fixed_field 8 (slice 4 12 bytes)) (\<lambda>e.
         Inr \<lparr>hb_monotonic_seq = u32_of_be s, hb_sender_epoch_ms = u64_of_be e\<rparr>)))"

definition error_encode :: "error_payload \<Rightarrow> control_error + byte list" where
  "error_encode p = finish_payload (u16_to_be (ep_code p) @ ep_message p)"

definition error_decode :: "byte list \<Rightarrow> control_error + error_payload" where
  "error_decode bytes =
    (if length bytes < 2 then Inl (LengthMismatch 2 (length bytes))
     else if \<not> utf8_valid (drop 2 bytes) then Inl InvalidUtf8
     else Inr \<lparr>ep_code = u16_of_be [bytes ! 0, bytes ! 1], ep_message = drop 2 bytes\<rparr>)"

section \<open>The codec contract\<close>

text \<open>
  What a payload codec promises: an encoded payload decodes to itself, a byte string that decodes
  (and respects the cap) is the encoding of what it decodes to, encodings respect the cap, and only
  well-formed payloads come out of a decoder.
\<close>

locale byte_codec =
  fixes enc :: "'p \<Rightarrow> 'e + byte list"
    and dec :: "byte list \<Rightarrow> 'e + 'p"
    and wf :: "'p \<Rightarrow> bool"
    and cap :: nat
  assumes dec_enc: "wf p \<Longrightarrow> enc p = Inr bs \<Longrightarrow> dec bs = Inr p"
    and enc_dec: "dec bs = Inr p \<Longrightarrow> length bs \<le> cap \<Longrightarrow> enc p = Inr bs"
    and enc_cap: "enc p = Inr bs \<Longrightarrow> length bs \<le> cap"
    and dec_wf: "dec bs = Inr p \<Longrightarrow> wf p"
begin

lemma dec_iff_enc: "length bs \<le> cap \<Longrightarrow> dec bs = Inr p \<longleftrightarrow> wf p \<and> enc p = Inr bs"
  using dec_enc enc_dec dec_wf by blast

lemma enc_inj: "wf p \<Longrightarrow> wf q \<Longrightarrow> enc p = Inr bs \<Longrightarrow> enc q = Inr bs \<Longrightarrow> p = q"
  by (metis dec_enc sum.inject(2))

lemma dec_inj:
  "dec bs = Inr p \<Longrightarrow> dec cs = Inr p \<Longrightarrow> length bs \<le> cap \<Longrightarrow> length cs \<le> cap \<Longrightarrow> bs = cs"
  by (metis enc_dec sum.inject(2))

end

section \<open>Shared facts\<close>

lemma finish_payload_Inr [simp]:
  "finish_payload out = Inr bs \<longleftrightarrow> bs = out \<and> length out \<le> CONTROL_PAYLOAD_CAP"
  by (auto simp: finish_payload_def)

lemma check_count_Inr [simp]: "check_count n mn mx = Inr u \<longleftrightarrow> mn \<le> n \<and> n \<le> mx"
  by (auto simp: check_count_def)

lemma fixed_field_Inr [simp]: "fixed_field n bs = Inr cs \<longleftrightarrow> cs = bs \<and> length bs = n"
  by (auto simp: fixed_field_def)

lemma count_byte_roundtrip: "n \<le> 255 \<Longrightarrow> unat (of_nat n :: byte) = n"
  by (simp add: unat_of_nat take_bit_nat_eq_self)

lemma status_roundtrip [simp]: "status_from_u8 (status_to_u8 s) = Inr s"
  by (cases s) (simp_all add: status_from_u8_def)

lemma status_from_u8_Inr: "status_from_u8 v = Inr s \<Longrightarrow> status_to_u8 s = v"
  by (auto simp: status_from_u8_def split: if_splits)

lemma slice_append3:
  "length a = i \<Longrightarrow> length b = j - i \<Longrightarrow> i \<le> j \<Longrightarrow> slice i j (a @ b @ c) = b"
  by (simp add: slice_def)

lemma slices_id:
  "i \<le> j \<Longrightarrow> slice i j bs @ drop j bs = drop i bs"
  by (simp add: slice_def) (metis append_take_drop_id drop_drop le_add_diff_inverse2)

lemma length_write_ack_entry [simp]: "length (write_ack_entry e) = ACK_ENTRY_LEN"
  by (simp add: write_ack_entry_def ACK_ENTRY_LEN_def)

lemma read_write_ack_entry [simp]: "read_ack_entry (write_ack_entry e) = Inr e"
  by (simp add: read_ack_entry_def write_ack_entry_def slice_def)

lemma write_read_ack_entry:
  assumes "read_ack_entry c = Inr e" "length c = ACK_ENTRY_LEN"
  shows "write_ack_entry e = c"
proof -
  have "slice 0 16 c @ slice 16 20 c @ slice 20 24 c @ drop 24 c = c"
    by (simp add: slices_id)
  then show ?thesis
    using assms by (auto simp: read_ack_entry_def write_ack_entry_def ACK_ENTRY_LEN_def
        txid_of_bytes_inverse u32_of_be_inverse)
qed

lemma read_write_ack_entries: "read_ack_entries (write_ack_entries es) (length es) = Inr es"
proof -
  have "chunks_exact ACK_ENTRY_LEN (write_ack_entries es) = map write_ack_entry es"
    unfolding write_ack_entries_def by (rule chunks_exact_concat_map) (simp_all add: ACK_ENTRY_LEN_def)
  then show ?thesis
    by (simp add: read_ack_entries_def collect_map)
qed

lemma length_write_ack_entries [simp]: "length (write_ack_entries es) = length es * ACK_ENTRY_LEN"
  by (simp add: write_ack_entries_def length_concat comp_def sum_list_triv)

lemma entries_roundtrip:
  assumes "entries_encode mn es = Inr bs"
  shows "entries_decode mn bs = Inr es"
proof -
  have n: "mn \<le> length es" "length es \<le> 255" and bs: "bs = of_nat (length es) # write_ack_entries es"
    using assms by (auto simp: entries_encode_def)
  then show ?thesis
    by (simp add: entries_decode_def count_byte_roundtrip read_write_ack_entries)
qed

lemma entries_canonical:
  assumes "entries_decode mn bs = Inr es" "length bs \<le> CONTROL_PAYLOAD_CAP"
  shows "entries_encode mn es = Inr bs"
proof -
  obtain c rest where bs: "bs = c # rest" and n: "mn \<le> unat c"
    and len: "length rest = unat c * ACK_ENTRY_LEN" and es: "read_ack_entries rest (unat c) = Inr es"
    using assms(1) by (auto simp: entries_decode_def Let_def split: list.splits if_splits)
  define cs where "cs = chunks_exact ACK_ENTRY_LEN rest"
  have cs: "length cs = unat c" "concat cs = rest" "\<And>x. x \<in> set cs \<Longrightarrow> length x = ACK_ENTRY_LEN"
    using len by (auto simp: cs_def length_chunks_exact concat_chunks_exact ACK_ENTRY_LEN_def
        dest: chunks_exact_length)
  then have col: "collect read_ack_entry cs = Inr es"
    using es by (simp add: read_ack_entries_def flip: cs_def)
  then have "map write_ack_entry es = cs"
    by (rule collect_inverse) (simp add: cs(3) write_read_ack_entry)
  moreover from this have "length es = unat c"
    using cs(1) by (metis length_map)
  moreover have "unat c \<le> 255"
    using unat_byte_less [of c] by linarith
  ultimately show ?thesis
    using assms(2) n cs(2)
    by (auto simp: entries_encode_def write_ack_entries_def bs check_count_def)
qed

lemma ack_entries_iff:
  "entries_encode mn es = Inr bs \<longleftrightarrow>
   length bs \<le> CONTROL_PAYLOAD_CAP \<and> entries_decode mn bs = Inr es"
  using entries_roundtrip [of mn es bs] entries_canonical [of mn bs es]
  by (auto simp: entries_encode_def)

interpretation ack_codec: byte_codec ack_encode ack_decode "\<lambda>_. True" CONTROL_PAYLOAD_CAP
  by unfold_locales (auto simp: ack_encode_def ack_decode_def ack_entries_iff)

interpretation resume_request_codec:
  byte_codec resume_request_encode resume_request_decode "\<lambda>_. True" CONTROL_PAYLOAD_CAP
  by unfold_locales (auto simp: resume_request_encode_def resume_request_decode_def ack_entries_iff)

lemma txid_payload_Inr: "txid_payload_decode bs = Inr t \<longleftrightarrow> bs = txid_to_bytes t"
  by (auto simp: txid_payload_decode_def txid_of_bytes_inverse)

lemma txid_payload_small: "length (txid_to_bytes t) \<le> CONTROL_PAYLOAD_CAP"
  by (simp add: CONTROL_PAYLOAD_CAP_def frame_consts)

interpretation pause_codec: byte_codec pause_encode pause_decode "\<lambda>_. True" CONTROL_PAYLOAD_CAP
  by unfold_locales (auto simp: pause_encode_def pause_decode_def txid_payload_Inr txid_payload_small)

interpretation abort_codec: byte_codec abort_encode abort_decode "\<lambda>_. True" CONTROL_PAYLOAD_CAP
  by unfold_locales (auto simp: abort_encode_def abort_decode_def txid_payload_Inr txid_payload_small)

interpretation completed_codec: byte_codec completed_encode completed_decode "\<lambda>_. True" CONTROL_PAYLOAD_CAP
  by unfold_locales
    (auto simp: completed_encode_def completed_decode_def txid_payload_Inr txid_payload_small)

lemma length_write_status_entry [simp]: "length (write_status_entry e) = RESUME_STATUS_ENTRY_LEN"
  by (simp add: write_status_entry_def RESUME_STATUS_ENTRY_LEN_def)

lemma read_write_status_entry [simp]: "read_status_entry (write_status_entry e) = Inr e"
  by (simp add: read_status_entry_def write_status_entry_def slice_def nth_append)

lemma write_read_status_entry:
  assumes "read_status_entry c = Inr e" "length c = RESUME_STATUS_ENTRY_LEN"
  shows "write_status_entry e = c"
proof -
  have "slice 0 16 c @ [c ! 16] = c"
    using assms(2) by (simp add: slice_def RESUME_STATUS_ENTRY_LEN_def flip: take_Suc_conv_app_nth)
  then show ?thesis
    using assms by (auto simp: read_status_entry_def write_status_entry_def
        RESUME_STATUS_ENTRY_LEN_def txid_of_bytes_inverse dest!: status_from_u8_Inr)
qed

lemma resume_response_roundtrip:
  assumes "resume_response_encode p = Inr bs"
  shows "resume_response_decode bs = Inr p"
proof -
  let ?es = "rp_entries p"
  have n: "length ?es \<le> 255" and bs: "bs = of_nat (length ?es) # concat (map write_status_entry ?es)"
    using assms by (auto simp: resume_response_encode_def)
  have "chunks_exact RESUME_STATUS_ENTRY_LEN (concat (map write_status_entry ?es)) =
      map write_status_entry ?es"
    by (rule chunks_exact_concat_map) (simp_all add: RESUME_STATUS_ENTRY_LEN_def)
  then show ?thesis
    using n by (simp add: bs resume_response_decode_def count_byte_roundtrip length_concat comp_def
        sum_list_triv collect_map)
qed

lemma resume_response_canonical:
  assumes "resume_response_decode bs = Inr p" "length bs \<le> CONTROL_PAYLOAD_CAP"
  shows "resume_response_encode p = Inr bs"
proof -
  obtain c rest where bs: "bs = c # rest"
    and len: "length rest = unat c * RESUME_STATUS_ENTRY_LEN"
    and es: "collect read_status_entry (chunks_exact RESUME_STATUS_ENTRY_LEN rest) = Inr (rp_entries p)"
    using assms(1) by (auto simp: resume_response_decode_def Let_def split: list.splits if_splits)
  have "map write_status_entry (rp_entries p) = chunks_exact RESUME_STATUS_ENTRY_LEN rest"
    using es by (rule collect_inverse) (simp add: write_read_status_entry chunks_exact_length)
  moreover have "length (chunks_exact RESUME_STATUS_ENTRY_LEN rest) = unat c"
      "concat (chunks_exact RESUME_STATUS_ENTRY_LEN rest) = rest"
    using len by (simp_all add: length_chunks_exact concat_chunks_exact RESUME_STATUS_ENTRY_LEN_def)
  moreover from calculation have "length (rp_entries p) = unat c"
    by (metis length_map)
  moreover have "unat c \<le> 255"
    using unat_byte_less [of c] by linarith
  ultimately show ?thesis
    using assms(2) by (auto simp: resume_response_encode_def bs check_count_def)
qed

lemma resume_response_iff:
  "resume_response_encode p = Inr bs \<longleftrightarrow>
   length bs \<le> CONTROL_PAYLOAD_CAP \<and> resume_response_decode bs = Inr p"
  using resume_response_roundtrip [of p bs] resume_response_canonical [of bs p]
  by (auto simp: resume_response_encode_def)

interpretation resume_response_codec:
  byte_codec resume_response_encode resume_response_decode "\<lambda>_. True" CONTROL_PAYLOAD_CAP
  by unfold_locales (auto simp: resume_response_iff)

lemma heartbeat_iff:
  "heartbeat_decode bs = Inr p \<longleftrightarrow>
   bs = u32_to_be (hb_monotonic_seq p) @ u64_to_be (hb_sender_epoch_ms p)"
proof
  assume d: "heartbeat_decode bs = Inr p"
  have "slice 0 4 bs @ slice 4 12 bs @ drop 12 bs = bs"
    by (simp add: slices_id)
  with d show "bs = u32_to_be (hb_monotonic_seq p) @ u64_to_be (hb_sender_epoch_ms p)"
    by (auto simp: heartbeat_decode_def u32_of_be_inverse u64_of_be_inverse split: if_splits)
qed (simp add: heartbeat_decode_def slice_def)

interpretation heartbeat_codec: byte_codec heartbeat_encode heartbeat_decode "\<lambda>_. True" CONTROL_PAYLOAD_CAP
  by unfold_locales (auto simp: heartbeat_iff heartbeat_encode_def)

lemma error_iff:
  "error_decode bs = Inr p \<longleftrightarrow> bs = u16_to_be (ep_code p) @ ep_message p \<and> utf8_valid (ep_message p)"
proof
  assume d: "error_decode bs = Inr p"
  then have len: "2 \<le> length bs"
    by (auto simp: error_decode_def split: if_splits)
  then have "[bs ! 0, bs ! 1] = take 2 bs"
    by (intro nth_equalityI) (auto simp: less_Suc_eq numeral_eq_Suc)
  with d len show "bs = u16_to_be (ep_code p) @ ep_message p \<and> utf8_valid (ep_message p)"
    by (auto simp: error_decode_def u16_of_be_inverse split: if_splits)
next
  assume "bs = u16_to_be (ep_code p) @ ep_message p \<and> utf8_valid (ep_message p)"
  then show "error_decode bs = Inr p"
    using u16_to_be_nth [of "ep_code p"] by (simp add: error_decode_def nth_append)
qed

interpretation error_codec:
  byte_codec error_encode error_decode "\<lambda>p. utf8_valid (ep_message p)" CONTROL_PAYLOAD_CAP
  by unfold_locales (auto simp: error_iff error_encode_def)

definition nack_entry_bytes :: "nack_entry \<Rightarrow> byte list" where
  "nack_entry_bytes e = txid_to_bytes (ne_txid e) @ u16_to_be (of_nat (length (ne_missing_seqs e)))
     @ concat (map u32_to_be (ne_missing_seqs e))"

lemma length_concat_u32 [simp]: "length (concat (map u32_to_be xs)) = length xs * 4"
  by (simp add: length_concat comp_def sum_list_triv)

lemma length_nack_entry_bytes: "length (nack_entry_bytes e) = 18 + length (ne_missing_seqs e) * 4"
  by (simp add: nack_entry_bytes_def)

abbreviation read_seq :: "byte list \<Rightarrow> control_error + u32" where
  "read_seq c \<equiv> and_then (fixed_field 4 c) (\<lambda>b. Inr (u32_of_be b))"

lemma read_nack_entry_bytes:
  assumes "length (ne_missing_seqs e) \<le> 65535"
  shows "read_nack_entry (nack_entry_bytes e @ rest) = Inr (e, rest)"
proof -
  let ?ms = "ne_missing_seqs e"
  have n: "unat (of_nat (length ?ms) :: u16) = length ?ms"
    using assms by (simp add: unat_of_nat take_bit_nat_eq_self)
  have c: "chunks_exact 4 (concat (map u32_to_be ?ms)) = map u32_to_be ?ms"
    by (rule chunks_exact_concat_map) simp_all
  have "collect read_seq (map u32_to_be ?ms) = Inr ?ms"
    by (rule collect_map) simp
  then show ?thesis
    using u16_to_be_nth [of "of_nat (length ?ms)"]
    by (simp add: read_nack_entry_def nack_entry_bytes_def slice_def nth_append n c)
qed

lemma read_nack_entry_Inr:
  assumes "read_nack_entry bs = Inr (e, rest)"
  shows "length (ne_missing_seqs e) \<le> 65535 \<and> bs = nack_entry_bytes e @ rest"
proof -
  define n where "n = unat (u16_of_be [bs ! 16, bs ! 17])"
  have l: "18 \<le> length bs" "n * 4 \<le> length bs - 18"
    and e: "ne_txid e = txid_of_bytes (slice 0 16 bs)" "rest = drop (n * 4) (drop 18 bs)"
    and c: "collect read_seq (chunks_exact 4 (take (n * 4) (drop 18 bs))) = Inr (ne_missing_seqs e)"
    using assms by (auto simp: read_nack_entry_def Let_def n_def split: if_splits)
  have "length (take (n * 4) (drop 18 bs)) = n * 4"
    using l by simp
  then have ch: "length (chunks_exact 4 (take (n * 4) (drop 18 bs))) = n"
      "concat (chunks_exact 4 (take (n * 4) (drop 18 bs))) = take (n * 4) (drop 18 bs)"
    by (simp_all add: length_chunks_exact concat_chunks_exact del: length_take)
  have m: "map u32_to_be (ne_missing_seqs e) = chunks_exact 4 (take (n * 4) (drop 18 bs))"
    using c by (rule collect_inverse) (auto simp: u32_of_be_inverse)
  then have len: "length (ne_missing_seqs e) = n"
    using ch(1) by (metis length_map)
  have nn: "n \<le> 65535"
    using unsigned_less [of "u16_of_be [bs ! 16, bs ! 17]", where ?'a = nat] by (simp add: n_def)
  have "[bs ! 16, bs ! 17] = slice 16 18 bs"
    using l by (intro nth_equalityI) (auto simp: slice_def less_Suc_eq numeral_eq_Suc)
  then have "u16_to_be (of_nat n) = slice 16 18 bs"
    using l by (simp add: n_def u16_of_be_inverse)
  moreover have "txid_to_bytes (ne_txid e) = slice 0 16 bs"
    using l e by (simp add: txid_of_bytes_inverse)
  moreover have "slice 0 16 bs @ slice 16 18 bs @ take (n * 4) (drop 18 bs) @ drop (n * 4) (drop 18 bs) = bs"
    by (simp add: slices_id del: drop_drop)
  ultimately show ?thesis
    using nn len m ch(2) e(2) by (simp add: nack_entry_bytes_def)
qed

lemma write_nack_entries_Inr:
  "write_nack_entries es = Inr out \<longleftrightarrow>
   (\<forall>e\<in>set es. length (ne_missing_seqs e) \<le> 65535) \<and> out = concat (map nack_entry_bytes es)"
  by (induction es arbitrary: out) (auto simp: nack_entry_bytes_def Let_def)

lemma read_nack_entries_iff:
  "read_nack_entries n bs = Inr (es, rest) \<longleftrightarrow>
   length es = n \<and> (\<forall>e\<in>set es. length (ne_missing_seqs e) \<le> 65535) \<and>
   bs = concat (map nack_entry_bytes es) @ rest"
proof (induction n arbitrary: bs es rest)
  case 0
  then show ?case by auto
next
  case (Suc n)
  show ?case
  proof
    assume "read_nack_entries (Suc n) bs = Inr (es, rest)"
    then show "length es = Suc n \<and> (\<forall>e\<in>set es. length (ne_missing_seqs e) \<le> 65535) \<and>
        bs = concat (map nack_entry_bytes es) @ rest"
      by (auto simp: Suc.IH dest: read_nack_entry_Inr)
  next
    assume "length es = Suc n \<and> (\<forall>e\<in>set es. length (ne_missing_seqs e) \<le> 65535) \<and>
        bs = concat (map nack_entry_bytes es) @ rest"
    then obtain e es' where "es = e # es'" "length es' = n"
        "\<forall>e\<in>set es. length (ne_missing_seqs e) \<le> 65535" "bs = concat (map nack_entry_bytes es) @ rest"
      by (cases es) auto
    then show "read_nack_entries (Suc n) bs = Inr (es, rest)"
      by (simp add: read_nack_entry_bytes Suc.IH)
  qed
qed

lemma nack_encode_Inr:
  "nack_encode p = Inr bs \<longleftrightarrow>
   length (nack_entries p) \<in> {1..255} \<and> (\<forall>e\<in>set (nack_entries p). length (ne_missing_seqs e) \<le> 65535) \<and>
   bs = of_nat (length (nack_entries p)) # concat (map nack_entry_bytes (nack_entries p)) \<and>
   length bs \<le> CONTROL_PAYLOAD_CAP"
  by (auto simp: nack_encode_def write_nack_entries_Inr)

lemma nack_decode_Inr:
  "nack_decode bs = Inr p \<longleftrightarrow>
   length (nack_entries p) \<in> {1..255} \<and> (\<forall>e\<in>set (nack_entries p). length (ne_missing_seqs e) \<le> 65535) \<and>
   bs = of_nat (length (nack_entries p)) # concat (map nack_entry_bytes (nack_entries p))"
  (is "_ \<longleftrightarrow> ?R")
proof (cases bs)
  case (Cons c rest)
  have c: "unat c \<le> 255"
    using unat_byte_less [of c] by linarith
  have u: "c = of_nat n \<longleftrightarrow> unat c = n" if "n \<le> 255" for n
    using that by (simp add: word_unat_eq_iff count_byte_roundtrip)
  have "nack_decode bs = Inr p \<longleftrightarrow>
      1 \<le> unat c \<and> read_nack_entries (unat c) rest = Inr (nack_entries p, [])"
    using c by (auto simp: nack_decode_def Cons Let_def split: if_splits)
  also have "\<dots> \<longleftrightarrow> ?R"
    using c u by (auto simp: read_nack_entries_iff Cons count_byte_roundtrip)
  finally show ?thesis .
qed (simp add: nack_decode_def)

interpretation nack_codec: byte_codec nack_encode nack_decode "\<lambda>_. True" CONTROL_PAYLOAD_CAP
  by unfold_locales (auto simp: nack_encode_Inr nack_decode_Inr)

section \<open>Properties of the control codecs\<close>

text \<open>
  C20. The payload codecs are exact. Within the 16 KiB control cap, a byte string decodes to a payload
  precisely when that payload encodes to it: encoded payloads decode to themselves, and the decoders
  accept no truncated, extended or otherwise non-canonical input. For the error payload the message
  is additionally well-formed UTF-8.
\<close>

theorem control_codecs_exact:
  assumes "length bs \<le> CONTROL_PAYLOAD_CAP"
  shows "(ack_decode bs = Inr a \<longleftrightarrow> ack_encode a = Inr bs) \<and>
    (nack_decode bs = Inr n \<longleftrightarrow> nack_encode n = Inr bs) \<and>
    (resume_request_decode bs = Inr q \<longleftrightarrow> resume_request_encode q = Inr bs) \<and>
    (resume_response_decode bs = Inr r \<longleftrightarrow> resume_response_encode r = Inr bs) \<and>
    (pause_decode bs = Inr p \<longleftrightarrow> pause_encode p = Inr bs) \<and>
    (abort_decode bs = Inr b \<longleftrightarrow> abort_encode b = Inr bs) \<and>
    (completed_decode bs = Inr c \<longleftrightarrow> completed_encode c = Inr bs) \<and>
    (heartbeat_decode bs = Inr h \<longleftrightarrow> heartbeat_encode h = Inr bs) \<and>
    (error_decode bs = Inr e \<longleftrightarrow> utf8_valid (ep_message e) \<and> error_encode e = Inr bs)"
  by (simp only: ack_codec.dec_iff_enc [OF assms] nack_codec.dec_iff_enc [OF assms]
      resume_request_codec.dec_iff_enc [OF assms] resume_response_codec.dec_iff_enc [OF assms]
      pause_codec.dec_iff_enc [OF assms] abort_codec.dec_iff_enc [OF assms]
      completed_codec.dec_iff_enc [OF assms] heartbeat_codec.dec_iff_enc [OF assms]
      error_codec.dec_iff_enc [OF assms] simp_thms)

theorem control_codecs_exact_witness:
  "resume_response_decode (1 # txid_to_bytes 5 @ [2]) = Inr \<lparr>rp_entries = [\<lparr>rs_txid = 5, rs_status = Rejected\<rparr>]\<rparr>"
  using control_codecs_exact [of "1 # txid_to_bytes 5 @ [2]" undefined undefined undefined
      "\<lparr>rp_entries = [\<lparr>rs_txid = 5, rs_status = Rejected\<rparr>]\<rparr>"]
  by (simp add: resume_response_encode_def write_status_entry_def CONTROL_PAYLOAD_CAP_def frame_consts)

text \<open>
  Which reports fit. An ACK batch encodes exactly when it has 1 to 255 entries and a RESUME
  declaration or answer when it has at most 255; a batch of one NACK entry encodes exactly when its
  list has at most 4091 sequence numbers, the constant the receiver truncates its reports to.
\<close>

theorem control_batch_limits:
  "((\<exists>bs. ack_encode \<lparr>ack_entries = es\<rparr> = Inr bs) \<longleftrightarrow> 1 \<le> length es \<and> length es \<le> 255) \<and>
   ((\<exists>bs. resume_request_encode \<lparr>rr_entries = es\<rparr> = Inr bs) \<longleftrightarrow> length es \<le> 255) \<and>
   ((\<exists>bs. resume_response_encode \<lparr>rp_entries = rs\<rparr> = Inr bs) \<longleftrightarrow> length rs \<le> 255) \<and>
   ((\<exists>bs. nack_encode \<lparr>nack_entries = [\<lparr>ne_txid = t, ne_missing_seqs = ms\<rparr>]\<rparr> = Inr bs) \<longleftrightarrow>
     length ms \<le> (MAX_CONTROL_FRAME_LEN - 19) div 4)"
  by (auto simp: ack_encode_def resume_request_encode_def entries_encode_def resume_response_encode_def
      nack_encode_Inr length_nack_entry_bytes CONTROL_PAYLOAD_CAP_def ACK_ENTRY_LEN_def frame_consts
      length_concat comp_def sum_list_triv RESUME_STATUS_ENTRY_LEN_def)

end
