(* ===== verification/Transaction.thy ===== *)
theory Transaction
  imports Wire_Control
begin

text \<open>
  The copy holder, \<open>src/src/reliability/transaction.rs\<close>: splitting payloads into working frames,
  retaining the copies until they are acknowledged, retransmission on timeout and NACK, the
  backpressure cap, and the holder side of the reconnect handshake (declarations and verdicts).

  Every \<open>&mut self\<close> method returns the updated sender beside its result; on an error the state is the
  one the method leaves behind at the \<open>return Err\<close>. Frame copies are \<open>None\<close> once released.
\<close>

section \<open>Data\<close>

record sender_config =
  sc_frame_size :: nat
  sc_rto_initial_ms :: nat
  sc_rto_max_ms :: nat
  sc_backpressure_cap_bytes :: nat

definition sender_config_default :: sender_config where
  "sender_config_default =
    \<lparr>sc_frame_size = 1024 * 1024, sc_rto_initial_ms = 2000, sc_rto_max_ms = 30000,
     sc_backpressure_cap_bytes = 64 * 1024 * 1024\<rparr>"

datatype begin_error =
    Backpressured nat nat nat
  | EmptyPayload
  | PayloadTooLargeForTxn nat u32
  | DuplicateTransaction
  | UnknownTransaction
  | TotalLenExceeded u32
  | IncompletePayload nat u32

definition current_rto :: "nat \<Rightarrow> nat \<Rightarrow> u32 \<Rightarrow> nat" where
  "current_rto rto_initial_ms rto_max_ms attempts =
    (let shift = min (unat attempts) 62
     in min (min (rto_initial_ms * 2 ^ shift) u64_max) rto_max_ms)"

record frame_state =
  st_confirmed :: bool
  st_last_sent_ms :: nat
  st_attempts :: u32

record pending_txn =
  pt_total_len :: u32
  pt_frames :: "frame option list"
  pt_states :: "frame_state list"
  pt_partial :: "byte list"
  pt_written :: nat
  pt_bytes :: nat
  pt_paused :: bool
  pt_awaiting_resume :: bool
  pt_declared_ms :: "nat option"
  pt_acked_contiguous :: "u32 option"
  pt_acked_received :: u32
  pt_last_progress_ms :: nat

definition frame_count :: "pending_txn \<Rightarrow> u32" where
  "frame_count t = of_nat (length (pt_frames t))"

definition is_fully_sent :: "pending_txn \<Rightarrow> bool" where
  "is_fully_sent t \<longleftrightarrow> pt_written t = unat (pt_total_len t) \<and> pt_partial t = []"

definition is_fully_acked :: "pending_txn \<Rightarrow> bool" where
  "is_fully_acked t \<longleftrightarrow>
    is_fully_sent t \<and>
    (let last = (if frame_count t = 0 then None else Some (frame_count t - 1))
     in pt_acked_contiguous t = last \<and> last \<noteq> None \<and> frame_count t \<le> pt_acked_received t)"

record resume_verdicts =
  rv_retransmit :: "frame list"
  rv_confirmed :: "txid list"
  rv_failed :: "txid list"

record transaction_sender =
  ts_config :: sender_config
  ts_pending :: "(txid, pending_txn) hash_map"

section \<open>Operations\<close>

definition sender_new :: "sender_config \<Rightarrow> transaction_sender" where
  "sender_new cfg = \<lparr>ts_config = cfg\<lparr>sc_frame_size := max (sc_frame_size cfg) 1\<rparr>, ts_pending = []\<rparr>"

definition contains_transaction :: "transaction_sender \<Rightarrow> txid \<Rightarrow> bool" where
  "contains_transaction s tx = hm_contains (ts_pending s) tx"

definition unacked_bytes :: "transaction_sender \<Rightarrow> nat" where
  "unacked_bytes s = sum_list (map (pt_bytes \<circ> snd) (ts_pending s))"

definition is_paused :: "transaction_sender \<Rightarrow> bool" where
  "is_paused s \<longleftrightarrow> unacked_bytes s \<ge> sc_backpressure_cap_bytes (ts_config s)"

abbreviation put_txn :: "txid \<Rightarrow> pending_txn \<Rightarrow> transaction_sender \<Rightarrow> transaction_sender" where
  "put_txn tx t s \<equiv> s\<lparr>ts_pending := hm_put tx t (ts_pending s)\<rparr>"

abbreviation get_txn :: "transaction_sender \<Rightarrow> txid \<Rightarrow> pending_txn option" where
  "get_txn s tx \<equiv> hm_get (ts_pending s) tx"

definition fresh_txn :: "u32 \<Rightarrow> nat \<Rightarrow> pending_txn" where
  "fresh_txn tot now =
    \<lparr>pt_total_len = tot, pt_frames = [], pt_states = [], pt_partial = [], pt_written = 0,
     pt_bytes = 0, pt_paused = False, pt_awaiting_resume = False, pt_declared_ms = None,
     pt_acked_contiguous = None, pt_acked_received = 0, pt_last_progress_ms = now\<rparr>"

definition open_transaction ::
  "transaction_sender \<Rightarrow> txid \<Rightarrow> u32 \<Rightarrow> nat \<Rightarrow> (begin_error + unit) \<times> transaction_sender" where
  "open_transaction s tx tot now =
    (if hm_contains (ts_pending s) tx then (Inl DuplicateTransaction, s)
     else if tot = 0 then (Inl EmptyPayload, s)
     else (Inr (), put_txn tx (fresh_txn tot now) s))"

text \<open>Move a full working frame (or the tail) from the partial buffer into the retained frames.\<close>

definition push_frame :: "txid \<Rightarrow> nat \<Rightarrow> byte list \<Rightarrow> pending_txn \<Rightarrow> pending_txn \<times> frame" where
  "push_frame tx now p t =
    (let sq = (of_nat (length (pt_frames t)) :: u32);
         f = frame_new DataBinary tx (pt_total_len t) sq p
     in (t\<lparr>pt_frames := pt_frames t @ [Some f],
           pt_states := pt_states t @ [\<lparr>st_confirmed = False, st_last_sent_ms = now, st_attempts = 0\<rparr>]\<rparr>,
         f))"

text \<open>
  The framing loop of \<open>append_chunk\<close>. \<open>TransactionSender::new\<close> clamps the frame size to at least
  one; the test for zero only makes the recursion well-founded for sizes no sender has.
\<close>

function frame_loop :: "nat \<Rightarrow> txid \<Rightarrow> nat \<Rightarrow> pending_txn \<Rightarrow> frame list \<Rightarrow> pending_txn \<times> frame list" where
  "frame_loop fsz tx now t out =
    (if fsz = 0 \<or> length (pt_partial t) < fsz then (t, out)
     else
       let p = take fsz (pt_partial t);
           (t', f) = push_frame tx now p (t\<lparr>pt_partial := drop fsz (pt_partial t)\<rparr>)
       in frame_loop fsz tx now t' (out @ [f]))"
  by pat_completeness auto
termination
  by (relation "measure (\<lambda>(fsz, tx, now, t, out). length (pt_partial t))")
    (auto simp: push_frame_def Let_def)

declare frame_loop.simps [simp del]

definition append_chunk ::
  "transaction_sender \<Rightarrow> txid \<Rightarrow> byte list \<Rightarrow> nat \<Rightarrow> (begin_error + frame list) \<times> transaction_sender" where
  "append_chunk s tx chunk now =
    (let unacked = unacked_bytes s; cap = sc_backpressure_cap_bytes (ts_config s) in
     case get_txn s tx of
       None \<Rightarrow> (Inl UnknownTransaction, s)
     | Some t \<Rightarrow>
         if unacked + length chunk > cap then (Inl (Backpressured unacked (length chunk) cap), s)
         else if pt_written t + length chunk > unat (pt_total_len t)
           then (Inl (TotalLenExceeded (pt_total_len t)), s)
         else
           let t1 = t\<lparr>pt_partial := pt_partial t @ chunk, pt_written := pt_written t + length chunk,
                      pt_bytes := pt_bytes t + length chunk\<rparr>;
               (t2, out) = frame_loop (sc_frame_size (ts_config s)) tx now t1 []
           in (Inr out, put_txn tx t2 s))"

definition finish_transaction ::
  "transaction_sender \<Rightarrow> txid \<Rightarrow> nat \<Rightarrow> (begin_error + frame list) \<times> transaction_sender" where
  "finish_transaction s tx now =
    (case get_txn s tx of
       None \<Rightarrow> (Inl UnknownTransaction, s)
     | Some t \<Rightarrow>
         let (t1, out) =
               (if pt_partial t \<noteq> []
                then let (t', f) = push_frame tx now (pt_partial t) (t\<lparr>pt_partial := []\<rparr>) in (t', [f])
                else (t, []))
         in if pt_written t1 \<noteq> unat (pt_total_len t1)
            then (Inl (IncompletePayload (pt_written t1) (pt_total_len t1)), put_txn tx t1 s)
            else (Inr out, put_txn tx t1 s))"

definition begin_transaction ::
  "transaction_sender \<Rightarrow> txid \<Rightarrow> byte list \<Rightarrow> nat \<Rightarrow> (begin_error + frame list) \<times> transaction_sender" where
  "begin_transaction s tx payload now =
    (let incoming = length payload; unacked = unacked_bytes s;
         cap = sc_backpressure_cap_bytes (ts_config s) in
     if unacked + incoming > cap then (Inl (Backpressured unacked incoming cap), s)
     else case open_transaction s tx (of_nat (length payload)) now of
         (Inl e, s1) \<Rightarrow> (Inl e, s1)
       | (Inr _, s1) \<Rightarrow>
         (case append_chunk s1 tx payload now of
            (Inl e, s2) \<Rightarrow> (Inl e, s2)
          | (Inr frames, s2) \<Rightarrow>
            (case finish_transaction s2 tx now of
               (Inl e, s3) \<Rightarrow> (Inl e, s3)
             | (Inr tl_frames, s3) \<Rightarrow> (Inr (frames @ tl_frames), s3))))"

definition set_paused :: "transaction_sender \<Rightarrow> txid \<Rightarrow> bool \<Rightarrow> nat \<Rightarrow> bool \<times> transaction_sender" where
  "set_paused s tx paused now =
    (case get_txn s tx of
       None \<Rightarrow> (False, s)
     | Some t \<Rightarrow>
         let t1 = t\<lparr>pt_paused := paused\<rparr>;
             t2 = (if \<not> paused
                   then t1\<lparr>pt_states := map (\<lambda>st. if \<not> st_confirmed st then st\<lparr>st_last_sent_ms := now\<rparr> else st)
                              (pt_states t1)\<rparr>
                   else t1)
         in (True, put_txn tx t2 s))"

definition abort_transaction :: "transaction_sender \<Rightarrow> txid \<Rightarrow> bool \<times> transaction_sender" where
  "abort_transaction s tx =
    (hm_contains (ts_pending s) tx, s\<lparr>ts_pending := hm_del tx (ts_pending s)\<rparr>)"

definition is_transaction_paused :: "transaction_sender \<Rightarrow> txid \<Rightarrow> bool" where
  "is_transaction_paused s tx = (case get_txn s tx of Some t \<Rightarrow> pt_paused t | None \<Rightarrow> False)"

text \<open>Dropping the copies of a confirmed prefix, \<open>frame.take()\<close> on each.\<close>

primrec release_frames :: "frame option list \<Rightarrow> nat \<Rightarrow> frame option list \<times> nat" where
  "release_frames [] b = ([], b)"
| "release_frames (fo # fos) b =
    (let b' = (case fo of Some released \<Rightarrow> b - length (f_payload released) | None \<Rightarrow> b);
         (rest, b'') = release_frames fos b'
     in (None # rest, b''))"

text \<open>The peer's contiguous progress, kept monotone and clamped to the real frame range.\<close>

definition acked_progress :: "ack_entry \<Rightarrow> pending_txn \<Rightarrow> u32" where
  "acked_progress e t =
    (let ac = (case pt_acked_contiguous t of
                 None \<Rightarrow> ae_highest_contiguous_seq e
               | Some h \<Rightarrow> max h (ae_highest_contiguous_seq e));
         last = (if frame_count t = 0 then 0 else frame_count t - 1)
     in min ac last)"

definition ack_upto :: "ack_entry \<Rightarrow> pending_txn \<Rightarrow> nat" where
  "ack_upto e t = min (unat (acked_progress e t) + 1) (length (pt_states t))"

definition ack_txn :: "ack_entry \<Rightarrow> nat \<Rightarrow> pending_txn \<Rightarrow> pending_txn" where
  "ack_txn e now t =
    (let upto = ack_upto e t;
         (rel, b) = release_frames (take upto (pt_frames t)) (pt_bytes t)
     in t\<lparr>pt_acked_contiguous := Some (acked_progress e t),
          pt_acked_received := max (pt_acked_received t) (ae_received_frames e),
          pt_last_progress_ms := now,
          pt_states := map (\<lambda>st. st\<lparr>st_confirmed := True\<rparr>) (take upto (pt_states t)) @ drop upto (pt_states t),
          pt_frames := rel @ drop upto (pt_frames t),
          pt_bytes := b\<rparr>)"

definition handle_ack :: "transaction_sender \<Rightarrow> ack_entry \<Rightarrow> nat \<Rightarrow> bool \<times> transaction_sender" where
  "handle_ack s e now =
    (case get_txn s (ae_txid e) of
       None \<Rightarrow> (False, s)
     | Some t \<Rightarrow>
         let t' = ack_txn e now t in
         if is_fully_acked t' then (True, s\<lparr>ts_pending := hm_del (ae_txid e) (ts_pending s)\<rparr>)
         else (False, put_txn (ae_txid e) t' s))"

primrec nack_loop :: "u32 list \<Rightarrow> nat \<Rightarrow> pending_txn \<Rightarrow> frame list \<Rightarrow> pending_txn \<times> frame list" where
  "nack_loop [] now t out = (t, out)"
| "nack_loop (sq # sqs) now t out =
    (let i = unat sq in
     if i \<ge> length (pt_states t) then nack_loop sqs now t out
     else
       let st = pt_states t ! i in
       if st_confirmed st then nack_loop sqs now t out
       else
         let t' = t\<lparr>pt_states := (pt_states t)[i := st\<lparr>st_last_sent_ms := now\<rparr>]\<rparr> in
         case pt_frames t' ! i of
           None \<Rightarrow> nack_loop sqs now t' out
         | Some f \<Rightarrow> nack_loop sqs now t' (out @ [f]))"

definition handle_nack ::
  "transaction_sender \<Rightarrow> txid \<Rightarrow> u32 list \<Rightarrow> nat \<Rightarrow> frame list \<times> transaction_sender" where
  "handle_nack s tx missing now =
    (case get_txn s tx of
       None \<Rightarrow> ([], s)
     | Some t \<Rightarrow>
         let t1 = t\<lparr>pt_last_progress_ms := now\<rparr> in
         if pt_paused t1 then ([], put_txn tx t1 s)
         else let (t2, out) = nack_loop missing now t1 [] in (out, put_txn tx t2 s))"

fun due_frames ::
  "sender_config \<Rightarrow> nat \<Rightarrow> frame_state list \<Rightarrow> frame option list \<Rightarrow> frame_state list \<times> frame list" where
  "due_frames cfg now (st # sts) (fo # fos) =
    (let (sts', out) = due_frames cfg now sts fos in
     if st_confirmed st then (st # sts', out)
     else if now - st_last_sent_ms st \<ge> current_rto (sc_rto_initial_ms cfg) (sc_rto_max_ms cfg) (st_attempts st)
     then
       let st' = st\<lparr>st_last_sent_ms := now, st_attempts := st_attempts st + 1\<rparr> in
       (case fo of None \<Rightarrow> (st' # sts', out) | Some f \<Rightarrow> (st' # sts', f # out))
     else (st # sts', out))"
| "due_frames cfg now sts fos = (sts, [])"

primrec due_loop :: "txid list \<Rightarrow> nat \<Rightarrow> transaction_sender \<Rightarrow> frame list \<Rightarrow> frame list \<times> transaction_sender" where
  "due_loop [] now s out = (out, s)"
| "due_loop (tx # ids) now s out =
    (case get_txn s tx of
       None \<Rightarrow> due_loop ids now s out
     | Some t \<Rightarrow>
         if pt_paused t \<or> pt_awaiting_resume t then due_loop ids now s out
         else
           let (sts, fs) = due_frames (ts_config s) now (pt_states t) (pt_frames t)
           in due_loop ids now (put_txn tx (t\<lparr>pt_states := sts\<rparr>) s) (out @ fs))"

definition due_retransmissions :: "transaction_sender \<Rightarrow> nat \<Rightarrow> frame list \<times> transaction_sender" where
  "due_retransmissions s now = due_loop (hm_keys (ts_pending s)) now s []"

definition declare_entry :: "txid \<Rightarrow> pending_txn \<Rightarrow> ack_entry" where
  "declare_entry tx t =
    \<lparr>ae_txid = tx,
     ae_highest_contiguous_seq = (if frame_count t = 0 then 0 else frame_count t - 1),
     ae_received_frames = frame_count t\<rparr>"

definition declare_pending :: "transaction_sender \<Rightarrow> nat \<Rightarrow> ack_entry list \<times> transaction_sender" where
  "declare_pending s now =
    (map (\<lambda>(tx, t). declare_entry tx t) (ts_pending s),
     s\<lparr>ts_pending := map (\<lambda>(tx, t). (tx, t\<lparr>pt_awaiting_resume := True, pt_declared_ms := Some now\<rparr>))
         (ts_pending s)\<rparr>)"

definition declaration_due :: "nat \<Rightarrow> nat \<Rightarrow> pending_txn \<Rightarrow> bool" where
  "declaration_due now timeout t \<longleftrightarrow>
    pt_awaiting_resume t \<and>
    (case pt_declared_ms t of None \<Rightarrow> False | Some declared \<Rightarrow> \<not> now - declared < timeout)"

definition timed_out_declarations ::
  "transaction_sender \<Rightarrow> nat \<Rightarrow> nat \<Rightarrow> ack_entry list \<times> transaction_sender" where
  "timed_out_declarations s now timeout =
    (map (\<lambda>(tx, t). declare_entry tx t) (filter (\<lambda>(tx, t). declaration_due now timeout t) (ts_pending s)),
     s\<lparr>ts_pending := map (\<lambda>(tx, t). (tx, if declaration_due now timeout t
                                          then t\<lparr>pt_declared_ms := Some now\<rparr> else t))
         (ts_pending s)\<rparr>)"

definition is_awaiting_resume :: "transaction_sender \<Rightarrow> txid \<Rightarrow> bool" where
  "is_awaiting_resume s tx = (case get_txn s tx of Some t \<Rightarrow> pt_awaiting_resume t | None \<Rightarrow> False)"

fun resend_frames :: "nat \<Rightarrow> frame_state list \<Rightarrow> frame option list \<Rightarrow> frame_state list \<times> frame list" where
  "resend_frames now (st # sts) (fo # fos) =
    (let (sts', out) = resend_frames now sts fos in
     if st_confirmed st then (st # sts', out)
     else
       let st' = st\<lparr>st_last_sent_ms := now, st_attempts := st_attempts st + 1\<rparr> in
       (case fo of None \<Rightarrow> (st' # sts', out) | Some f \<Rightarrow> (st' # sts', f # out)))"
| "resend_frames now sts fos = (sts, [])"

definition apply_verdict ::
  "nat \<Rightarrow> resume_status_entry \<Rightarrow> transaction_sender \<Rightarrow> resume_verdicts \<Rightarrow> transaction_sender \<times> resume_verdicts" where
  "apply_verdict now e s out =
    (case rs_status e of
       Resumed \<Rightarrow>
         (case get_txn s (rs_txid e) of
            None \<Rightarrow> (s, out)
          | Some t \<Rightarrow>
              let t1 = t\<lparr>pt_awaiting_resume := False, pt_declared_ms := None, pt_last_progress_ms := now\<rparr> in
              if pt_paused t1 then (put_txn (rs_txid e) t1 s, out)
              else
                let (sts, fs) = resend_frames now (pt_states t1) (pt_frames t1)
                in (put_txn (rs_txid e) (t1\<lparr>pt_states := sts\<rparr>) s,
                    out\<lparr>rv_retransmit := rv_retransmit out @ fs\<rparr>))
     | _ \<Rightarrow>
         (case get_txn s (rs_txid e) of
            None \<Rightarrow> (s, out)
          | Some t \<Rightarrow>
              let s' = s\<lparr>ts_pending := hm_del (rs_txid e) (ts_pending s)\<rparr> in
              if is_fully_sent t then (s', out\<lparr>rv_confirmed := rv_confirmed out @ [rs_txid e]\<rparr>)
              else (s', out\<lparr>rv_failed := rv_failed out @ [rs_txid e]\<rparr>)))"

primrec verdict_loop ::
  "nat \<Rightarrow> resume_status_entry list \<Rightarrow> transaction_sender \<Rightarrow> resume_verdicts
    \<Rightarrow> transaction_sender \<times> resume_verdicts" where
  "verdict_loop now [] s out = (s, out)"
| "verdict_loop now (e # es) s out =
    (let (s', out') = apply_verdict now e s out in verdict_loop now es s' out')"

definition apply_resume_verdicts ::
  "transaction_sender \<Rightarrow> resume_status_entry list \<Rightarrow> nat \<Rightarrow> resume_verdicts \<times> transaction_sender" where
  "apply_resume_verdicts s entries now =
    (let (s', out) = verdict_loop now entries s \<lparr>rv_retransmit = [], rv_confirmed = [], rv_failed = []\<rparr>
     in (out, s'))"

section \<open>Framing\<close>

text \<open>The reference: consecutive pieces of a payload, numbered from \<open>n\<close>.\<close>

definition mk_frame :: "txid \<Rightarrow> u32 \<Rightarrow> nat \<Rightarrow> byte list \<Rightarrow> frame" where
  "mk_frame tx tot n p = frame_new DataBinary tx tot (of_nat n) p"

primrec mk_frames :: "txid \<Rightarrow> u32 \<Rightarrow> nat \<Rightarrow> byte list list \<Rightarrow> frame list" where
  "mk_frames tx tot n [] = []"
| "mk_frames tx tot n (p # ps) = mk_frame tx tot n p # mk_frames tx tot (Suc n) ps"

definition pieces :: "nat \<Rightarrow> byte list \<Rightarrow> byte list list" where
  "pieces fsz bs =
    (let full = chunks_exact fsz bs; rest = drop (length full * fsz) bs
     in full @ (if rest = [] then [] else [rest]))"

lemma length_mk_frames [simp]: "length (mk_frames tx tot n ps) = length ps"
  by (induction ps arbitrary: n) simp_all

lemma mk_frames_append: "mk_frames tx tot n (ps @ qs) = mk_frames tx tot n ps @ mk_frames tx tot (n + length ps) qs"
  by (induction ps arbitrary: n) simp_all

lemma nth_mk_frames: "i < length ps \<Longrightarrow> mk_frames tx tot n ps ! i = mk_frame tx tot (n + i) (ps ! i)"
  by (induction ps arbitrary: n i) (auto simp: nth_Cons split: nat.splits)

lemma drop_mk_frames: "drop i (mk_frames tx tot n ps) = mk_frames tx tot (n + i) (drop i ps)"
  by (induction ps arbitrary: n i) (auto simp: drop_Cons split: nat.splits)

lemma map_payload_mk_frames [simp]: "map f_payload (mk_frames tx tot n ps) = ps"
  by (induction ps arbitrary: n) (simp_all add: mk_frame_def frame_new_def)

lemma mk_frame_simps [simp]:
  "f_payload (mk_frame tx tot n p) = p" "f_txid (mk_frame tx tot n p) = tx"
  "f_total_len (mk_frame tx tot n p) = tot" "f_seq (mk_frame tx tot n p) = of_nat n"
  "f_type (mk_frame tx tot n p) = DataBinary"
  by (simp_all add: mk_frame_def frame_new_def)

lemma concat_chunks_rest:
  "0 < n \<Longrightarrow> concat (chunks_exact n xs) @ drop (length (chunks_exact n xs) * n) xs = xs \<and>
   length (drop (length (chunks_exact n xs) * n) xs) < n"
proof (induction n xs rule: chunks_exact.induct)
  case (1 n xs)
  then show ?case
    by (cases "length xs < n") (auto simp: chunks_exact.simps [of n xs] add.commute)
qed

lemma length_concat_chunks: "length (concat (chunks_exact n xs)) = length (chunks_exact n xs) * n"
  by (simp add: length_concat chunks_exact_length sum_list_triv cong: map_cong)

lemma concat_pieces: "0 < fsz \<Longrightarrow> concat (pieces fsz bs) = bs"
  using concat_chunks_rest [of fsz bs] by (auto simp: pieces_def Let_def)

lemma pieces_bounds: "0 < fsz \<Longrightarrow> p \<in> set (pieces fsz bs) \<Longrightarrow> p \<noteq> [] \<and> length p \<le> fsz"
  using concat_chunks_rest [of fsz bs]
  by (auto simp: pieces_def Let_def split: if_splits dest: chunks_exact_length)

definition sent_state :: "nat \<Rightarrow> frame_state" where
  "sent_state now = \<lparr>st_confirmed = False, st_last_sent_ms = now, st_attempts = 0\<rparr>"

text \<open>The framing loop in closed form.\<close>

lemma frame_loop_eq:
  assumes "0 < fsz"
  shows "frame_loop fsz tx now t out =
    (let qs = chunks_exact fsz (pt_partial t);
         fs = mk_frames tx (pt_total_len t) (length (pt_frames t)) qs
     in (t\<lparr>pt_frames := pt_frames t @ map Some fs,
           pt_states := pt_states t @ replicate (length qs) (sent_state now),
           pt_partial := drop (length qs * fsz) (pt_partial t)\<rparr>, out @ fs))"
  using assms
proof (induction fsz tx now t out rule: frame_loop.induct)
  case (1 fsz tx now t out)
  show ?case
  proof (cases "length (pt_partial t) < fsz")
    case True
    then show ?thesis
      by (simp add: frame_loop.simps [of fsz tx now t] chunks_exact.simps [of fsz "pt_partial t"])
  next
    case False
    let ?p = "take fsz (pt_partial t)"
    let ?t = "t\<lparr>pt_partial := drop fsz (pt_partial t)\<rparr>"
    have pf: "push_frame tx now ?p ?t =
        (?t\<lparr>pt_frames := pt_frames t @ [Some (mk_frame tx (pt_total_len t) (length (pt_frames t)) ?p)],
            pt_states := pt_states t @ [sent_state now]\<rparr>,
         mk_frame tx (pt_total_len t) (length (pt_frames t)) ?p)"
      by (simp add: push_frame_def Let_def mk_frame_def sent_state_def)
    have ch: "chunks_exact fsz (pt_partial t) = ?p # chunks_exact fsz (drop fsz (pt_partial t))"
      using False "1.prems" by (simp add: chunks_exact.simps [of fsz "pt_partial t"])
    show ?thesis
      using "1.IH" [OF _ refl pf [symmetric] refl] False "1.prems"
      by (simp add: frame_loop.simps [of fsz tx now t] pf ch Let_def add.commute)
  qed
qed

section \<open>Sender invariant\<close>

text \<open>
  \<open>txn_inv fsz tx ps k t\<close>: the transaction \<open>tx\<close> has been cut into the non-empty pieces \<open>ps\<close>, of which
  the first \<open>k\<close> are confirmed and released, exactly the others are retained under their own sequence
  number, and the byte counters say so.
\<close>

definition txn_inv :: "nat \<Rightarrow> txid \<Rightarrow> byte list list \<Rightarrow> nat \<Rightarrow> pending_txn \<Rightarrow> bool" where
  "txn_inv fsz tx ps k t \<longleftrightarrow>
    k \<le> length ps \<and> (\<forall>p\<in>set ps. p \<noteq> [] \<and> length p \<le> fsz) \<and> length (pt_partial t) < fsz \<and>
    pt_frames t = replicate k None @ map Some (mk_frames tx (pt_total_len t) k (drop k ps)) \<and>
    map st_confirmed (pt_states t) = replicate k True @ replicate (length ps - k) False \<and>
    pt_bytes t = length (concat (drop k ps)) + length (pt_partial t) \<and>
    pt_written t = length (concat ps) + length (pt_partial t) \<and>
    pt_written t \<le> unat (pt_total_len t) \<and> pt_total_len t \<noteq> 0"

definition sender_inv :: "transaction_sender \<Rightarrow> bool" where
  "sender_inv s \<longleftrightarrow>
    0 < sc_frame_size (ts_config s) \<and> hm_inv (ts_pending s) \<and>
    (\<forall>tx t. get_txn s tx = Some t \<longrightarrow> (\<exists>ps k. txn_inv (sc_frame_size (ts_config s)) tx ps k t)) \<and>
    unacked_bytes s \<le> sc_backpressure_cap_bytes (ts_config s)"

lemma length_le_concat: "(\<And>p. p \<in> set ps \<Longrightarrow> p \<noteq> []) \<Longrightarrow> length ps \<le> length (concat ps)"
proof (induction ps)
  case (Cons p ps)
  then have "1 \<le> length p"
    by (cases p) auto
  with Cons show ?case by force
qed simp

lemma txn_inv_counts:
  assumes "txn_inv fsz tx ps k t"
  shows "length (pt_frames t) = length ps" "length (pt_states t) = length ps"
    "length ps \<le> unat (pt_total_len t)" "unat (frame_count t) = length ps"
proof -
  show f: "length (pt_frames t) = length ps"
    using assms by (simp add: txn_inv_def)
  show "length (pt_states t) = length ps"
  proof -
    have "length (map st_confirmed (pt_states t)) = k + (length ps - k)" "k \<le> length ps"
      using assms by (simp_all only: txn_inv_def length_append length_replicate)
    then show ?thesis by simp
  qed
  show le: "length ps \<le> unat (pt_total_len t)"
    using assms length_le_concat [of ps] by (simp add: txn_inv_def)
  then have "length ps < 2 ^ 32"
    using unsigned_less [of "pt_total_len t", where ?'a = nat] by simp
  then show "unat (frame_count t) = length ps"
    by (simp add: frame_count_def f unat_of_nat_u32)
qed

lemma unacked_total: "unacked_bytes s = hm.total pt_bytes (ts_pending s)"
  by (simp add: unacked_bytes_def hm.total_def)

lemma unacked_put:
  "hm_inv (ts_pending s) \<Longrightarrow> get_txn s tx = Some t \<Longrightarrow>
   unacked_bytes (put_txn tx t' s) + pt_bytes t = unacked_bytes s + pt_bytes t'"
  using hm.total_put [of "ts_pending s" tx t pt_bytes t'] by (simp add: unacked_total)

lemma unacked_put_fresh:
  "hm_inv (ts_pending s) \<Longrightarrow> get_txn s tx = None \<Longrightarrow>
   unacked_bytes (put_txn tx t' s) = unacked_bytes s + pt_bytes t'"
  using hm.total_put_fresh [of "ts_pending s" tx pt_bytes t'] by (simp add: unacked_total)

lemma unacked_del:
  "hm_inv (ts_pending s) \<Longrightarrow>
   unacked_bytes (s\<lparr>ts_pending := hm_del tx (ts_pending s)\<rparr>) \<le> unacked_bytes s"
  using hm.total_del_le [of "ts_pending s" pt_bytes tx] by (simp add: unacked_total)

lemma sender_inv_get:
  assumes "sender_inv s" "get_txn s tx = Some t"
  obtains ps k where "txn_inv (sc_frame_size (ts_config s)) tx ps k t"
  using assms unfolding sender_inv_def by blast

lemma sender_inv_put:
  "sender_inv s \<Longrightarrow> txn_inv (sc_frame_size (ts_config s)) tx ps k t' \<Longrightarrow>
   unacked_bytes (put_txn tx t' s) \<le> sc_backpressure_cap_bytes (ts_config s) \<Longrightarrow>
   sender_inv (put_txn tx t' s)"
  by (auto simp: sender_inv_def)

lemma sender_inv_shrink:
  assumes "sender_inv s" "get_txn s tx = Some t" "pt_bytes t' \<le> pt_bytes t"
    and "txn_inv (sc_frame_size (ts_config s)) tx ps k t'"
  shows "sender_inv (put_txn tx t' s)"
  using assms unacked_put [of s tx t t'] by (intro sender_inv_put) (auto simp: sender_inv_def)

lemma sender_inv_del:
  "sender_inv s \<Longrightarrow> sender_inv (s\<lparr>ts_pending := hm_del tx (ts_pending s)\<rparr>)"
  using unacked_del [of s tx] by (auto simp: sender_inv_def)

text \<open>Bookkeeping updates keep the transaction invariant.\<close>

lemma txn_inv_flags [simp]:
  "txn_inv fsz tx ps k (t\<lparr>pt_paused := b\<rparr>) = txn_inv fsz tx ps k t"
  "txn_inv fsz tx ps k (t\<lparr>pt_awaiting_resume := b\<rparr>) = txn_inv fsz tx ps k t"
  "txn_inv fsz tx ps k (t\<lparr>pt_declared_ms := d\<rparr>) = txn_inv fsz tx ps k t"
  "txn_inv fsz tx ps k (t\<lparr>pt_last_progress_ms := n\<rparr>) = txn_inv fsz tx ps k t"
  "txn_inv fsz tx ps k (t\<lparr>pt_acked_contiguous := a\<rparr>) = txn_inv fsz tx ps k t"
  "txn_inv fsz tx ps k (t\<lparr>pt_acked_received := r\<rparr>) = txn_inv fsz tx ps k t"
  by (simp_all add: txn_inv_def)

lemma txn_inv_states:
  "map st_confirmed sts = map st_confirmed (pt_states t) \<Longrightarrow>
   txn_inv fsz tx ps k (t\<lparr>pt_states := sts\<rparr>) = txn_inv fsz tx ps k t"
  by (simp add: txn_inv_def)

lemma txn_inv_fresh: "0 < fsz \<Longrightarrow> tot \<noteq> 0 \<Longrightarrow> txn_inv fsz tx [] 0 (fresh_txn tot now)"
  by (simp add: txn_inv_def fresh_txn_def)

text \<open>Appending bytes and framing them.\<close>

lemma txn_inv_append:
  assumes "txn_inv fsz tx ps k t" "pt_written t + length chunk \<le> unat (pt_total_len t)"
    and "frame_loop fsz tx now
        (t\<lparr>pt_partial := pt_partial t @ chunk, pt_written := pt_written t + length chunk,
           pt_bytes := pt_bytes t + length chunk\<rparr>) [] = (t', out)"
  shows "txn_inv fsz tx (ps @ chunks_exact fsz (pt_partial t @ chunk)) k t'"
    and "out = mk_frames tx (pt_total_len t) (length ps) (chunks_exact fsz (pt_partial t @ chunk))"
    and "pt_partial t' = drop (length (chunks_exact fsz (pt_partial t @ chunk)) * fsz) (pt_partial t @ chunk)"
    and "pt_bytes t' = pt_bytes t + length chunk" "pt_written t' = pt_written t + length chunk"
    and "pt_total_len t' = pt_total_len t"
proof -
  have fsz: "0 < fsz"
    using assms(1) by (auto simp: txn_inv_def)
  let ?b = "pt_partial t @ chunk"
  let ?qs = "chunks_exact fsz ?b"
  let ?fs = "mk_frames tx (pt_total_len t) (length ps) ?qs"
  have t': "t' = t\<lparr>pt_frames := pt_frames t @ map Some ?fs,
           pt_states := pt_states t @ replicate (length ?qs) (sent_state now),
           pt_partial := drop (length ?qs * fsz) ?b,
           pt_written := pt_written t + length chunk, pt_bytes := pt_bytes t + length chunk\<rparr>"
    and out: "out = ?fs"
    using assms(3) txn_inv_counts(1) [OF assms(1)] by (auto simp: frame_loop_eq [OF fsz] Let_def)
  have split: "concat ?qs @ drop (length ?qs * fsz) ?b = ?b" "length (drop (length ?qs * fsz) ?b) < fsz"
    using concat_chunks_rest [OF fsz, of ?b] by auto
  have len: "length (concat ?qs) + length (drop (length ?qs * fsz) ?b) = length (pt_partial t) + length chunk"
    using arg_cong [OF split(1), of length] by simp
  have qs: "q \<noteq> [] \<and> length q \<le> fsz" if "q \<in> set ?qs" for q
    using chunks_exact_length [OF that] fsz by auto
  show "out = ?fs" "pt_partial t' = drop (length ?qs * fsz) ?b"
    "pt_bytes t' = pt_bytes t + length chunk" "pt_written t' = pt_written t + length chunk"
    "pt_total_len t' = pt_total_len t"
    by (simp_all add: out t')
  show "txn_inv fsz tx (ps @ ?qs) k t'"
    using assms(1,2) qs split(2) len
    by (auto simp: txn_inv_def t' mk_frames_append sent_state_def map_replicate_const
        replicate_append_same Suc_diff_le simp flip: replicate_add)
qed

lemma txn_inv_push:
  assumes "txn_inv fsz tx ps k t" "pt_partial t \<noteq> []"
    and "push_frame tx now (pt_partial t) (t\<lparr>pt_partial := []\<rparr>) = (t', f)"
  shows "txn_inv fsz tx (ps @ [pt_partial t]) k t'" "f = mk_frame tx (pt_total_len t) (length ps) (pt_partial t)"
    "pt_bytes t' = pt_bytes t" "pt_partial t' = []" "pt_written t' = pt_written t"
    "pt_total_len t' = pt_total_len t"
proof -
  have t': "t' = t\<lparr>pt_partial := [],
      pt_frames := pt_frames t @ [Some (mk_frame tx (pt_total_len t) (length ps) (pt_partial t))],
      pt_states := pt_states t @ [sent_state now]\<rparr>"
    and f: "f = mk_frame tx (pt_total_len t) (length ps) (pt_partial t)"
    using assms(3) txn_inv_counts(1) [OF assms(1)]
    by (auto simp: push_frame_def Let_def mk_frame_def sent_state_def)
  show "f = mk_frame tx (pt_total_len t) (length ps) (pt_partial t)" "pt_bytes t' = pt_bytes t"
    "pt_partial t' = []" "pt_written t' = pt_written t" "pt_total_len t' = pt_total_len t"
    by (simp_all add: t' f)
  show "txn_inv fsz tx (ps @ [pt_partial t]) k t'"
    using assms(1,2)
    by (auto simp: txn_inv_def t' mk_frames_append sent_state_def Suc_diff_le replicate_append_same)
qed

text \<open>Releasing a confirmed prefix.\<close>

lemma release_frames_eq:
  "release_frames (replicate k None @ map Some fs) b =
    (replicate (k + length fs) None, b - length (concat (map f_payload fs)))"
proof (induction k)
  case 0
  show ?case
    by (induction fs arbitrary: b) (simp_all add: Let_def)
next
  case (Suc k)
  then show ?case by (simp add: Let_def)
qed

lemma ack_txn_eq:
  assumes "txn_inv fsz tx ps k t"
  shows "ack_txn e now t =
    t\<lparr>pt_acked_contiguous := Some (acked_progress e t),
      pt_acked_received := max (pt_acked_received t) (ae_received_frames e),
      pt_last_progress_ms := now,
      pt_states := map (\<lambda>st. st\<lparr>st_confirmed := True\<rparr>) (take (ack_upto e t) (pt_states t))
                     @ drop (ack_upto e t) (pt_states t),
      pt_frames := replicate (max k (ack_upto e t)) None
                     @ map Some (mk_frames tx (pt_total_len t) (max k (ack_upto e t)) (drop (max k (ack_upto e t)) ps)),
      pt_bytes := length (concat (drop (max k (ack_upto e t)) ps)) + length (pt_partial t)\<rparr>"
proof -
  let ?u = "ack_upto e t"
  let ?fs = "mk_frames tx (pt_total_len t) k (drop k ps)"
  have F: "pt_frames t = replicate k None @ map Some ?fs" "k \<le> length ps"
      "pt_bytes t = length (concat (drop k ps)) + length (pt_partial t)"
    using assms by (simp_all add: txn_inv_def)
  have u: "?u \<le> length ps"
    using txn_inv_counts(2) [OF assms] by (simp add: ack_upto_def)
  have "take ?u (pt_frames t) = replicate (min k ?u) None @ map Some (take (?u - k) ?fs)"
    by (simp add: F take_map min.commute)
  then have rel: "release_frames (take ?u (pt_frames t)) (pt_bytes t) =
      (replicate ?u None, pt_bytes t - length (concat (take (?u - k) (drop k ps))))"
    using F(2) u by (simp add: release_frames_eq take_map [symmetric, where f = f_payload])
  have "replicate ?u None @ drop ?u (pt_frames t) =
      replicate (max k ?u) None @ map Some (mk_frames tx (pt_total_len t) (max k ?u) (drop (max k ?u) ps))"
  proof (cases "?u \<le> k")
    case True
    then show ?thesis
      by (simp add: F max_def flip: replicate_add append.assoc)
  next
    case False
    then show ?thesis
      by (simp add: F max_def drop_map drop_mk_frames)
  qed
  moreover have "pt_bytes t - length (concat (take (?u - k) (drop k ps))) =
      length (concat (drop (max k ?u) ps)) + length (pt_partial t)"
  proof -
    have "concat (drop k ps) = concat (take (?u - k) (drop k ps)) @ concat (drop (?u - k) (drop k ps))"
      by (metis append_take_drop_id concat_append)
    then have "length (concat (drop k ps)) =
        length (concat (take (?u - k) (drop k ps))) + length (concat (drop (max k ?u) ps))"
      by (cases "?u \<le> k") (simp_all add: max_def)
    then show ?thesis
      using F(3) by simp
  qed
  ultimately show ?thesis
    using rel by (simp add: ack_txn_def Let_def)
qed

lemma txn_inv_ack:
  assumes "txn_inv fsz tx ps k t"
  shows "txn_inv fsz tx ps (max k (ack_upto e t)) (ack_txn e now t)"
    and "pt_bytes (ack_txn e now t) \<le> pt_bytes t"
proof -
  let ?u = "ack_upto e t"
  have u: "?u \<le> length ps"
    using txn_inv_counts(2) [OF assms] by (simp add: ack_upto_def)
  have "map st_confirmed (map (\<lambda>st. st\<lparr>st_confirmed := True\<rparr>) (take ?u (pt_states t)) @ drop ?u (pt_states t))
      = replicate ?u True @ drop ?u (map st_confirmed (pt_states t))"
    using u txn_inv_counts(2) [OF assms] by (simp add: drop_map comp_def map_replicate_const)
  also have "\<dots> = replicate (max k ?u) True @ replicate (length ps - max k ?u) False"
    using assms u by (cases "?u \<le> k") (simp_all add: txn_inv_def max_def flip: replicate_add append.assoc)
  finally show "txn_inv fsz tx ps (max k ?u) (ack_txn e now t)"
    using assms u by (subst ack_txn_eq [OF assms]) (auto simp: txn_inv_def)
  have "length (concat (drop (max k ?u) ps)) \<le> length (concat (drop k ps))"
    by (metis append_take_drop_id concat_append drop_drop le_add2 length_append max.cobounded1
        ordered_cancel_comm_monoid_diff_class.diff_add)
  then show "pt_bytes (ack_txn e now t) \<le> pt_bytes t"
    using assms by (subst ack_txn_eq [OF assms]) (simp add: txn_inv_def)
qed

lemma due_frames_confirmed [simp]:
  "map st_confirmed (fst (due_frames cfg now sts fos)) = map st_confirmed sts"
  by (induction cfg now sts fos rule: due_frames.induct) (auto simp: Let_def split_beta split: option.splits)

lemma resend_frames_confirmed [simp]:
  "map st_confirmed (fst (resend_frames now sts fos)) = map st_confirmed sts"
  by (induction now sts fos rule: resend_frames.induct) (auto simp: Let_def split_beta split: option.splits)

lemma nack_loop_keeps:
  "fst (nack_loop sqs now t out) = t\<lparr>pt_states := pt_states (fst (nack_loop sqs now t out))\<rparr> \<and>
   map st_confirmed (pt_states (fst (nack_loop sqs now t out))) = map st_confirmed (pt_states t)"
proof (induction sqs arbitrary: t out)
  case Nil
  then show ?case by simp
next
  case (Cons sq sqs)
  let ?i = "unat sq"
  let ?t = "t\<lparr>pt_states := (pt_states t)[?i := (pt_states t ! ?i)\<lparr>st_last_sent_ms := now\<rparr>]\<rparr>"
  have "map st_confirmed (pt_states ?t) = map st_confirmed (pt_states t)"
    by (cases "?i < length (pt_states t)") (auto simp: map_update list_update_same_conv list_update_beyond)
  then show ?case
    using Cons.IH [of t] Cons.IH [of ?t]
    by (auto simp: Let_def split: option.splits)
qed

section \<open>Every operation keeps the invariant\<close>

lemma sender_inv_new [simp]: "sender_inv (sender_new cfg)"
  by (simp add: sender_inv_def sender_new_def unacked_bytes_def)

lemma open_inv: "sender_inv s \<Longrightarrow> sender_inv (snd (open_transaction s tx tot now))"
  using sender_inv_put [of s tx "[]" 0 "fresh_txn tot now"] txn_inv_fresh [of "sc_frame_size (ts_config s)" tot tx now]
    unacked_put_fresh [of s tx "fresh_txn tot now"]
  by (auto simp: open_transaction_def sender_inv_def hm_contains_def fresh_txn_def)

lemma append_inv:
  assumes "sender_inv s"
  shows "sender_inv (snd (append_chunk s tx chunk now))"
proof (cases "\<exists>out. fst (append_chunk s tx chunk now) = Inr out")
  case False
  then show ?thesis
    using assms by (auto simp: append_chunk_def Let_def split_beta split: option.splits if_splits)
next
  case True
  then obtain t where t: "get_txn s tx = Some t"
      and cap: "unacked_bytes s + length chunk \<le> sc_backpressure_cap_bytes (ts_config s)"
      and tot: "pt_written t + length chunk \<le> unat (pt_total_len t)"
    by (auto simp: append_chunk_def Let_def split_beta split: option.splits if_splits)
  obtain ps k where inv: "txn_inv (sc_frame_size (ts_config s)) tx ps k t"
    using sender_inv_get assms t by blast
  obtain t' out where l: "frame_loop (sc_frame_size (ts_config s)) tx now
      (t\<lparr>pt_partial := pt_partial t @ chunk, pt_written := pt_written t + length chunk,
         pt_bytes := pt_bytes t + length chunk\<rparr>) [] = (t', out)"
    by (metis surj_pair)
  have "snd (append_chunk s tx chunk now) = put_txn tx t' s"
    using t cap tot l by (simp add: append_chunk_def)
  moreover have "unacked_bytes (put_txn tx t' s) = unacked_bytes s + length chunk"
    using assms unacked_put [of s tx t t'] t txn_inv_append(4) [OF inv tot l] by (simp add: sender_inv_def)
  ultimately show ?thesis
    using sender_inv_put [OF assms txn_inv_append(1) [OF inv tot l]] cap by simp
qed

lemma finish_inv:
  assumes "sender_inv s"
  shows "sender_inv (snd (finish_transaction s tx now))"
proof (cases "get_txn s tx")
  case None
  then show ?thesis
    using assms by (simp add: finish_transaction_def)
next
  case (Some t)
  obtain ps k where inv: "txn_inv (sc_frame_size (ts_config s)) tx ps k t"
    using sender_inv_get assms Some by blast
  show ?thesis
  proof (cases "pt_partial t = []")
    case True
    then show ?thesis
      using sender_inv_shrink [OF assms Some _ inv] Some by (simp add: finish_transaction_def)
  next
    case False
    obtain t' f where p: "push_frame tx now (pt_partial t) (t\<lparr>pt_partial := []\<rparr>) = (t', f)"
      by (metis surj_pair)
    have "sender_inv (put_txn tx t' s)"
      using sender_inv_shrink [OF assms Some _ txn_inv_push(1) [OF inv False p]]
        txn_inv_push(3) [OF inv False p] by simp
    then show ?thesis
      using Some False p by (simp add: finish_transaction_def)
  qed
qed

lemma begin_inv: "sender_inv s \<Longrightarrow> sender_inv (snd (begin_transaction s tx payload now))"
  using open_inv [of s tx "of_nat (length payload)" now]
    append_inv [of "snd (open_transaction s tx (of_nat (length payload)) now)" tx payload now]
    finish_inv [of "snd (append_chunk (snd (open_transaction s tx (of_nat (length payload)) now)) tx payload now)" tx now]
  by (auto simp: begin_transaction_def Let_def split: prod.splits sum.splits)

lemma set_paused_inv:
  assumes "sender_inv s"
  shows "sender_inv (snd (set_paused s tx b now))"
proof (cases "get_txn s tx")
  case (Some t)
  obtain ps k where "txn_inv (sc_frame_size (ts_config s)) tx ps k t"
    using sender_inv_get assms Some by blast
  then show ?thesis
    using assms Some
    by (auto simp: set_paused_def Let_def intro!: sender_inv_shrink [of s tx t _ ps k]
        txn_inv_states [THEN iffD2])
qed (use assms in \<open>simp add: set_paused_def\<close>)

lemma abort_inv: "sender_inv s \<Longrightarrow> sender_inv (snd (abort_transaction s tx))"
  by (simp add: abort_transaction_def sender_inv_del)

lemma ack_inv:
  assumes "sender_inv s"
  shows "sender_inv (snd (handle_ack s e now))"
proof (cases "get_txn s (ae_txid e)")
  case (Some t)
  obtain ps k where inv: "txn_inv (sc_frame_size (ts_config s)) (ae_txid e) ps k t"
    using sender_inv_get assms Some by blast
  show ?thesis
    using assms Some sender_inv_shrink [OF assms Some txn_inv_ack(2) [OF inv] txn_inv_ack(1) [OF inv]]
    by (simp add: handle_ack_def Let_def sender_inv_del)
qed (use assms in \<open>simp add: handle_ack_def\<close>)

lemma nack_inv:
  assumes "sender_inv s"
  shows "sender_inv (snd (handle_nack s tx missing now))"
proof (cases "get_txn s tx")
  case (Some t)
  obtain ps k where inv: "txn_inv (sc_frame_size (ts_config s)) tx ps k t"
    using sender_inv_get assms Some by blast
  define r where "r = nack_loop missing now (t\<lparr>pt_last_progress_ms := now\<rparr>) []"
  have k: "fst r = t\<lparr>pt_last_progress_ms := now, pt_states := pt_states (fst r)\<rparr>"
      "map st_confirmed (pt_states (fst r)) = map st_confirmed (pt_states t)"
    using nack_loop_keeps [of missing now "t\<lparr>pt_last_progress_ms := now\<rparr>" "[]"] by (simp_all add: r_def)
  have "txn_inv (sc_frame_size (ts_config s)) tx ps k (fst r)"
    using inv by (subst k(1)) (simp add: txn_inv_states k(2))
  moreover have "pt_bytes (fst r) = pt_bytes t"
    by (subst k(1)) simp
  ultimately have "sender_inv (put_txn tx (fst r) s)"
    using sender_inv_shrink [OF assms Some] by simp
  moreover have "sender_inv (put_txn tx (t\<lparr>pt_last_progress_ms := now\<rparr>) s)"
    using sender_inv_shrink [OF assms Some, of "t\<lparr>pt_last_progress_ms := now\<rparr>" ps k] inv by simp
  ultimately show ?thesis
    using Some by (simp add: handle_nack_def Let_def split_beta flip: r_def)
qed (use assms in \<open>simp add: handle_nack_def\<close>)

lemma states_inv:
  assumes "sender_inv s" "get_txn s tx = Some t" "map st_confirmed sts = map st_confirmed (pt_states t)"
  shows "sender_inv (put_txn tx (t\<lparr>pt_states := sts\<rparr>) s)"
proof -
  obtain ps k where "txn_inv (sc_frame_size (ts_config s)) tx ps k t"
    using sender_inv_get assms by blast
  then show ?thesis
    using assms by (intro sender_inv_shrink [of s tx t _ ps k]) (auto simp: txn_inv_states)
qed

lemma due_loop_inv: "sender_inv s \<Longrightarrow> sender_inv (snd (due_loop txs now s out))"
proof (induction txs arbitrary: s out)
  case (Cons tx txs)
  show ?case
  proof (cases "get_txn s tx")
    case (Some t)
    have "sender_inv (put_txn tx (t\<lparr>pt_states := fst (due_frames (ts_config s) now (pt_states t) (pt_frames t))\<rparr>) s)"
      using Cons.prems Some by (intro states_inv) simp_all
    then show ?thesis
      using Cons Some by (simp add: split_beta)
  qed (use Cons in simp)
qed simp

lemma due_inv: "sender_inv s \<Longrightarrow> sender_inv (snd (due_retransmissions s now))"
  by (simp add: due_retransmissions_def due_loop_inv)

lemma sender_inv_map:
  assumes "sender_inv s"
    and f: "\<And>fsz tx ps k t. txn_inv fsz tx ps k t \<Longrightarrow> txn_inv fsz tx ps k (f tx t)"
      "\<And>tx t. pt_bytes (f tx t) = pt_bytes t"
  shows "sender_inv (s\<lparr>ts_pending := map (\<lambda>(tx, t). (tx, f tx t)) (ts_pending s)\<rparr>)"
proof -
  have "unacked_bytes (s\<lparr>ts_pending := map (\<lambda>(tx, t). (tx, f tx t)) (ts_pending s)\<rparr>) = unacked_bytes s"
    by (simp add: unacked_bytes_def comp_def split_beta f(2))
  then show ?thesis
    using assms(1) f(1) by (auto simp: sender_inv_def hm_get_map) blast
qed

lemma declare_inv: "sender_inv s \<Longrightarrow> sender_inv (snd (declare_pending s now))"
  unfolding declare_pending_def snd_conv by (rule sender_inv_map) simp_all

lemma timed_out_inv: "sender_inv s \<Longrightarrow> sender_inv (snd (timed_out_declarations s now timeout))"
  unfolding timed_out_declarations_def snd_conv by (rule sender_inv_map) simp_all

lemma verdict_inv:
  assumes "sender_inv s"
  shows "sender_inv (fst (apply_verdict now e s out))"
proof (cases "get_txn s (rs_txid e)")
  case (Some t)
  let ?t = "t\<lparr>pt_awaiting_resume := False, pt_declared_ms := None, pt_last_progress_ms := now\<rparr>"
  obtain ps k where inv: "txn_inv (sc_frame_size (ts_config s)) (rs_txid e) ps k t"
    using sender_inv_get assms Some by blast
  have 1: "sender_inv (put_txn (rs_txid e) ?t s)"
    using inv by (intro sender_inv_shrink [OF assms Some, of _ ps k]) simp_all
  have 2: "sender_inv (put_txn (rs_txid e)
      (?t\<lparr>pt_states := fst (resend_frames now (pt_states t) (pt_frames t))\<rparr>) s)"
    using inv by (intro sender_inv_shrink [OF assms Some, of _ ps k]) (simp_all add: txn_inv_states)
  show ?thesis
    using Some 1 2 assms
    by (auto simp: apply_verdict_def Let_def split_beta sender_inv_del split: resume_status.splits)
qed (use assms in \<open>simp add: apply_verdict_def split: resume_status.splits\<close>)

lemma verdict_loop_inv: "sender_inv s \<Longrightarrow> sender_inv (fst (verdict_loop now es s out))"
  by (induction es arbitrary: s out) (simp_all add: split_beta verdict_inv)

lemma verdicts_inv: "sender_inv s \<Longrightarrow> sender_inv (snd (apply_resume_verdicts s es now))"
  by (simp add: apply_resume_verdicts_def split_beta verdict_loop_inv)

lemmas sender_inv_ops =
  open_inv append_inv finish_inv begin_inv set_paused_inv abort_inv ack_inv nack_inv due_inv
  declare_inv timed_out_inv verdicts_inv

text \<open>The mutating operations of the sender as one step function.\<close>

datatype sender_op =
    OpBegin txid "byte list" | OpOpen txid u32 | OpAppend txid "byte list" | OpFinish txid
  | OpPause txid bool | OpAbort txid | OpAck ack_entry | OpNack txid "u32 list" | OpDue
  | OpDeclare | OpTimedOut nat | OpVerdicts "resume_status_entry list"

fun sender_step :: "nat \<times> sender_op \<Rightarrow> transaction_sender \<Rightarrow> transaction_sender" where
  "sender_step (now, OpBegin tx p) s = snd (begin_transaction s tx p now)"
| "sender_step (now, OpOpen tx tot) s = snd (open_transaction s tx tot now)"
| "sender_step (now, OpAppend tx c) s = snd (append_chunk s tx c now)"
| "sender_step (now, OpFinish tx) s = snd (finish_transaction s tx now)"
| "sender_step (now, OpPause tx b) s = snd (set_paused s tx b now)"
| "sender_step (now, OpAbort tx) s = snd (abort_transaction s tx)"
| "sender_step (now, OpAck e) s = snd (handle_ack s e now)"
| "sender_step (now, OpNack tx ms) s = snd (handle_nack s tx ms now)"
| "sender_step (now, OpDue) s = snd (due_retransmissions s now)"
| "sender_step (now, OpDeclare) s = snd (declare_pending s now)"
| "sender_step (now, OpTimedOut d) s = snd (timed_out_declarations s now d)"
| "sender_step (now, OpVerdicts es) s = snd (apply_resume_verdicts s es now)"

lemma sender_step_inv: "sender_inv s \<Longrightarrow> sender_inv (sender_step op s)"
  by (cases "(op, s)" rule: sender_step.cases) (simp_all add: sender_inv_ops)

interpretation sender_machine: invariant_machine sender_step sender_inv
  by unfold_locales (rule sender_step_inv)

section \<open>What each operation does\<close>

lemma txn_inv_nth:
  assumes "txn_inv fsz tx ps k t" "i < length ps"
  shows "st_confirmed (pt_states t ! i) \<longleftrightarrow> i < k"
    and "pt_frames t ! i = (if i < k then None else Some (mk_frame tx (pt_total_len t) i (ps ! i)))"
proof -
  have len: "length (pt_states t) = length ps" "k \<le> length ps"
    using txn_inv_counts(2) [OF assms(1)] assms(1) by (simp_all add: txn_inv_def)
  have "map st_confirmed (pt_states t) ! i = (replicate k True @ replicate (length ps - k) False) ! i"
    using assms(1) by (simp only: txn_inv_def)
  then show "st_confirmed (pt_states t ! i) \<longleftrightarrow> i < k"
    using len assms(2) by (simp add: nth_append)
  show "pt_frames t ! i = (if i < k then None else Some (mk_frame tx (pt_total_len t) i (ps ! i)))"
    using assms by (simp add: txn_inv_def nth_append nth_mk_frames)
qed

lemma chunks_exact_split:
  "0 < n \<Longrightarrow> chunks_exact n (xs @ ys) =
    chunks_exact n xs @ chunks_exact n (drop (length (chunks_exact n xs) * n) xs @ ys)"
proof (induction n xs rule: chunks_exact.induct)
  case (1 n xs)
  show ?case
  proof (cases "length xs < n")
    case True
    then show ?thesis
      by (simp add: chunks_exact.simps [of n xs])
  next
    case False
    then show ?thesis
      using 1 by (simp add: chunks_exact.simps [of n xs] chunks_exact.simps [of n "xs @ ys"] add.commute)
  qed
qed

text \<open>Several appends in a row, as a streaming caller issues them; each has its own instant.\<close>

primrec append_all ::
  "transaction_sender \<Rightarrow> txid \<Rightarrow> (nat \<times> byte list) list \<Rightarrow> (begin_error + frame list) \<times> transaction_sender" where
  "append_all s tx [] = (Inr [], s)"
| "append_all s tx (c # cs) =
    (case append_chunk s tx (snd c) (fst c) of
       (Inl e, s1) \<Rightarrow> (Inl e, s1)
     | (Inr fs, s1) \<Rightarrow> apfst (map_sum id (append fs)) (append_all s1 tx cs))"

lemma append_chunk_ok:
  assumes "sender_inv s" "get_txn s tx = Some t" "txn_inv (sc_frame_size (ts_config s)) tx ps k t"
    and "unacked_bytes s + length chunk \<le> sc_backpressure_cap_bytes (ts_config s)"
    and "pt_written t + length chunk \<le> unat (pt_total_len t)"
  obtains t' s' where "append_chunk s tx chunk now =
      (Inr (mk_frames tx (pt_total_len t) (length ps)
        (chunks_exact (sc_frame_size (ts_config s)) (pt_partial t @ chunk))), s')"
    "sender_inv s'" "ts_config s' = ts_config s" "get_txn s' tx = Some t'"
    "txn_inv (sc_frame_size (ts_config s)) tx
      (ps @ chunks_exact (sc_frame_size (ts_config s)) (pt_partial t @ chunk)) k t'"
    "unacked_bytes s' = unacked_bytes s + length chunk"
    "pt_written t' = pt_written t + length chunk" "pt_total_len t' = pt_total_len t"
    "pt_partial t' = drop (length (chunks_exact (sc_frame_size (ts_config s)) (pt_partial t @ chunk))
        * sc_frame_size (ts_config s)) (pt_partial t @ chunk)"
proof -
  obtain t' out where l: "frame_loop (sc_frame_size (ts_config s)) tx now
      (t\<lparr>pt_partial := pt_partial t @ chunk, pt_written := pt_written t + length chunk,
         pt_bytes := pt_bytes t + length chunk\<rparr>) [] = (t', out)"
    by (metis surj_pair)
  note a = txn_inv_append [OF assms(3,5) l]
  have ac: "append_chunk s tx chunk now = (Inr out, put_txn tx t' s)"
    using assms l by (simp add: append_chunk_def)
  moreover have "unacked_bytes (put_txn tx t' s) = unacked_bytes s + length chunk"
    using assms unacked_put [of s tx t t'] a(4) by (simp add: sender_inv_def)
  moreover have "sender_inv (put_txn tx t' s)"
    using append_inv [OF assms(1), of tx chunk now] ac by simp
  ultimately show ?thesis
    using that [of "put_txn tx t' s" t'] a by simp
qed

lemma append_all_ok:
  "sender_inv s \<Longrightarrow> get_txn s tx = Some t \<Longrightarrow> txn_inv (sc_frame_size (ts_config s)) tx ps k t \<Longrightarrow>
   unacked_bytes s + length (concat (map snd cs)) \<le> sc_backpressure_cap_bytes (ts_config s) \<Longrightarrow>
   pt_written t + length (concat (map snd cs)) \<le> unat (pt_total_len t) \<Longrightarrow>
   \<exists>s' t' qs. append_all s tx cs = (Inr (mk_frames tx (pt_total_len t) (length ps) qs), s') \<and>
     qs @ chunks_exact (sc_frame_size (ts_config s)) (pt_partial t') =
       chunks_exact (sc_frame_size (ts_config s)) (pt_partial t @ concat (map snd cs)) \<and>
     concat qs @ pt_partial t' = pt_partial t @ concat (map snd cs) \<and>
     sender_inv s' \<and> ts_config s' = ts_config s \<and> get_txn s' tx = Some t' \<and>
     txn_inv (sc_frame_size (ts_config s)) tx (ps @ qs) k t' \<and>
     pt_written t' = pt_written t + length (concat (map snd cs)) \<and> pt_total_len t' = pt_total_len t"
proof (induction cs arbitrary: s t ps)
  case Nil
  then show ?case
    by (intro exI [of _ s] exI [of _ t] exI [of _ "[]"]) simp
next
  case (Cons c cs)
  let ?n = "sc_frame_size (ts_config s)"
  let ?q0 = "chunks_exact ?n (pt_partial t @ snd c)"
  have n: "0 < ?n"
    using Cons.prems(1) by (simp add: sender_inv_def)
  obtain t1 s1 where a: "append_chunk s tx (snd c) (fst c) = (Inr (mk_frames tx (pt_total_len t) (length ps) ?q0), s1)"
      "sender_inv s1" "ts_config s1 = ts_config s" "get_txn s1 tx = Some t1"
      "txn_inv ?n tx (ps @ ?q0) k t1" "unacked_bytes s1 = unacked_bytes s + length (snd c)"
      "pt_written t1 = pt_written t + length (snd c)" "pt_total_len t1 = pt_total_len t"
      "pt_partial t1 = drop (length ?q0 * ?n) (pt_partial t @ snd c)"
    by (rule append_chunk_ok [OF Cons.prems(1-3), where chunk = "snd c" and now = "fst c"])
      (use Cons.prems in auto)
  obtain s' t' qs where b: "append_all s1 tx cs = (Inr (mk_frames tx (pt_total_len t1) (length (ps @ ?q0)) qs), s')"
      "qs @ chunks_exact ?n (pt_partial t') = chunks_exact ?n (pt_partial t1 @ concat (map snd cs))"
      "concat qs @ pt_partial t' = pt_partial t1 @ concat (map snd cs)"
      "sender_inv s'" "ts_config s' = ts_config s1" "get_txn s' tx = Some t'"
      "txn_inv ?n tx ((ps @ ?q0) @ qs) k t'"
      "pt_written t' = pt_written t1 + length (concat (map snd cs))" "pt_total_len t' = pt_total_len t1"
    using Cons.IH [of s1 t1 "ps @ ?q0"] a Cons.prems by auto
  have "concat ?q0 @ pt_partial t1 @ concat (map snd cs) = pt_partial t @ snd c @ concat (map snd cs)"
    using concat_chunks_rest [OF n, of "pt_partial t @ snd c"] a(9) by (metis append.assoc)
  then have e: "concat (?q0 @ qs) @ pt_partial t' = pt_partial t @ concat (map snd (c # cs))"
    using b(3) by simp
  have "?q0 @ chunks_exact ?n (pt_partial t1 @ concat (map snd cs)) =
      chunks_exact ?n (pt_partial t @ snd c @ concat (map snd cs))"
    using chunks_exact_split [OF n, of "pt_partial t @ snd c" "concat (map snd cs)"] a(9) by simp
  then have "(?q0 @ qs) @ chunks_exact ?n (pt_partial t') =
      chunks_exact ?n (pt_partial t @ concat (map snd (c # cs)))"
    using b(2) by simp
  moreover have "append_all s tx (c # cs) = (Inr (mk_frames tx (pt_total_len t) (length ps) (?q0 @ qs)), s')"
    using a b by (simp add: mk_frames_append)
  moreover have "pt_written t' = pt_written t + length (concat (map snd (c # cs)))"
    using a b by simp
  moreover have "txn_inv ?n tx (ps @ ?q0 @ qs) k t'"
    using b(7) by (simp only: append.assoc)
  ultimately show ?case
    using e a(3,8) b(4,5,6,9) by (intro exI [of _ s'] exI [of _ t'] exI [of _ "?q0 @ qs"]) (simp only: simp_thms)
qed

lemma finish_ok:
  assumes "sender_inv s" "get_txn s tx = Some t" "txn_inv (sc_frame_size (ts_config s)) tx ps k t"
    and "pt_written t = unat (pt_total_len t)"
  obtains t' s' where "finish_transaction s tx now =
      (Inr (mk_frames tx (pt_total_len t) (length ps) (if pt_partial t = [] then [] else [pt_partial t])), s')"
    "sender_inv s'" "ts_config s' = ts_config s" "get_txn s' tx = Some t'" "is_fully_sent t'"
    "txn_inv (sc_frame_size (ts_config s)) tx (ps @ (if pt_partial t = [] then [] else [pt_partial t])) k t'"
proof (cases "pt_partial t = []")
  case True
  then have "finish_transaction s tx now = (Inr [], put_txn tx t s)"
    using assms by (simp add: finish_transaction_def)
  then show ?thesis
    using that [of "put_txn tx t s" t] True assms finish_inv [OF assms(1), of tx now]
    by (simp add: is_fully_sent_def)
next
  case False
  obtain t' f where p: "push_frame tx now (pt_partial t) (t\<lparr>pt_partial := []\<rparr>) = (t', f)"
    by (metis surj_pair)
  note q = txn_inv_push [OF assms(3) False p]
  have "finish_transaction s tx now = (Inr [f], put_txn tx t' s)"
    using assms False p q by (simp add: finish_transaction_def)
  then show ?thesis
    using that [of "put_txn tx t' s" t'] False assms q finish_inv [OF assms(1), of tx now]
    by (simp add: is_fully_sent_def)
qed

lemma chunks_exact_short: "length xs < n \<Longrightarrow> chunks_exact n xs = []"
  by (simp add: chunks_exact.simps [of n xs])

lemma streamed_frames:
  assumes "sender_inv s" "\<not> contains_transaction s tx" "payload \<noteq> []" "length payload < 2 ^ 32"
    and "unacked_bytes s + length payload \<le> sc_backpressure_cap_bytes (ts_config s)"
    and "concat (map snd cs) = payload"
  obtains s1 s2 s3 fs gs t where "open_transaction s tx (of_nat (length payload)) now = (Inr (), s1)"
    "append_all s1 tx cs = (Inr fs, s2)" "finish_transaction s2 tx now' = (Inr gs, s3)"
    "fs @ gs = mk_frames tx (of_nat (length payload)) 0 (pieces (sc_frame_size (ts_config s)) payload)"
    "sender_inv s3" "get_txn s3 tx = Some t" "is_fully_sent t"
    "txn_inv (sc_frame_size (ts_config s)) tx (pieces (sc_frame_size (ts_config s)) payload) 0 t"
proof -
  let ?n = "sc_frame_size (ts_config s)"
  let ?tot = "of_nat (length payload) :: u32"
  let ?s1 = "put_txn tx (fresh_txn ?tot now) s"
  have n: "0 < ?n"
    using assms(1) by (simp add: sender_inv_def)
  have tot: "unat ?tot = length payload" "?tot \<noteq> 0"
    using assms(3,4) unat_of_nat_u32 [of "length payload"] by auto
  have s1: "open_transaction s tx ?tot now = (Inr (), ?s1)"
    using assms(2) tot(2) by (simp add: open_transaction_def contains_transaction_def)
  then have i1: "sender_inv ?s1"
    using open_inv [OF assms(1), of tx ?tot now] by simp
  have u1: "unacked_bytes ?s1 = unacked_bytes s"
    using assms(1,2) unacked_put_fresh [of s tx "fresh_txn ?tot now"]
    by (simp add: sender_inv_def contains_transaction_def hm_contains_def fresh_txn_def)
  obtain s2 t2 qs where a: "append_all ?s1 tx cs = (Inr (mk_frames tx ?tot 0 qs), s2)"
      "qs @ chunks_exact ?n (pt_partial t2) = chunks_exact ?n payload" "concat qs @ pt_partial t2 = payload"
      "sender_inv s2" "ts_config s2 = ts_config s" "get_txn s2 tx = Some t2"
      "txn_inv ?n tx qs 0 t2" "pt_written t2 = length payload" "pt_total_len t2 = ?tot"
    using append_all_ok [OF i1, of tx "fresh_txn ?tot now" "[]" 0 cs] txn_inv_fresh [OF n tot(2), of tx now]
      assms(5,6) tot(1) u1 by (auto simp: fresh_txn_def)
  have "length (pt_partial t2) < ?n"
    using a(7) by (simp add: txn_inv_def)
  then have qs: "qs = chunks_exact ?n payload"
    using a(2) by (simp add: chunks_exact_short)
  moreover have "drop (length qs * ?n) payload = pt_partial t2"
    using a(3) length_concat_chunks [of ?n payload] qs by (metis append_eq_conv_conj)
  ultimately have pc: "pieces ?n payload = qs @ (if pt_partial t2 = [] then [] else [pt_partial t2])"
    by (simp add: pieces_def Let_def del: drop_eq_Nil)
  obtain t3 s3 where f: "finish_transaction s2 tx now' = (Inr (mk_frames tx ?tot (length qs)
        (if pt_partial t2 = [] then [] else [pt_partial t2])), s3)"
      "sender_inv s3" "get_txn s3 tx = Some t3" "is_fully_sent t3" "txn_inv ?n tx (pieces ?n payload) 0 t3"
    by (rule finish_ok [OF a(4,6), of qs 0, where now = now']) (use a pc tot in auto)
  show ?thesis
    using that [OF s1 a(1) f(1) _ f(2,3,4,5)] by (simp add: pc mk_frames_append)
qed

lemma begin_ok:
  assumes "sender_inv s" "\<not> contains_transaction s tx" "payload \<noteq> []" "length payload < 2 ^ 32"
    and "unacked_bytes s + length payload \<le> sc_backpressure_cap_bytes (ts_config s)"
  obtains s' t where "begin_transaction s tx payload now =
      (Inr (mk_frames tx (of_nat (length payload)) 0 (pieces (sc_frame_size (ts_config s)) payload)), s')"
    "sender_inv s'" "get_txn s' tx = Some t" "is_fully_sent t"
    "txn_inv (sc_frame_size (ts_config s)) tx (pieces (sc_frame_size (ts_config s)) payload) 0 t"
proof (rule streamed_frames [OF assms, of "[(now, payload)]", where now = now and now' = now])
  fix s1 s2 s3 fs gs t
  assume o: "open_transaction s tx (of_nat (length payload)) now = (Inr (), s1)"
    "append_all s1 tx [(now, payload)] = (Inr fs, s2)" "finish_transaction s2 tx now = (Inr gs, s3)"
    "fs @ gs = mk_frames tx (of_nat (length payload)) 0 (pieces (sc_frame_size (ts_config s)) payload)"
    and r: "sender_inv s3" "get_txn s3 tx = Some t" "is_fully_sent t"
    "txn_inv (sc_frame_size (ts_config s)) tx (pieces (sc_frame_size (ts_config s)) payload) 0 t"
  have "append_chunk s1 tx payload now = (Inr fs, s2)"
    using o(2) by (auto split: prod.splits sum.splits)
  then show thesis
    using o assms(5) by (intro that [OF _ r]) (simp add: begin_transaction_def)
qed simp

text \<open>Acknowledgements.\<close>

definition best_contiguous :: "ack_entry \<Rightarrow> pending_txn \<Rightarrow> u32" where
  "best_contiguous e t =
    (case pt_acked_contiguous t of
       None \<Rightarrow> ae_highest_contiguous_seq e
     | Some h \<Rightarrow> max h (ae_highest_contiguous_seq e))"

lemma acked_progress_eq:
  "acked_progress e t = min (best_contiguous e t) (if frame_count t = 0 then 0 else frame_count t - 1)"
  by (simp add: acked_progress_def best_contiguous_def Let_def)

lemma unat_min: "unat (min a b) = min (unat (a :: u32)) (unat b)"
  by (simp add: min_def word_le_nat_alt)

lemma fully_acked_iff:
  assumes "txn_inv fsz tx ps k t"
  shows "is_fully_acked (ack_txn e now t) \<longleftrightarrow>
    is_fully_sent t \<and> length ps \<le> unat (best_contiguous e t) + 1 \<and>
    length ps \<le> unat (max (pt_acked_received t) (ae_received_frames e))"
proof -
  let ?t = "ack_txn e now t"
  have f: "frame_count ?t = frame_count t"
    using txn_inv_counts(1) [OF txn_inv_ack(1) [OF assms]] txn_inv_counts(1) [OF assms]
    by (simp add: frame_count_def)
  have c: "unat (frame_count t) = length ps"
    by (rule txn_inv_counts(4) [OF assms])
  have fs: "is_fully_sent ?t = is_fully_sent t"
    by (subst ack_txn_eq [OF assms]) (simp add: is_fully_sent_def)
  have ac: "pt_acked_contiguous ?t = Some (acked_progress e t)"
      "pt_acked_received ?t = max (pt_acked_received t) (ae_received_frames e)"
    by (subst ack_txn_eq [OF assms], simp)+
  have ne: "frame_count t \<noteq> 0" if "is_fully_sent t"
  proof
    assume "frame_count t = 0"
    then have "pt_written t = 0"
      using c that assms by (simp add: txn_inv_def is_fully_sent_def)
    then show False
      using that assms by (simp add: txn_inv_def is_fully_sent_def unat_eq_0)
  qed
  have "acked_progress e t = frame_count t - 1 \<longleftrightarrow> length ps \<le> unat (best_contiguous e t) + 1"
    if "frame_count t \<noteq> 0"
  proof -
    have "acked_progress e t = frame_count t - 1 \<longleftrightarrow> frame_count t - 1 \<le> best_contiguous e t"
      using that by (auto simp: acked_progress_eq min_def)
    also have "\<dots> \<longleftrightarrow> length ps \<le> unat (best_contiguous e t) + 1"
      using that c by (auto simp: word_le_nat_alt unat_minus_one)
    finally show ?thesis .
  qed
  then show ?thesis
    using ne c by (auto simp: is_fully_acked_def f fs ac word_le_nat_alt Let_def)
qed

text \<open>Negative acknowledgements.\<close>

lemma nack_loop_frames:
  assumes "txn_inv fsz tx ps k t"
  shows "snd (nack_loop sqs now t out) = out @
    map (\<lambda>sq. mk_frame tx (pt_total_len t) (unat sq) (ps ! unat sq))
      (filter (\<lambda>sq. k \<le> unat sq \<and> unat sq < length ps) sqs)"
  using assms
proof (induction sqs arbitrary: t out)
  case Nil
  then show ?case by simp
next
  case (Cons sq sqs)
  let ?i = "unat sq"
  let ?t = "t\<lparr>pt_states := (pt_states t)[?i := (pt_states t ! ?i)\<lparr>st_last_sent_ms := now\<rparr>]\<rparr>"
  have "map st_confirmed (pt_states ?t) = map st_confirmed (pt_states t)"
    by (cases "?i < length (pt_states t)")
      (auto simp: map_update list_update_same_conv list_update_beyond)
  then have inv: "txn_inv fsz tx ps k ?t"
    using Cons.prems txn_inv_states [of "pt_states ?t" t] by simp
  show ?case
  proof (cases "?i < length ps")
    case False
    then show ?thesis
      using Cons.IH [OF Cons.prems] txn_inv_counts(2) [OF Cons.prems] by simp
  next
    case True
    then show ?thesis
      using Cons.IH [OF Cons.prems] Cons.IH [OF inv] txn_inv_counts(2) [OF Cons.prems]
        txn_inv_nth [OF Cons.prems True]
      by (simp add: Let_def not_less)
  qed
qed

text \<open>The retransmission clock.\<close>

definition frame_due :: "sender_config \<Rightarrow> nat \<Rightarrow> frame_state \<Rightarrow> bool" where
  "frame_due cfg now st \<longleftrightarrow>
    \<not> st_confirmed st \<and>
    now - st_last_sent_ms st \<ge> current_rto (sc_rto_initial_ms cfg) (sc_rto_max_ms cfg) (st_attempts st)"

definition resent :: "nat \<Rightarrow> frame_state \<Rightarrow> frame_state" where
  "resent now st = st\<lparr>st_last_sent_ms := now, st_attempts := st_attempts st + 1\<rparr>"

lemma due_frames_eq:
  "length sts = length fos \<Longrightarrow> due_frames cfg now sts fos =
    (map (\<lambda>st. if frame_due cfg now st then resent now st else st) sts,
     List.map_filter (\<lambda>(st, fo). if frame_due cfg now st then fo else None) (zip sts fos))"
  by (induction sts fos rule: list_induct2)
    (auto simp: frame_due_def resent_def Let_def List.map_filter_simps split: option.splits)

lemma resend_frames_eq:
  "length sts = length fos \<Longrightarrow> resend_frames now sts fos =
    (map (\<lambda>st. if st_confirmed st then st else resent now st) sts,
     List.map_filter (\<lambda>(st, fo). if st_confirmed st then None else fo) (zip sts fos))"
  by (induction sts fos rule: list_induct2)
    (auto simp: resent_def Let_def List.map_filter_simps split: option.splits)

definition due_of :: "transaction_sender \<Rightarrow> nat \<Rightarrow> txid \<Rightarrow> frame list" where
  "due_of s now tx =
    (case get_txn s tx of
       None \<Rightarrow> []
     | Some t \<Rightarrow> if pt_paused t \<or> pt_awaiting_resume t then []
                 else snd (due_frames (ts_config s) now (pt_states t) (pt_frames t)))"

definition due_txn :: "sender_config \<Rightarrow> nat \<Rightarrow> pending_txn \<Rightarrow> pending_txn" where
  "due_txn cfg now t =
    (if pt_paused t \<or> pt_awaiting_resume t then t
     else t\<lparr>pt_states := fst (due_frames cfg now (pt_states t) (pt_frames t))\<rparr>)"

lemma due_loop_eq:
  "distinct txs \<Longrightarrow>
   fst (due_loop txs now s out) = out @ concat (map (due_of s now) txs) \<and>
   ts_config (snd (due_loop txs now s out)) = ts_config s \<and>
   (\<forall>tx. get_txn (snd (due_loop txs now s out)) tx =
      (if tx \<in> set txs then map_option (due_txn (ts_config s) now) (get_txn s tx) else get_txn s tx))"
proof (induction txs arbitrary: s out)
  case Nil
  then show ?case by simp
next
  case (Cons tx txs)
  show ?case
  proof (cases "get_txn s tx")
    case None
    then show ?thesis
      using Cons by (auto simp: due_of_def)
  next
    case (Some t)
    let ?s = "put_txn tx (due_txn (ts_config s) now t) s"
    have *: "due_loop (tx # txs) now s out =
        due_loop txs now (if pt_paused t \<or> pt_awaiting_resume t then s else ?s) (out @ due_of s now tx)"
      using Some by (simp add: due_of_def due_txn_def split_beta)
    have "map (due_of ?s now) txs = map (due_of s now) txs"
      using Cons.prems by (auto simp: due_of_def cong: option.case_cong if_cong)
    then have **: "concat (map (due_of ?s now) txs) = concat (map (due_of s now) txs)"
      by (rule arg_cong)
    show ?thesis
    proof (cases "pt_paused t \<or> pt_awaiting_resume t")
      case True
      then have "map_option (due_txn (ts_config s) now) (get_txn s tx) = get_txn s tx"
        using Some by (simp add: due_txn_def)
      with True * show ?thesis
        using Cons.IH [of s "out @ due_of s now tx"] Cons.prems by auto
    next
      case False
      then show ?thesis
        using * ** Cons.IH [of ?s "out @ due_of s now tx"] Cons.prems Some by auto
    qed
  qed
qed

lemma due_retransmissions_eq:
  assumes "hm_inv (ts_pending s)"
  shows "fst (due_retransmissions s now) = concat (map (due_of s now) (hm_keys (ts_pending s)))"
    and "ts_config (snd (due_retransmissions s now)) = ts_config s"
    and "get_txn (snd (due_retransmissions s now)) tx = map_option (due_txn (ts_config s) now) (get_txn s tx)"
proof -
  have "distinct (hm_keys (ts_pending s))"
    using assms by (simp add: hm_inv_def hm_keys_def)
  note l = due_loop_eq [OF this, of now s "[]"]
  show "fst (due_retransmissions s now) = concat (map (due_of s now) (hm_keys (ts_pending s)))"
    "ts_config (snd (due_retransmissions s now)) = ts_config s"
    using l by (simp_all add: due_retransmissions_def)
  show "get_txn (snd (due_retransmissions s now)) tx = map_option (due_txn (ts_config s) now) (get_txn s tx)"
    using l by (simp add: due_retransmissions_def hm_keys_iff hm_contains_def)
qed

lemma in_map_filter: "y \<in> set (List.map_filter g xs) \<longleftrightarrow> (\<exists>x\<in>set xs. g x = Some y)"
  by (induction xs) (auto simp: List.map_filter_simps split: option.splits)

lemma set_due_of:
  assumes "get_txn s tx = Some t" "length (pt_states t) = length (pt_frames t)"
  shows "f \<in> set (due_of s now tx) \<longleftrightarrow>
    \<not> pt_paused t \<and> \<not> pt_awaiting_resume t \<and>
    (\<exists>i<length (pt_states t). frame_due (ts_config s) now (pt_states t ! i) \<and> pt_frames t ! i = Some f)"
proof -
  have "f \<in> set (List.map_filter (\<lambda>(st, fo). if frame_due (ts_config s) now st then fo else None)
      (zip (pt_states t) (pt_frames t))) \<longleftrightarrow>
    (\<exists>i<length (pt_states t). frame_due (ts_config s) now (pt_states t ! i) \<and> pt_frames t ! i = Some f)"
    unfolding in_map_filter using assms(2) by (force simp: set_zip split: if_splits)
  then show ?thesis
    using assms by (simp add: due_of_def due_frames_eq)
qed

lemma current_rto_pos: "0 < i \<Longrightarrow> 0 < m \<Longrightarrow> 0 < current_rto i m a"
proof -
  have "0 < u64_max"
    by (simp add: u64_max_def)
  then show "0 < i \<Longrightarrow> 0 < m \<Longrightarrow> 0 < current_rto i m a"
    by (simp add: current_rto_def Let_def)
qed

lemma frame_due_resent:
  "0 < sc_rto_initial_ms cfg \<Longrightarrow> 0 < sc_rto_max_ms cfg \<Longrightarrow>
   \<not> frame_due cfg now (if frame_due cfg now st then resent now st else st)"
  using current_rto_pos by (auto simp: frame_due_def resent_def)

lemma due_twice:
  assumes "0 < sc_rto_initial_ms (ts_config s)" "0 < sc_rto_max_ms (ts_config s)" "sender_inv s"
  shows "fst (due_retransmissions (snd (due_retransmissions s now)) now) = []"
proof -
  let ?s = "snd (due_retransmissions s now)"
  have inv: "hm_inv (ts_pending s)" "sender_inv ?s"
    using assms(3) due_inv [of s now] by (simp_all add: sender_inv_def)
  have "due_of ?s now tx = []" for tx
  proof (cases "get_txn s tx")
    case None
    then show ?thesis
      by (simp add: due_of_def due_retransmissions_eq(3) [OF inv(1)])
  next
    case (Some t)
    then obtain ps k where "txn_inv (sc_frame_size (ts_config s)) tx ps k t"
      using sender_inv_get assms(3) by blast
    then have len: "length (pt_states t) = length (pt_frames t)"
      using txn_inv_counts by metis
    have "List.map_filter (\<lambda>(st, fo). if frame_due (ts_config s) now st then fo else None)
        (zip (map (\<lambda>st. if frame_due (ts_config s) now st then resent now st else st) (pt_states t)) (pt_frames t)) = []"
      using frame_due_resent [OF assms(1,2), of now] len
      by (auto simp: List.map_filter_def filter_empty_conv set_zip)
    then show ?thesis
      using Some len
      by (simp add: due_of_def due_retransmissions_eq [OF inv(1)] due_txn_def due_frames_eq)
  qed
  then show ?thesis
    using inv(2) by (simp add: due_retransmissions_eq(1) sender_inv_def)
qed

text \<open>Backoff in closed form.\<close>

lemma current_rto_eq:
  assumes "m < 2 ^ 62"
  shows "current_rto i m a = min (i * 2 ^ unat a) m"
proof (cases "unat a \<le> 62 \<or> i = 0")
  case True
  have "m \<le> u64_max"
    using assms by (simp add: u64_max_def)
  then show ?thesis
    using True by (auto simp: current_rto_def Let_def min_def)
next
  case False
  have "(2 :: nat) ^ 62 \<le> 2 ^ unat a"
    using False by (intro power_increasing) auto
  moreover have "m \<le> u64_max"
    using assms by (simp add: u64_max_def)
  moreover have "n \<le> i * n" for n
    using False by (cases i) auto
  ultimately have "m \<le> i * 2 ^ 62" "m \<le> i * 2 ^ unat a" "m \<le> u64_max"
    using assms by (meson le_less_trans less_imp_le_nat order_trans)+
  then show ?thesis
    using False by (auto simp: current_rto_def Let_def min_def)
qed

text \<open>The reconnect gate.\<close>

lemma declared_gate:
  "get_txn (snd (declare_pending s now)) tx =
    map_option (\<lambda>t. t\<lparr>pt_awaiting_resume := True, pt_declared_ms := Some now\<rparr>) (get_txn s tx)"
  by (simp add: declare_pending_def hm_get_map)

lemma declared_ids: "map ae_txid (fst (declare_pending s now)) = hm_keys (ts_pending s)"
  by (simp add: declare_pending_def hm_keys_def declare_entry_def comp_def split_beta)

lemma declared_silent:
  assumes "hm_inv (ts_pending s)"
  shows "fst (due_retransmissions (snd (declare_pending s now)) now') = []"
proof -
  have "hm_inv (ts_pending (snd (declare_pending s now)))"
    using assms by (simp add: declare_pending_def)
  moreover have "due_of (snd (declare_pending s now)) now' tx = []" for tx
    by (cases "get_txn s tx") (simp_all add: due_of_def declared_gate)
  ultimately show ?thesis
    by (simp add: due_retransmissions_eq(1))
qed

text \<open>Verdicts.\<close>

lemma map_filter_map: "List.map_filter g xs = List.map_filter (\<lambda>x. x) (map g xs)"
  by (simp add: List.map_filter_def filter_map comp_def)

lemma resend_retained:
  assumes "txn_inv fsz tx ps k t"
  shows "snd (resend_frames now (pt_states t) (pt_frames t)) = mk_frames tx (pt_total_len t) k (drop k ps)"
proof -
  let ?g = "\<lambda>(st, fo). if st_confirmed st then None else fo"
  have len: "length (pt_states t) = length ps" "length (pt_frames t) = length ps"
    using txn_inv_counts [OF assms] by simp_all
  have "map ?g (zip (pt_states t) (pt_frames t)) = pt_frames t"
    using len txn_inv_nth [OF assms] by (intro nth_equalityI) auto
  then have "List.map_filter ?g (zip (pt_states t) (pt_frames t)) = List.map_filter (\<lambda>fo. fo) (pt_frames t)"
    using map_filter_map [of ?g] by metis
  also have "\<dots> = mk_frames tx (pt_total_len t) k (drop k ps)"
    using assms by (simp add: txn_inv_def List.map_filter_def filter_map comp_def)
  finally show ?thesis
    using len by (simp add: resend_frames_eq)
qed

definition closing :: "resume_status_entry list \<Rightarrow> txid \<Rightarrow> bool" where
  "closing es tx \<longleftrightarrow> (\<exists>e\<in>set es. rs_txid e = tx \<and> rs_status e \<noteq> Resumed)"

lemma closing_simps [simp]:
  "\<not> closing [] tx"
  "closing (e # es) tx \<longleftrightarrow> (rs_txid e = tx \<and> rs_status e \<noteq> Resumed) \<or> closing es tx"
  by (auto simp: closing_def)

text \<open>One verdict: who is closed, who survives, and which list records it.\<close>

lemma apply_verdict_effect:
  assumes "apply_verdict now e s out = (s', out')"
  shows "hm_contains (ts_pending s') tx \<longleftrightarrow>
      hm_contains (ts_pending s) tx \<and> \<not> (rs_txid e = tx \<and> rs_status e \<noteq> Resumed)"
    and "is_fully_sent (the (get_txn s' tx)) = is_fully_sent (the (get_txn s tx)) \<or> \<not> hm_contains (ts_pending s') tx"
    and "rv_confirmed out' = rv_confirmed out @
      (if rs_status e \<noteq> Resumed \<and> hm_contains (ts_pending s) (rs_txid e)
          \<and> is_fully_sent (the (get_txn s (rs_txid e))) then [rs_txid e] else [])"
    and "rv_failed out' = rv_failed out @
      (if rs_status e \<noteq> Resumed \<and> hm_contains (ts_pending s) (rs_txid e)
          \<and> \<not> is_fully_sent (the (get_txn s (rs_txid e))) then [rs_txid e] else [])"
  using assms
  by (auto simp: apply_verdict_def Let_def split_beta hm_contains_def is_fully_sent_def
      split: resume_status.splits option.splits if_splits)

lemma verdict_loop_effect:
  "verdict_loop now es s out = (s', out') \<Longrightarrow>
   (\<forall>tx. hm_contains (ts_pending s') tx \<longleftrightarrow> hm_contains (ts_pending s) tx \<and> \<not> closing es tx) \<and>
   (\<exists>cs fs. rv_confirmed out' = rv_confirmed out @ cs \<and> rv_failed out' = rv_failed out @ fs \<and>
      distinct (cs @ fs) \<and>
      set cs = {tx. hm_contains (ts_pending s) tx \<and> closing es tx \<and> is_fully_sent (the (get_txn s tx))} \<and>
      set fs = {tx. hm_contains (ts_pending s) tx \<and> closing es tx \<and> \<not> is_fully_sent (the (get_txn s tx))})"
proof (induction es arbitrary: s out)
  case Nil
  then show ?case by auto
next
  case (Cons e es)
  obtain s1 out1 where v: "apply_verdict now e s out = (s1, out1)"
    by (metis surj_pair)
  note eff = apply_verdict_effect [OF v]
  from Cons.prems v have "verdict_loop now es s1 out1 = (s', out')"
    by simp
  from Cons.IH [OF this] obtain cs fs where
    IH: "\<forall>tx. hm_contains (ts_pending s') tx \<longleftrightarrow> hm_contains (ts_pending s1) tx \<and> \<not> closing es tx"
      "rv_confirmed out' = rv_confirmed out1 @ cs" "rv_failed out' = rv_failed out1 @ fs" "distinct (cs @ fs)"
      "set cs = {tx. hm_contains (ts_pending s1) tx \<and> closing es tx \<and> is_fully_sent (the (get_txn s1 tx))}"
      "set fs = {tx. hm_contains (ts_pending s1) tx \<and> closing es tx \<and> \<not> is_fully_sent (the (get_txn s1 tx))}"
    by blast
  let ?c = "if rs_status e \<noteq> Resumed \<and> hm_contains (ts_pending s) (rs_txid e)
      \<and> is_fully_sent (the (get_txn s (rs_txid e))) then [rs_txid e] else []"
  let ?f = "if rs_status e \<noteq> Resumed \<and> hm_contains (ts_pending s) (rs_txid e)
      \<and> \<not> is_fully_sent (the (get_txn s (rs_txid e))) then [rs_txid e] else []"
  have keep: "is_fully_sent (the (get_txn s1 tx)) = is_fully_sent (the (get_txn s tx))"
    if "hm_contains (ts_pending s1) tx" for tx
    using eff(2) that by blast
  have "distinct ((?c @ cs) @ (?f @ fs))"
    using IH(4,5,6) eff(1) by auto
  moreover have "set (?c @ cs) = {tx. hm_contains (ts_pending s) tx \<and> closing (e # es) tx \<and> is_fully_sent (the (get_txn s tx))}"
    using IH(5) eff(1) keep by auto
  moreover have "set (?f @ fs) = {tx. hm_contains (ts_pending s) tx \<and> closing (e # es) tx \<and> \<not> is_fully_sent (the (get_txn s tx))}"
    using IH(6) eff(1) keep by auto
  moreover have "\<forall>tx. hm_contains (ts_pending s') tx \<longleftrightarrow> hm_contains (ts_pending s) tx \<and> \<not> closing (e # es) tx"
    using IH(1) eff(1) by auto
  ultimately show ?case
    using IH(2,3) eff(3,4) by (intro conjI exI [of _ "?c @ cs"] exI [of _ "?f @ fs"]) simp_all
qed

section \<open>Properties of the sender\<close>

text \<open>
  C24. Sender invariant. Whatever sequence of operations is applied to a new sender, at whatever
  instants: the unacknowledged bytes stay within the backpressure cap, and every held transaction has
  a division of its written bytes into pieces such that a prefix is confirmed and released, exactly
  the other pieces are retained under their own sequence numbers, and the counters agree.
\<close>

theorem sender_invariant_reachable: "sender_inv (fold sender_step ops (sender_new cfg))"
  using sender_machine.run_good [of "sender_new cfg" ops] by (simp add: sender_machine.run_def)

text \<open>
  Framing. A payload that is non-empty, fits the \<open>u32\<close> length field and the backpressure cap, under
  an id not in use, is accepted; the returned frames are its consecutive pieces of at most
  \<open>frame_size\<close> bytes, numbered from 0, each declaring the total length; their concatenation is the
  payload.
\<close>

theorem begin_transaction_frames:
  assumes "sender_inv s" "\<not> contains_transaction s tx" "payload \<noteq> []" "length payload < 2 ^ 32"
    and "unacked_bytes s + length payload \<le> sc_backpressure_cap_bytes (ts_config s)"
  shows "\<exists>fs. fst (begin_transaction s tx payload now) = Inr fs \<and>
    concat (map f_payload fs) = payload \<and>
    (\<forall>i<length fs. f_txid (fs ! i) = tx \<and> f_seq (fs ! i) = of_nat i \<and>
      f_total_len (fs ! i) = of_nat (length payload) \<and> f_type (fs ! i) = DataBinary \<and>
      f_payload (fs ! i) \<noteq> [] \<and> length (f_payload (fs ! i)) \<le> sc_frame_size (ts_config s))"
proof -
  let ?n = "sc_frame_size (ts_config s)"
  let ?ps = "pieces ?n payload"
  have n: "0 < ?n"
    using assms(1) by (simp add: sender_inv_def)
  obtain s' where b: "begin_transaction s tx payload now = (Inr (mk_frames tx (of_nat (length payload)) 0 ?ps), s')"
    using begin_ok [OF assms] by blast
  have "\<forall>i<length ?ps. ?ps ! i \<noteq> [] \<and> length (?ps ! i) \<le> ?n"
    using pieces_bounds [OF n] nth_mem by blast
  then show ?thesis
    using b concat_pieces [OF n, of payload] by (auto simp: nth_mk_frames)
qed

definition sample_config :: sender_config where
  "sample_config = \<lparr>sc_frame_size = 4, sc_rto_initial_ms = 100, sc_rto_max_ms = 1000, sc_backpressure_cap_bytes = 64\<rparr>"

definition sample_sender :: transaction_sender where
  "sample_sender = sender_new sample_config"

definition sample_payload :: "byte list" where
  "sample_payload = [1, 2, 3, 4, 5, 6, 7, 8, 9, 10]"

lemma sample_sender_simps [simp]:
  "sender_inv sample_sender" "\<not> contains_transaction sample_sender tx"
  "unacked_bytes sample_sender = 0" "sc_frame_size (ts_config sample_sender) = 4"
  "sc_backpressure_cap_bytes (ts_config sample_sender) = 64" "length sample_payload = 10"
  by (simp_all add: sample_sender_def sample_config_def contains_transaction_def unacked_bytes_def
      sample_payload_def)
    (simp_all add: sender_new_def)

lemma sample_payload_nonempty [simp]: "sample_payload \<noteq> []"
  by (simp add: sample_payload_def)

theorem begin_transaction_frames_witness:
  "\<exists>fs. fst (begin_transaction sample_sender 5 sample_payload 0) = Inr fs \<and>
    concat (map f_payload fs) = sample_payload"
  using begin_transaction_frames [of sample_sender 5 sample_payload 0] by auto

text \<open>
  Streaming is equivalent to sending whole. Opening the transaction, appending the payload in any
  chunks at any instants, and finishing it succeeds and yields exactly the frames that
  \<open>begin_transaction\<close> yields for the whole payload.
\<close>

theorem streaming_equals_whole:
  assumes "sender_inv s" "\<not> contains_transaction s tx" "payload \<noteq> []" "length payload < 2 ^ 32"
    and "unacked_bytes s + length payload \<le> sc_backpressure_cap_bytes (ts_config s)"
    and "concat (map snd cs) = payload"
  shows "\<exists>s1 s2 s3 fs gs. open_transaction s tx (of_nat (length payload)) t0 = (Inr (), s1) \<and>
    append_all s1 tx cs = (Inr fs, s2) \<and> finish_transaction s2 tx t1 = (Inr gs, s3) \<and>
    fst (begin_transaction s tx payload now) = Inr (fs @ gs)"
proof -
  obtain s' where b: "begin_transaction s tx payload now =
      (Inr (mk_frames tx (of_nat (length payload)) 0 (pieces (sc_frame_size (ts_config s)) payload)), s')"
    using begin_ok [OF assms(1-5)] by blast
  show ?thesis
    by (rule streamed_frames [OF assms, where now = t0 and now' = t1])
      (use b in \<open>metis fst_conv\<close>)
qed

theorem streaming_equals_whole_witness:
  "\<exists>s1 s2 s3 fs gs. open_transaction sample_sender 5 10 0 = (Inr (), s1) \<and>
    append_all s1 5 [(1, [1, 2, 3]), (2, []), (7, [4, 5, 6, 7, 8]), (8, [9, 10])] = (Inr fs, s2) \<and>
    finish_transaction s2 5 9 = (Inr gs, s3) \<and>
    fst (begin_transaction sample_sender 5 sample_payload 0) = Inr (fs @ gs)"
  using streaming_equals_whole [of sample_sender 5 sample_payload
      "[(1, [1, 2, 3]), (2, []), (7, [4, 5, 6, 7, 8]), (8, [9, 10])]" 0 9 0]
  by (simp add: sample_payload_def)

text \<open>
  C25. Acknowledgement. For a held transaction, an ACK reports completion exactly when every declared
  byte has been framed, the best contiguous progress reported so far reaches the last frame and the
  best received count reaches the number of frames. On completion the copy is gone; otherwise it is
  still held with the reported prefix released. No other transaction is touched.
\<close>

theorem ack_completion_exact:
  assumes "sender_inv s" "get_txn s (ae_txid e) = Some t"
  shows "(fst (handle_ack s e now) \<longleftrightarrow>
      is_fully_sent t \<and> length (pt_frames t) \<le> unat (best_contiguous e t) + 1 \<and>
      length (pt_frames t) \<le> unat (max (pt_acked_received t) (ae_received_frames e))) \<and>
    get_txn (snd (handle_ack s e now)) (ae_txid e) =
      (if fst (handle_ack s e now) then None else Some (ack_txn e now t)) \<and>
    (\<forall>i<length (pt_frames t). i \<le> unat (acked_progress e t) \<longrightarrow> pt_frames (ack_txn e now t) ! i = None) \<and>
    (\<forall>tx. tx \<noteq> ae_txid e \<longrightarrow> get_txn (snd (handle_ack s e now)) tx = get_txn s tx)"
proof -
  obtain ps k where inv: "txn_inv (sc_frame_size (ts_config s)) (ae_txid e) ps k t"
    using sender_inv_get assms by blast
  have len: "length (pt_frames t) = length ps" "length (pt_states t) = length ps"
    using txn_inv_counts [OF inv] by simp_all
  have "pt_frames (ack_txn e now t) ! i = None" if "i < length ps" "i \<le> unat (acked_progress e t)" for i
    using txn_inv_nth(2) [OF txn_inv_ack(1) [OF inv] that(1)] that len by (simp add: ack_upto_def)
  then show ?thesis
    using assms(2) fully_acked_iff [OF inv] len by (simp add: handle_ack_def Let_def)
qed

text \<open>The state after that transaction was begun.\<close>

definition sample_begun :: transaction_sender where
  "sample_begun = snd (begin_transaction sample_sender 5 sample_payload 0)"

definition sample_txn :: pending_txn where
  "sample_txn = (fresh_txn 10 0)
    \<lparr>pt_frames := map Some (mk_frames 5 10 0 [[1, 2, 3, 4], [5, 6, 7, 8], [9, 10]]),
     pt_states := replicate 3 (sent_state 0), pt_written := 10, pt_bytes := 10\<rparr>"

lemma sample_begun_pending: "ts_pending sample_begun = [(5, sample_txn)]"
  by code_simp

lemma sample_begun_simps [simp]:
  "get_txn sample_begun 5 = Some sample_txn" "sender_inv sample_begun"
  by (simp add: sample_begun_pending hm_get_def, simp add: sample_begun_def begin_inv)

lemma sample_txn_inv: "txn_inv 4 5 [[1, 2, 3, 4], [5, 6, 7, 8], [9, 10]] 0 sample_txn"
  by (simp add: txn_inv_def sample_txn_def fresh_txn_def sent_state_def numeral_3_eq_3)

lemma sample_begun_config [simp]: "sc_frame_size (ts_config sample_begun) = 4"
  by code_simp

theorem ack_completion_exact_witness:
  "fst (handle_ack sample_begun \<lparr>ae_txid = 5, ae_highest_contiguous_seq = 2, ae_received_frames = 3\<rparr> 10) \<and>
   \<not> fst (handle_ack sample_begun \<lparr>ae_txid = 5, ae_highest_contiguous_seq = 1, ae_received_frames = 3\<rparr> 10)"
  using ack_completion_exact [of sample_begun "\<lparr>ae_txid = 5, ae_highest_contiguous_seq = 2, ae_received_frames = 3\<rparr>" sample_txn 10]
    ack_completion_exact [of sample_begun "\<lparr>ae_txid = 5, ae_highest_contiguous_seq = 1, ae_received_frames = 3\<rparr>" sample_txn 10]
  by (simp add: sample_txn_def fresh_txn_def best_contiguous_def is_fully_sent_def)

text \<open>
  NACK. For a transaction that is not paused, the frames retransmitted for a gap list are exactly
  the retained copies of the listed sequence numbers, in list order; numbers out of range or already
  confirmed are skipped.
\<close>

theorem nack_retransmits_listed:
  assumes "txn_inv (sc_frame_size (ts_config s)) tx ps k t" "get_txn s tx = Some t" "\<not> pt_paused t"
  shows "fst (handle_nack s tx missing now) =
    map (\<lambda>sq. mk_frame tx (pt_total_len t) (unat sq) (ps ! unat sq))
      (filter (\<lambda>sq. k \<le> unat sq \<and> unat sq < length ps) missing)"
  using assms nack_loop_frames [of "sc_frame_size (ts_config s)" tx ps k "t\<lparr>pt_last_progress_ms := now\<rparr>" missing now "[]"]
  by (simp add: handle_nack_def Let_def split_beta)

theorem nack_retransmits_listed_witness:
  "fst (handle_nack sample_begun 5 [1, 7, 0] 3) = [mk_frame 5 10 1 [5, 6, 7, 8], mk_frame 5 10 0 [1, 2, 3, 4]]"
  using nack_retransmits_listed [of sample_begun 5 "[[1, 2, 3, 4], [5, 6, 7, 8], [9, 10]]" 0 sample_txn "[1, 7, 0]" 3]
    sample_txn_inv
  by (simp add: sample_txn_def fresh_txn_def)

text \<open>
  C26. Timeouts. The frames due at an instant are exactly the unconfirmed retained frames, of
  transactions neither paused nor awaiting a verdict, whose current timeout has elapsed; and with
  positive timeouts a second call at the same instant returns none, so nothing is sent twice.
\<close>

theorem due_retransmissions_exact:
  assumes "sender_inv s" "0 < sc_rto_initial_ms (ts_config s)" "0 < sc_rto_max_ms (ts_config s)"
  shows "(f \<in> set (fst (due_retransmissions s now)) \<longleftrightarrow>
      (\<exists>tx t i. get_txn s tx = Some t \<and> \<not> pt_paused t \<and> \<not> pt_awaiting_resume t \<and>
        i < length (pt_states t) \<and> \<not> st_confirmed (pt_states t ! i) \<and>
        current_rto (sc_rto_initial_ms (ts_config s)) (sc_rto_max_ms (ts_config s)) (st_attempts (pt_states t ! i))
          \<le> now - st_last_sent_ms (pt_states t ! i) \<and>
        pt_frames t ! i = Some f)) \<and>
    fst (due_retransmissions (snd (due_retransmissions s now)) now) = []"
proof -
  have hm: "hm_inv (ts_pending s)"
    using assms(1) by (simp add: sender_inv_def)
  have len: "length (pt_states t) = length (pt_frames t)" if "get_txn s tx = Some t" for tx t
    using that assms(1) sender_inv_get txn_inv_counts(1,2) by metis
  have "f \<in> set (fst (due_retransmissions s now)) \<longleftrightarrow>
      (\<exists>tx t. get_txn s tx = Some t \<and> f \<in> set (due_of s now tx))"
    by (auto simp: due_retransmissions_eq(1) [OF hm] set_hm_keys dom_def)
  also have "\<dots> \<longleftrightarrow> (\<exists>tx t i. get_txn s tx = Some t \<and> \<not> pt_paused t \<and> \<not> pt_awaiting_resume t \<and>
      i < length (pt_states t) \<and> frame_due (ts_config s) now (pt_states t ! i) \<and> pt_frames t ! i = Some f)"
    using set_due_of [OF _ len] by blast
  finally show ?thesis
    using due_twice [OF assms(2,3,1)] by (simp add: frame_due_def conj_assoc)
qed

theorem due_retransmissions_exact_witness:
  "mk_frame 5 10 2 [9, 10] \<in> set (fst (due_retransmissions sample_begun 100)) \<and>
   mk_frame 5 10 2 [9, 10] \<notin> set (fst (due_retransmissions sample_begun 99)) \<and>
   fst (due_retransmissions (snd (due_retransmissions sample_begun 100)) 100) = []"
proof -
  have c: "sc_rto_initial_ms (ts_config sample_begun) = 100" "sc_rto_max_ms (ts_config sample_begun) = 1000"
    by code_simp+
  have k: "get_txn sample_begun tx = Some t \<longleftrightarrow> tx = 5 \<and> t = sample_txn" for tx t
    by (auto simp: sample_begun_pending hm_get_def)
  show ?thesis
    using due_retransmissions_exact [of sample_begun "mk_frame 5 10 2 [9, 10]" 100]
      due_retransmissions_exact [of sample_begun "mk_frame 5 10 2 [9, 10]" 99] c
    by (simp add: k sample_txn_def fresh_txn_def sent_state_def current_rto_def u64_max_def numeral_3_eq_3
        less_Suc_eq conj_disj_distribR ex_disj_distrib)
qed

text \<open>
  Backoff. With a timeout ceiling below \<open>2^62\<close> ms the timeout after \<open>a\<close> attempts is
  \<open>min (initial * 2^a) ceiling\<close> for every \<open>a\<close>: neither the shift clamp nor the saturating
  multiplication is ever observable.
\<close>

theorem backoff_closed_form:
  assumes "ceiling < 2 ^ 62"
  shows "current_rto initial ceiling a = min (initial * 2 ^ unat a) ceiling"
  by (rule current_rto_eq [OF assms])

theorem backoff_closed_form_witness: "current_rto 2000 30000 3 = 16000 \<and> current_rto 2000 30000 4 = 30000"
  using backoff_closed_form [of 30000 2000 3] backoff_closed_form [of 30000 2000 4] by simp

text \<open>
  The reconnect gate. Declaring at wire-up names every held transaction once; from then on the
  retransmission clock emits nothing, at any later instant; and when the receiver answers that it still
  has the transaction open, the gate is lifted and every piece not yet confirmed is retransmitted, in
  order (nothing while the user's pause is in force).
\<close>

theorem reconnect_gate:
  assumes "sender_inv s" "get_txn s tx = Some t" "txn_inv (sc_frame_size (ts_config s)) tx ps k t"
    and "declare_pending s now = (es, s1)"
    and "apply_resume_verdicts s1 [\<lparr>rs_txid = tx, rs_status = Resumed\<rparr>] now'' = (v, s2)"
  shows "distinct (map ae_txid es) \<and> set (map ae_txid es) = {u. contains_transaction s u} \<and>
    fst (due_retransmissions s1 now') = [] \<and> is_awaiting_resume s1 tx \<and> \<not> is_awaiting_resume s2 tx \<and>
    rv_retransmit v = (if pt_paused t then [] else mk_frames tx (pt_total_len t) k (drop k ps)) \<and>
    rv_confirmed v = [] \<and> rv_failed v = []"
proof -
  have es: "es = fst (declare_pending s now)" and s1: "s1 = snd (declare_pending s now)"
    using assms(4) by simp_all
  have hm: "hm_inv (ts_pending s)"
    using assms(1) by (simp add: sender_inv_def)
  have t1: "get_txn s1 tx = Some (t\<lparr>pt_awaiting_resume := True, pt_declared_ms := Some now\<rparr>)"
    using declared_gate [of s now tx] assms(2) by (simp add: s1)
  have "rv_retransmit v = (if pt_paused t then [] else mk_frames tx (pt_total_len t) k (drop k ps)) \<and>
      rv_confirmed v = [] \<and> rv_failed v = [] \<and> \<not> is_awaiting_resume s2 tx"
    using assms(5) t1 resend_retained [OF assms(3), of now'']
    by (auto simp: apply_resume_verdicts_def apply_verdict_def Let_def split_beta is_awaiting_resume_def
        split: if_splits)
  moreover have "distinct (map ae_txid es)" "set (map ae_txid es) = {u. contains_transaction s u}"
    using hm declared_ids [of s now]
    by (simp_all add: es hm_inv_def hm_keys_def hm_keys_iff contains_transaction_def flip: hm_keys_iff)
  moreover have "fst (due_retransmissions s1 now') = []"
    using declared_silent [OF hm] by (simp add: s1)
  ultimately show ?thesis
    using t1 by (simp add: is_awaiting_resume_def)
qed

theorem reconnect_gate_witness:
  "\<exists>es s1 v s2. declare_pending sample_begun 50 = (es, s1) \<and> fst (due_retransmissions s1 100000) = [] \<and>
    apply_resume_verdicts s1 [\<lparr>rs_txid = 5, rs_status = Resumed\<rparr>] 60 = (v, s2) \<and>
    rv_retransmit v = mk_frames 5 10 0 [[1, 2, 3, 4], [5, 6, 7, 8], [9, 10]]"
proof -
  obtain es s1 where d: "declare_pending sample_begun 50 = (es, s1)"
    by (metis surj_pair)
  obtain v s2 where a: "apply_resume_verdicts s1 [\<lparr>rs_txid = 5, rs_status = Resumed\<rparr>] 60 = (v, s2)"
    by (metis surj_pair)
  show ?thesis
    using reconnect_gate [OF _ _ _ d a, of sample_txn "[[1, 2, 3, 4], [5, 6, 7, 8], [9, 10]]" 0 100000]
      sample_txn_inv d a
    by (simp add: sample_txn_def fresh_txn_def)
qed

text \<open>
  C27. Verdicts close by what the holder knows. Applying any list of verdicts removes exactly the held
  transactions answered \<open>unknown\<close> or \<open>rejected\<close>; each is reported once, as confirmed if every declared
  byte had been framed and as failed otherwise.
\<close>

theorem verdicts_adjudicate:
  assumes "apply_resume_verdicts s es now = (v, s')"
  shows "(\<forall>tx. contains_transaction s' tx \<longleftrightarrow> contains_transaction s tx \<and> \<not> closing es tx) \<and>
    distinct (rv_confirmed v @ rv_failed v) \<and>
    set (rv_confirmed v) = {tx. contains_transaction s tx \<and> closing es tx \<and> is_fully_sent (the (get_txn s tx))} \<and>
    set (rv_failed v) = {tx. contains_transaction s tx \<and> closing es tx \<and> \<not> is_fully_sent (the (get_txn s tx))}"
proof -
  have "verdict_loop now es s \<lparr>rv_retransmit = [], rv_confirmed = [], rv_failed = []\<rparr> = (s', v)"
    using assms by (simp add: apply_resume_verdicts_def split_beta prod_eq_iff)
  from verdict_loop_effect [OF this] show ?thesis
    by (auto simp: contains_transaction_def)
qed

theorem verdicts_adjudicate_witness:
  "\<exists>v s'. apply_resume_verdicts sample_begun
      [\<lparr>rs_txid = 5, rs_status = UnknownTx\<rparr>, \<lparr>rs_txid = 5, rs_status = Rejected\<rparr>] 60 = (v, s') \<and>
    set (rv_confirmed v) = {5} \<and> rv_failed v = [] \<and> \<not> contains_transaction s' 5"
proof -
  let ?es = "[\<lparr>rs_txid = 5, rs_status = UnknownTx\<rparr>, \<lparr>rs_txid = 5, rs_status = Rejected\<rparr>]"
  obtain v s' where a: "apply_resume_verdicts sample_begun ?es 60 = (v, s')"
    by (metis surj_pair)
  have f: "is_fully_sent sample_txn"
    by (simp add: is_fully_sent_def sample_txn_def fresh_txn_def)
  have c: "contains_transaction sample_begun tx \<longleftrightarrow> tx = 5" for tx
    by (simp add: contains_transaction_def hm_contains_def hm_get_def sample_begun_pending)
  have "set (rv_confirmed v) = {5}" "set (rv_failed v) = {}" "\<not> contains_transaction s' 5"
    using verdicts_adjudicate [OF a] f by (auto simp: c)
  then show ?thesis
    using a by auto
qed

end
