(* ===== verification/Reassemble.thy ===== *)
theory Reassemble
  imports Transaction
begin

text \<open>
  The receiver, \<open>src/src/reliability/reassemble.rs\<close>: one slot per transaction, frames stored in a
  \<open>BTreeMap\<close> by sequence number, the contiguous prefix, completion, ACK and NACK export.

  Sequence numbers are kept as the natural numbers the \<open>u32\<close> header fields denote; \<open>h + 1\<close> on the
  prefix then never wraps. In the code it would at \<open>2^32 - 1\<close> only, i.e. after \<open>2^32\<close> stored frames.
\<close>

section \<open>Data and operations\<close>

datatype reassembly_error =
    TotalLenConflict u32 u32
  | FrameLenMismatch nat nat
  | EmptyTotalLen
  | SlotTotalLenExceeded u32

datatype receive_outcome =
    Accepted bool "(u32 \<times> byte list) list"
  | Duplicate
  | SlotlessDropped

record slot =
  sl_total_len :: u32
  sl_frames :: "(nat \<times> byte list) list"
  sl_received_frames :: u32
  sl_received_bytes :: nat
  sl_contiguous_prefix :: "nat option"

function advance_from :: "(nat \<times> 'v) list \<Rightarrow> nat \<Rightarrow> nat option \<Rightarrow> nat option" where
  "advance_from m nxt prefix =
    (if bt_get m nxt \<noteq> None then advance_from m (nxt + 1) (Some nxt) else prefix)"
  by pat_completeness auto
termination
proof (relation "measure (\<lambda>(m, nxt, prefix). length (filter (\<lambda>k. nxt \<le> k) (map fst m)))")
  fix m :: "(nat \<times> 'v) list" and nxt :: nat and prefix :: "nat option"
  assume "bt_get m nxt \<noteq> None"
  then have "nxt \<in> set (map fst m)"
    by (force simp: bt_get_def dest: map_of_SomeD)
  moreover have "filter (\<lambda>k. nxt + 1 \<le> k) ks = filter (\<lambda>k. k \<noteq> nxt) (filter (\<lambda>k. nxt \<le> k) ks)" for ks
    by (induction ks) auto
  ultimately have "length (filter (\<lambda>k. nxt + 1 \<le> k) (map fst m)) < length (filter (\<lambda>k. nxt \<le> k) (map fst m))"
    by (simp only:) (rule length_filter_less [of nxt], auto)
  then show "((m, nxt + 1, Some nxt), (m, nxt, prefix))
      \<in> measure (\<lambda>(m, nxt, prefix). length (filter (\<lambda>k. nxt \<le> k) (map fst m)))"
    by (simp only: in_measure case_prod_conv)
qed simp

declare advance_from.simps [simp del]

definition next_seq :: "nat option \<Rightarrow> nat" where
  "next_seq p = (case p of None \<Rightarrow> 0 | Some h \<Rightarrow> h + 1)"

definition advance_contiguous :: "slot \<Rightarrow> slot" where
  "advance_contiguous sl =
    sl\<lparr>sl_contiguous_prefix :=
      advance_from (sl_frames sl) (next_seq (sl_contiguous_prefix sl)) (sl_contiguous_prefix sl)\<rparr>"

definition slot_is_complete :: "slot \<Rightarrow> bool" where
  "slot_is_complete sl \<longleftrightarrow>
    sl_contiguous_prefix sl \<noteq> None \<and> sl_received_bytes sl = unat (sl_total_len sl)"

record reassembler =
  ra_slots :: "(txid, slot) hash_map"

abbreviation get_slot :: "reassembler \<Rightarrow> txid \<Rightarrow> slot option" where
  "get_slot r tx \<equiv> hm_get (ra_slots r) tx"

abbreviation put_slot :: "txid \<Rightarrow> slot \<Rightarrow> reassembler \<Rightarrow> reassembler" where
  "put_slot tx sl r \<equiv> r\<lparr>ra_slots := hm_put tx sl (ra_slots r)\<rparr>"

definition reassembler_new :: reassembler where
  "reassembler_new = \<lparr>ra_slots = []\<rparr>"

definition fresh_slot :: "u32 \<Rightarrow> slot" where
  "fresh_slot tot =
    \<lparr>sl_total_len = tot, sl_frames = [], sl_received_frames = 0, sl_received_bytes = 0,
     sl_contiguous_prefix = None\<rparr>"

definition store_frame :: "nat \<Rightarrow> byte list \<Rightarrow> slot \<Rightarrow> slot" where
  "store_frame sq payload sl =
    advance_contiguous (sl\<lparr>sl_frames := bt_insert sq payload (sl_frames sl),
      sl_received_frames := sl_received_frames sl + 1,
      sl_received_bytes := sl_received_bytes sl + length payload\<rparr>)"

definition emit_range :: "nat \<Rightarrow> slot \<Rightarrow> (u32 \<times> byte list) list" where
  "emit_range previous_prefix_end sl =
    (let new_prefix_end = (case sl_contiguous_prefix sl of
                             None \<Rightarrow> previous_prefix_end - 1 | Some h \<Rightarrow> h + 1)
     in List.map_filter (\<lambda>covered. map_option (\<lambda>bytes. (of_nat covered, bytes)) (bt_get (sl_frames sl) covered))
          [previous_prefix_end ..< new_prefix_end])"

definition receive_frame ::
  "reassembler \<Rightarrow> txid \<Rightarrow> u32 \<Rightarrow> u32 \<Rightarrow> nat \<Rightarrow> byte list \<Rightarrow> nat \<Rightarrow> bool
    \<Rightarrow> (reassembly_error + receive_outcome) \<times> reassembler" where
  "receive_frame r tx sq tot frame_len payload now emit =
    (if frame_len \<noteq> length payload then (Inl (FrameLenMismatch frame_len (length payload)), r)
     else if tot = 0 then (Inl EmptyTotalLen, r)
     else if 0 < sq \<and> \<not> hm_contains (ra_slots r) tx then (Inr SlotlessDropped, r)
     else
       let previous_prefix_end =
             (case get_slot r tx of None \<Rightarrow> 0 | Some sl \<Rightarrow> next_seq (sl_contiguous_prefix sl));
           sl = (case get_slot r tx of None \<Rightarrow> fresh_slot tot | Some sl \<Rightarrow> sl);
           r1 = put_slot tx sl r
       in if sl_total_len sl \<noteq> tot then (Inl (TotalLenConflict (sl_total_len sl) tot), r1)
          else if bt_get (sl_frames sl) (unat sq) \<noteq> None then (Inr Duplicate, r1)
          else if sl_received_bytes sl + length payload > unat tot
            then (Inl (SlotTotalLenExceeded tot), r1)
          else
            let sl' = store_frame (unat sq) payload sl;
                emitted = (if emit then emit_range previous_prefix_end sl' else [])
            in (Inr (Accepted (slot_is_complete sl') emitted), put_slot tx sl' r))"

definition slot_exists :: "reassembler \<Rightarrow> txid \<Rightarrow> bool" where
  "slot_exists r tx = hm_contains (ra_slots r) tx"

definition is_complete :: "reassembler \<Rightarrow> txid \<Rightarrow> bool" where
  "is_complete r tx = (case get_slot r tx of None \<Rightarrow> False | Some sl \<Rightarrow> slot_is_complete sl)"

definition byte_progress :: "reassembler \<Rightarrow> txid \<Rightarrow> (nat \<times> u32) option" where
  "byte_progress r tx = map_option (\<lambda>sl. (sl_received_bytes sl, sl_total_len sl)) (get_slot r tx)"

definition take_completed :: "reassembler \<Rightarrow> txid \<Rightarrow> byte list option \<times> reassembler" where
  "take_completed r tx =
    (case get_slot r tx of
       None \<Rightarrow> (None, r)
     | Some sl \<Rightarrow>
         if \<not> slot_is_complete sl then (None, r)
         else (Some (concat (map snd (sl_frames sl))), r\<lparr>ra_slots := hm_del tx (ra_slots r)\<rparr>))"

definition ack_entry_of :: "reassembler \<Rightarrow> txid \<Rightarrow> ack_entry option" where
  "ack_entry_of r tx =
    (case get_slot r tx of
       None \<Rightarrow> None
     | Some sl \<Rightarrow>
         (case sl_contiguous_prefix sl of
            None \<Rightarrow> None
          | Some h \<Rightarrow> Some \<lparr>ae_txid = tx, ae_highest_contiguous_seq = of_nat h,
                            ae_received_frames = sl_received_frames sl\<rparr>))"

definition missing_seqs :: "reassembler \<Rightarrow> txid \<Rightarrow> nat \<Rightarrow> u32 list" where
  "missing_seqs r tx max_entries =
    (case get_slot r tx of
       None \<Rightarrow> []
     | Some sl \<Rightarrow>
         if sl_frames sl = [] then []
         else
           let highest_stored = fst (last (sl_frames sl));
               prefix_end = next_seq (sl_contiguous_prefix sl)
           in map of_nat (take max_entries
                (filter (\<lambda>sq. bt_get (sl_frames sl) sq = None) [prefix_end ..< highest_stored])))"

definition open_transactions :: "reassembler \<Rightarrow> txid list" where
  "open_transactions r = hm_keys (ra_slots r)"

definition discard :: "reassembler \<Rightarrow> txid \<Rightarrow> bool \<times> reassembler" where
  "discard r tx = (hm_contains (ra_slots r) tx, r\<lparr>ra_slots := hm_del tx (ra_slots r)\<rparr>)"

definition MAX_NACK_MISSING_ENTRIES :: nat where
  "MAX_NACK_MISSING_ENTRIES = (CONTROL_PAYLOAD_CAP - 19) div 4"

section \<open>Slot invariant\<close>

abbreviation stored :: "slot \<Rightarrow> nat \<Rightarrow> bool" where
  "stored sl i \<equiv> bt_get (sl_frames sl) i \<noteq> None"

abbreviation prefix_end :: "slot \<Rightarrow> nat" where
  "prefix_end sl \<equiv> next_seq (sl_contiguous_prefix sl)"

definition slot_inv :: "slot \<Rightarrow> bool" where
  "slot_inv sl \<longleftrightarrow>
    bt_inv (sl_frames sl) \<and> (\<forall>i. stored sl i \<longrightarrow> i < 2 ^ 32) \<and>
    sl_received_frames sl = of_nat (length (sl_frames sl)) \<and>
    sl_received_bytes sl = length (concat (map snd (sl_frames sl))) \<and>
    sl_received_bytes sl \<le> unat (sl_total_len sl) \<and> sl_total_len sl \<noteq> 0 \<and>
    (\<forall>i<prefix_end sl. stored sl i) \<and> \<not> stored sl (prefix_end sl)"

definition reassembler_inv :: "reassembler \<Rightarrow> bool" where
  "reassembler_inv r \<longleftrightarrow> hm_inv (ra_slots r) \<and> (\<forall>tx sl. get_slot r tx = Some sl \<longrightarrow> slot_inv sl)"

lemma next_seq_simps [simp]:
  "next_seq None = 0" "next_seq (Some h) = Suc h" "next_seq p = 0 \<longleftrightarrow> p = None"
  "next_seq p = Suc h \<longleftrightarrow> p = Some h"
  by (auto simp: next_seq_def split: option.splits)

lemma advance_from_spec:
  "next_seq p = n \<Longrightarrow>
   n \<le> next_seq (advance_from m n p) \<and>
   (\<forall>i. n \<le> i \<and> i < next_seq (advance_from m n p) \<longrightarrow> bt_get m i \<noteq> None) \<and>
   bt_get m (next_seq (advance_from m n p)) = None"
proof (induction m n p rule: advance_from.induct)
  case (1 m n p)
  show ?case
  proof (cases "bt_get m n = None")
    case True
    then show ?thesis
      using "1.prems" by (auto simp: advance_from.simps [of m n p])
  next
    case False
    then have IH: "Suc n \<le> next_seq (advance_from m (Suc n) (Some n)) \<and>
        (\<forall>i. Suc n \<le> i \<and> i < next_seq (advance_from m (Suc n) (Some n)) \<longrightarrow> bt_get m i \<noteq> None) \<and>
        bt_get m (next_seq (advance_from m (Suc n) (Some n))) = None"
      using "1.IH" by simp
    moreover have "bt_get m i \<noteq> None"
      if "n \<le> i" "i < next_seq (advance_from m (Suc n) (Some n))" for i
      using that IH False by (cases "i = n") auto
    moreover have "advance_from m n p = advance_from m (Suc n) (Some n)"
      using False by (simp add: advance_from.simps [of m n p])
    ultimately show ?thesis
      by auto
  qed
qed

lemma concat_length_total: "length (concat (map snd m)) = bt.total length m"
  by (simp add: bt.total_def length_concat comp_def)

lemma length_total: "length m = bt.total (\<lambda>_. 1) m"
  by (simp add: bt.total_def comp_def sum_list_triv)

lemma bt_insert_fresh:
  assumes "bt_inv m" "bt_get m k = None"
  shows "length (bt_insert k v m) = Suc (length m)"
    and "length (concat (map snd (bt_insert k v m))) = length (concat (map snd m)) + length v"
  using bt.total_put_fresh [OF assms, of "\<lambda>_. 1" v] bt.total_put_fresh [OF assms, of length v]
  by (simp_all add: concat_length_total length_total)

lemma store_frame_simps [simp]:
  "sl_total_len (store_frame sq p sl) = sl_total_len sl"
  "sl_frames (store_frame sq p sl) = bt_insert sq p (sl_frames sl)"
  "sl_received_bytes (store_frame sq p sl) = sl_received_bytes sl + length p"
  "sl_received_frames (store_frame sq p sl) = sl_received_frames sl + 1"
  by (simp_all add: store_frame_def advance_contiguous_def)

lemma store_frame_prefix:
  assumes "slot_inv sl" "\<not> stored sl sq"
  shows "prefix_end sl \<le> prefix_end (store_frame sq p sl)"
    and "\<forall>i<prefix_end (store_frame sq p sl). stored (store_frame sq p sl) i"
    and "\<not> stored (store_frame sq p sl) (prefix_end (store_frame sq p sl))"
proof -
  let ?m = "bt_insert sq p (sl_frames sl)"
  have pe: "prefix_end (store_frame sq p sl) =
      next_seq (advance_from ?m (prefix_end sl) (sl_contiguous_prefix sl))"
    by (simp add: store_frame_def advance_contiguous_def)
  note sp = advance_from_spec [OF refl, of "sl_contiguous_prefix sl" ?m]
  have old: "\<forall>i<prefix_end sl. bt_get ?m i \<noteq> None"
    using assms by (simp add: slot_inv_def bt_get_insert)
  show "prefix_end sl \<le> prefix_end (store_frame sq p sl)"
    "\<not> stored (store_frame sq p sl) (prefix_end (store_frame sq p sl))"
    using sp by (simp_all add: pe)
  show "\<forall>i<prefix_end (store_frame sq p sl). stored (store_frame sq p sl) i"
    using sp old by (simp add: pe) (metis not_le)
qed

lemma store_frame_inv:
  assumes "slot_inv sl" "\<not> stored sl sq" "sq < 2 ^ 32"
    and "sl_received_bytes sl + length p \<le> unat (sl_total_len sl)"
  shows "slot_inv (store_frame sq p sl)"
  using assms store_frame_prefix [OF assms(1,2), of p] bt_insert_fresh [of "sl_frames sl" sq p]
  by (auto simp: slot_inv_def bt_inv_insert bt_get_insert add.commute split: if_splits)

lemma slot_invD:
  assumes "slot_inv sl"
  shows "bt_inv (sl_frames sl)" "stored sl i \<Longrightarrow> i < 2 ^ 32"
    "sl_received_frames sl = of_nat (length (sl_frames sl))"
    "i < prefix_end sl \<Longrightarrow> stored sl i" "\<not> stored sl (prefix_end sl)"
  using assms unfolding slot_inv_def by blast+

lemma reassembler_inv_slot: "reassembler_inv r \<Longrightarrow> get_slot r tx = Some sl \<Longrightarrow> slot_inv sl"
  by (simp add: reassembler_inv_def)

lemma fresh_slot_inv: "tot \<noteq> 0 \<Longrightarrow> slot_inv (fresh_slot tot)"
  by (simp add: slot_inv_def fresh_slot_def bt_inv_def bt_get_def)

lemma reassembler_inv_new [simp]: "reassembler_inv reassembler_new"
  by (simp add: reassembler_inv_def reassembler_new_def)

lemma reassembler_inv_put:
  "reassembler_inv r \<Longrightarrow> slot_inv sl \<Longrightarrow> reassembler_inv (put_slot tx sl r)"
  by (auto simp: reassembler_inv_def)

lemma reassembler_inv_del:
  "reassembler_inv r \<Longrightarrow> reassembler_inv (r\<lparr>ra_slots := hm_del tx (ra_slots r)\<rparr>)"
  by (auto simp: reassembler_inv_def)

lemma receive_inv:
  assumes "reassembler_inv r"
  shows "reassembler_inv (snd (receive_frame r tx sq tot n payload now emit))"
proof -
  define sl where "sl = (case get_slot r tx of None \<Rightarrow> fresh_slot tot | Some sl \<Rightarrow> sl)"
  have sl: "slot_inv sl" if "tot \<noteq> 0"
    using assms that fresh_slot_inv [of tot] by (auto simp: sl_def reassembler_inv_def split: option.splits)
  have "unat sq < 2 ^ 32"
    using unsigned_less [of sq, where ?'a = nat] by simp
  then show ?thesis
    using assms sl store_frame_inv [of sl "unat sq" payload]
    by (auto simp: receive_frame_def Let_def reassembler_inv_put simp flip: sl_def)
qed

lemma take_inv: "reassembler_inv r \<Longrightarrow> reassembler_inv (snd (take_completed r tx))"
  by (auto simp: take_completed_def reassembler_inv_del split: option.splits)

lemma discard_inv: "reassembler_inv r \<Longrightarrow> reassembler_inv (snd (discard r tx))"
  by (simp add: discard_def reassembler_inv_del)

datatype reassembler_op =
    OpReceive txid u32 u32 nat "byte list" nat bool | OpTake txid | OpDiscard txid

fun reassembler_step :: "reassembler_op \<Rightarrow> reassembler \<Rightarrow> reassembler" where
  "reassembler_step (OpReceive tx sq tot n p now emit) r = snd (receive_frame r tx sq tot n p now emit)"
| "reassembler_step (OpTake tx) r = snd (take_completed r tx)"
| "reassembler_step (OpDiscard tx) r = snd (discard r tx)"

interpretation reassembler_machine: invariant_machine reassembler_step reassembler_inv
proof
  fix r op
  assume "reassembler_inv r"
  then show "reassembler_inv (reassembler_step op r)"
    by (cases "(op, r)" rule: reassembler_step.cases) (simp_all add: receive_inv take_inv discard_inv)
qed

section \<open>Streaming emission\<close>

lemma sorted_le_last: "sorted xs \<Longrightarrow> x \<in> set xs \<Longrightarrow> x \<le> last xs"
  by (induction xs) auto

definition emission :: "nat \<Rightarrow> slot \<Rightarrow> (u32 \<times> byte list) list" where
  "emission from sl = map (\<lambda>i. (of_nat i, the (bt_get (sl_frames sl) i))) [from ..< prefix_end sl]"

lemma map_filter_total: "(\<And>x. x \<in> set xs \<Longrightarrow> g x \<noteq> None) \<Longrightarrow> List.map_filter g xs = map (the \<circ> g) xs"
  by (induction xs) (auto simp: List.map_filter_simps split: option.splits)

lemma emit_range_eq:
  assumes "\<forall>i<prefix_end sl. stored sl i"
  shows "emit_range from sl = emission from sl"
proof -
  have e: "(case sl_contiguous_prefix sl of None \<Rightarrow> from - 1 | Some h \<Rightarrow> h + 1) = prefix_end sl
      \<or> [from ..< (case sl_contiguous_prefix sl of None \<Rightarrow> from - 1 | Some h \<Rightarrow> h + 1)] = [from ..< prefix_end sl]"
    by (cases "sl_contiguous_prefix sl") auto
  have "List.map_filter (\<lambda>i. map_option (\<lambda>bytes. (of_nat i, bytes)) (bt_get (sl_frames sl) i)) [from ..< prefix_end sl]
      = emission from sl"
    using assms by (subst map_filter_total) (auto simp: emission_def)
  then show ?thesis
    using e by (auto simp: emit_range_def Let_def)
qed

lemma emission_extend:
  assumes "from \<le> prefix_end sl" "prefix_end sl \<le> prefix_end sl'"
    and "\<forall>i<prefix_end sl. bt_get (sl_frames sl') i = bt_get (sl_frames sl) i"
  shows "emission from sl @ emission (prefix_end sl) sl' = emission from sl'"
proof -
  have "[from ..< prefix_end sl'] = [from ..< prefix_end sl] @ [prefix_end sl ..< prefix_end sl']"
    using assms(1,2) by (metis le_add_diff_inverse upt_add_eq_append)
  then show ?thesis
    using assms(3) by (simp add: emission_def)
qed

text \<open>The effect of one data frame on its slot.\<close>

inductive slot_receives :: "slot \<Rightarrow> nat \<Rightarrow> byte list \<Rightarrow> receive_outcome \<Rightarrow> slot \<Rightarrow> bool" where
  receives_dup: "stored sl sq \<Longrightarrow> slot_receives sl sq p Duplicate sl"
| receives_new:
    "\<not> stored sl sq \<Longrightarrow> sl_received_bytes sl + length p \<le> unat (sl_total_len sl) \<Longrightarrow>
     slot_receives sl sq p
       (Accepted (slot_is_complete (store_frame sq p sl)) (emission (prefix_end sl) (store_frame sq p sl)))
       (store_frame sq p sl)"

inductive_cases slot_receivesE: "slot_receives sl sq p out sl'"

lemma receive_frame_cases:
  assumes "reassembler_inv r" "receive_frame r tx sq tot n p now True = (res, r')"
  obtains (error) e where "res = Inl e" "\<And>tx'. tx' \<noteq> tx \<Longrightarrow> get_slot r' tx' = get_slot r tx'"
      "get_slot r' tx = get_slot r tx \<or> get_slot r tx = None \<and> get_slot r' tx = Some (fresh_slot tot)"
  | (dropped) "res = Inr SlotlessDropped" "r' = r" "get_slot r tx = None"
  | (received) sl out sl' where "res = Inr out" "n = length p" "slot_inv sl" "slot_receives sl (unat sq) p out sl'"
      "sl = (case get_slot r tx of None \<Rightarrow> fresh_slot tot | Some s \<Rightarrow> s)" "sl_total_len sl = tot"
      "r' = put_slot tx sl' r"
proof -
  define sl where "sl = (case get_slot r tx of None \<Rightarrow> fresh_slot tot | Some s \<Rightarrow> s)"
  have inv: "slot_inv sl" if "tot \<noteq> 0"
    using assms(1) that fresh_slot_inv [of tot] by (auto simp: sl_def reassembler_inv_def split: option.splits)
  have pe: "(case get_slot r tx of None \<Rightarrow> 0 | Some s \<Rightarrow> prefix_end s) = prefix_end sl"
    by (auto simp: sl_def fresh_slot_def split: option.splits)
  have emit: "emit_range (prefix_end sl) (store_frame (unat sq) p sl) =
      emission (prefix_end sl) (store_frame (unat sq) p sl)" if "tot \<noteq> 0" "\<not> stored sl (unat sq)"
    using store_frame_prefix(2) [OF inv [OF that(1)] that(2)] by (rule emit_range_eq)
  have eq: "receive_frame r tx sq tot n p now True =
    (if n \<noteq> length p then (Inl (FrameLenMismatch n (length p)), r)
     else if tot = 0 then (Inl EmptyTotalLen, r)
     else if 0 < sq \<and> \<not> hm_contains (ra_slots r) tx then (Inr SlotlessDropped, r)
     else if sl_total_len sl \<noteq> tot then (Inl (TotalLenConflict (sl_total_len sl) tot), put_slot tx sl r)
     else if stored sl (unat sq) then (Inr Duplicate, put_slot tx sl r)
     else if sl_received_bytes sl + length p > unat tot then (Inl (SlotTotalLenExceeded tot), put_slot tx sl r)
     else (Inr (Accepted (slot_is_complete (store_frame (unat sq) p sl))
             (emit_range (prefix_end sl) (store_frame (unat sq) p sl))), put_slot tx (store_frame (unat sq) p sl) r))"
    unfolding receive_frame_def Let_def pe sl_def [symmetric] by simp
  consider "n \<noteq> length p \<or> tot = 0" | "n = length p" "tot \<noteq> 0" "0 < sq \<and> \<not> hm_contains (ra_slots r) tx"
    | "n = length p" "tot \<noteq> 0" "\<not> (0 < sq \<and> \<not> hm_contains (ra_slots r) tx)" "sl_total_len sl \<noteq> tot"
    | "n = length p" "tot \<noteq> 0" "\<not> (0 < sq \<and> \<not> hm_contains (ra_slots r) tx)" "sl_total_len sl = tot"
      "stored sl (unat sq)"
    | "n = length p" "tot \<noteq> 0" "\<not> (0 < sq \<and> \<not> hm_contains (ra_slots r) tx)" "sl_total_len sl = tot"
      "\<not> stored sl (unat sq)" "sl_received_bytes sl + length p > unat tot"
    | "n = length p" "tot \<noteq> 0" "\<not> (0 < sq \<and> \<not> hm_contains (ra_slots r) tx)" "sl_total_len sl = tot"
      "\<not> stored sl (unat sq)" "sl_received_bytes sl + length p \<le> unat tot"
    by linarith
  then show ?thesis
  proof cases
    case 1
    then have "r' = r" "\<exists>e. res = Inl e"
      using assms(2) by (auto simp: receive_frame_def split: if_splits)
    then show ?thesis
      using error by auto
  next
    case 2
    then show ?thesis
      using assms(2) by (intro dropped) (auto simp: receive_frame_def hm_contains_def)
  next
    case 3
    then have "res = Inl (TotalLenConflict (sl_total_len sl) tot)" "r' = put_slot tx sl r"
      using assms(2) [unfolded eq] by (auto split: if_splits)
    then show ?thesis
      by (intro error [of "TotalLenConflict (sl_total_len sl) tot"]) (auto simp: sl_def split: option.splits)
  next
    case 4
    then have "res = Inr Duplicate" "r' = put_slot tx sl r"
      using assms(2) [unfolded eq] by (auto split: if_splits)
    then show ?thesis
      using 4 inv by (intro received [of Duplicate sl sl]) (auto simp: sl_def intro: receives_dup)
  next
    case 5
    then have "res = Inl (SlotTotalLenExceeded tot)" "r' = put_slot tx sl r"
      using assms(2) [unfolded eq] by (auto split: if_splits)
    then show ?thesis
      by (intro error [of "SlotTotalLenExceeded tot"]) (auto simp: sl_def split: option.splits)
  next
    case 6
    let ?sl = "store_frame (unat sq) p sl"
    have "res = Inr (Accepted (slot_is_complete ?sl) (emission (prefix_end sl) ?sl))" "r' = put_slot tx ?sl r"
      using assms(2) [unfolded eq] 6 emit by (auto split: if_splits)
    then show ?thesis
      using 6 inv receives_new [of sl "unat sq" p] by (intro received [OF _ _ _ _ sl_def]) auto
  qed
qed

section \<open>Runs of data frames\<close>

primrec receive_all ::
  "reassembler \<Rightarrow> nat \<Rightarrow> frame list \<Rightarrow> (reassembly_error + receive_outcome) list \<times> reassembler" where
  "receive_all r now [] = ([], r)"
| "receive_all r now (f # fs) =
    (let (res, r1) = receive_frame r (f_txid f) (f_seq f) (f_total_len f) (length (f_payload f)) (f_payload f) now True;
         (rest, r2) = receive_all r1 now fs
     in (res # rest, r2))"

fun emitted :: "reassembly_error + receive_outcome \<Rightarrow> (u32 \<times> byte list) list" where
  "emitted (Inr (Accepted c em)) = em"
| "emitted res = []"

definition emissions_for ::
  "txid \<Rightarrow> frame list \<Rightarrow> (reassembly_error + receive_outcome) list \<Rightarrow> (u32 \<times> byte list) list" where
  "emissions_for tx fs outs = concat (map (\<lambda>(f, res). if f_txid f = tx then emitted res else []) (zip fs outs))"

text \<open>The slot of an id, an empty one standing for none.\<close>

definition slot_of :: "reassembler \<Rightarrow> txid \<Rightarrow> slot" where
  "slot_of r tx = (case get_slot r tx of None \<Rightarrow> fresh_slot 0 | Some sl \<Rightarrow> sl)"

definition grows :: "slot \<Rightarrow> slot \<Rightarrow> bool" where
  "grows sl sl' \<longleftrightarrow>
    prefix_end sl \<le> prefix_end sl' \<and> (\<forall>i<prefix_end sl. bt_get (sl_frames sl') i = bt_get (sl_frames sl) i)"

lemma grows_refl [simp]: "grows sl sl"
  by (simp add: grows_def)

lemma grows_fresh: "grows (fresh_slot a) sl"
  by (simp add: grows_def fresh_slot_def)

lemma emission_empty [simp]: "emission (prefix_end sl) sl = []"
  by (simp add: emission_def)

lemma slot_receives_grows:
  assumes "slot_receives sl sq p out sl'" "slot_inv sl"
  shows "grows sl sl' \<and> emitted (Inr out) = emission (prefix_end sl) sl'"
  using assms(1)
proof (cases rule: slot_receives.cases)
  case receives_dup
  then show ?thesis by simp
next
  case receives_new
  have "i \<noteq> sq" if "i < prefix_end sl" for i
    using receives_new assms(2) that by (auto simp: slot_inv_def)
  then show ?thesis
    using receives_new assms(2) store_frame_prefix(1) [OF assms(2), of sq p]
    by (auto simp: grows_def slot_inv_def bt_get_insert)
qed

lemma receive_frame_grows:
  assumes "reassembler_inv r" "receive_frame r tx sq tot n p now True = (res, r')"
  shows "grows (slot_of r u) (slot_of r' u) \<and>
    (if u = tx then emitted res else []) = emission (prefix_end (slot_of r u)) (slot_of r' u)"
  using assms
proof (cases rule: receive_frame_cases)
  case (error e)
  then have "slot_of r' u = slot_of r u \<or> slot_of r u = fresh_slot 0 \<and> slot_of r' u = fresh_slot tot"
    by (cases "u = tx") (auto simp: slot_of_def)
  then show ?thesis
    using error(1) by (auto simp: grows_fresh) (simp_all add: emission_def fresh_slot_def)
next
  case dropped
  then show ?thesis by simp
next
  case (received sl out sl')
  have u: "grows (slot_of r u) (slot_of r' u) \<and> [] = emission (prefix_end (slot_of r u)) (slot_of r' u)"
    if "u \<noteq> tx"
    using that received by (simp add: slot_of_def)
  have "slot_of r' tx = sl'" "sl_frames (slot_of r tx) = sl_frames sl"
      "sl_contiguous_prefix (slot_of r tx) = sl_contiguous_prefix sl"
    using received by (auto simp: slot_of_def fresh_slot_def split: option.splits)
  then show ?thesis
    using u slot_receives_grows [OF received(4,3)] received(1) by (auto simp: grows_def)
qed

lemma receive_all_emits:
  "reassembler_inv r \<Longrightarrow> receive_all r now fs = (outs, r') \<Longrightarrow>
   grows (slot_of r tx) (slot_of r' tx) \<and>
   emissions_for tx fs outs = emission (prefix_end (slot_of r tx)) (slot_of r' tx) \<and> reassembler_inv r'"
proof (induction fs arbitrary: r outs)
  case Nil
  then show ?case
    by (simp add: emissions_for_def)
next
  case (Cons f fs)
  obtain res r1 where f: "receive_frame r (f_txid f) (f_seq f) (f_total_len f) (length (f_payload f))
      (f_payload f) now True = (res, r1)"
    by (metis surj_pair)
  obtain rest where a: "receive_all r1 now fs = (rest, r')" "outs = res # rest"
    using Cons.prems(2) f by (auto split: prod.splits)
  have inv1: "reassembler_inv r1"
    using receive_inv [OF Cons.prems(1)] f by (metis snd_conv)
  note g = receive_frame_grows [OF Cons.prems(1) f, of tx]
  note IH = Cons.IH [OF inv1 a(1)]
  have "emission (prefix_end (slot_of r tx)) (slot_of r1 tx) @ emission (prefix_end (slot_of r1 tx)) (slot_of r' tx)
      = emission (prefix_end (slot_of r tx)) (slot_of r' tx)"
    using g IH by (intro emission_extend) (auto simp: grows_def)
  moreover have "grows (slot_of r tx) (slot_of r' tx)"
    using g IH by (auto simp: grows_def)
  moreover have "emissions_for tx (f # fs) outs =
      (if tx = f_txid f then emitted res else []) @ emissions_for tx fs rest"
    by (simp add: emissions_for_def a(2))
  ultimately show ?case
    using g IH by simp
qed

lemma receive_all_inv: "reassembler_inv r \<Longrightarrow> reassembler_inv (snd (receive_all r now fs))"
  using receive_all_emits [of r now fs] by (metis prod.collapse)

section \<open>Reassembling what a sender cut\<close>

definition transferable :: "byte list list \<Rightarrow> bool" where
  "transferable ps \<longleftrightarrow> ps \<noteq> [] \<and> (\<forall>p\<in>set ps. p \<noteq> []) \<and> length (concat ps) < 2 ^ 32"

definition honest :: "byte list list \<Rightarrow> nat set \<Rightarrow> slot \<Rightarrow> bool" where
  "honest ps I sl \<longleftrightarrow>
    slot_inv sl \<and> sl_total_len sl = of_nat (length (concat ps)) \<and> I \<subseteq> {..<length ps} \<and>
    bt_get (sl_frames sl) = (\<lambda>i. if i \<in> I then Some (ps ! i) else None)"

lemma length_concat_sum: "length (concat ps) = (\<Sum>i<length ps. length (ps ! i))"
  by (simp add: length_concat sum_list_sum_nth atLeast0LessThan)

lemma transferable_simps:
  assumes "transferable ps"
  shows "unat (of_nat (length (concat ps)) :: u32) = length (concat ps)" "(of_nat (length (concat ps)) :: u32) \<noteq> 0"
    "length ps \<le> length (concat ps)" "i < length ps \<Longrightarrow> unat (of_nat i :: u32) = i"
proof -
  show l: "length ps \<le> length (concat ps)"
    using assms by (intro length_le_concat) (auto simp: transferable_def)
  show u: "unat (of_nat (length (concat ps)) :: u32) = length (concat ps)"
    using assms by (intro unat_of_nat_u32) (simp add: transferable_def)
  have "0 < length ps"
    using assms by (simp add: transferable_def)
  then show "(of_nat (length (concat ps)) :: u32) \<noteq> 0"
    using l u by (metis less_le_trans not_less_zero unat_0)
  show "unat (of_nat i :: u32) = i" if "i < length ps"
    using that l assms by (intro unat_of_nat_u32) (simp add: transferable_def)
qed

lemma honest_bytes:
  assumes "honest ps I sl"
  shows "sl_received_bytes sl = (\<Sum>i\<in>I. length (ps ! i))"
proof -
  have "dom (bt_get (sl_frames sl)) = I"
    using assms by (auto simp: honest_def dom_def)
  moreover have "sl_received_bytes sl = bt.total length (sl_frames sl)"
    using assms by (simp add: honest_def slot_inv_def concat_length_total)
  ultimately show ?thesis
    using assms bt.total_dom [of "sl_frames sl" length] by (simp add: honest_def slot_inv_def)
qed

lemma honest_complete_iff:
  assumes "honest ps I sl" "transferable ps"
  shows "slot_is_complete sl \<longleftrightarrow> I = {..<length ps}"
proof
  assume c: "slot_is_complete sl"
  show "I = {..<length ps}"
  proof (rule ccontr)
    assume "I \<noteq> {..<length ps}"
    then obtain i where i: "i < length ps" "i \<notin> I"
      using assms(1) by (auto simp: honest_def)
    have "(\<Sum>i\<in>I. length (ps ! i)) < (\<Sum>i<length ps. length (ps ! i))"
      using assms i by (intro sum_strict_mono2 [of _ _ i]) (auto simp: honest_def transferable_def)
    then show False
      using c honest_bytes [OF assms(1)] transferable_simps(1) [OF assms(2)] assms(1)
      by (simp add: slot_is_complete_def honest_def length_concat_sum)
  qed
next
  assume I: "I = {..<length ps}"
  then have "stored sl 0"
    using assms by (auto simp: honest_def transferable_def)
  moreover have "\<not> stored sl (prefix_end sl)"
    using assms(1) unfolding honest_def slot_inv_def by blast
  ultimately have "prefix_end sl \<noteq> 0"
    by metis
  then have "sl_contiguous_prefix sl \<noteq> None"
    by simp
  then show "slot_is_complete sl"
    using I honest_bytes [OF assms(1)] transferable_simps(1) [OF assms(2)] assms(1)
    by (simp add: slot_is_complete_def honest_def length_concat_sum)
qed

lemma honest_frames:
  assumes "honest ps {..<length ps} sl"
  shows "sl_frames sl = map (\<lambda>i. (i, ps ! i)) [0..<length ps]"
proof (rule bt.entries_unique)
  show "map_of (map (\<lambda>i. (i, ps ! i)) [0..<length ps]) = bt_get (sl_frames sl)"
    using assms by (auto simp: honest_def map_of_map_restrict restrict_map_def fun_eq_iff)
qed (use assms in \<open>auto simp: honest_def slot_inv_def comp_def\<close>)

lemma honest_contents:
  assumes "honest ps {..<length ps} sl"
  shows "concat (map snd (sl_frames sl)) = concat ps"
  by (simp add: honest_frames [OF assms] comp_def map_nth)

lemma honest_fresh: "transferable ps \<Longrightarrow> honest ps {} (fresh_slot (of_nat (length (concat ps))))"
  using transferable_simps(2) [of ps] fresh_slot_inv
  by (auto simp: honest_def) (simp_all add: fresh_slot_def bt_get_def fun_eq_iff)

lemma receive_honest:
  assumes "reassembler_inv r" "transferable ps" "i < length ps"
    and "honest ps I (case get_slot r tx of None \<Rightarrow> fresh_slot (of_nat (length (concat ps))) | Some s \<Rightarrow> s)"
    and "get_slot r tx = None \<longrightarrow> i = 0"
    and "receive_frame r tx (of_nat i) (of_nat (length (concat ps))) (length (ps ! i)) (ps ! i) now True = (res, r')"
  shows "\<exists>sl'. get_slot r' tx = Some sl' \<and> honest ps (insert i I) sl' \<and>
    (if i \<in> I then res = Inr Duplicate else \<exists>em. res = Inr (Accepted (insert i I = {..<length ps}) em))"
  using assms(1,6)
proof (cases rule: receive_frame_cases)
  case (received sl out sl')
  note u = transferable_simps(4) [OF assms(2,3)]
  have sl: "honest ps I sl"
    using assms(4) received(5) by simp
  have "honest ps (insert i I) sl' \<and>
      (if i \<in> I then out = Duplicate else \<exists>em. out = Accepted (insert i I = {..<length ps}) em)"
    using received(4)
  proof (cases rule: slot_receives.cases)
    case receives_dup
    then have "i \<in> I"
      using sl u by (auto simp: honest_def split: if_splits)
    then show ?thesis
      using sl receives_dup by (simp add: insert_absorb)
  next
    case receives_new
    then have i: "i \<notin> I"
      using sl u by (auto simp: honest_def)
    have "slot_inv sl'"
      using store_frame_inv [of sl i "ps ! i"] receives_new sl u assms(2,3) transferable_simps(3) [OF assms(2)]
      by (simp add: honest_def transferable_def)
    then have h: "honest ps (insert i I) sl'"
      using sl receives_new u assms(3) by (auto simp: honest_def slot_inv_def bt_get_insert)
    then show ?thesis
      using i receives_new honest_complete_iff [OF h assms(2)] by auto
  qed
  then show ?thesis
    using received by simp
next
  case (error e)
  define sl where "sl = (case get_slot r tx of None \<Rightarrow> fresh_slot (of_nat (length (concat ps))) | Some s \<Rightarrow> s)"
  have sl: "honest ps I sl"
    using assms(4) by (simp add: sl_def)
  have fit: "sl_received_bytes sl + length (ps ! i) \<le> length (concat ps)" if "i \<notin> I"
  proof -
    have "finite I"
      using sl finite_subset by (auto simp: honest_def)
    then have "sl_received_bytes sl + length (ps ! i) = (\<Sum>j\<in>insert i I. length (ps ! j))"
      using that honest_bytes [OF sl] by simp
    also have "\<dots> \<le> length (concat ps)"
      using sl assms(3) unfolding length_concat_sum by (intro sum_mono2) (auto simp: honest_def)
    finally show ?thesis .
  qed
  have "stored sl (unat (of_nat i :: u32)) \<longleftrightarrow> i \<in> I"
    using sl transferable_simps(4) [OF assms(2,3)] by (auto simp: honest_def)
  moreover have "sl_total_len sl = of_nat (length (concat ps))"
    using sl by (simp add: honest_def)
  ultimately have False
    using assms(5,6) error(1) fit transferable_simps [OF assms(2)]
    unfolding receive_frame_def Let_def sl_def [symmetric] hm_contains_def
    by (auto split: if_splits)
  then show ?thesis ..
next
  case dropped
  then have False
    using assms(5,6) transferable_simps(2) [OF assms(2)] unfolding receive_frame_def Let_def
    by (auto split: if_splits)
  then show ?thesis ..
qed

lemma receive_all_honest:
  assumes "transferable ps"
  shows "reassembler_inv r \<Longrightarrow> get_slot r tx = Some sl \<Longrightarrow> honest ps I sl \<Longrightarrow> set js \<subseteq> {..<length ps} \<Longrightarrow>
    \<exists>sl'. get_slot (snd (receive_all r now (map (\<lambda>i. mk_frame tx (of_nat (length (concat ps))) i (ps ! i)) js))) tx
        = Some sl' \<and> honest ps (I \<union> set js) sl'"
proof (induction js arbitrary: r sl I)
  case Nil
  then show ?case by simp
next
  case (Cons j js)
  obtain res r1 where f: "receive_frame r tx (of_nat j) (of_nat (length (concat ps))) (length (ps ! j)) (ps ! j) now True
      = (res, r1)"
    by (metis surj_pair)
  obtain sl1 where s: "get_slot r1 tx = Some sl1" "honest ps (insert j I) sl1"
    using receive_honest [OF Cons.prems(1) assms, of j I tx now res r1] Cons.prems f by auto
  have "reassembler_inv r1"
    using receive_inv [OF Cons.prems(1)] f by (metis snd_conv)
  from Cons.IH [OF this s] show ?case
    using Cons.prems(4) f by (simp add: split_beta)
qed

section \<open>Properties of the receiver\<close>

text \<open>
  C22. Receiver invariant. After any sequence of operations every slot stores frames in ascending
  order, its counters are the number and total size of the stored frames, which never exceed the
  declared length, and its contiguous prefix is exactly the longest run of stored frames from 0.
\<close>

theorem reassembler_invariant_reachable:
  "reassembler_inv (fold reassembler_step ops reassembler_new)"
  using reassembler_machine.run_good [of reassembler_new ops] by (simp add: reassembler_machine.run_def)

text \<open>
  C21. Reassembly in any order. Let a payload be cut into non-empty pieces. Feed the receiver any
  sequence of the corresponding frames that starts with frame 0, in any order and with any
  repetitions. The transaction is complete exactly when every piece has arrived; taking it then
  returns the payload, and before that returns nothing.
\<close>

theorem reassembly_any_order:
  assumes "transferable ps" "reassembler_inv r" "\<not> slot_exists r tx"
    and "js \<noteq> []" "hd js = 0" "set js \<subseteq> {..<length ps}"
    and "receive_all r now (map (\<lambda>i. mk_frame tx (of_nat (length (concat ps))) i (ps ! i)) js) = (outs, r')"
  shows "(is_complete r' tx \<longleftrightarrow> set js = {..<length ps}) \<and>
    fst (take_completed r' tx) = (if set js = {..<length ps} then Some (concat ps) else None)"
proof -
  have n: "get_slot r tx = None" "0 < length ps"
    using assms(1,3) by (simp_all add: slot_exists_def hm_contains_def transferable_def)
  obtain js' where js: "js = 0 # js'"
    using assms(4,5) by (cases js) auto
  obtain res r1 where f: "receive_frame r tx (of_nat 0) (of_nat (length (concat ps))) (length (ps ! 0)) (ps ! 0) now True
      = (res, r1)"
    by (metis surj_pair)
  obtain sl1 where s: "get_slot r1 tx = Some sl1" "honest ps (insert 0 {}) sl1"
    using receive_honest [OF assms(2,1) n(2), of "{}" tx now res r1] f n(1) honest_fresh [OF assms(1)] by auto
  have inv1: "reassembler_inv r1"
    using receive_inv [OF assms(2)] f by (metis snd_conv)
  obtain sl where sl: "get_slot r' tx = Some sl" "honest ps (set js) sl"
    using receive_all_honest [OF assms(1) inv1 s, of js' now] assms(6,7) f by (auto simp: js split_beta)
  note c = honest_complete_iff [OF sl(2) assms(1)]
  show ?thesis
  proof (cases "set js = {..<length ps}")
    case True
    then have "concat (map snd (sl_frames sl)) = concat ps"
      using honest_contents sl(2) by metis
    then show ?thesis
      using sl(1) c True by (simp add: is_complete_def take_completed_def)
  next
    case False
    then show ?thesis
      using sl(1) c by (simp add: is_complete_def take_completed_def)
  qed
qed

definition sample_pieces :: "byte list list" where
  "sample_pieces = [[1, 2], [3], [4, 5]]"

lemma sample_transferable: "transferable sample_pieces"
  by (simp add: transferable_def sample_pieces_def)

theorem reassembly_any_order_witness:
  "fst (take_completed (snd (receive_all reassembler_new 0
      (map (\<lambda>i. mk_frame 7 (of_nat (length (concat sample_pieces))) i (sample_pieces ! i)) [0, 2, 0, 1]))) 7) = Some [1, 2, 3, 4, 5]"
proof -
  let ?r = "receive_all reassembler_new 0
      (map (\<lambda>i. mk_frame 7 (of_nat (length (concat sample_pieces))) i (sample_pieces ! i)) [0, 2, 0, 1])"
  have n: "\<not> slot_exists reassembler_new 7"
    by (simp add: slot_exists_def reassembler_new_def)
  have len: "length sample_pieces = 3" and c: "concat sample_pieces = [1, 2, 3, 4, 5]"
    by (simp_all add: sample_pieces_def)
  have s: "set [0, 2, 0, 1 :: nat] = {..<length sample_pieces}"
    by (auto simp: len)
  have "fst (take_completed (snd ?r) 7) = (if set [0, 2, 0, 1 :: nat] = {..<length sample_pieces} then Some (concat sample_pieces) else None)"
    by (rule reassembly_any_order [where outs = "fst ?r" and now = 0,
          OF sample_transferable reassembler_inv_new n, THEN conjunct2])
      (simp_all only: prod.collapse s, simp_all)
  then show ?thesis
    by (simp only: s c if_True simp_thms)
qed

text \<open>
  Streaming emission. For any frames whatsoever, interleaved over any transactions, the frames
  handed to the stream of a transaction that had no slot are exactly its contiguous prefix: every
  sequence number from 0 on, in order, each exactly once, with the bytes that are stored.
\<close>

theorem emission_is_contiguous_prefix:
  assumes "reassembler_inv r" "\<not> slot_exists r tx" "receive_all r now fs = (outs, r')"
  shows "emissions_for tx fs outs =
    map (\<lambda>i. (of_nat i, the (bt_get (sl_frames (slot_of r' tx)) i))) [0 ..< prefix_end (slot_of r' tx)]"
  using receive_all_emits [OF assms(1,3), of tx] assms(2)
  by (simp add: slot_of_def [of r] slot_exists_def hm_contains_def fresh_slot_def emission_def)

theorem emission_is_contiguous_prefix_witness:
  "emissions_for 7 (map (\<lambda>i. mk_frame 7 5 i (sample_pieces ! i)) [0, 2, 0, 1])
     (fst (receive_all reassembler_new 0 (map (\<lambda>i. mk_frame 7 5 i (sample_pieces ! i)) [0, 2, 0, 1])))
   = [(0, [1, 2]), (1, [3]), (2, [4, 5])]"
proof -
  let ?fs = "map (\<lambda>i. mk_frame 7 5 i (sample_pieces ! i)) [0, 2, 0, 1]"
  have n: "\<not> slot_exists reassembler_new 7"
    by (simp add: slot_exists_def reassembler_new_def)
  have "map (\<lambda>i. (of_nat i :: u32, the (bt_get (sl_frames (slot_of (snd (receive_all reassembler_new 0 ?fs)) 7)) i)))
      [0 ..< prefix_end (slot_of (snd (receive_all reassembler_new 0 ?fs)) 7)] = [(0, [1, 2]), (1, [3]), (2, [4, 5])]"
    by code_simp
  then show ?thesis
    using emission_is_contiguous_prefix [OF _ n, of 0 ?fs "fst (receive_all reassembler_new 0 ?fs)"
        "snd (receive_all reassembler_new 0 ?fs)"] by simp
qed

text \<open>
  Acknowledgements are truthful. A receiver exports an ACK entry for a slot exactly when frame 0
  is stored; the entry's highest contiguous number \<open>h\<close> is such that all frames up to \<open>h\<close> are stored and
  \<open>h + 1\<close> is not, and its count is the number of stored frames.
\<close>

theorem ack_entry_truthful:
  assumes "reassembler_inv r" "get_slot r tx = Some sl"
  shows "(ack_entry_of r tx \<noteq> None \<longleftrightarrow> stored sl 0) \<and>
    (\<forall>e. ack_entry_of r tx = Some e \<longrightarrow>
      ae_txid e = tx \<and> (\<forall>i\<le>unat (ae_highest_contiguous_seq e). stored sl i) \<and>
      \<not> stored sl (Suc (unat (ae_highest_contiguous_seq e))) \<and>
      ae_received_frames e = of_nat (length (sl_frames sl)))"
proof (cases "sl_contiguous_prefix sl")
  case None
  then have "\<not> stored sl 0"
    using slot_invD(5) [OF reassembler_inv_slot [OF assms]] by simp
  then show ?thesis
    using assms(2) None by (simp add: ack_entry_of_def)
next
  case (Some h)
  have sl: "\<forall>i<Suc h. stored sl i" "\<not> stored sl (Suc h)" "\<forall>i. stored sl i \<longrightarrow> i < 2 ^ 32"
      "sl_received_frames sl = of_nat (length (sl_frames sl))"
    using slot_invD [OF reassembler_inv_slot [OF assms]] Some by simp_all
  then have "unat (of_nat h :: u32) = h"
    by (intro unat_of_nat_u32) blast
  then show ?thesis
    using sl assms(2) Some by (auto simp: ack_entry_of_def less_Suc_eq_le)
qed

theorem ack_entry_truthful_witness:
  "ack_entry_of (snd (receive_all reassembler_new 0 (map (\<lambda>i. mk_frame 7 5 i (sample_pieces ! i)) [0, 2]))) 7
    = Some \<lparr>ae_txid = 7, ae_highest_contiguous_seq = 0, ae_received_frames = 2\<rparr>"
proof -
  let ?r = "snd (receive_all reassembler_new 0 (map (\<lambda>i. mk_frame 7 5 i (sample_pieces ! i)) [0, 2]))"
  let ?sl = "\<lparr>sl_total_len = 5, sl_frames = [(0, [1, 2]), (2, [4, 5])], sl_received_frames = 2,
      sl_received_bytes = 4, sl_contiguous_prefix = Some 0\<rparr>"
  have inv: "reassembler_inv ?r"
    by (rule receive_all_inv) simp
  have g: "get_slot ?r 7 = Some ?sl"
    by code_simp
  obtain e where e: "ack_entry_of ?r 7 = Some e"
    using ack_entry_truthful [OF inv g] by (auto simp: bt_get_def)
  have "ae_txid e = 7" "\<not> stored ?sl (Suc (unat (ae_highest_contiguous_seq e)))"
      "\<forall>i\<le>unat (ae_highest_contiguous_seq e). stored ?sl i" "ae_received_frames e = 2"
    using ack_entry_truthful [OF inv g] e by simp_all
  moreover from this(3) have "unat (ae_highest_contiguous_seq e) = 0"
    by (auto simp: bt_get_def dest: spec [of _ 1])
  ultimately show ?thesis
    using e by (cases e) (simp add: unat_eq_0)
qed

text \<open>The highest stored sequence number bounds the gaps; those between the prefix and it are reported, lowest first.\<close>

abbreviation highest :: "slot \<Rightarrow> nat" where
  "highest sl \<equiv> fst (last (sl_frames sl))"

lemma highest_stored:
  assumes "slot_inv sl" "sl_frames sl \<noteq> []"
  shows "stored sl (highest sl)" "stored sl j \<Longrightarrow> j \<le> highest sl"
proof -
  note inv = slot_invD [OF assms(1)]
  have "last (sl_frames sl) \<in> set (sl_frames sl)"
    using assms(2) by simp
  then show "stored sl (highest sl)"
    using inv(1) bt.entries_iff [of "sl_frames sl" "highest sl" "snd (last (sl_frames sl))"] by simp
  show "j \<le> highest sl" if "stored sl j"
  proof -
    have "j \<in> set (map fst (sl_frames sl))"
      using that by (force simp: bt_get_def dest: map_of_SomeD)
    then show ?thesis
      using inv(1) assms(2) sorted_le_last [of "map fst (sl_frames sl)" j] by (simp add: bt_inv_def last_map)
  qed
qed

lemma missing_seqs_gaps:
  assumes "slot_inv sl" "get_slot r tx = Some sl"
  obtains gaps where "map unat (missing_seqs r tx n) = take n gaps" "sorted gaps" "distinct gaps"
    "\<And>g. g \<in> set gaps \<longleftrightarrow> \<not> stored sl g \<and> (\<exists>j>g. stored sl j)"
proof (cases "sl_frames sl = []")
  case True
  then show ?thesis
    using that [of "[]"] assms(2) by (simp add: missing_seqs_def bt_get_def)
next
  case False
  let ?gaps = "filter (\<lambda>i. \<not> stored sl i) [prefix_end sl ..< highest sl]"
  note inv = slot_invD [OF assms(1)] and hi = highest_stored [OF assms(1) False]
  have u: "unat (of_nat g :: u32) = g" if "g \<in> set ?gaps" for g
    using that inv(2) [OF hi(1)] by (intro unat_of_nat_u32) auto
  have "missing_seqs r tx n = map of_nat (take n ?gaps)"
    using False assms(2) by (simp add: missing_seqs_def Let_def)
  then have "map unat (missing_seqs r tx n) = map (\<lambda>g. unat (of_nat g :: u32)) (take n ?gaps)"
    by (simp only: map_map comp_def)
  then have "map unat (missing_seqs r tx n) = take n ?gaps"
    by (simp only:) (rule map_idI, rule u, erule in_set_takeD)
  moreover have "g \<in> set ?gaps \<longleftrightarrow> \<not> stored sl g \<and> (\<exists>j>g. stored sl j)" for g
  proof -
    have "g < highest sl" if "g < j" "stored sl j" for j
      using that hi(2) [of j] by simp
    moreover have "prefix_end sl \<le> g" if "\<not> stored sl g"
      using that inv(4) [of g] by (cases "prefix_end sl \<le> g") simp_all
    ultimately show ?thesis
      using hi(1) by auto
  qed
  ultimately show ?thesis
    by (intro that [of ?gaps]) (simp_all add: sorted_wrt_filter)
qed

text \<open>
  C23. Gap reports. The sequence numbers reported missing for a slot are ascending, none of them is
  stored and each lies below a stored frame; unless the list was truncated at the limit, every such
  gap is reported; and the report always fits a NACK frame.
\<close>

theorem gap_report_exact:
  assumes "reassembler_inv r" "get_slot r tx = Some sl" "ms = missing_seqs r tx MAX_NACK_MISSING_ENTRIES"
  shows "sorted (map unat ms) \<and> distinct ms \<and>
    (\<forall>m\<in>set ms. \<not> stored sl (unat m) \<and> (\<exists>j>unat m. stored sl j)) \<and>
    (length ms < MAX_NACK_MISSING_ENTRIES \<longrightarrow>
      (\<forall>i j. i < j \<and> stored sl j \<and> \<not> stored sl i \<longrightarrow> i \<in> unat ` set ms)) \<and>
    (\<exists>bs. nack_encode \<lparr>nack_entries = [\<lparr>ne_txid = tx, ne_missing_seqs = ms\<rparr>]\<rparr> = Inr bs)"
proof -
  obtain gaps where g: "map unat ms = take MAX_NACK_MISSING_ENTRIES gaps" "sorted gaps" "distinct gaps"
      "\<And>g. g \<in> set gaps \<longleftrightarrow> \<not> stored sl g \<and> (\<exists>j>g. stored sl j)"
    using missing_seqs_gaps [OF reassembler_inv_slot [OF assms(1,2)] assms(2)] assms(3) by blast
  have sd: "sorted (map unat ms)" "distinct (map unat ms)"
    using g(2,3) by (simp_all add: g(1) sorted_wrt_take)
  have sub: "unat ` set ms = set (take MAX_NACK_MISSING_ENTRIES gaps)" and len: "length ms = min (length gaps) MAX_NACK_MISSING_ENTRIES"
    using g(1) by (metis list.set_map, metis length_map length_take)
  have "\<not> stored sl (unat m) \<and> (\<exists>j>unat m. stored sl j)" if "m \<in> set ms" for m
    using that sub g(4) by (metis imageI in_set_takeD)
  moreover have "i \<in> unat ` set ms" if "length ms < MAX_NACK_MISSING_ENTRIES" "i < j" "stored sl j" "\<not> stored sl i" for i j
    using that len sub g(4) by auto
  moreover have "\<exists>bs. nack_encode \<lparr>nack_entries = [\<lparr>ne_txid = tx, ne_missing_seqs = ms\<rparr>]\<rparr> = Inr bs"
    using len by (simp add: nack_encode_Inr length_nack_entry_bytes MAX_NACK_MISSING_ENTRIES_def CONTROL_PAYLOAD_CAP_def frame_consts min_def)
  ultimately show ?thesis
    using sd by (auto simp: distinct_map)
qed

theorem gap_report_exact_witness:
  "1 \<in> unat ` set (missing_seqs (snd (receive_all reassembler_new 0
      (map (\<lambda>i. mk_frame 7 5 i (sample_pieces ! i)) [0, 2]))) 7 MAX_NACK_MISSING_ENTRIES)"
proof -
  let ?r = "snd (receive_all reassembler_new 0 (map (\<lambda>i. mk_frame 7 5 i (sample_pieces ! i)) [0, 2]))"
  let ?sl = "\<lparr>sl_total_len = 5, sl_frames = [(0, [1, 2]), (2, [4, 5])], sl_received_frames = 2,
      sl_received_bytes = 4, sl_contiguous_prefix = Some 0\<rparr>"
  have inv: "reassembler_inv ?r"
    by (rule receive_all_inv) simp
  have g: "get_slot ?r 7 = Some ?sl"
    by code_simp
  have "length (missing_seqs ?r 7 MAX_NACK_MISSING_ENTRIES) < MAX_NACK_MISSING_ENTRIES"
    unfolding missing_seqs_def g
    by (simp add: MAX_NACK_MISSING_ENTRIES_def CONTROL_PAYLOAD_CAP_def frame_consts bt_get_def numeral_2_eq_2)
  with gap_report_exact [OF inv g refl] have
    "\<forall>i j. i < j \<and> stored ?sl j \<and> \<not> stored ?sl i \<longrightarrow> i \<in> unat ` set (missing_seqs ?r 7 MAX_NACK_MISSING_ENTRIES)"
    by blast
  moreover have "stored ?sl 2" "\<not> stored ?sl 1"
    by (simp_all add: bt_get_def)
  ultimately show ?thesis
    using one_less_numeral_iff semiring_norm(76) by blast
qed

text \<open>
  Duplicates. A frame whose sequence number is already stored is reported as a duplicate and
  changes neither the slot nor any other, whatever bytes it carries.
\<close>

theorem duplicate_idempotent:
  assumes "get_slot r tx = Some sl" "sl_total_len sl = tot" "tot \<noteq> 0" "stored sl (unat sq)"
  shows "fst (receive_frame r tx sq tot (length p) p now emit) = Inr Duplicate \<and>
    (\<forall>u. get_slot (snd (receive_frame r tx sq tot (length p) p now emit)) u = get_slot r u)"
  using assms by (simp add: receive_frame_def Let_def hm_contains_def)

theorem duplicate_idempotent_witness:
  "fst (receive_frame (snd (receive_all reassembler_new 0 (map (\<lambda>i. mk_frame 7 5 i (sample_pieces ! i)) [0, 2])))
      7 2 5 1 [9] 3 True) = Inr Duplicate"
proof -
  let ?r = "snd (receive_all reassembler_new 0 (map (\<lambda>i. mk_frame 7 5 i (sample_pieces ! i)) [0, 2]))"
  let ?sl = "\<lparr>sl_total_len = 5, sl_frames = [(0, [1, 2]), (2, [4, 5])], sl_received_frames = 2,
      sl_received_bytes = 4, sl_contiguous_prefix = Some 0\<rparr>"
  have g: "get_slot ?r 7 = Some ?sl"
    by code_simp
  show ?thesis
    using duplicate_idempotent [OF g, of 5 2 "[9]" 3 True] by (simp add: bt_get_def)
qed

text \<open>
  Completion does not look past the prefix. Two frames, numbers 0 and 2, whose sizes add up to the
  declared length make the slot complete although frame 1 was never received and the contiguous
  prefix ends at 0; the payload handed out is their concatenation.
\<close>

theorem completion_with_hole:
  "let r = snd (receive_all reassembler_new 0 [mk_frame 7 3 0 [1, 2], mk_frame 7 3 2 [3]])
   in is_complete r 7 \<and> map_option sl_contiguous_prefix (get_slot r 7) = Some (Some 0) \<and>
      missing_seqs r 7 8 = [1] \<and> fst (take_completed r 7) = Some [1, 2, 3]"
  by code_simp

text \<open>
  An oversized first frame leaves a slot behind. When the first frame of a transaction carries
  more bytes than it declares, it is rejected, but the slot opened for it stays, empty.
\<close>

theorem oversized_first_frame_leaves_slot:
  assumes "\<not> slot_exists r tx" "tot \<noteq> 0" "unat tot < length p"
  shows "fst (receive_frame r tx 0 tot (length p) p now emit) = Inl (SlotTotalLenExceeded tot) \<and>
    get_slot (snd (receive_frame r tx 0 tot (length p) p now emit)) tx = Some (fresh_slot tot)"
  using assms by (simp add: receive_frame_def Let_def slot_exists_def hm_contains_def fresh_slot_def bt_get_def)

theorem oversized_first_frame_leaves_slot_witness:
  "get_slot (snd (receive_frame reassembler_new 7 0 1 2 [5, 6] 0 True)) 7 = Some (fresh_slot 1)"
  using oversized_first_frame_leaves_slot [of reassembler_new 7 1 "[5, 6]" 0 True]
  by (simp add: slot_exists_def reassembler_new_def numeral_2_eq_2)

end
