(* ===== verification/Wire_Error.thy ===== *)
theory Wire_Error
  imports Transaction
begin

text \<open>
  The crate's error type, \<open>src/src/wire/error.rs\<close>, and the messages it is built from: the
  \<open>Display\<close> texts that the \<open>#[error(...)]\<close> attributes of the component errors declare, which the
  transfer layer stores in \<open>Internal\<close> and \<open>InvalidState\<close>.
\<close>

section \<open>Number formatting\<close>

definition digit :: "nat \<Rightarrow> char" where
  "digit n = (if n < 10 then char_of (48 + n) else char_of (87 + n))"

fun show_base :: "nat \<Rightarrow> nat \<Rightarrow> string" where
  "show_base b n = (if b \<le> 1 \<or> n < b then [digit n] else show_base b (n div b) @ [digit (n mod b)])"

declare show_base.simps [simp del]

definition show_nat :: "nat \<Rightarrow> string" where
  "show_nat n = show_base 10 n"

text \<open>\<open>{:#0wx}\<close>: lower-case hexadecimal behind \<open>0x\<close>, zero-padded to \<open>w\<close> characters in all.\<close>

definition show_hex :: "nat \<Rightarrow> nat \<Rightarrow> string" where
  "show_hex w n = (let ds = show_base 16 n in ''0x'' @ replicate (w - 2 - length ds) CHR ''0'' @ ds)"

section \<open>Component error texts\<close>

fun frame_type_debug :: "frame_type \<Rightarrow> string" where
  "frame_type_debug Negotiate = ''Negotiate''"
| "frame_type_debug Ack = ''Ack''"
| "frame_type_debug Nack = ''Nack''"
| "frame_type_debug Resume = ''Resume''"
| "frame_type_debug ResumeResponse = ''ResumeResponse''"
| "frame_type_debug Heartbeat = ''Heartbeat''"
| "frame_type_debug ErrorFrame = ''Error''"
| "frame_type_debug TransactionPause = ''TransactionPause''"
| "frame_type_debug TransactionAbort = ''TransactionAbort''"
| "frame_type_debug TransactionCompleted = ''TransactionCompleted''"
| "frame_type_debug SecurityUpgrade = ''SecurityUpgrade''"
| "frame_type_debug DataJson = ''DataJson''"
| "frame_type_debug DataBinary = ''DataBinary''"
| "frame_type_debug (UnknownType v) = ''Unknown('' @ show_nat (unat v) @ '')''"

fun frame_error_text :: "frame_error \<Rightarrow> string" where
  "frame_error_text (VersionMismatch got expected) =
    ''version major mismatch: got '' @ show_nat (unat got) @ '', expected '' @ show_nat (unat expected)"
| "frame_error_text (FrameTooLarge t mx actual) =
    ''frame too large for '' @ frame_type_debug t @ '': max '' @ show_nat mx @ '', got '' @ show_nat actual"
| "frame_error_text (CrcMismatch expected actual) =
    ''crc mismatch: expected '' @ show_hex 10 (unat expected) @ '', got '' @ show_hex 10 (unat actual)"
| "frame_error_text (FieldLength expected actual) =
    ''header field length mismatch: expected '' @ show_nat expected @ '' bytes, got '' @ show_nat actual"

fun control_error_text :: "control_error \<Rightarrow> string" where
  "control_error_text (CountOutOfRange n mn mx) =
    ''entry count '' @ show_nat n @ '' out of range '' @ show_nat mn @ ''..='' @ show_nat mx"
| "control_error_text (LengthMismatch expected actual) =
    ''payload length mismatch: expected '' @ show_nat expected @ '' bytes, got '' @ show_nat actual"
| "control_error_text (MissingSeqOverflow len mx) =
    ''missing-seq list too long: '' @ show_nat len @ '' entries (u16 max '' @ show_nat mx @ '')''"
| "control_error_text (PayloadTooLarge actual cap) =
    ''encoded payload too large: '' @ show_nat actual @ '' bytes (cap '' @ show_nat cap @ '')''"
| "control_error_text (UnknownResumeStatus v) = ''unknown resume status: '' @ show_hex 4 (unat v)"
| "control_error_text InvalidUtf8 = ''error message is not valid UTF-8''"
| "control_error_text (HeartbeatLength actual) =
    ''heartbeat payload must be exactly 12 bytes, got '' @ show_nat actual"

fun begin_error_text :: "begin_error \<Rightarrow> string" where
  "begin_error_text (Backpressured unacked incoming cap) =
    ''backpressured: unacked '' @ show_nat unacked @ '' + incoming '' @ show_nat incoming
      @ '' > cap '' @ show_nat cap"
| "begin_error_text EmptyPayload = ''empty payload: transactions must carry at least one byte''"
| "begin_error_text (PayloadTooLargeForTxn len mx) =
    ''payload too large for one transaction: '' @ show_nat len @ '' bytes (u32 max ''
      @ show_nat (unat mx) @ '')''"
| "begin_error_text DuplicateTransaction = ''transaction already registered''"
| "begin_error_text UnknownTransaction = ''unknown transaction''"
| "begin_error_text (TotalLenExceeded tot) =
    ''write would exceed declared total_len '' @ show_nat (unat tot)"
| "begin_error_text (IncompletePayload written declared) =
    ''incomplete payload: '' @ show_nat written @ '' of '' @ show_nat (unat declared)
      @ '' declared bytes written''"

section \<open>The crate's error\<close>

datatype xacpp_error =
    NotConnected
  | AlreadyConnected
  | Closed
  | NoHandler
  | InvalidRequest string
  | EstablishReject string
  | InvalidState string
  | Internal string
  | Application string string

fun xacpp_error_code :: "xacpp_error \<Rightarrow> string" where
  "xacpp_error_code NotConnected = ''not_connected''"
| "xacpp_error_code AlreadyConnected = ''already_connected''"
| "xacpp_error_code Closed = ''closed''"
| "xacpp_error_code NoHandler = ''no_handler''"
| "xacpp_error_code (InvalidRequest _) = ''invalid_request''"
| "xacpp_error_code (EstablishReject _) = ''establish_rejected''"
| "xacpp_error_code (InvalidState _) = ''invalid_state''"
| "xacpp_error_code (Internal _) = ''internal_error''"
| "xacpp_error_code (Application c _) = c"

fun xacpp_error_text :: "xacpp_error \<Rightarrow> string" where
  "xacpp_error_text NotConnected = ''not connected''"
| "xacpp_error_text AlreadyConnected = ''already connected''"
| "xacpp_error_text Closed = ''connection closed''"
| "xacpp_error_text NoHandler = ''no handler registered''"
| "xacpp_error_text (InvalidRequest m) = ''invalid request: '' @ m"
| "xacpp_error_text (EstablishReject r) = ''establish rejected: '' @ r"
| "xacpp_error_text (InvalidState m) = ''invalid state: '' @ m"
| "xacpp_error_text (Internal m) = ''internal error: '' @ m"
| "xacpp_error_text (Application c m) = ''['' @ c @ ''] '' @ m"

text \<open>\<open>.map_err(...)\<close>\<close>

fun map_err :: "('e \<Rightarrow> 'f) \<Rightarrow> 'e + 'a \<Rightarrow> 'f + 'a" where
  "map_err g (Inl e) = Inl (g e)"
| "map_err g (Inr x) = Inr x"

lemma map_err_Inr [simp]: "map_err g r = Inr x \<longleftrightarrow> r = Inr x"
  by (cases r) simp_all

end
