(* ===== verification/Binary_Stream.thy ===== *)
theory Binary_Stream
  imports Wire_Error
begin

text \<open>
  The receive-side stream object and the transaction control frames,
  \<open>src/src/reliability/stream.rs\<close>.

  \<open>StreamInner\<close> is a record: the state atom keeps its \<open>u8\<close> encoding, the chunk channel is the queue of
  chunks not yet read together with the flag that its sender (owned by the session's stream-table
  entry) is still alive. A \<open>compare_exchange\<close> is the conditional update it performs; reading an empty
  queue either ends the stream (sender dropped) or suspends.
\<close>

section \<open>Data\<close>

datatype stream_state = Active | Paused | Stalled | Complete | Cancelled | Incomplete

fun stream_state_u8 :: "stream_state \<Rightarrow> u8" where
  "stream_state_u8 Active = 0"
| "stream_state_u8 Paused = 1"
| "stream_state_u8 Stalled = 4"
| "stream_state_u8 Complete = 2"
| "stream_state_u8 Cancelled = 3"
| "stream_state_u8 Incomplete = 5"

definition stream_state_from_u8 :: "u8 \<Rightarrow> stream_state" where
  "stream_state_from_u8 v =
    (if v = 1 then Paused else if v = 2 then Complete else if v = 3 then Cancelled
     else if v = 4 then Stalled else if v = 5 then Incomplete else Active)"

fun is_terminal :: "stream_state \<Rightarrow> bool" where
  "is_terminal Complete = True"
| "is_terminal Cancelled = True"
| "is_terminal Incomplete = True"
| "is_terminal _ = False"

record incomplete_detail =
  id_received :: nat
  id_expected :: u32

record stream_chunk =
  ch_seq :: u32
  ch_bytes :: "byte list"

record stream_inner =
  si_txid :: txid
  si_total_len :: u32
  si_state :: u8
  si_stalled :: bool
  si_chunks :: "stream_chunk list"
  si_sender_alive :: bool
  si_incomplete_received :: nat
  si_incomplete_expected :: u32

section \<open>Operations\<close>

definition stream_new :: "txid \<Rightarrow> u32 \<Rightarrow> stream_inner" where
  "stream_new tx tot =
    \<lparr>si_txid = tx, si_total_len = tot, si_state = stream_state_u8 Active, si_stalled = False,
     si_chunks = [], si_sender_alive = True, si_incomplete_received = 0, si_incomplete_expected = 0\<rparr>"

text \<open>\<open>chunk_tx.send\<close> and the drop of the table entry that owns \<open>chunk_tx\<close>.\<close>

definition chunk_send :: "u32 \<times> byte list \<Rightarrow> stream_inner \<Rightarrow> stream_inner" where
  "chunk_send c si = si\<lparr>si_chunks := si_chunks si @ [\<lparr>ch_seq = fst c, ch_bytes = snd c\<rparr>]\<rparr>"

definition chunk_close :: "stream_inner \<Rightarrow> stream_inner" where
  "chunk_close si = si\<lparr>si_sender_alive := False\<rparr>"

definition stream_finish :: "stream_state \<Rightarrow> stream_inner \<Rightarrow> stream_inner" where
  "stream_finish st si = si\<lparr>si_state := stream_state_u8 st\<rparr>"

definition finish_incomplete :: "nat \<Rightarrow> u32 \<Rightarrow> stream_inner \<Rightarrow> stream_inner" where
  "finish_incomplete received expected si =
    stream_finish Incomplete
      (si\<lparr>si_incomplete_received := received, si_incomplete_expected := expected\<rparr>)"

definition compare_exchange :: "stream_state \<Rightarrow> stream_state \<Rightarrow> stream_inner \<Rightarrow> stream_inner" where
  "compare_exchange old new si =
    (if si_state si = stream_state_u8 old then si\<lparr>si_state := stream_state_u8 new\<rparr> else si)"

definition stream_set_paused :: "stream_inner \<Rightarrow> stream_inner" where
  "stream_set_paused si = compare_exchange Active Paused si"

definition stream_clear_paused :: "stream_inner \<Rightarrow> stream_inner" where
  "stream_clear_paused si = compare_exchange Paused Active si"

definition stream_set_stalled :: "stream_inner \<Rightarrow> stream_inner" where
  "stream_set_stalled si =
    (if \<not> is_terminal (stream_state_from_u8 (si_state si)) then si\<lparr>si_stalled := True\<rparr> else si)"

definition stream_clear_stalled :: "stream_inner \<Rightarrow> stream_inner" where
  "stream_clear_stalled si = si\<lparr>si_stalled := False\<rparr>"

definition stream_state_of :: "stream_inner \<Rightarrow> stream_state" where
  "stream_state_of si =
    (let state = stream_state_from_u8 (si_state si) in
     if is_terminal state then state
     else if si_stalled si then Stalled
     else state)"

datatype read_poll = ReadChunk stream_chunk | ReadEnd | ReadPending

definition stream_read :: "stream_inner \<Rightarrow> read_poll \<times> stream_inner" where
  "stream_read si =
    (case si_chunks si of
       c # cs \<Rightarrow> (ReadChunk c, si\<lparr>si_chunks := cs\<rparr>)
     | [] \<Rightarrow> (if si_sender_alive si then ReadPending else ReadEnd, si))"

definition incomplete_detail_of :: "stream_inner \<Rightarrow> incomplete_detail option" where
  "incomplete_detail_of si =
    (if stream_state_of si \<noteq> Incomplete then None
     else Some \<lparr>id_received = si_incomplete_received si, id_expected = si_incomplete_expected si\<rparr>)"

section \<open>Transaction control frames\<close>

definition pause_frame :: "txid \<Rightarrow> xacpp_error + frame" where
  "pause_frame tx =
    and_then (map_err (Internal \<circ> control_error_text) (pause_encode \<lparr>pp_txid = tx\<rparr>))
      (\<lambda>payload. Inr (frame_new TransactionPause 0 0 0 payload))"

definition abort_frame :: "txid \<Rightarrow> xacpp_error + frame" where
  "abort_frame tx =
    and_then (map_err (Internal \<circ> control_error_text) (abort_encode \<lparr>ap_txid = tx\<rparr>))
      (\<lambda>payload. Inr (frame_new TransactionAbort 0 0 0 payload))"

definition completed_frame :: "txid \<Rightarrow> xacpp_error + frame" where
  "completed_frame tx =
    and_then (map_err (Internal \<circ> control_error_text) (completed_encode \<lparr>cp_txid = tx\<rparr>))
      (\<lambda>payload. Inr (frame_new TransactionCompleted 0 0 0 payload))"

section \<open>Lemmas\<close>

lemma from_u8_to_u8 [simp]: "stream_state_from_u8 (stream_state_u8 st) = st"
  by (cases st) (simp_all add: stream_state_from_u8_def)

lemma stream_state_u8_eq [simp]: "stream_state_u8 a = stream_state_u8 b \<longleftrightarrow> a = b"
  by (metis from_u8_to_u8)

lemma txid_control_frames:
  "pause_frame tx = Inr (frame_new TransactionPause 0 0 0 (txid_to_bytes tx))"
  "abort_frame tx = Inr (frame_new TransactionAbort 0 0 0 (txid_to_bytes tx))"
  "completed_frame tx = Inr (frame_new TransactionCompleted 0 0 0 (txid_to_bytes tx))"
  by (simp_all add: pause_frame_def abort_frame_def completed_frame_def pause_encode_def abort_encode_def
      completed_encode_def txid_payload_small CONTROL_PAYLOAD_CAP_def frame_consts)

text \<open>What the session does to a stream it still has in its table, other than ending it.\<close>

datatype flow_op = FlowPause | FlowResume | FlowStall | FlowUnstall | FlowChunk "u32 \<times> byte list"

fun flow_step :: "flow_op \<Rightarrow> stream_inner \<Rightarrow> stream_inner" where
  "flow_step FlowPause si = stream_set_paused si"
| "flow_step FlowResume si = stream_clear_paused si"
| "flow_step FlowStall si = stream_set_stalled si"
| "flow_step FlowUnstall si = stream_clear_stalled si"
| "flow_step (FlowChunk c) si = chunk_send c si"

definition flow_run :: "flow_op list \<Rightarrow> stream_inner \<Rightarrow> stream_inner" where
  "flow_run ops si = fold flow_step ops si"

text \<open>The state atom of a live stream: one of the two values a live stream stores.\<close>

definition flowing :: "stream_inner \<Rightarrow> bool" where
  "flowing si \<longleftrightarrow> si_state si \<in> {stream_state_u8 Active, stream_state_u8 Paused}"

interpretation flow_machine: invariant_machine flow_step flowing
proof
  fix si op
  assume "flowing si"
  then show "flowing (flow_step op si)"
    by (cases op) (auto simp: flowing_def stream_set_paused_def stream_clear_paused_def chunk_send_def
        compare_exchange_def stream_set_stalled_def stream_clear_stalled_def)
qed

lemma flow_run_eq: "flow_run ops si = flow_machine.run ops si"
  by (simp add: flow_run_def flow_machine.run_def)

text \<open>The last pause or resume, the last stall or recovery, and the chunks sent.\<close>

definition last_pause :: "bool \<Rightarrow> flow_op list \<Rightarrow> bool" where
  "last_pause b ops = fold (\<lambda>op b. if op = FlowPause then True else if op = FlowResume then False else b) ops b"

definition last_stall :: "bool \<Rightarrow> flow_op list \<Rightarrow> bool" where
  "last_stall b ops = fold (\<lambda>op b. if op = FlowStall then True else if op = FlowUnstall then False else b) ops b"

definition sent_chunks :: "flow_op list \<Rightarrow> stream_chunk list" where
  "sent_chunks ops =
    List.map_filter (\<lambda>op. case op of FlowChunk c \<Rightarrow> Some \<lparr>ch_seq = fst c, ch_bytes = snd c\<rparr> | _ \<Rightarrow> None) ops"

lemmas stream_defs = stream_set_paused_def stream_clear_paused_def compare_exchange_def
  stream_set_stalled_def stream_clear_stalled_def chunk_send_def

lemma flow_step_fields:
  assumes "flowing si"
  shows "si_state (flow_step op si) = stream_state_u8 Paused \<longleftrightarrow>
      last_pause (si_state si = stream_state_u8 Paused) [op]"
    and "si_stalled (flow_step op si) = last_stall (si_stalled si) [op]"
    and "si_chunks (flow_step op si) = si_chunks si @ sent_chunks [op]"
    and "si_sender_alive (flow_step op si) = si_sender_alive si"
  using assms
  by (cases op; auto simp: flowing_def last_pause_def last_stall_def sent_chunks_def stream_defs
      map_filter_simps stream_state_from_u8_def)+

lemma flow_run_fields:
  assumes "flowing si"
  shows "(si_state (flow_run ops si) = stream_state_u8 Paused \<longleftrightarrow>
      last_pause (si_state si = stream_state_u8 Paused) ops) \<and>
    si_stalled (flow_run ops si) = last_stall (si_stalled si) ops \<and>
    si_chunks (flow_run ops si) = si_chunks si @ sent_chunks ops \<and>
    si_sender_alive (flow_run ops si) = si_sender_alive si"
  using assms
proof (induction ops arbitrary: si)
  case Nil
  then show ?case
    by (simp add: flow_run_def last_pause_def last_stall_def sent_chunks_def map_filter_simps)
next
  case (Cons op ops)
  have "last_pause b (op # ops) = last_pause (last_pause b [op]) ops"
    "last_stall b (op # ops) = last_stall (last_stall b [op]) ops"
    "sent_chunks (op # ops) = sent_chunks [op] @ sent_chunks ops"
    "flow_run (op # ops) si = flow_run ops (flow_step op si)" for b
    by (simp_all add: last_pause_def last_stall_def sent_chunks_def map_filter_simps flow_run_def
        split: option.split)
  then show ?case
    using Cons.IH [OF flow_machine.step_good [OF Cons.prems, of op]] flow_step_fields [OF Cons.prems, of op]
    by (simp only: append_assoc)
qed

lemma flowing_new [simp]: "flowing (stream_new tx tot)"
  by (simp add: flowing_def stream_new_def)

lemma flow_run_ended:
  assumes "is_terminal (stream_state_from_u8 (si_state si))"
  shows "si_state (flow_run ops si) = si_state si \<and>
    si_incomplete_received (flow_run ops si) = si_incomplete_received si \<and>
    si_incomplete_expected (flow_run ops si) = si_incomplete_expected si"
  using assms
proof (induction ops arbitrary: si)
  case (Cons op ops)
  have "si_state (flow_step op si) = si_state si \<and>
      si_incomplete_received (flow_step op si) = si_incomplete_received si \<and>
      si_incomplete_expected (flow_step op si) = si_incomplete_expected si"
    using Cons.prems by (cases op) (auto simp: stream_defs stream_state_from_u8_def)
  then show ?case
    using Cons.IH [of "flow_step op si"] Cons.prems by (simp add: flow_run_def)
qed (simp add: flow_run_def)

text \<open>Draining a stream: reads until the channel ends or suspends.\<close>

function drain :: "stream_inner \<Rightarrow> stream_chunk list \<times> read_poll" where
  "drain si =
    (case stream_read si of
       (ReadChunk c, si') \<Rightarrow> (let (cs, r) = drain si' in (c # cs, r))
     | (r, si') \<Rightarrow> ([], r))"
  by pat_completeness auto
termination
  by (relation "measure (length \<circ> si_chunks)") (auto simp: stream_read_def split: list.splits if_splits)

declare drain.simps [simp del]

lemma drain_eq: "drain si = (si_chunks si, if si_sender_alive si then ReadPending else ReadEnd)"
proof (induction si rule: drain.induct)
  case (1 si)
  then show ?case
    by (subst drain.simps) (auto simp: stream_read_def split: list.splits)
qed

section \<open>Properties\<close>

text \<open>
  A live stream reports \<open>Stalled\<close> exactly while the last connection event was a loss, otherwise
  \<open>Paused\<close> exactly while the last holder event was a pause (a pause survives a disconnect, a stall
  does not erase it), otherwise \<open>Active\<close>; and its reader gets every chunk sent so far, in order, and
  then waits.
\<close>

theorem stream_flow_state:
  "stream_state_of (flow_run ops (stream_new tx tot)) =
     (if last_stall False ops then Stalled else if last_pause False ops then Paused else Active) \<and>
   drain (flow_run ops (stream_new tx tot)) = (sent_chunks ops, ReadPending)"
  using flow_run_fields [OF flowing_new [of tx tot], of ops]
    flow_machine.run_good [OF flowing_new [of tx tot], of ops]
  by (auto simp: stream_state_of_def stream_new_def drain_eq flowing_def stream_state_from_u8_def
      simp flip: flow_run_eq)

text \<open>
  A terminal state is final against every late flow event: after the stream ended, pauses,
  resumptions, stalls and re-wirings leave the reported state (and the recorded byte gap of an
  incomplete ending) as they were, and a gap is reported for an incomplete ending only.
\<close>

theorem stream_terminal_absorbing:
  assumes "is_terminal st"
  shows "stream_state_of (flow_run ops (chunk_close (stream_finish st si))) = st \<and>
    incomplete_detail_of (flow_run ops (chunk_close (finish_incomplete received expected si))) =
      Some \<lparr>id_received = received, id_expected = expected\<rparr> \<and>
    (st \<noteq> Incomplete \<longrightarrow>
      incomplete_detail_of (flow_run ops (chunk_close (stream_finish st si))) = None)"
  using assms flow_run_ended [of "chunk_close (stream_finish st si)" ops]
    flow_run_ended [of "chunk_close (finish_incomplete received expected si)" ops]
  by (simp add: incomplete_detail_of_def stream_state_of_def chunk_close_def finish_incomplete_def
      stream_finish_def Let_def stream_state_from_u8_def [of 5])

theorem stream_terminal_absorbing_witness:
  "stream_state_of (flow_run [FlowPause, FlowStall]
     (chunk_close (stream_finish Cancelled (stream_new 7 5)))) = Cancelled \<and>
   incomplete_detail_of (flow_run [FlowPause, FlowStall]
     (chunk_close (stream_finish Cancelled (stream_new 7 5)))) = None"
  using stream_terminal_absorbing [of Cancelled "[FlowPause, FlowStall]" "stream_new 7 5"] by simp

end
