(* ===== verification/Session_State.thy ===== *)
theory Session_State
  imports Reassemble Binary_Stream
begin

text \<open>
  The transfer session, \<open>src/src/transfer/core.rs\<close>: its state, its outputs, the wiring lifecycle and
  \<open>send_binary\<close>.

  \<^item> \<open>SessionCore\<close> and \<open>SessionState\<close> are records. Stream objects are shared between the stream table
    and the consumer (\<open>Arc<StreamInner>\<close>), so they live in \<open>ss_objects\<close> and the table holds their index;
    dropping a table entry drops the chunk sender it owns.
  \<^item> Callbacks are numbers; a handler slot is the flag that it is registered; a transport is a number.
  \<^item> What an operation does to the outside is the list of its \<open>effect\<close>s, in order. The transport
    behind \<open>write_data_frame\<close> is a parameter: a \<open>link\<close> decides, from the data frames already written by
    the operation, whether the next write fails. A failing \<open>write_control_frame\<close> is only logged by the
    code, so control writes are recorded as attempted.
  \<^item> \<open>now_ms()\<close> and \<open>Uuid::new_v4()\<close> are arguments; so is \<open>Uuid::parse_str\<close>, beside the CRC.
\<close>

section \<open>Environment and effects\<close>

record env =
  env_crc :: crc_fn
  env_uuid_parse :: "byte list \<Rightarrow> txid option"

type_synonym link = "frame list \<Rightarrow> frame \<Rightarrow> xacpp_error option"

record binary_send_result =
  br_txid :: txid
  br_confirmed :: bool

datatype effect =
    WriteControl "byte list"
  | WriteData frame
  | StreamHandler nat
  | Deliver txid "byte list"
  | Completion nat binary_send_result
  | SetHooks nat bool
  | Disconnect nat

text \<open>Writing frames until the first failure.\<close>

fun write_frames :: "link \<Rightarrow> frame list \<Rightarrow> frame list \<Rightarrow> frame list \<times> xacpp_error option" where
  "write_frames lk sent [] = (sent, None)"
| "write_frames lk sent (f # fs) =
    (case lk sent f of
       Some e \<Rightarrow> (sent, Some e)
     | None \<Rightarrow> write_frames lk (sent @ [f]) fs)"

section \<open>State\<close>

record transfer_config =
  tc_sender :: sender_config
  tc_heartbeat_interval_ms :: nat
  tc_silent_timeout_ms :: nat
  tc_ack_batch_frames :: u32
  tc_ack_batch_interval_ms :: nat
  tc_nack_feedback_interval_ms :: nat
  tc_resume_verdict_timeout_ms :: nat
  tc_tick_interval_ms :: nat

definition transfer_config_default :: transfer_config where
  "transfer_config_default =
    \<lparr>tc_sender = sender_config_default, tc_heartbeat_interval_ms = 30000, tc_silent_timeout_ms = 90000,
     tc_ack_batch_frames = 64, tc_ack_batch_interval_ms = 500, tc_nack_feedback_interval_ms = 500,
     tc_resume_verdict_timeout_ms = 2000, tc_tick_interval_ms = 100\<rparr>"

record session_state =
  ss_sender :: transaction_sender
  ss_reassembler :: reassembler
  ss_completions :: "(txid, nat) hash_map"
  ss_streams :: "(txid, nat) hash_map"
  ss_stream_owned :: "(txid, unit) hash_map"
  ss_pending_ack_frames :: "(txid, u32) hash_map"
  ss_last_ack_ms :: nat
  ss_last_nack_ms :: nat
  ss_heartbeat_seq :: u32
  ss_last_heartbeat_ms :: nat
  ss_last_peer_activity_ms :: nat
  ss_objects :: "stream_inner list"

record session_core =
  co_config :: transfer_config
  co_state :: session_state
  co_binary_handler :: bool
  co_stream_handler :: bool
  co_backpressure_watch :: "64 word"
  co_wiring :: "nat option"
  co_clock :: bool

definition session_new :: "transfer_config \<Rightarrow> nat \<Rightarrow> session_core" where
  "session_new config now =
    \<lparr>co_config = config,
     co_state =
       \<lparr>ss_sender = sender_new (tc_sender config), ss_reassembler = reassembler_new,
        ss_completions = [], ss_streams = [], ss_stream_owned = [], ss_pending_ack_frames = [],
        ss_last_ack_ms = now, ss_last_nack_ms = now, ss_heartbeat_seq = 0,
        ss_last_heartbeat_ms = now, ss_last_peer_activity_ms = now, ss_objects = []\<rparr>,
     co_binary_handler = False, co_stream_handler = False, co_backpressure_watch = 0,
     co_wiring = None, co_clock = False\<rparr>"

section \<open>Stream table\<close>

definition update_object :: "nat \<Rightarrow> (stream_inner \<Rightarrow> stream_inner) \<Rightarrow> session_state \<Rightarrow> session_state" where
  "update_object i f st = st\<lparr>ss_objects := (ss_objects st)[i := f (ss_objects st ! i)]\<rparr>"

text \<open>\<open>streams.get(tx)\<close> and a method call on the entry's stream.\<close>

definition on_stream :: "txid \<Rightarrow> (stream_inner \<Rightarrow> stream_inner) \<Rightarrow> session_state \<Rightarrow> session_state" where
  "on_stream tx f st = (case hm_get (ss_streams st) tx of None \<Rightarrow> st | Some i \<Rightarrow> update_object i f st)"

text \<open>\<open>streams.remove(tx)\<close>, a last method call on the entry's stream, then the drop of the entry.\<close>

definition end_stream :: "txid \<Rightarrow> (stream_inner \<Rightarrow> stream_inner) \<Rightarrow> session_state \<Rightarrow> session_state" where
  "end_stream tx f st =
    (case hm_get (ss_streams st) tx of
       None \<Rightarrow> st
     | Some i \<Rightarrow> (update_object i (chunk_close \<circ> f) st)\<lparr>ss_streams := hm_del tx (ss_streams st)\<rparr>)"

definition unown_stream :: "txid \<Rightarrow> session_state \<Rightarrow> session_state" where
  "unown_stream tx st = st\<lparr>ss_stream_owned := hm_del tx (ss_stream_owned st)\<rparr>"

definition discard_slot :: "txid \<Rightarrow> session_state \<Rightarrow> session_state" where
  "discard_slot tx st = st\<lparr>ss_reassembler := snd (discard (ss_reassembler st) tx)\<rparr>"

definition forget_acks :: "txid \<Rightarrow> session_state \<Rightarrow> session_state" where
  "forget_acks tx st = st\<lparr>ss_pending_ack_frames := hm_del tx (ss_pending_ack_frames st)\<rparr>"

text \<open>A method call on every stream in the table, \<open>for entry in st.streams.values()\<close>.\<close>

definition each_stream :: "(stream_inner \<Rightarrow> stream_inner) \<Rightarrow> session_state \<Rightarrow> session_state" where
  "each_stream f st = fold (\<lambda>i. update_object i f) (map snd (ss_streams st)) st"

text \<open>The end of the session: every stream still open is cancelled and its channel closes.\<close>

definition session_drop :: "session_state \<Rightarrow> session_state" where
  "session_drop st =
    (each_stream (chunk_close \<circ> stream_finish Cancelled) st)\<lparr>ss_streams := [], ss_stream_owned := []\<rparr>"

section \<open>Handlers, wiring, control frames\<close>

definition on_binary :: "session_core \<Rightarrow> session_core" where
  "on_binary co = co\<lparr>co_binary_handler := True\<rparr>"

definition on_binary_stream :: "session_core \<Rightarrow> session_core" where
  "on_binary_stream co = co\<lparr>co_stream_handler := True\<rparr>"

definition deliver :: "session_core \<Rightarrow> txid \<Rightarrow> byte list \<Rightarrow> effect list" where
  "deliver co tx payload = (if co_binary_handler co then [Deliver tx payload] else [])"

definition is_wired :: "session_core \<Rightarrow> bool" where
  "is_wired co \<longleftrightarrow> co_wiring co \<noteq> None"

definition wake_writers :: "session_core \<Rightarrow> session_core" where
  "wake_writers co = co\<lparr>co_backpressure_watch := co_backpressure_watch co + 1\<rparr>"

definition stall_streams :: "session_core \<Rightarrow> session_core" where
  "stall_streams co = co\<lparr>co_state := each_stream stream_set_stalled (co_state co)\<rparr>"

text \<open>\<open>now1\<close> and \<open>now2\<close> are the two readings of the clock during \<open>wire\<close>.\<close>

definition wire ::
  "session_core \<Rightarrow> nat \<Rightarrow> nat \<Rightarrow> nat \<Rightarrow> (xacpp_error + unit) \<times> effect list \<times> session_core" where
  "wire co transport now1 now2 =
    (if co_wiring co \<noteq> None
     then (Inl (InvalidState ''transfer session already wired to a transport''), [], co)
     else
       let st1 = (co_state co)\<lparr>ss_last_peer_activity_ms := now1\<rparr>;
           st2 = st1\<lparr>ss_sender := snd (declare_pending (ss_sender st1) now2)\<rparr>;
           st3 = each_stream stream_clear_stalled st2
       in (Inr (), [SetHooks transport True],
           wake_writers (co\<lparr>co_state := st3, co_clock := True, co_wiring := Some transport\<rparr>)))"

definition detach_connection :: "session_core \<Rightarrow> effect list \<times> session_core" where
  "detach_connection co =
    ((case co_wiring co of None \<Rightarrow> [] | Some transport \<Rightarrow> [SetHooks transport False]),
     co\<lparr>co_wiring := None\<rparr>)"

definition unwire :: "session_core \<Rightarrow> effect list \<times> session_core" where
  "unwire co =
    (let (eff, co1) = detach_connection co in (eff, (stall_streams co1)\<lparr>co_clock := False\<rparr>))"

definition on_activity :: "session_core \<Rightarrow> nat \<Rightarrow> session_core" where
  "on_activity co now = co\<lparr>co_state := (co_state co)\<lparr>ss_last_peer_activity_ms := now\<rparr>\<rparr>"

definition control_frame :: "crc_fn \<Rightarrow> frame_type \<Rightarrow> byte list \<Rightarrow> xacpp_error + byte list" where
  "control_frame crc t payload =
    map_err (Internal \<circ> frame_error_text) (frame_encode crc (frame_new t 0 0 0 payload))"

text \<open>
  The common tail of every control send: an encoder result, framed and handed to
  \<open>write_control_frame\<close>; failures are logged and the message is dropped.
\<close>

definition send_control :: "crc_fn \<Rightarrow> frame_type \<Rightarrow> control_error + byte list \<Rightarrow> effect list" where
  "send_control crc t encoded =
    (case encoded of
       Inl _ \<Rightarrow> []
     | Inr bytes \<Rightarrow> (case control_frame crc t bytes of Inl _ \<Rightarrow> [] | Inr w \<Rightarrow> [WriteControl w]))"

section \<open>Sending a whole payload\<close>

definition backpressure_error :: "session_state \<Rightarrow> xacpp_error" where
  "backpressure_error st =
    Application ''backpressure_stall''
      (''unacknowledged bytes '' @ show_nat (unacked_bytes (ss_sender st)) @ '' at cap ''
       @ show_nat (sc_backpressure_cap_bytes (ts_config (ss_sender st)))
       @ '': retry after ACKs release copies'')"

definition append_error :: "session_state \<Rightarrow> begin_error \<Rightarrow> xacpp_error" where
  "append_error st e =
    (case e of Backpressured _ _ _ \<Rightarrow> backpressure_error st | other \<Rightarrow> Internal (begin_error_text other))"

definition set_sender :: "transaction_sender \<Rightarrow> session_core \<Rightarrow> session_core" where
  "set_sender s co = co\<lparr>co_state := (co_state co)\<lparr>ss_sender := s\<rparr>\<rparr>"

text \<open>The locked section: the payload enters the sender and the callback is registered.\<close>

definition admit_payload ::
  "session_core \<Rightarrow> txid \<Rightarrow> byte list \<Rightarrow> nat option \<Rightarrow> nat \<Rightarrow> (xacpp_error + frame list) \<times> session_core" where
  "admit_payload co tx payload on_complete now =
    (let st = co_state co in
     if is_paused (ss_sender st) then (Inl (backpressure_error st), co)
     else case open_transaction (ss_sender st) tx (of_nat (length payload)) now of
       (Inl e, s1) \<Rightarrow> (Inl (Internal (begin_error_text e)), set_sender s1 co)
     | (Inr _, s1) \<Rightarrow>
       (case append_chunk s1 tx payload now of
          (Inl e, s2) \<Rightarrow> (Inl (append_error (st\<lparr>ss_sender := s2\<rparr>) e), set_sender s2 co)
        | (Inr frames, s2) \<Rightarrow>
          (case finish_transaction s2 tx now of
             (Inl e, s3) \<Rightarrow> (Inl (Internal (begin_error_text e)), set_sender s3 co)
           | (Inr tail_frames, s3) \<Rightarrow>
               (Inr (frames @ tail_frames),
                co\<lparr>co_state := st\<lparr>ss_sender := s3,
                    ss_completions := (case on_complete of
                        None \<Rightarrow> ss_completions st | Some cb \<Rightarrow> hm_put tx cb (ss_completions st))\<rparr>\<rparr>))))"

definition send_binary ::
  "session_core \<Rightarrow> link \<Rightarrow> txid \<Rightarrow> byte list \<Rightarrow> nat option \<Rightarrow> nat
    \<Rightarrow> (xacpp_error + txid) \<times> effect list \<times> session_core" where
  "send_binary co lk tx payload on_complete now =
    (case admit_payload co tx payload on_complete now of
       (Inl e, co1) \<Rightarrow> (Inl e, [], co1)
     | (Inr frames, co1) \<Rightarrow>
       (case write_frames lk [] frames of
          (sent, Some e) \<Rightarrow> (Inl e, map WriteData sent, co1)
        | (sent, None) \<Rightarrow>
          (case map_err (Internal \<circ> xacpp_error_text) (completed_frame tx) of
             Inl e \<Rightarrow> (Inl e, map WriteData sent, co1)
           | Inr completed \<Rightarrow>
             (case write_frames lk sent [completed] of
                (sent', Some e) \<Rightarrow> (Inl e, map WriteData sent', co1)
              | (sent', None) \<Rightarrow> (Inr tx, map WriteData sent', co1)))))"

section \<open>Lemmas\<close>

lemma write_frames_eq:
  "write_frames lk sent fs = (sent', e) \<Longrightarrow> \<exists>n\<le>length fs. sent' = sent @ take n fs \<and> (e = None \<longrightarrow> n = length fs)"
proof (induction lk sent fs rule: write_frames.induct)
  case (2 lk sent f fs)
  show ?case
  proof (cases "lk sent f")
    case None
    then obtain n where "n \<le> length fs" "sent' = (sent @ [f]) @ take n fs" "e = None \<longrightarrow> n = length fs"
      using 2 by auto
    then show ?thesis
      by (intro exI [of _ "Suc n"]) simp
  next
    case (Some x)
    with "2.prems" show ?thesis
      by (intro exI [of _ 0]) (auto dest: sym)
  qed
qed simp

text \<open>A link that accepts every write.\<close>

definition link_up :: link where
  "link_up sent f = None"

lemma write_frames_up [simp]: "write_frames link_up sent fs = (sent @ fs, None)"
  by (induction fs arbitrary: sent) (simp_all add: link_up_def)

subsection \<open>Effects of the helpers on the fields\<close>

lemma update_object_simps [simp]:
  "ss_sender (update_object i f st) = ss_sender st"
  "ss_reassembler (update_object i f st) = ss_reassembler st"
  "ss_completions (update_object i f st) = ss_completions st"
  "ss_streams (update_object i f st) = ss_streams st"
  "ss_stream_owned (update_object i f st) = ss_stream_owned st"
  "ss_pending_ack_frames (update_object i f st) = ss_pending_ack_frames st"
  "ss_last_peer_activity_ms (update_object i f st) = ss_last_peer_activity_ms st"
  "ss_objects (update_object i f st) = (ss_objects st)[i := f (ss_objects st ! i)]"
  by (simp_all add: update_object_def)

lemma on_stream_simps [simp]:
  "ss_sender (on_stream tx f st) = ss_sender st"
  "ss_reassembler (on_stream tx f st) = ss_reassembler st"
  "ss_completions (on_stream tx f st) = ss_completions st"
  "ss_streams (on_stream tx f st) = ss_streams st"
  "ss_stream_owned (on_stream tx f st) = ss_stream_owned st"
  "ss_pending_ack_frames (on_stream tx f st) = ss_pending_ack_frames st"
  "ss_last_peer_activity_ms (on_stream tx f st) = ss_last_peer_activity_ms st"
  by (simp_all add: on_stream_def split: option.split)

lemma hm_del_absent [simp]: "\<not> hm_contains m k \<Longrightarrow> hm_del k m = m"
  by (simp add: hm_contains_def hm_get_def hm_del_def delete_id map_of_eq_None_iff)

lemma end_stream_simps [simp]:
  "ss_sender (end_stream tx f st) = ss_sender st"
  "ss_reassembler (end_stream tx f st) = ss_reassembler st"
  "ss_completions (end_stream tx f st) = ss_completions st"
  "ss_streams (end_stream tx f st) = hm_del tx (ss_streams st)"
  "ss_stream_owned (end_stream tx f st) = ss_stream_owned st"
  "ss_pending_ack_frames (end_stream tx f st) = ss_pending_ack_frames st"
  "ss_last_peer_activity_ms (end_stream tx f st) = ss_last_peer_activity_ms st"
  using hm_del_absent [of "ss_streams st" tx]
  by (simp_all add: end_stream_def hm_contains_def del: hm_del_absent split: option.split)

lemma table_edit_simps [simp]:
  "ss_sender (unown_stream tx st) = ss_sender st"
  "ss_reassembler (unown_stream tx st) = ss_reassembler st"
  "ss_completions (unown_stream tx st) = ss_completions st"
  "ss_streams (unown_stream tx st) = ss_streams st"
  "ss_stream_owned (unown_stream tx st) = hm_del tx (ss_stream_owned st)"
  "ss_pending_ack_frames (unown_stream tx st) = ss_pending_ack_frames st"
  "ss_objects (unown_stream tx st) = ss_objects st"
  "ss_last_peer_activity_ms (unown_stream tx st) = ss_last_peer_activity_ms st"
  "ss_sender (discard_slot tx st) = ss_sender st"
  "ss_reassembler (discard_slot tx st) = snd (discard (ss_reassembler st) tx)"
  "ss_completions (discard_slot tx st) = ss_completions st"
  "ss_streams (discard_slot tx st) = ss_streams st"
  "ss_stream_owned (discard_slot tx st) = ss_stream_owned st"
  "ss_pending_ack_frames (discard_slot tx st) = ss_pending_ack_frames st"
  "ss_objects (discard_slot tx st) = ss_objects st"
  "ss_last_peer_activity_ms (discard_slot tx st) = ss_last_peer_activity_ms st"
  "ss_sender (forget_acks tx st) = ss_sender st"
  "ss_reassembler (forget_acks tx st) = ss_reassembler st"
  "ss_completions (forget_acks tx st) = ss_completions st"
  "ss_streams (forget_acks tx st) = ss_streams st"
  "ss_stream_owned (forget_acks tx st) = ss_stream_owned st"
  "ss_pending_ack_frames (forget_acks tx st) = hm_del tx (ss_pending_ack_frames st)"
  "ss_objects (forget_acks tx st) = ss_objects st"
  "ss_last_peer_activity_ms (forget_acks tx st) = ss_last_peer_activity_ms st"
  by (simp_all add: unown_stream_def discard_slot_def forget_acks_def)

lemma each_stream_simps [simp]:
  "ss_sender (each_stream f st) = ss_sender st"
  "ss_reassembler (each_stream f st) = ss_reassembler st"
  "ss_completions (each_stream f st) = ss_completions st"
  "ss_streams (each_stream f st) = ss_streams st"
  "ss_stream_owned (each_stream f st) = ss_stream_owned st"
  "ss_pending_ack_frames (each_stream f st) = ss_pending_ack_frames st"
  "ss_last_peer_activity_ms (each_stream f st) = ss_last_peer_activity_ms st"
proof -
  have "ss_sender (fold (\<lambda>i. update_object i f) is st) = ss_sender st \<and>
    ss_reassembler (fold (\<lambda>i. update_object i f) is st) = ss_reassembler st \<and>
    ss_completions (fold (\<lambda>i. update_object i f) is st) = ss_completions st \<and>
    ss_streams (fold (\<lambda>i. update_object i f) is st) = ss_streams st \<and>
    ss_stream_owned (fold (\<lambda>i. update_object i f) is st) = ss_stream_owned st \<and>
    ss_pending_ack_frames (fold (\<lambda>i. update_object i f) is st) = ss_pending_ack_frames st \<and>
    ss_last_peer_activity_ms (fold (\<lambda>i. update_object i f) is st) = ss_last_peer_activity_ms st"
    for "is" by (induction "is" arbitrary: st) simp_all
  then show "ss_sender (each_stream f st) = ss_sender st"
    "ss_reassembler (each_stream f st) = ss_reassembler st"
    "ss_completions (each_stream f st) = ss_completions st"
    "ss_streams (each_stream f st) = ss_streams st"
    "ss_stream_owned (each_stream f st) = ss_stream_owned st"
    "ss_pending_ack_frames (each_stream f st) = ss_pending_ack_frames st"
    "ss_last_peer_activity_ms (each_stream f st) = ss_last_peer_activity_ms st"
    by (simp_all only: each_stream_def)
qed

subsection \<open>The stream table invariant\<close>

text \<open>
  A stream in the table is live: it flows and its channel is open. A stream that left the table has
  ended: its state is terminal and its channel is closed, so its reader drains it and stops.
\<close>

definition live :: "stream_inner \<Rightarrow> bool" where
  "live si \<longleftrightarrow> flowing si \<and> si_sender_alive si"

definition ended :: "stream_inner \<Rightarrow> bool" where
  "ended si \<longleftrightarrow> is_terminal (stream_state_from_u8 (si_state si)) \<and> \<not> si_sender_alive si"

definition objects_inv :: "session_state \<Rightarrow> bool" where
  "objects_inv st \<longleftrightarrow>
    hm_inv (ss_streams st) \<and>
    (\<forall>tx i. hm_get (ss_streams st) tx = Some i \<longrightarrow>
      i < length (ss_objects st) \<and> live (ss_objects st ! i) \<and> si_txid (ss_objects st ! i) = tx) \<and>
    (\<forall>i<length (ss_objects st).
      hm_get (ss_streams st) (si_txid (ss_objects st ! i)) = Some i \<or> ended (ss_objects st ! i))"

text \<open>
  Streams belong to transactions whose slot is open and incomplete; the ownership set mirrors the
  table.
\<close>

definition owners_inv :: "session_state \<Rightarrow> bool" where
  "owners_inv st \<longleftrightarrow>
    hm_inv (ss_stream_owned st) \<and>
    (\<forall>tx. hm_contains (ss_stream_owned st) tx \<longleftrightarrow> hm_contains (ss_streams st) tx)"

definition slots_inv :: "session_state \<Rightarrow> bool" where
  "slots_inv st \<longleftrightarrow>
    (\<forall>tx. hm_contains (ss_streams st) tx \<longrightarrow>
      slot_exists (ss_reassembler st) tx \<and> \<not> is_complete (ss_reassembler st) tx)"

definition session_inv :: "session_state \<Rightarrow> bool" where
  "session_inv st \<longleftrightarrow>
    sender_inv (ss_sender st) \<and> reassembler_inv (ss_reassembler st) \<and>
    hm_inv (ss_completions st) \<and> hm_inv (ss_pending_ack_frames st) \<and>
    objects_inv st \<and> owners_inv st \<and> slots_inv st"

lemmas table_inv_defs = objects_inv_def owners_inv_def slots_inv_def

text \<open>Methods that a live stream may receive, and the final ones.\<close>

definition keeps_live :: "(stream_inner \<Rightarrow> stream_inner) \<Rightarrow> bool" where
  "keeps_live f \<longleftrightarrow> (\<forall>si. live si \<longrightarrow> live (f si) \<and> si_txid (f si) = si_txid si)"

definition ends_stream :: "(stream_inner \<Rightarrow> stream_inner) \<Rightarrow> bool" where
  "ends_stream f \<longleftrightarrow>
    (\<forall>si. is_terminal (stream_state_from_u8 (si_state (f si))) \<and> si_txid (f si) = si_txid si)"

lemma keeps_live_flow:
  "keeps_live stream_set_paused" "keeps_live stream_clear_paused"
  "keeps_live stream_set_stalled" "keeps_live stream_clear_stalled"
  by (auto simp: keeps_live_def live_def flowing_def stream_defs)

lemma chunk_sends:
  "si_state (fold chunk_send cs si) = si_state si" "si_txid (fold chunk_send cs si) = si_txid si"
  "si_sender_alive (fold chunk_send cs si) = si_sender_alive si"
  "si_total_len (fold chunk_send cs si) = si_total_len si" "si_stalled (fold chunk_send cs si) = si_stalled si"
  "si_chunks (fold chunk_send cs si) = si_chunks si @ map (\<lambda>c. \<lparr>ch_seq = fst c, ch_bytes = snd c\<rparr>) cs"
  by (induction cs arbitrary: si) (simp_all add: chunk_send_def)

lemma keeps_live_push: "keeps_live (\<lambda>si. fold chunk_send cs (stream_clear_paused si))"
  using keeps_live_flow(2) by (auto simp: keeps_live_def live_def flowing_def chunk_sends)

lemma ends_stream_ops:
  "is_terminal s \<Longrightarrow> ends_stream (stream_finish s)" "ends_stream (finish_incomplete n m)"
  by (simp_all add: ends_stream_def stream_finish_def finish_incomplete_def stream_state_from_u8_def [of 5])

lemma objects_inv_update:
  assumes "objects_inv st" "hm_get (ss_streams st) tx = Some i" "keeps_live f"
  shows "objects_inv (update_object i f st)"
  using assms by (auto simp: objects_inv_def keeps_live_def nth_list_update)

lemma objects_inv_on_stream: "objects_inv st \<Longrightarrow> keeps_live f \<Longrightarrow> objects_inv (on_stream tx f st)"
  by (auto simp: on_stream_def objects_inv_update split: option.split)

lemma objects_inv_end_stream:
  assumes inv: "objects_inv st" and f: "ends_stream f"
  shows "objects_inv (end_stream tx f st)"
proof (cases "hm_get (ss_streams st) tx")
  case (Some i)
  let ?g = "chunk_close \<circ> f"
  have g: "ended (?g si)" "si_txid (?g si) = si_txid si" for si
    using f by (auto simp: ended_def ends_stream_def chunk_close_def)
  let ?os = "ss_objects st" and ?os' = "(ss_objects st)[i := ?g (ss_objects st ! i)]"
  have i: "i < length ?os" "si_txid (?os ! i) = tx"
    using inv Some by (auto simp: objects_inv_def)
  have other: "j \<noteq> i \<and> ?os' ! j = ?os ! j"
    if "hm_get (ss_streams st) u = Some j" "u \<noteq> tx" for u j
    using that i inv unfolding objects_inv_def by (metis nth_list_update_neq)
  have "hm_get (hm_del tx (ss_streams st)) (si_txid (?os' ! j)) = Some j \<or> ended (?os' ! j)"
    if "j < length ?os" for j
  proof (cases "j = i")
    case True
    then show ?thesis
      using i g by simp
  next
    case False
    then have "hm_get (ss_streams st) (si_txid (?os ! j)) = Some j \<or> ended (?os ! j)"
      using that inv unfolding objects_inv_def by blast
    then show ?thesis
      using False Some by auto
  qed
  then show ?thesis
    using inv Some other unfolding objects_inv_def end_stream_def
    by (auto split: if_splits)
qed (use inv in \<open>simp add: end_stream_def\<close>)

lemma objects_inv_each_stream:
  assumes "objects_inv st" "keeps_live f"
  shows "objects_inv (each_stream f st)"
proof -
  have "objects_inv (fold (\<lambda>i. update_object i f) is st)"
    if "\<forall>i\<in>set is. \<exists>tx. hm_get (ss_streams st) tx = Some i" for "is"
    using assms(1) that
  proof (induction "is" arbitrary: st)
    case (Cons i "is")
    then obtain tx where "hm_get (ss_streams st) tx = Some i"
      by auto
    then show ?case
      using Cons objects_inv_update [OF _ _ assms(2)] by simp
  qed simp
  moreover have "\<forall>i\<in>set (map snd (ss_streams st)). \<exists>tx. hm_get (ss_streams st) tx = Some i"
    using assms(1) by (auto simp: objects_inv_def hm_in_set [symmetric])
  ultimately show ?thesis
    by (simp add: each_stream_def)
qed

lemma session_inv_each_stream: "session_inv st \<Longrightarrow> keeps_live f \<Longrightarrow> session_inv (each_stream f st)"
  by (auto simp: session_inv_def objects_inv_each_stream owners_inv_def slots_inv_def)

lemma session_inv_new [simp]: "session_inv (co_state (session_new cfg now))"
  by (simp add: session_inv_def session_new_def table_inv_defs)

text \<open>Changes of the send side and of the scheduling instants leave the tables alone.\<close>

lemma session_inv_sender:
  "session_inv st \<Longrightarrow> sender_inv s \<Longrightarrow> session_inv (st\<lparr>ss_sender := s\<rparr>)"
  by (simp add: session_inv_def table_inv_defs)

lemma session_inv_set_sender:
  "session_inv (co_state co) \<Longrightarrow> sender_inv s \<Longrightarrow> session_inv (co_state (set_sender s co))"
  by (simp add: set_sender_def session_inv_sender)

lemma session_inv_misc:
  "session_inv (st\<lparr>ss_last_peer_activity_ms := now\<rparr>) \<longleftrightarrow> session_inv st"
  "session_inv (st\<lparr>ss_last_ack_ms := now\<rparr>) \<longleftrightarrow> session_inv st"
  "session_inv (st\<lparr>ss_last_nack_ms := now\<rparr>) \<longleftrightarrow> session_inv st"
  "session_inv (st\<lparr>ss_last_heartbeat_ms := now, ss_heartbeat_seq := sq\<rparr>) \<longleftrightarrow> session_inv st"
  by (simp_all add: session_inv_def table_inv_defs)

lemma session_inv_completions:
  "session_inv st \<Longrightarrow> hm_inv m \<Longrightarrow> session_inv (st\<lparr>ss_completions := m\<rparr>)"
  by (simp add: session_inv_def table_inv_defs)

lemma set_sender_simps [simp]:
  "co_state (set_sender s co) = (co_state co)\<lparr>ss_sender := s\<rparr>" "co_wiring (set_sender s co) = co_wiring co"
  "co_binary_handler (set_sender s co) = co_binary_handler co"
  "co_stream_handler (set_sender s co) = co_stream_handler co"
  "co_config (set_sender s co) = co_config co"
  by (simp_all add: set_sender_def)

lemma wake_writers_simps [simp]:
  "co_state (wake_writers co) = co_state co" "co_wiring (wake_writers co) = co_wiring co"
  "co_binary_handler (wake_writers co) = co_binary_handler co"
  "co_stream_handler (wake_writers co) = co_stream_handler co"
  "co_config (wake_writers co) = co_config co"
  by (simp_all add: wake_writers_def)

subsection \<open>The operations of this theory keep the invariant\<close>

lemma session_inv_senderD: "session_inv st \<Longrightarrow> sender_inv (ss_sender st)"
  by (simp add: session_inv_def)

lemma stall_streams_inv: "session_inv (co_state co) \<Longrightarrow> session_inv (co_state (stall_streams co))"
  by (simp add: stall_streams_def session_inv_each_stream keeps_live_flow)

lemma wire_inv: "session_inv (co_state co) \<Longrightarrow> session_inv (co_state (snd (snd (wire co tr now1 now2))))"
  using session_inv_senderD [of "co_state co"]
  by (auto simp: wire_def Let_def keeps_live_flow sender_inv_ops session_inv_misc
      intro!: session_inv_each_stream session_inv_sender)

lemma detach_simps [simp]:
  "co_state (snd (detach_connection co)) = co_state co" "co_wiring (snd (detach_connection co)) = None"
  by (simp_all add: detach_connection_def)

lemma unwire_inv: "session_inv (co_state co) \<Longrightarrow> session_inv (co_state (snd (unwire co)))"
  using stall_streams_inv [of "snd (detach_connection co)"] by (simp add: unwire_def split_beta)

text \<open>The outcomes of admitting a payload.\<close>

lemma admit_payload_cases:
  obtains (full) "is_paused (ss_sender (co_state co))"
      "admit_payload co tx payload cb now = (Inl (backpressure_error (co_state co)), co)"
  | (rejected) s e where "\<not> is_paused (ss_sender (co_state co))"
      "admit_payload co tx payload cb now = (Inl e, set_sender s co)"
      "sender_inv (ss_sender (co_state co)) \<Longrightarrow> sender_inv s"
  | (admitted) s1 fs1 s2 fs2 s3 where "\<not> is_paused (ss_sender (co_state co))"
      "open_transaction (ss_sender (co_state co)) tx (of_nat (length payload)) now = (Inr (), s1)"
      "append_chunk s1 tx payload now = (Inr fs1, s2)" "finish_transaction s2 tx now = (Inr fs2, s3)"
      "admit_payload co tx payload cb now = (Inr (fs1 @ fs2),
         co\<lparr>co_state := (co_state co)\<lparr>ss_sender := s3, ss_completions := (case cb of
            None \<Rightarrow> ss_completions (co_state co) | Some c \<Rightarrow> hm_put tx c (ss_completions (co_state co)))\<rparr>\<rparr>)"
      "sender_inv (ss_sender (co_state co)) \<Longrightarrow> sender_inv s3"
proof (cases "is_paused (ss_sender (co_state co))")
  case True
  then show ?thesis
    by (intro full) (simp_all add: admit_payload_def)
next
  case False
  let ?s = "ss_sender (co_state co)"
  obtain r1 s1 where 1: "open_transaction ?s tx (of_nat (length payload)) now = (r1, s1)"
    by (metis surj_pair)
  obtain r2 s2 where 2: "append_chunk s1 tx payload now = (r2, s2)"
    by (metis surj_pair)
  obtain r3 s3 where 3: "finish_transaction s2 tx now = (r3, s3)"
    by (metis surj_pair)
  have inv: "sender_inv ?s \<Longrightarrow> sender_inv s1" "sender_inv ?s \<Longrightarrow> sender_inv s2" "sender_inv ?s \<Longrightarrow> sender_inv s3"
    using open_inv [of ?s] append_inv [of s1] finish_inv [of s2] 1 2 3 by (metis snd_conv)+
  note def = admit_payload_def Let_def 1 2 3 False
  show ?thesis
  proof (cases r1)
    case (Inl e)
    then show ?thesis
      by (intro rejected [OF False _ inv(1)]) (simp_all add: def)
  next
    case (Inr x)
    note r1 = this
    show ?thesis
    proof (cases r2)
      case (Inl e)
      then show ?thesis
        by (intro rejected [OF False _ inv(2)]) (simp_all add: def r1)
    next
      case (Inr fs1)
      note r2 = this
      show ?thesis
      proof (cases r3)
        case (Inl e)
        then show ?thesis
          by (intro rejected [OF False _ inv(3)]) (simp_all add: def r1 r2)
      next
        case (Inr fs2)
        then show ?thesis
          using 1 2 3 r1 r2 by (intro admitted [OF False _ _ _ _ inv(3), of s1 fs1 s2 fs2]) (simp_all add: def)
      qed
    qed
  qed
qed

lemma admit_payload_inv:
  assumes "session_inv (co_state co)"
  shows "session_inv (co_state (snd (admit_payload co tx payload cb now)))"
proof (cases rule: admit_payload_cases [of co tx payload cb now])
  case (admitted s1 fs1 s2 fs2 s3)
  from session_inv_sender [OF assms admitted(6) [OF session_inv_senderD [OF assms]]] show ?thesis
    using admitted(5) by (auto simp: session_inv_def table_inv_defs split: option.split)
qed (use assms in \<open>simp_all add: session_inv_sender session_inv_senderD\<close>)

lemma send_binary_core:
  "snd (snd (send_binary co lk tx payload cb now)) = snd (admit_payload co tx payload cb now)"
  by (auto simp: send_binary_def split: prod.splits sum.splits option.splits)

lemma send_binary_inv:
  "session_inv (co_state co) \<Longrightarrow> session_inv (co_state (snd (snd (send_binary co lk tx payload cb now))))"
  by (simp add: send_binary_core admit_payload_inv)

subsection \<open>What the peer reads\<close>

text \<open>
  A data frame passes \<open>Frame::encode\<close> in the transport, a control frame is already encoded; the peer's
  decoder, in sync, turns the bytes of each write into frames and is in sync again.
\<close>

definition decode_write :: "crc_fn \<Rightarrow> byte list \<Rightarrow> frame list" where
  "decode_write crc w = (case feed crc decoder_new w of (Inr fs, d) \<Rightarrow> if d = decoder_new then fs else [] | (Inl _, _) \<Rightarrow> [])"

fun peer_reads :: "crc_fn \<Rightarrow> effect \<Rightarrow> frame list" where
  "peer_reads crc (WriteControl w) = decode_write crc w"
| "peer_reads crc (WriteData f) = (case frame_encode crc f of Inr w \<Rightarrow> decode_write crc w | Inl _ \<Rightarrow> [])"
| "peer_reads crc _ = []"

lemma feed_encoded: "encodes_to crc f w \<Longrightarrow> feed crc decoder_new w = (Inr [f], decoder_new)"
  using feed_loop_carries [OF carries_encoded_list [of crc "[f]" "[w]" "[]"], of "[]"]
  by (simp add: feed_def decoder_new_def feed_loop_empty)

lemma decode_write_single: "decode_write crc w = [f] \<Longrightarrow> feed crc decoder_new w = (Inr [f], decoder_new)"
  by (auto simp: decode_write_def split: prod.splits sum.splits if_splits)

lemma control_canonical: "max_frame_len t = Some m \<Longrightarrow> canonical_type t"
  by (cases t) (simp_all add: canonical_type_def from_u16_def)

lemma encode_fits:
  assumes "max_frame_len (f_type f) = Some m" "length (f_payload f) \<le> m"
  obtains w where "encodes_to crc f w"
  using assms control_canonical [OF assms(1)] that
  by (auto simp: encodes_to_def frame_encode_def encode_max_def Let_def)

lemma frame_new_simps [simp]:
  "f_type (frame_new t tx tot sq p) = t" "f_txid (frame_new t tx tot sq p) = tx"
  "f_total_len (frame_new t tx tot sq p) = tot" "f_seq (frame_new t tx tot sq p) = sq"
  "f_payload (frame_new t tx tot sq p) = p"
  by (simp_all add: frame_new_def)

lemma send_control_read:
  assumes "max_frame_len t = Some MAX_CONTROL_FRAME_LEN" "length bytes \<le> CONTROL_PAYLOAD_CAP"
  shows "\<exists>w. send_control crc t (Inr bytes) = [WriteControl w] \<and>
    decode_write crc w = [frame_new t 0 0 0 bytes]"
proof -
  obtain w where w: "encodes_to crc (frame_new t 0 0 0 bytes) w"
    using assms by (rule_tac f = "frame_new t 0 0 0 bytes" in encode_fits)
      (simp_all add: CONTROL_PAYLOAD_CAP_def)
  then have "frame_encode crc (frame_new t 0 0 0 bytes) = Inr w"
    by (simp add: encodes_to_def)
  then show ?thesis
    using feed_encoded [OF w] by (simp add: send_control_def control_frame_def decode_write_def)
qed

lemma data_write_read:
  assumes "max_frame_len (f_type f) = Some m" "length (f_payload f) \<le> m"
  shows "peer_reads crc (WriteData f) = [f]"
proof -
  obtain w where w: "encodes_to crc f w"
    using assms by (rule encode_fits)
  then show ?thesis
    using feed_encoded [OF w] by (simp add: encodes_to_def decode_write_def)
qed

subsection \<open>Methods on all streams\<close>

lemma fold_update_objects:
  "distinct is \<Longrightarrow> length (ss_objects (fold (\<lambda>i. update_object i f) is st)) = length (ss_objects st) \<and>
   (\<forall>j<length (ss_objects st). ss_objects (fold (\<lambda>i. update_object i f) is st) ! j =
     (if j \<in> set is then f (ss_objects st ! j) else ss_objects st ! j))"
  by (induction "is" arbitrary: st) (auto simp: nth_list_update, metis nth_list_update_neq)

lemma each_stream_objects:
  assumes "objects_inv st"
  shows "length (ss_objects (each_stream f st)) = length (ss_objects st)"
    and "i < length (ss_objects st) \<Longrightarrow> ss_objects (each_stream f st) ! i =
      (if hm_get (ss_streams st) (si_txid (ss_objects st ! i)) = Some i
       then f (ss_objects st ! i) else ss_objects st ! i)"
proof -
  have hm: "hm_inv (ss_streams st)" and tab: "hm_get (ss_streams st) tx = Some i \<Longrightarrow> si_txid (ss_objects st ! i) = tx" for tx i
    using assms by (simp_all add: objects_inv_def)
  have mem: "i \<in> set (map snd (ss_streams st)) \<longleftrightarrow> (\<exists>tx. hm_get (ss_streams st) tx = Some i)" for i
    using hm_in_set [OF hm] by force
  have "inj_on snd (set (ss_streams st))"
    using tab hm_in_set [OF hm] by (intro inj_onI) (metis prod.collapse prod_eqI)
  then have d: "distinct (map snd (ss_streams st))"
    using hm by (auto simp: hm_inv_def distinct_map)
  show "length (ss_objects (each_stream f st)) = length (ss_objects st)"
    using fold_update_objects [OF d] by (simp add: each_stream_def)
  show "ss_objects (each_stream f st) ! i =
      (if hm_get (ss_streams st) (si_txid (ss_objects st ! i)) = Some i
       then f (ss_objects st ! i) else ss_objects st ! i)" if "i < length (ss_objects st)"
    using that fold_update_objects [OF d, of f st] mem [of i] tab unfolding each_stream_def by metis
qed

section \<open>Properties of the session core\<close>

text \<open>
  Connection cycle. Wiring an unwired session succeeds, reopens the liveness window at the given
  instant, and puts every held transaction behind the reconnect gate; every stream in the table shows
  its own flow state again, a pause included. Unwiring shows them all as stalled. Neither touches the
  chunks queued for a reader or the partially received transactions.
\<close>

theorem wire_cycle:
  assumes "session_inv (co_state co)" "co_wiring co = None" "hm_get (ss_streams (co_state co)) tx = Some i"
    and "wire co transport now1 now2 = (res, eff1, co1)" "unwire co1 = (eff2, co2)"
  shows "res = Inr () \<and> is_wired co1 \<and> \<not> is_wired co2 \<and>
    ss_last_peer_activity_ms (co_state co1) = now1 \<and>
    (\<forall>u. contains_transaction (ss_sender (co_state co)) u \<longrightarrow> is_awaiting_resume (ss_sender (co_state co1)) u) \<and>
    stream_state_of (ss_objects (co_state co1) ! i) =
      stream_state_from_u8 (si_state (ss_objects (co_state co) ! i)) \<and>
    stream_state_of (ss_objects (co_state co2) ! i) = Stalled \<and>
    si_chunks (ss_objects (co_state co2) ! i) = si_chunks (ss_objects (co_state co) ! i) \<and>
    ss_reassembler (co_state co2) = ss_reassembler (co_state co)"
proof -
  let ?st = "co_state co"
  let ?mid = "?st\<lparr>ss_last_peer_activity_ms := now1, ss_sender := snd (declare_pending (ss_sender ?st) now2)\<rparr>"
  have co1: "co_state co1 = each_stream stream_clear_stalled ?mid" "co_wiring co1 = Some transport" "res = Inr ()"
    using assms(2,4) by (auto simp: wire_def Let_def wake_writers_def)
  have co2: "co_state co2 = each_stream stream_set_stalled (co_state co1)" "co_wiring co2 = None"
    using assms(5) by (auto simp: unwire_def detach_connection_def stall_streams_def)
  have inv: "objects_inv ?mid" "objects_inv (co_state co1)"
    using assms(1) wire_inv [OF assms(1), of transport now1 now2] assms(4) by (auto simp: session_inv_def objects_inv_def)
  have i: "i < length (ss_objects ?st)" "si_txid (ss_objects ?st ! i) = tx" "live (ss_objects ?st ! i)"
    using assms(1,3) by (auto simp: session_inv_def objects_inv_def)
  have o1: "ss_objects (co_state co1) ! i = stream_clear_stalled (ss_objects ?st ! i)"
    using each_stream_objects(2) [OF inv(1), of i stream_clear_stalled] i assms(3) by (simp add: co1)
  have "ss_objects (co_state co2) ! i = stream_set_stalled (ss_objects (co_state co1) ! i)"
    using each_stream_objects(2) [OF inv(2), of i stream_set_stalled] i assms(3) o1
      each_stream_objects(1) [OF inv(1), of stream_clear_stalled]
    by (simp add: co1 co2 stream_clear_stalled_def)
  moreover have "\<not> is_terminal (stream_state_from_u8 (si_state (ss_objects ?st ! i)))"
    using i(3) by (auto simp: live_def flowing_def stream_state_from_u8_def)
  ultimately have s: "stream_state_of (ss_objects (co_state co1) ! i) = stream_state_from_u8 (si_state (ss_objects ?st ! i))"
    "stream_state_of (ss_objects (co_state co2) ! i) = Stalled"
    "si_chunks (ss_objects (co_state co2) ! i) = si_chunks (ss_objects ?st ! i)"
    by (simp_all add: o1 stream_state_of_def stream_clear_stalled_def stream_set_stalled_def Let_def)
  have "is_awaiting_resume (ss_sender (co_state co1)) u" if "contains_transaction (ss_sender ?st) u" for u
    using that declared_gate [of "ss_sender ?st" now2 u]
    by (auto simp: co1 is_awaiting_resume_def contains_transaction_def hm_contains_def)
  then show ?thesis
    using s co1 co2 by (simp add: is_wired_def)
qed

text \<open>A session with one paused stream that has received two of its five bytes.\<close>

definition sample_transfer_config :: transfer_config where
  "sample_transfer_config =
    \<lparr>tc_sender = sample_config, tc_heartbeat_interval_ms = 30, tc_silent_timeout_ms = 90,
     tc_ack_batch_frames = 4, tc_ack_batch_interval_ms = 5, tc_nack_feedback_interval_ms = 5,
     tc_resume_verdict_timeout_ms = 20, tc_tick_interval_ms = 1\<rparr>"

definition sample_core :: session_core where
  "sample_core =
    (let co = session_new sample_transfer_config 0
     in co\<lparr>co_state := (co_state co)\<lparr>
          ss_reassembler := snd (receive_frame reassembler_new 7 0 5 2 [1, 2] 0 True),
          ss_streams := [(7, 0)], ss_stream_owned := [(7, ())],
          ss_objects := [stream_set_paused (stream_new 7 5)]\<rparr>\<rparr>)"

lemma sample_core_inv: "session_inv (co_state sample_core)"
proof -
  have slot: "slot_exists (ss_reassembler (co_state sample_core)) 7"
      "\<not> is_complete (ss_reassembler (co_state sample_core)) 7"
    by code_simp+
  have st: "ss_streams (co_state sample_core) = [(7, 0)]" "ss_stream_owned (co_state sample_core) = [(7, ())]"
      "ss_objects (co_state sample_core) = [stream_set_paused (stream_new 7 5)]"
      "ss_completions (co_state sample_core) = []" "ss_pending_ack_frames (co_state sample_core) = []"
      "ss_sender (co_state sample_core) = sender_new sample_config"
      "ss_reassembler (co_state sample_core) = snd (receive_frame reassembler_new 7 0 5 2 [1, 2] 0 True)"
    by (simp_all add: sample_core_def session_new_def Let_def sample_transfer_config_def)
  have "live (stream_set_paused (stream_new 7 5))"
    by (simp add: live_def flowing_def stream_defs stream_new_def)
  then show ?thesis
    using slot receive_inv [OF reassembler_inv_new]
    by (auto simp: session_inv_def table_inv_defs st hm_inv_def hm_get_def hm_contains_def
        stream_defs stream_new_def split: if_splits)
qed

theorem wire_cycle_witness:
  "stream_state_of (ss_objects (co_state (snd (snd (wire sample_core 1 100 100)))) ! 0) = Paused \<and>
   stream_state_of (ss_objects (co_state (snd (unwire (snd (snd (wire sample_core 1 100 100)))))) ! 0) = Stalled"
proof -
  have "co_wiring sample_core = None" "hm_get (ss_streams (co_state sample_core)) 7 = Some 0"
    "stream_state_from_u8 (si_state (ss_objects (co_state sample_core) ! 0)) = Paused"
    by code_simp+
  then show ?thesis
    using wire_cycle [OF sample_core_inv, of 7 0 1 100 100 "fst (wire sample_core 1 100 100)"
        "fst (snd (wire sample_core 1 100 100))" "snd (snd (wire sample_core 1 100 100))"
        "fst (unwire (snd (snd (wire sample_core 1 100 100))))"
        "snd (unwire (snd (snd (wire sample_core 1 100 100))))"]
    by simp
qed

text \<open>
  The end of the session cancels: every stream object, ended before or still open, is then
  terminal with a closed channel, so no reader waits for ever; streams that had ended keep their
  verdict.
\<close>

theorem session_end_closes_streams:
  assumes "session_inv st" "i < length (ss_objects st)"
  shows "stream_state_of (ss_objects (session_drop st) ! i) =
      (if ended (ss_objects st ! i) then stream_state_of (ss_objects st ! i) else Cancelled) \<and>
    snd (drain (ss_objects (session_drop st) ! i)) = ReadEnd"
proof -
  have inv: "objects_inv st"
    using assms(1) by (simp add: session_inv_def)
  let ?si = "ss_objects st ! i"
  have table: "hm_get (ss_streams st) (si_txid ?si) = Some i \<longleftrightarrow> \<not> ended ?si"
    using inv assms(2) unfolding objects_inv_def live_def ended_def by blast
  have "ss_objects (session_drop st) ! i = (if ended ?si then ?si else chunk_close (stream_finish Cancelled ?si))"
    using each_stream_objects(2) [OF inv assms(2), of "chunk_close \<circ> stream_finish Cancelled"] table
    by (simp add: session_drop_def)
  then show ?thesis
    by (auto simp: drain_eq ended_def chunk_close_def stream_finish_def stream_state_of_def Let_def
        stream_state_from_u8_def [of 3])
qed

theorem session_end_closes_streams_witness:
  "stream_state_of (ss_objects (session_drop (co_state sample_core)) ! 0) = Cancelled \<and>
   snd (drain (ss_objects (session_drop (co_state sample_core)) ! 0)) = ReadEnd"
proof -
  have "\<not> ended (ss_objects (co_state sample_core) ! 0)" "0 < length (ss_objects (co_state sample_core))"
    by code_simp+
  then show ?thesis
    using session_end_closes_streams [OF sample_core_inv, of 0] by simp
qed

end
