(* ===== verification/Session_Sink.thy ===== *)
theory Session_Sink
  imports Session_State
begin

text \<open>
  The streaming send surface, \<open>src/src/transfer/sink.rs\<close>.

  Waiting is explicit: \<open>sink_write\<close> is one pass of the write loop, which either parks (the caller runs
  it again after the backpressure watch changed) or returns; \<open>sink_finish\<close> runs up to the point where
  the code waits, for a wire-up (\<open>FinishParked\<close>, continued by \<open>sink_finish_woken\<close>) or for the
  completion callback it registered (\<open>FinishAwaits\<close>).
\<close>

section \<open>Operations\<close>

definition open_error :: "begin_error \<Rightarrow> xacpp_error" where
  "open_error e =
    (case e of
       DuplicateTransaction \<Rightarrow> InvalidState ''binary sink: transaction id already in flight''
     | EmptyPayload \<Rightarrow> InvalidState ''binary sink: total_len must be non-zero''
     | other \<Rightarrow> Internal (begin_error_text other))"

text \<open>\<open>fresh\<close> is the generated id, used when the caller supplies none.\<close>

definition open_binary_sink ::
  "session_core \<Rightarrow> u32 \<Rightarrow> txid option \<Rightarrow> txid \<Rightarrow> nat \<Rightarrow> (xacpp_error + txid) \<times> session_core" where
  "open_binary_sink co total_len txo fresh now =
    (let tx = (case txo of Some t \<Rightarrow> t | None \<Rightarrow> fresh) in
     case open_transaction (ss_sender (co_state co)) tx total_len now of
       (Inl e, s) \<Rightarrow> (Inl (open_error e), set_sender s co)
     | (Inr _, s) \<Rightarrow> (Inr tx, set_sender s co))"

datatype write_pass = WriteParked | WriteReturns "xacpp_error + unit"

definition sink_write ::
  "session_core \<Rightarrow> link \<Rightarrow> txid \<Rightarrow> byte list \<Rightarrow> nat \<Rightarrow> write_pass \<times> effect list \<times> session_core" where
  "sink_write co lk tx chunk now =
    (if co_wiring co = None then (WriteParked, [], co)
     else
       let s = ss_sender (co_state co) in
       if is_transaction_paused s tx \<or> is_awaiting_resume s tx then (WriteParked, [], co)
       else case append_chunk s tx chunk now of
         (Inl (Backpressured _ _ _), s1) \<Rightarrow> (WriteParked, [], set_sender s1 co)
       | (Inl e, s1) \<Rightarrow> (WriteReturns (Inl (InvalidState (begin_error_text e))), [], set_sender s1 co)
       | (Inr frames, s1) \<Rightarrow>
           (WriteReturns (Inr ()), map WriteData (fst (write_frames lk [] frames)), set_sender s1 co))"

definition write_ordered_control ::
  "session_core \<Rightarrow> link \<Rightarrow> frame list \<Rightarrow> frame \<Rightarrow> (xacpp_error + unit) \<times> frame list" where
  "write_ordered_control co lk sent f =
    (if co_wiring co = None then (Inl NotConnected, sent)
     else case write_frames lk sent [f] of
       (sent', Some e) \<Rightarrow> (Inl e, sent')
     | (sent', None) \<Rightarrow> (Inr (), sent'))"

definition sink_abort ::
  "session_core \<Rightarrow> link \<Rightarrow> txid \<Rightarrow> (xacpp_error + unit) \<times> effect list \<times> session_core" where
  "sink_abort co lk tx =
    (let st = co_state co;
         (existed, s) = abort_transaction (ss_sender st) tx;
         completion = hm_get (ss_completions st) tx;
         co1 = co\<lparr>co_state := st\<lparr>ss_sender := s, ss_completions := hm_del tx (ss_completions st)\<rparr>\<rparr>
     in if \<not> existed
        then (Inl (InvalidState ''binary sink abort: transaction not active''), [], co1)
        else
          let fired = (case completion of
                         Some cb \<Rightarrow> [Completion cb \<lparr>br_txid = tx, br_confirmed = False\<rparr>] | None \<Rightarrow> []);
              co2 = wake_writers co1
          in case abort_frame tx of
               Inl e \<Rightarrow> (Inl e, fired, co2)
             | Inr f \<Rightarrow>
                 let (res, sent) = write_ordered_control co2 lk [] f
                 in (res, fired @ map WriteData sent, co2))"

datatype finish_pass =
    FinishReturns "xacpp_error + binary_send_result"
  | FinishParked "frame list"
  | FinishAwaits nat

text \<open>
  Steps 2b and 3: the announcement behind a flushed tail, the registration of the callback \<open>cb\<close> and
  the second look at the pending table.
\<close>

definition finish_register ::
  "session_core \<Rightarrow> link \<Rightarrow> txid \<Rightarrow> nat \<Rightarrow> bool \<Rightarrow> frame list
    \<Rightarrow> finish_pass \<times> effect list \<times> session_core" where
  "finish_register co lk tx cb tail_flushed sent =
    (let sent' = (if tail_flushed then
                    (case completed_frame tx of
                       Inr f \<Rightarrow> snd (write_ordered_control co lk sent f) | Inl _ \<Rightarrow> sent)
                  else sent);
         st = co_state co;
         st1 = st\<lparr>ss_completions := hm_put tx cb (ss_completions st)\<rparr>
     in if \<not> contains_transaction (ss_sender st1) tx
        then (FinishReturns (Inr \<lparr>br_txid = tx, br_confirmed = True\<rparr>), map WriteData sent',
              co\<lparr>co_state := st1\<lparr>ss_completions := hm_del tx (ss_completions st1)\<rparr>\<rparr>)
        else (FinishAwaits cb, map WriteData sent', co\<lparr>co_state := st1\<rparr>))"

text \<open>Step 2 on a wired session: flush the tail up to the first failing write.\<close>

definition finish_flush ::
  "session_core \<Rightarrow> link \<Rightarrow> txid \<Rightarrow> nat \<Rightarrow> frame list \<Rightarrow> finish_pass \<times> effect list \<times> session_core" where
  "finish_flush co lk tx cb tail_frames =
    (let (sent, failed) = write_frames lk [] tail_frames
     in finish_register co lk tx cb (failed = None) sent)"

text \<open>Steps 1 and 2: close the frame sequence; a short write is announced as an abort.\<close>

definition finish_close ::
  "session_core \<Rightarrow> link \<Rightarrow> txid \<Rightarrow> nat \<Rightarrow> nat \<Rightarrow> finish_pass \<times> effect list \<times> session_core" where
  "finish_close co lk tx cb now =
    (case finish_transaction (ss_sender (co_state co)) tx now of
       (Inl e, s) \<Rightarrow>
         let (_, eff, co1) = sink_abort (set_sender s co) lk tx
         in (FinishReturns (Inl (InvalidState (begin_error_text e))), eff, co1)
     | (Inr tail_frames, s) \<Rightarrow>
         let co1 = set_sender s co in
         if is_awaiting_resume s tx then finish_register co1 lk tx cb False []
         else if co_wiring co1 \<noteq> None then finish_flush co1 lk tx cb tail_frames
         else (FinishParked tail_frames, [], co1))"

definition sink_finish ::
  "session_core \<Rightarrow> link \<Rightarrow> txid \<Rightarrow> nat \<Rightarrow> nat \<Rightarrow> finish_pass \<times> effect list \<times> session_core" where
  "sink_finish co lk tx cb now =
    (if \<not> contains_transaction (ss_sender (co_state co)) tx
     then (FinishReturns (Inr \<lparr>br_txid = tx, br_confirmed = True\<rparr>), [], co)
     else finish_close co lk tx cb now)"

text \<open>The watch changed after the unwired wait: flush if wired now, else leave the tail to the clock.\<close>

definition sink_finish_woken ::
  "session_core \<Rightarrow> link \<Rightarrow> txid \<Rightarrow> nat \<Rightarrow> frame list \<Rightarrow> finish_pass \<times> effect list \<times> session_core" where
  "sink_finish_woken co lk tx cb tail_frames =
    (if co_wiring co \<noteq> None then finish_flush co lk tx cb tail_frames
     else finish_register co lk tx cb False [])"

definition sink_pause ::
  "session_core \<Rightarrow> link \<Rightarrow> txid \<Rightarrow> nat \<Rightarrow> (xacpp_error + unit) \<times> effect list \<times> session_core" where
  "sink_pause co lk tx now =
    (let (active, s) = set_paused (ss_sender (co_state co)) tx True now;
         co1 = set_sender s co
     in if \<not> active then (Inl (InvalidState ''binary sink pause: transaction not active''), [], co1)
        else case pause_frame tx of
            Inl e \<Rightarrow> (Inl e, [], co1)
          | Inr f \<Rightarrow> let (res, sent) = write_ordered_control co1 lk [] f in (res, map WriteData sent, co1))"

definition sink_resume :: "session_core \<Rightarrow> txid \<Rightarrow> nat \<Rightarrow> (xacpp_error + unit) \<times> session_core" where
  "sink_resume co tx now =
    (let (active, s) = set_paused (ss_sender (co_state co)) tx False now;
         co1 = set_sender s co
     in if \<not> active then (Inl (InvalidState ''binary sink resume: transaction not active''), co1)
        else (Inr (), wake_writers co1))"

section \<open>Every operation keeps the session invariant\<close>

lemma open_sink_inv:
  "session_inv (co_state co) \<Longrightarrow> session_inv (co_state (snd (open_binary_sink co tot txo fresh now)))"
  by (simp add: open_binary_sink_def Let_def split_beta session_inv_sender session_inv_senderD
      sender_inv_ops split: sum.split)

lemma sink_write_core:
  "snd (snd (sink_write co lk tx chunk now)) = co \<or>
   snd (snd (sink_write co lk tx chunk now)) =
     set_sender (snd (append_chunk (ss_sender (co_state co)) tx chunk now)) co"
proof -
  obtain r s where a: "append_chunk (ss_sender (co_state co)) tx chunk now = (r, s)"
    by (metis surj_pair)
  show ?thesis
  proof (cases r)
    case (Inl e)
    then show ?thesis
      by (cases e) (simp_all add: sink_write_def Let_def a)
  qed (simp add: sink_write_def Let_def a)
qed

lemma sink_write_inv:
  "session_inv (co_state co) \<Longrightarrow> session_inv (co_state (snd (snd (sink_write co lk tx chunk now))))"
  using sink_write_core [of co lk tx chunk now] session_inv_senderD [of "co_state co"]
  by (auto simp: session_inv_sender sender_inv_ops)

lemma sink_abort_state:
  "co_state (snd (snd (sink_abort co lk tx))) =
     (co_state co)\<lparr>ss_sender := snd (abort_transaction (ss_sender (co_state co)) tx),
        ss_completions := hm_del tx (ss_completions (co_state co))\<rparr>"
  by (auto simp: sink_abort_def Let_def split_beta txid_control_frames)

lemma sink_abort_inv:
  "session_inv (co_state co) \<Longrightarrow> session_inv (co_state (snd (snd (sink_abort co lk tx))))"
  by (simp add: sink_abort_state session_inv_def table_inv_defs sender_inv_ops)

lemma finish_register_inv:
  "session_inv (co_state co) \<Longrightarrow> session_inv (co_state (snd (snd (finish_register co lk tx cb fl sent))))"
  by (simp add: finish_register_def Let_def session_inv_def table_inv_defs)

lemma finish_flush_inv:
  "session_inv (co_state co) \<Longrightarrow> session_inv (co_state (snd (snd (finish_flush co lk tx cb fs))))"
  by (simp add: finish_flush_def split_beta finish_register_inv)

lemma finish_close_inv:
  assumes "session_inv (co_state co)"
  shows "session_inv (co_state (snd (snd (finish_close co lk tx cb now))))"
proof -
  let ?co = "set_sender (snd (finish_transaction (ss_sender (co_state co)) tx now)) co"
  have "session_inv (co_state ?co)"
    using assms session_inv_senderD [OF assms] by (simp add: session_inv_sender sender_inv_ops)
  then show ?thesis
    using sink_abort_inv [of ?co lk tx] finish_register_inv [of ?co lk tx cb False "[]"]
      finish_flush_inv [of ?co lk tx cb]
    by (auto simp: finish_close_def Let_def split: prod.splits sum.splits)
qed

lemma sink_finish_inv:
  "session_inv (co_state co) \<Longrightarrow> session_inv (co_state (snd (snd (sink_finish co lk tx cb now))))"
  by (simp add: sink_finish_def finish_close_inv)

lemma sink_finish_woken_inv:
  "session_inv (co_state co) \<Longrightarrow> session_inv (co_state (snd (snd (sink_finish_woken co lk tx cb fs))))"
  by (simp add: sink_finish_woken_def finish_flush_inv finish_register_inv)

lemma sink_pause_inv:
  "session_inv (co_state co) \<Longrightarrow> session_inv (co_state (snd (snd (sink_pause co lk tx now))))"
  using session_inv_senderD [of "co_state co"]
  by (auto simp: sink_pause_def Let_def split_beta txid_control_frames session_inv_sender sender_inv_ops)

lemma sink_resume_inv:
  "session_inv (co_state co) \<Longrightarrow> session_inv (co_state (snd (sink_resume co tx now)))"
  using session_inv_senderD [of "co_state co"]
  by (auto simp: sink_resume_def Let_def split_beta session_inv_sender sender_inv_ops)

lemmas sink_inv = open_sink_inv sink_write_inv sink_abort_inv finish_register_inv finish_close_inv
  sink_finish_inv sink_finish_woken_inv sink_pause_inv sink_resume_inv

section \<open>Sender facts\<close>

lemma frame_loop_flags:
  "pt_paused (fst (frame_loop fsz tx now t out)) = pt_paused t \<and>
   pt_awaiting_resume (fst (frame_loop fsz tx now t out)) = pt_awaiting_resume t"
proof (induction fsz tx now t out rule: frame_loop.induct)
  case (1 fsz tx now t out)
  then show ?case
    by (subst (1 2) frame_loop.simps) (auto simp: push_frame_def Let_def)
qed

lemma append_chunk_flags:
  "is_transaction_paused (snd (append_chunk s tx chunk now)) u = is_transaction_paused s u"
  "is_awaiting_resume (snd (append_chunk s tx chunk now)) u = is_awaiting_resume s u"
  using frame_loop_flags
  by (auto simp: append_chunk_def Let_def split_beta is_transaction_paused_def is_awaiting_resume_def split: option.split)

lemma finish_flags: "is_awaiting_resume (snd (finish_transaction s tx now)) u = is_awaiting_resume s u"
  by (auto simp: finish_transaction_def push_frame_def Let_def is_awaiting_resume_def split: option.split)


text \<open>A streaming caller's writes, each at its own instant.\<close>

primrec sink_write_all ::
  "session_core \<Rightarrow> link \<Rightarrow> txid \<Rightarrow> (nat \<times> byte list) list \<Rightarrow> write_pass list \<times> effect list \<times> session_core" where
  "sink_write_all co lk tx [] = ([], [], co)"
| "sink_write_all co lk tx (c # cs) =
    (let (p, eff, co1) = sink_write co lk tx (snd c) (fst c); (ps, effs, co2) = sink_write_all co1 lk tx cs
     in (p # ps, eff @ effs, co2))"

lemma set_sender_set_sender [simp]: "set_sender s (set_sender s' co) = set_sender s co"
  by (simp add: set_sender_def)

lemma append_all_config: "ts_config (snd (append_all s tx cs)) = ts_config s"
proof (induction cs arbitrary: s)
  case (Cons c cs)
  have "ts_config (snd (append_chunk s tx (snd c) (fst c))) = ts_config s"
    by (auto simp: append_chunk_def Let_def split: option.split prod.split)
  then show ?case
    using Cons.IH by (auto split: prod.split sum.split)
qed simp

lemma sink_write_all_appends:
  assumes "append_all (ss_sender (co_state co)) tx cs = (Inr fs, s)" "co_wiring co \<noteq> None"
    and "\<not> is_transaction_paused (ss_sender (co_state co)) tx" "\<not> is_awaiting_resume (ss_sender (co_state co)) tx"
  shows "sink_write_all co link_up tx cs =
    (replicate (length cs) (WriteReturns (Inr ())), map WriteData fs, if cs = [] then co else set_sender s co) \<and>
    \<not> is_awaiting_resume s tx"
  using assms
proof (induction cs arbitrary: co fs)
  case (Cons c cs)
  let ?s = "ss_sender (co_state co)"
  obtain fs1 s1 where a: "append_chunk ?s tx (snd c) (fst c) = (Inr fs1, s1)"
    using Cons.prems(1) by (cases "append_chunk ?s tx (snd c) (fst c)") (auto split: sum.splits)
  obtain fs2 where b: "append_all s1 tx cs = (Inr fs2, s)" "fs = fs1 @ fs2"
    using Cons.prems(1) a by (cases "append_all s1 tx cs"; cases "fst (append_all s1 tx cs)") auto
  have fl: "\<not> is_transaction_paused s1 tx" "\<not> is_awaiting_resume s1 tx"
    using append_chunk_flags [of ?s tx "snd c" "fst c" tx] a Cons.prems(3,4) by simp_all
  have w: "sink_write co link_up tx (snd c) (fst c) = (WriteReturns (Inr ()), map WriteData fs1, set_sender s1 co)"
    using a Cons.prems(2-4) by (simp add: sink_write_def)
  show ?case
    using Cons.IH [of "set_sender s1 co" fs2] b fl Cons.prems(2) w by (cases cs) auto
qed auto

section \<open>Properties\<close>

text \<open>
  C31. Writing. One pass of a write parks exactly when the session is unwired, the transaction is
  paused or awaits the verdict after a reconnect, or its bytes would exceed the backpressure cap; a
  parked pass sends nothing and leaves the session as it was. A pass that succeeds has put the chunk
  into the sender, and what it wrote is a prefix of the new frames (all of them unless a write fails).
\<close>

theorem sink_write_parks_exactly:
  assumes "sink_write co lk tx chunk now = (p, eff, co')" "s = ss_sender (co_state co)"
  shows "(p = WriteParked \<longleftrightarrow>
      co_wiring co = None \<or> is_transaction_paused s tx \<or> is_awaiting_resume s tx \<or>
      contains_transaction s tx \<and> sc_backpressure_cap_bytes (ts_config s) < unacked_bytes s + length chunk) \<and>
    (p = WriteParked \<longrightarrow> eff = [] \<and> co' = co) \<and>
    (p = WriteReturns (Inr ()) \<longrightarrow>
      (\<exists>fs. append_chunk s tx chunk now = (Inr fs, ss_sender (co_state co')) \<and>
        (\<exists>n\<le>length fs. eff = map WriteData (take n fs) \<and> (lk = link_up \<longrightarrow> n = length fs))))"
proof (cases "co_wiring co = None \<or> is_transaction_paused s tx \<or> is_awaiting_resume s tx")
  case True
  then have "sink_write co lk tx chunk now = (WriteParked, [], co)"
    unfolding assms(2) by (auto simp: sink_write_def Let_def)
  then show ?thesis
    using True assms(1) by auto
next
  case False
  obtain r s1 where a: "append_chunk s tx chunk now = (r, s1)"
    by (metis surj_pair)
  have cap: "(\<exists>x y z. r = Inl (Backpressured x y z)) \<longleftrightarrow>
      contains_transaction s tx \<and> sc_backpressure_cap_bytes (ts_config s) < unacked_bytes s + length chunk"
    "\<exists>e. r = Inl e \<Longrightarrow> s1 = s"
    using a by (auto simp: append_chunk_def Let_def contains_transaction_def hm_contains_def split_beta
        split: option.splits if_splits)
  have same: "set_sender s co = co"
    using assms(2) by (simp add: set_sender_def)
  obtain sent e where w: "write_frames lk [] (projr r) = (sent, e)"
    by (metis surj_pair)
  show ?thesis
  proof (cases r)
    case (Inl e)
    then show ?thesis
      using assms False a cap same by (cases e) (auto simp: sink_write_def Let_def)
  next
    case (Inr fs)
    obtain n where "n \<le> length fs" "sent = take n fs" "e = None \<longrightarrow> n = length fs"
      using write_frames_eq [OF w] Inr by auto
    moreover have "lk = link_up \<longrightarrow> e = None"
      using w by auto
    ultimately show ?thesis
      using assms False a cap Inr w by (auto simp: sink_write_def Let_def)
  qed
qed



text \<open>A wired session that holds one transaction of which 8 of 10 bytes were written.\<close>

definition sample_sink :: session_core where
  "sample_sink =
    (let co = (session_new sample_transfer_config 0)\<lparr>co_wiring := Some 1\<rparr>;
         co1 = snd (open_binary_sink co 10 (Some 5) 0 0)
     in snd (snd (sink_write co1 link_up 5 [1, 2, 3, 4, 5, 6, 7, 8] 1)))"

theorem sink_write_parks_exactly_witness:
  "fst (sink_write sample_sink link_up 5 [9, 10] 2) = WriteReturns (Inr ()) \<and>
   fst (sink_write sample_sink link_up 5 (replicate 60 0) 2) = WriteParked \<and>
   (\<exists>n\<le>(0::nat). fst (snd (sink_write sample_sink link_up 5 [9, 10] 2)) = map WriteData (take n []))"
proof -
  let ?s = "ss_sender (co_state sample_sink)"
  have e: "co_wiring sample_sink \<noteq> None" "\<not> is_transaction_paused ?s 5" "\<not> is_awaiting_resume ?s 5"
    "contains_transaction ?s 5" "sc_backpressure_cap_bytes (ts_config ?s) = 64" "unacked_bytes ?s = 8"
    "fst (sink_write sample_sink link_up 5 [9, 10] 2) = WriteReturns (Inr ())"
    "fst (append_chunk ?s 5 [9, 10] 2) = Inr []"
    by code_simp+
  obtain p eff co' where w: "sink_write sample_sink link_up 5 [9, 10] 2 = (p, eff, co')"
    by (metis surj_pair)
  obtain q eff2 co2 where v: "sink_write sample_sink link_up 5 (replicate 60 0) 2 = (q, eff2, co2)"
    by (metis surj_pair)
  show ?thesis
    using sink_write_parks_exactly [OF w refl] sink_write_parks_exactly [OF v refl] e w v by auto
qed


text \<open>
  A payload streamed through a sink: opening, writing its chunks at any instants and finishing writes
  the frames of the payload and the completion announcement, and retains all of it.
\<close>

lemma sink_streams:
  assumes "session_inv (co_state co)" "is_wired co" "\<not> contains_transaction (ss_sender (co_state co)) tx"
    and "payload \<noteq> []" "length payload < 2 ^ 32" "concat (map snd cs) = payload"
    and "unacked_bytes (ss_sender (co_state co)) + length payload
      \<le> sc_backpressure_cap_bytes (ts_config (ss_sender (co_state co)))"
    and "open_binary_sink co (of_nat (length payload)) (Some tx) fresh t0 = (r1, co1)"
    and "sink_write_all co1 link_up tx cs = (r2, eff2, co2)" "sink_finish co2 link_up tx cb t1 = (r3, eff3, co3)"
    and "fsz = sc_frame_size (ts_config (ss_sender (co_state co)))"
  shows "r1 = Inr tx \<and> r2 = replicate (length cs) (WriteReturns (Inr ())) \<and> r3 = FinishAwaits cb \<and>
    hm_get (ss_completions (co_state co3)) tx = Some cb \<and>
    eff2 @ eff3 = map WriteData (mk_frames tx (of_nat (length payload)) 0 (pieces fsz payload) @
      [frame_new TransactionCompleted 0 0 0 (txid_to_bytes tx)]) \<and>
    sender_inv (ss_sender (co_state co3)) \<and> sc_frame_size (ts_config (ss_sender (co_state co3))) = fsz \<and>
    (\<exists>t. get_txn (ss_sender (co_state co3)) tx = Some t \<and> is_fully_sent t \<and> txn_inv fsz tx (pieces fsz payload) 0 t)"
proof -
  let ?s = "ss_sender (co_state co)" and ?n = "length payload"
  have ne: "cs \<noteq> []"
    using assms(4,6) by auto
  obtain s1 s2 s3 fs gs t where st: "open_transaction ?s tx (of_nat ?n) t0 = (Inr (), s1)"
    "append_all s1 tx cs = (Inr fs, s2)" "finish_transaction s2 tx t1 = (Inr gs, s3)"
    "fs @ gs = mk_frames tx (of_nat ?n) 0 (pieces fsz payload)"
    "sender_inv s3" "get_txn s3 tx = Some t" "is_fully_sent t" "txn_inv fsz tx (pieces fsz payload) 0 t"
    unfolding assms(11) by (rule streamed_frames [OF session_inv_senderD [OF assms(1)] assms(3-5,7,6), where now = t0 and now' = t1])
  have fl: "\<not> is_transaction_paused s1 tx" "\<not> is_awaiting_resume s1 tx"
    using st(1) by (auto simp: open_transaction_def is_transaction_paused_def is_awaiting_resume_def fresh_txn_def
        split: if_splits)
  have o: "r1 = Inr tx" "co1 = set_sender s1 co"
    using assms(8) st(1) by (simp_all add: open_binary_sink_def)
  have w: "r2 = replicate (length cs) (WriteReturns (Inr ()))" "eff2 = map WriteData fs" "co2 = set_sender s2 co"
      "\<not> is_awaiting_resume s2 tx"
    using sink_write_all_appends [of co1 tx cs fs s2] st(2) fl assms(2,9) o ne by (auto simp: is_wired_def)
  have c: "contains_transaction s3 tx" "contains_transaction s2 tx" "\<not> is_awaiting_resume s3 tx"
    using st(3,6) finish_flags [of s2 tx t1 tx] w(4)
    by (auto simp: contains_transaction_def hm_contains_def finish_transaction_def split: option.splits)
  have cfg: "ts_config s3 = ts_config ?s"
    using st(1,3) append_all_config [of s1 tx cs] st(2)
    by (auto simp: open_transaction_def finish_transaction_def Let_def split: if_splits option.splits prod.splits)
  from c have "r3 = FinishAwaits cb" "hm_get (ss_completions (co_state co3)) tx = Some cb" "ss_sender (co_state co3) = s3"
    "eff3 = map WriteData (gs @ [frame_new TransactionCompleted 0 0 0 (txid_to_bytes tx)])"
    using assms(2,10) w(3) st(3)
    by (auto simp: sink_finish_def finish_close_def finish_flush_def finish_register_def Let_def is_wired_def
        txid_control_frames write_ordered_control_def link_up_def)
  then show ?thesis
    using o(1) w(1,2) st(4-8) cfg assms(11) by (simp flip: map_append append_assoc)
qed

text \<open>
  C30. Streaming a payload through a sink is sending it whole. On a wired session with a working link,
  for any payload and any cut of it into chunks: opening, writing the chunks at any instants and
  finishing succeeds without parking, writes the same frames in the same order as \<open>send_binary\<close> with
  the whole payload (the completion announcement included), and leaves the finish waiting for its
  registered callback.
\<close>

theorem sink_equals_send_binary:
  assumes "session_inv (co_state co)" "is_wired co" "\<not> contains_transaction (ss_sender (co_state co)) tx"
    and "payload \<noteq> []" "length payload < 2 ^ 32" "concat (map snd cs) = payload"
    and "unacked_bytes (ss_sender (co_state co)) + length payload
      \<le> sc_backpressure_cap_bytes (ts_config (ss_sender (co_state co)))"
    and "open_binary_sink co (of_nat (length payload)) (Some tx) fresh t0 = (r1, co1)"
    and "sink_write_all co1 link_up tx cs = (r2, eff2, co2)" "sink_finish co2 link_up tx cb t1 = (r3, eff3, co3)"
    and "send_binary co link_up tx payload (Some cb) now = (r, eff, co')"
  shows "r1 = Inr tx \<and> r2 = replicate (length cs) (WriteReturns (Inr ())) \<and> r3 = FinishAwaits cb \<and>
    hm_get (ss_completions (co_state co3)) tx = Some cb \<and> r = Inr tx \<and> eff2 @ eff3 = eff"
proof -
  let ?s = "ss_sender (co_state co)" and ?n = "length payload"
  let ?frames = "mk_frames tx (of_nat ?n) 0 (pieces (sc_frame_size (ts_config ?s)) payload)"
  obtain u1 u2 u3 f1 f2 where wh: "open_transaction ?s tx (of_nat ?n) now = (Inr (), u1)"
    "append_all u1 tx [(now, payload)] = (Inr f1, u2)" "finish_transaction u2 tx now = (Inr f2, u3)" "f1 @ f2 = ?frames"
    by (rule streamed_frames [OF session_inv_senderD [OF assms(1)] assms(3-5,7), of "[(now, payload)]", where now = now and now' = now]) auto
  have "append_chunk u1 tx payload now = (Inr f1, u2)"
    using wh(2) by (auto split: prod.splits sum.splits)
  moreover have "\<not> is_paused ?s"
    using assms(4,7) by (cases payload) (auto simp: is_paused_def)
  ultimately have whole: "r = Inr tx" "eff = map WriteData (?frames @ [frame_new TransactionCompleted 0 0 0 (txid_to_bytes tx)])"
    using assms(11) wh by (auto simp: send_binary_def admit_payload_def Let_def txid_control_frames link_up_def)
  show ?thesis
    using sink_streams [OF assms(1-10) refl] whole by simp
qed

theorem sink_equals_send_binary_witness:
  "\<exists>co1 eff2 co2 eff3 co3 co'. let co = (session_new sample_transfer_config 0)\<lparr>co_wiring := Some 1\<rparr> in
    open_binary_sink co 10 (Some 5) 0 0 = (Inr 5, co1) \<and>
    sink_write_all co1 link_up 5 [(1, [1, 2, 3]), (2, [4, 5, 6, 7, 8, 9, 10])] = ([WriteReturns (Inr ()), WriteReturns (Inr ())], eff2, co2) \<and>
    sink_finish co2 link_up 5 7 3 = (FinishAwaits 7, eff3, co3) \<and>
    send_binary co link_up 5 sample_payload (Some 7) 0 = (Inr 5, eff2 @ eff3, co')"
proof -
  let ?co = "(session_new sample_transfer_config 0)\<lparr>co_wiring := Some 1\<rparr>"
  let ?cs = "[(1, [1, 2, 3]), (2, [4, 5, 6, 7, 8, 9, 10])] :: (nat \<times> byte list) list"
  obtain r1 co1 where 1: "open_binary_sink ?co 10 (Some 5) 0 0 = (r1, co1)" by (metis surj_pair)
  obtain r2 eff2 co2 where 2: "sink_write_all co1 link_up 5 ?cs = (r2, eff2, co2)" by (metis surj_pair)
  obtain r3 eff3 co3 where 3: "sink_finish co2 link_up 5 7 3 = (r3, eff3, co3)" by (metis surj_pair)
  obtain r eff co' where 4: "send_binary ?co link_up 5 sample_payload (Some 7) 0 = (r, eff, co')" by (metis surj_pair)
  have i: "session_inv (co_state ?co)" "is_wired ?co"
    using session_inv_new [of sample_transfer_config 0] by (simp_all add: is_wired_def)
  have s: "ss_sender (co_state ?co) = sample_sender"
    by (simp add: session_new_def sample_transfer_config_def sample_sender_def)
  have "r1 = Inr 5 \<and> r2 = replicate (length ?cs) (WriteReturns (Inr ())) \<and> r3 = FinishAwaits 7 \<and>
      hm_get (ss_completions (co_state co3)) 5 = Some 7 \<and> r = Inr 5 \<and> eff2 @ eff3 = eff"
    by (rule sink_equals_send_binary [OF i _ _ _ _ _ _ 2 3 4])
      (use 1 in \<open>simp_all only: s\<close>, simp_all add: sample_payload_def)
  then show ?thesis
    using 1 2 3 4 by (auto simp: numeral_2_eq_2)
qed

end
