(* ===== verification/Session_Inbound.thy ===== *)
theory Session_Inbound
  imports Session_State
begin

text \<open>
  Inbound dispatch, \<open>src/src/transfer/inbound.rs\<close>: one definition per frame handler and
  \<open>handle_inbound\<close> that composes them. \<open>inbound_out\<close> collects what a handler leaves for the part of
  \<open>handle_inbound\<close> that runs outside the state lock.
\<close>

section \<open>Handlers\<close>

record inbound_out =
  io_writes :: "effect list"
  io_opened :: "nat option"
  io_delivered :: "(txid \<times> byte list) list"
  io_completions :: "(nat \<times> binary_send_result) list"
  io_ack_progressed :: bool

definition no_out :: inbound_out where
  "no_out = \<lparr>io_writes = [], io_opened = None, io_delivered = [], io_completions = [],
             io_ack_progressed = False\<rparr>"

definition on_transaction_pause_frame :: "frame \<Rightarrow> session_state \<Rightarrow> session_state" where
  "on_transaction_pause_frame f st =
    (case pause_decode (f_payload f) of
       Inl _ \<Rightarrow> st
     | Inr payload \<Rightarrow> on_stream (pp_txid payload) stream_set_paused st)"

definition on_transaction_abort_frame :: "frame \<Rightarrow> session_state \<Rightarrow> session_state" where
  "on_transaction_abort_frame f st =
    (case abort_decode (f_payload f) of
       Inl _ \<Rightarrow> st
     | Inr payload \<Rightarrow>
         let tx = ap_txid payload
         in forget_acks tx (discard_slot tx (unown_stream tx
              (end_stream tx (stream_finish Cancelled) st))))"

definition on_transaction_completed_frame :: "frame \<Rightarrow> session_state \<Rightarrow> session_state" where
  "on_transaction_completed_frame f st =
    (case completed_decode (f_payload f) of
       Inl _ \<Rightarrow> st
     | Inr payload \<Rightarrow>
         let tx = cp_txid payload in
         if \<not> slot_exists (ss_reassembler st) tx then st
         else if is_complete (ss_reassembler st) tx then
           (if hm_contains (ss_streams st) tx
            then unown_stream tx (end_stream tx (stream_finish Complete) st) else st)
         else
           let (received, expected) =
                 (case byte_progress (ss_reassembler st) tx of Some p \<Rightarrow> p | None \<Rightarrow> (0, f_total_len f))
           in forget_acks tx (discard_slot tx (unown_stream tx
                (end_stream tx (finish_incomplete received expected) st))))"

definition send_ack_entries :: "crc_fn \<Rightarrow> ack_entry list \<Rightarrow> effect list" where
  "send_ack_entries crc entries =
    (if entries = [] then [] else send_control crc Ack (ack_encode \<lparr>ack_entries = entries\<rparr>))"

text \<open>
  A new stream object whose channel already holds the emitted chunks, installed in the table
  (\<open>insert\<close> drops an entry that was there).
\<close>

definition open_stream :: "txid \<Rightarrow> u32 \<Rightarrow> (u32 \<times> byte list) list \<Rightarrow> session_state \<Rightarrow> session_state" where
  "open_stream tx tot ems st =
    (let si = fold chunk_send ems (stream_new tx tot);
         st1 = (case hm_get (ss_streams st) tx of None \<Rightarrow> st | Some j \<Rightarrow> update_object j chunk_close st)
     in st1\<lparr>ss_objects := ss_objects st1 @ [si],
            ss_streams := hm_put tx (length (ss_objects st1)) (ss_streams st1),
            ss_stream_owned := hm_put tx () (ss_stream_owned st1)\<rparr>)"

text \<open>The tail of an accepted frame that completed its transaction.\<close>

definition complete_inbound ::
  "crc_fn \<Rightarrow> txid \<Rightarrow> bool \<Rightarrow> session_state \<Rightarrow> session_state \<times> effect list \<times> (txid \<times> byte list) list" where
  "complete_inbound crc tx handler_present st =
    (let writes = (case ack_entry_of (ss_reassembler st) tx of
                     Some e \<Rightarrow> send_ack_entries crc [e] | None \<Rightarrow> []);
         st1 = forget_acks tx st
     in if hm_contains (ss_stream_owned st1) tx then
          let st2 = end_stream tx (stream_finish Complete) (unown_stream tx st1)
          in (st2\<lparr>ss_reassembler := snd (take_completed (ss_reassembler st2) tx)\<rparr>, writes, [])
        else if handler_present then
          (case take_completed (ss_reassembler st1) tx of
             (Some payload, r) \<Rightarrow> (st1\<lparr>ss_reassembler := r\<rparr>, writes, [(tx, payload)])
           | (None, r) \<Rightarrow> (st1\<lparr>ss_reassembler := r\<rparr>, writes, []))
        else (st1, writes, []))"

definition count_pending_ack :: "txid \<Rightarrow> session_state \<Rightarrow> session_state" where
  "count_pending_ack tx st =
    st\<lparr>ss_pending_ack_frames :=
        hm_put tx ((case hm_get (ss_pending_ack_frames st) tx of None \<Rightarrow> 0 | Some n \<Rightarrow> n) + 1)
          (ss_pending_ack_frames st)\<rparr>"

definition on_data_frame ::
  "crc_fn \<Rightarrow> frame \<Rightarrow> bool \<Rightarrow> bool \<Rightarrow> nat \<Rightarrow> session_state \<Rightarrow> session_state \<times> inbound_out" where
  "on_data_frame crc f handler_present stream_present now st =
    (let tx = f_txid f;
         opens_stream = (stream_present \<and> f_seq f = 0 \<and> \<not> slot_exists (ss_reassembler st) tx)
     in case receive_frame (ss_reassembler st) tx (f_seq f) (f_total_len f) (length (f_payload f))
               (f_payload f) now stream_present of
       (Inr (Accepted complete ems), r) \<Rightarrow>
         let st1 = count_pending_ack tx (st\<lparr>ss_reassembler := r\<rparr>);
             (st2, opened) =
               (if opens_stream
                then (open_stream tx (f_total_len f) ems st1, Some (length (ss_objects st1)))
                else (on_stream tx (\<lambda>si. fold chunk_send ems (stream_clear_paused si)) st1, None))
         in if complete then
              let (st3, writes, delivered) = complete_inbound crc tx handler_present st2
              in (st3, no_out\<lparr>io_writes := writes, io_opened := opened, io_delivered := delivered\<rparr>)
            else (st2, no_out\<lparr>io_opened := opened\<rparr>)
     | (_, r) \<Rightarrow> (st\<lparr>ss_reassembler := r\<rparr>, no_out))"

text \<open>Firing a completion takes the callback out of the table.\<close>

definition fire_completion ::
  "txid \<Rightarrow> bool \<Rightarrow> session_state \<times> (nat \<times> binary_send_result) list
    \<Rightarrow> session_state \<times> (nat \<times> binary_send_result) list" where
  "fire_completion tx confirmed = (\<lambda>(st, cs).
    (case hm_get (ss_completions st) tx of
       None \<Rightarrow> (st, cs)
     | Some cb \<Rightarrow>
         (st\<lparr>ss_completions := hm_del tx (ss_completions st)\<rparr>,
          cs @ [(cb, \<lparr>br_txid = tx, br_confirmed = confirmed\<rparr>)])))"

primrec ack_all ::
  "nat \<Rightarrow> ack_entry list \<Rightarrow> session_state \<times> (nat \<times> binary_send_result) list
    \<Rightarrow> session_state \<times> (nat \<times> binary_send_result) list" where
  "ack_all now [] acc = acc"
| "ack_all now (e # es) acc =
    (let (final, s) = handle_ack (ss_sender (fst acc)) e now;
         acc1 = ((fst acc)\<lparr>ss_sender := s\<rparr>, snd acc)
     in ack_all now es (if final then fire_completion (ae_txid e) True acc1 else acc1))"

definition on_ack_frame :: "frame \<Rightarrow> nat \<Rightarrow> session_state \<Rightarrow> session_state \<times> inbound_out" where
  "on_ack_frame f now st =
    (case ack_decode (f_payload f) of
       Inl _ \<Rightarrow> (st, no_out)
     | Inr payload \<Rightarrow>
         let (st', cs) = ack_all now (ack_entries payload) (st, [])
         in (st', no_out\<lparr>io_completions := cs\<rparr>))"

primrec nack_all ::
  "link \<Rightarrow> nat \<Rightarrow> nack_entry list \<Rightarrow> transaction_sender \<Rightarrow> frame list \<Rightarrow> transaction_sender \<times> frame list" where
  "nack_all lk now [] s sent = (s, sent)"
| "nack_all lk now (e # es) s sent =
    (let (fs, s') = handle_nack s (ne_txid e) (ne_missing_seqs e) now;
         (sent', failed) = write_frames lk sent fs
     in if failed \<noteq> None then (s', sent') else nack_all lk now es s' sent')"

definition on_nack_frame :: "link \<Rightarrow> frame \<Rightarrow> nat \<Rightarrow> session_state \<Rightarrow> session_state \<times> inbound_out" where
  "on_nack_frame lk f now st =
    (case nack_decode (f_payload f) of
       Inl _ \<Rightarrow> (st, no_out)
     | Inr payload \<Rightarrow>
         let (s, sent) = nack_all lk now (nack_entries payload) (ss_sender st) []
         in (st\<lparr>ss_sender := s\<rparr>, no_out\<lparr>io_writes := map WriteData sent\<rparr>))"

definition resume_verdict :: "reassembler \<Rightarrow> ack_entry \<Rightarrow> resume_status_entry" where
  "resume_verdict r e =
    \<lparr>rs_txid = ae_txid e,
     rs_status = (if slot_exists r (ae_txid e) \<and> \<not> is_complete r (ae_txid e) then Resumed else UnknownTx)\<rparr>"

definition abandoned :: "reassembler \<Rightarrow> ack_entry list \<Rightarrow> txid list" where
  "abandoned r entries =
    filter (\<lambda>tx. \<not> is_complete r tx \<and> \<not> (\<exists>e\<in>set entries. ae_txid e = tx)) (open_transactions r)"

definition abandon :: "txid \<Rightarrow> session_state \<Rightarrow> session_state" where
  "abandon tx st = unown_stream tx (end_stream tx (stream_finish Cancelled) (discard_slot tx st))"

definition on_resume_request_frame :: "crc_fn \<Rightarrow> frame \<Rightarrow> session_state \<Rightarrow> session_state \<times> inbound_out" where
  "on_resume_request_frame crc f st =
    (case resume_request_decode (f_payload f) of
       Inl _ \<Rightarrow> (st, no_out)
     | Inr req \<Rightarrow>
         if rr_entries req = [] then (st, no_out)
         else
           let entries = map (resume_verdict (ss_reassembler st)) (rr_entries req);
               st' = fold abandon (abandoned (ss_reassembler st) (rr_entries req)) st
           in (st', no_out\<lparr>io_writes :=
                 send_control crc ResumeResponse (resume_response_encode \<lparr>rp_entries = entries\<rparr>)\<rparr>))"

definition on_resume_response_frame ::
  "link \<Rightarrow> frame \<Rightarrow> nat \<Rightarrow> session_state \<Rightarrow> session_state \<times> inbound_out" where
  "on_resume_response_frame lk f now st =
    (case resume_response_decode (f_payload f) of
       Inl _ \<Rightarrow> (st, no_out)
     | Inr resp \<Rightarrow>
         let (verdicts, s) = apply_resume_verdicts (ss_sender st) (rp_entries resp) now;
             st1 = st\<lparr>ss_sender := s\<rparr>;
             (sent, failed) = write_frames lk [] (rv_retransmit verdicts)
         in if failed \<noteq> None then (st1, no_out\<lparr>io_writes := map WriteData sent\<rparr>)
            else
              let acc = fold (\<lambda>tx. fire_completion tx True) (rv_confirmed verdicts) (st1, []);
                  (st2, cs) = fold (\<lambda>tx. fire_completion tx False) (rv_failed verdicts) acc
              in (st2, no_out\<lparr>io_writes := map WriteData sent, io_completions := cs\<rparr>))"

text \<open>
  \<open>message.get(..32)\<close> is \<open>None\<close> for a shorter message and when byte 32 is not a character boundary.
\<close>

definition lower_hex :: "byte \<Rightarrow> bool" where
  "lower_hex b \<longleftrightarrow> 0x30 \<le> b \<and> b \<le> 0x39 \<or> 0x61 \<le> b \<and> b \<le> 0x66"

definition parse_hex_txid_prefix :: "(byte list \<Rightarrow> txid option) \<Rightarrow> byte list \<Rightarrow> txid option" where
  "parse_hex_txid_prefix uuid_parse message =
    (if length message < 32 \<or> (length message > 32 \<and> utf8_cont (message ! 32)) then None
     else
       let prefix = take 32 message in
       if \<not> list_all lower_hex prefix then None else uuid_parse prefix)"

definition on_error_frame :: "(byte list \<Rightarrow> txid option) \<Rightarrow> frame \<Rightarrow> session_state \<Rightarrow> session_state" where
  "on_error_frame uuid_parse f st =
    (case error_decode (f_payload f) of
       Inl _ \<Rightarrow> st
     | Inr payload \<Rightarrow>
         if ep_code payload = TRANSACTION_EXPIRED then
           (case parse_hex_txid_prefix uuid_parse (ep_message payload) of
              Some tx \<Rightarrow> unown_stream tx (end_stream tx (stream_finish Cancelled) (discard_slot tx st))
            | None \<Rightarrow> st)
         else st)"

section \<open>Dispatch\<close>

definition dispatch ::
  "env \<Rightarrow> link \<Rightarrow> bool \<Rightarrow> bool \<Rightarrow> nat \<Rightarrow> frame \<Rightarrow> session_state \<Rightarrow> session_state \<times> inbound_out" where
  "dispatch ev lk handler_present stream_present now f st =
    (case f_type f of
       DataJson \<Rightarrow> (st, no_out)
     | DataBinary \<Rightarrow> on_data_frame (env_crc ev) f handler_present stream_present now st
     | Ack \<Rightarrow> (let (st', out) = on_ack_frame f now st in (st', out\<lparr>io_ack_progressed := True\<rparr>))
     | Nack \<Rightarrow> on_nack_frame lk f now st
     | Resume \<Rightarrow> on_resume_request_frame (env_crc ev) f st
     | ResumeResponse \<Rightarrow>
         (let (st', out) = on_resume_response_frame lk f now st in (st', out\<lparr>io_ack_progressed := True\<rparr>))
     | TransactionPause \<Rightarrow> (on_transaction_pause_frame f st, no_out)
     | TransactionAbort \<Rightarrow> (on_transaction_abort_frame f st, no_out)
     | TransactionCompleted \<Rightarrow> (on_transaction_completed_frame f st, no_out)
     | Heartbeat \<Rightarrow> (st, no_out)
     | ErrorFrame \<Rightarrow> (on_error_frame (env_uuid_parse ev) f st, no_out)
     | _ \<Rightarrow> (st, no_out))"

definition handle_inbound ::
  "env \<Rightarrow> link \<Rightarrow> nat \<Rightarrow> frame \<Rightarrow> session_core \<Rightarrow> effect list \<times> session_core" where
  "handle_inbound ev lk now f co =
    (let (st', out) = dispatch ev lk (co_binary_handler co) (co_stream_handler co) now f
           ((co_state co)\<lparr>ss_last_peer_activity_ms := now\<rparr>);
         co1 = co\<lparr>co_state := st'\<rparr>;
         co2 = (if io_ack_progressed out then wake_writers co1 else co1);
         opened = (case io_opened out of
                     Some i \<Rightarrow> (if co_stream_handler co2 then [StreamHandler i] else [])
                   | None \<Rightarrow> [])
     in (io_writes out @ opened @ concat (map (\<lambda>(tx, payload). deliver co2 tx payload) (io_delivered out))
           @ map (\<lambda>(cb, result). Completion cb result) (io_completions out),
         co2))"

section \<open>Slots under the receiver's operations\<close>

lemma discard_slots [simp]:
  "slot_exists (snd (discard r tx)) u \<longleftrightarrow> u \<noteq> tx \<and> slot_exists r u"
  "is_complete (snd (discard r tx)) u \<longleftrightarrow> u \<noteq> tx \<and> is_complete r u"
  by (auto simp: slot_exists_def is_complete_def discard_def)

lemma take_slots:
  "slot_exists (snd (take_completed r tx)) u \<longleftrightarrow> slot_exists r u \<and> (u \<noteq> tx \<or> \<not> is_complete r tx)"
  "is_complete (snd (take_completed r tx)) u \<longleftrightarrow> u \<noteq> tx \<and> is_complete r u"
  by (auto simp: slot_exists_def is_complete_def take_completed_def hm_contains_def split: option.splits)

lemma fresh_not_complete [simp]: "\<not> slot_is_complete (fresh_slot tot)"
  by (simp add: slot_is_complete_def fresh_slot_def)

lemma receive_slots:
  assumes "receive_frame r tx sq tot n p now em = (res, r')"
  shows "(\<forall>u. u \<noteq> tx \<longrightarrow> get_slot r' u = get_slot r u) \<and>
    (case res of
       Inr (Accepted c _) \<Rightarrow> slot_exists r' tx \<and> (is_complete r' tx \<longleftrightarrow> c)
     | _ \<Rightarrow> (is_complete r' tx \<longleftrightarrow> is_complete r tx) \<and> (slot_exists r tx \<longrightarrow> slot_exists r' tx))"
  using assms
  by (auto simp: receive_frame_def Let_def is_complete_def slot_exists_def hm_contains_def
      split: if_splits option.splits)

lemma receive_slots_other:
  assumes "receive_frame r tx sq tot n p now em = (res, r')" "u \<noteq> tx"
  shows "slot_exists r' u \<longleftrightarrow> slot_exists r u" "is_complete r' u \<longleftrightarrow> is_complete r u"
  using receive_slots [OF assms(1)] assms(2) by (simp_all add: slot_exists_def is_complete_def hm_contains_def)

section \<open>Every handler keeps the session invariant\<close>

lemma session_inv_on_stream: "session_inv st \<Longrightarrow> keeps_live f \<Longrightarrow> session_inv (on_stream tx f st)"
  by (simp add: session_inv_def objects_inv_on_stream owners_inv_def slots_inv_def)

text \<open>Ending a stream together with its slot, in either order.\<close>

lemma objects_inv_edits [simp]:
  "objects_inv (unown_stream tx st) = objects_inv st" "objects_inv (discard_slot tx st) = objects_inv st"
  "objects_inv (forget_acks tx st) = objects_inv st" "objects_inv (st\<lparr>ss_reassembler := r\<rparr>) = objects_inv st"
  "objects_inv (st\<lparr>ss_pending_ack_frames := m\<rparr>) = objects_inv st"
  by (simp_all add: objects_inv_def)

lemma session_inv_close:
  assumes "session_inv st" "ends_stream f"
  shows "session_inv (forget_acks tx (discard_slot tx (unown_stream tx (end_stream tx f st))))"
    and "session_inv (unown_stream tx (end_stream tx f (discard_slot tx st)))"
  using assms objects_inv_end_stream [of st f tx] objects_inv_end_stream [of "discard_slot tx st" f tx]
  by (simp_all add: session_inv_def owners_inv_def slots_inv_def discard_inv)

lemma pause_frame_inv: "session_inv st \<Longrightarrow> session_inv (on_transaction_pause_frame f st)"
  by (auto simp: on_transaction_pause_frame_def session_inv_on_stream keeps_live_flow split: sum.split)

lemma abort_frame_inv: "session_inv st \<Longrightarrow> session_inv (on_transaction_abort_frame f st)"
  by (auto simp: on_transaction_abort_frame_def Let_def session_inv_close ends_stream_ops split: sum.split)

lemma completed_frame_inv:
  assumes "session_inv st"
  shows "session_inv (on_transaction_completed_frame f st)"
proof -
  have "hm_contains (ss_streams st) tx \<Longrightarrow> \<not> is_complete (ss_reassembler st) tx" for tx
    using assms by (simp add: session_inv_def slots_inv_def)
  then show ?thesis
    using assms
    by (auto simp: on_transaction_completed_frame_def Let_def session_inv_close ends_stream_ops
        split: sum.split prod.split)
qed

lemma error_frame_inv: "session_inv st \<Longrightarrow> session_inv (on_error_frame parse f st)"
  by (auto simp: on_error_frame_def session_inv_close ends_stream_ops split: sum.split option.split)

lemma abandon_inv: "session_inv st \<Longrightarrow> session_inv (abandon tx st)"
  by (simp add: abandon_def session_inv_close ends_stream_ops)

lemma resume_request_inv: "session_inv st \<Longrightarrow> session_inv (fst (on_resume_request_frame crc f st))"
proof -
  have "session_inv st \<Longrightarrow> session_inv (fold abandon txs st)" for txs
    by (induction txs arbitrary: st) (simp_all add: abandon_inv)
  then show "session_inv st \<Longrightarrow> session_inv (fst (on_resume_request_frame crc f st))"
    by (auto simp: on_resume_request_frame_def Let_def split: sum.split)
qed

lemma fire_completion_inv: "session_inv (fst acc) \<Longrightarrow> session_inv (fst (fire_completion tx c acc))"
  by (cases acc) (auto simp: fire_completion_def session_inv_def table_inv_defs split: option.split)

lemma ack_all_inv: "session_inv (fst acc) \<Longrightarrow> session_inv (fst (ack_all now es acc))"
proof (induction es arbitrary: acc)
  case (Cons e es)
  have "sender_inv (snd (handle_ack (ss_sender (fst acc)) e now))"
    using Cons.prems by (simp add: session_inv_def sender_inv_ops)
  then have "session_inv ((fst acc)\<lparr>ss_sender := snd (handle_ack (ss_sender (fst acc)) e now)\<rparr>)"
    using Cons.prems by (rule session_inv_sender [rotated])
  then show ?case
    using Cons.IH by (simp add: Let_def split_beta fire_completion_inv)
qed simp

lemma ack_frame_inv: "session_inv st \<Longrightarrow> session_inv (fst (on_ack_frame f now st))"
  using ack_all_inv [of "(st, [])"] by (auto simp: on_ack_frame_def Let_def split_beta split: sum.split)

lemma nack_all_inv: "sender_inv s \<Longrightarrow> sender_inv (fst (nack_all lk now es s sent))"
proof (induction es arbitrary: s sent)
  case (Cons e es)
  then show ?case
    using nack_inv [of s "ne_txid e" "ne_missing_seqs e" now]
    by (simp add: Let_def split_beta)
qed simp

lemma nack_frame_inv: "session_inv st \<Longrightarrow> session_inv (fst (on_nack_frame lk f now st))"
  using nack_all_inv [of "ss_sender st" lk now _ "[]"]
  by (auto simp: on_nack_frame_def Let_def split_beta session_inv_sender session_inv_def [of st] split: sum.split)

lemma resume_response_inv: "session_inv st \<Longrightarrow> session_inv (fst (on_resume_response_frame lk f now st))"
proof -
  assume st: "session_inv st"
  have fires: "session_inv (fst acc) \<Longrightarrow> session_inv (fst (fold (\<lambda>tx. fire_completion tx c) txs acc))" for c txs acc
    by (induction txs arbitrary: acc) (simp_all add: fire_completion_inv)
  have "session_inv (st\<lparr>ss_sender := snd (apply_resume_verdicts (ss_sender st) es now)\<rparr>)" for es
    using st by (intro session_inv_sender) (simp_all add: session_inv_def sender_inv_ops)
  then show ?thesis
    using st fires by (auto simp: on_resume_response_frame_def Let_def split_beta split: sum.split)
qed

text \<open>While a data frame is processed, the slot of its own transaction may already be complete.\<close>

definition session_inv_but :: "txid \<Rightarrow> session_state \<Rightarrow> bool" where
  "session_inv_but tx st \<longleftrightarrow>
    sender_inv (ss_sender st) \<and> reassembler_inv (ss_reassembler st) \<and>
    hm_inv (ss_completions st) \<and> hm_inv (ss_pending_ack_frames st) \<and> objects_inv st \<and> owners_inv st \<and>
    (\<forall>u. u \<noteq> tx \<longrightarrow> hm_contains (ss_streams st) u \<longrightarrow>
      slot_exists (ss_reassembler st) u \<and> \<not> is_complete (ss_reassembler st) u)"

lemma session_inv_but_restore:
  "session_inv_but tx st \<Longrightarrow> slot_exists (ss_reassembler st) tx \<Longrightarrow> \<not> is_complete (ss_reassembler st) tx \<Longrightarrow>
   session_inv st"
  "session_inv_but tx st \<Longrightarrow> \<not> hm_contains (ss_streams st) tx \<Longrightarrow> session_inv st"
  by (auto simp: session_inv_but_def session_inv_def slots_inv_def)

lemma receive_inv_but:
  assumes "session_inv st" "receive_frame (ss_reassembler st) tx sq tot n p now em = (res, r)"
  shows "session_inv_but tx (st\<lparr>ss_reassembler := r\<rparr>)"
  using assms receive_inv [of "ss_reassembler st" tx sq tot n p now em] receive_slots_other [OF assms(2)]
  by (auto simp: session_inv_def session_inv_but_def owners_inv_def slots_inv_def)

lemma count_pending_ack_simps [simp]:
  "ss_sender (count_pending_ack tx st) = ss_sender st"
  "ss_reassembler (count_pending_ack tx st) = ss_reassembler st"
  "ss_completions (count_pending_ack tx st) = ss_completions st"
  "ss_streams (count_pending_ack tx st) = ss_streams st"
  "ss_stream_owned (count_pending_ack tx st) = ss_stream_owned st"
  "ss_objects (count_pending_ack tx st) = ss_objects st"
  "ss_last_peer_activity_ms (count_pending_ack tx st) = ss_last_peer_activity_ms st"
  by (simp_all add: count_pending_ack_def)

lemma count_pending_ack_inv: "session_inv_but tx st \<Longrightarrow> session_inv_but tx (count_pending_ack u st)"
  by (simp add: session_inv_but_def owners_inv_def count_pending_ack_def)

lemma open_stream_inv:
  assumes "session_inv_but tx st" "\<not> hm_contains (ss_streams st) tx"
  shows "session_inv_but tx (open_stream tx tot ems st)"
proof -
  let ?si = "fold chunk_send ems (stream_new tx tot)" and ?n = "length (ss_objects st)"
  have si: "live ?si" "si_txid ?si = tx"
    by (simp_all add: live_def flowing_def chunk_sends stream_new_def)
  have none: "hm_get (ss_streams st) tx = None"
    using assms(2) by (simp add: hm_contains_def)
  have inv: "objects_inv st"
    using assms(1) by (simp add: session_inv_but_def)
  have old: "i < ?n \<and> live (ss_objects st ! i) \<and> si_txid (ss_objects st ! i) = u"
    if "hm_get (ss_streams st) u = Some i" for u i
    using inv that unfolding objects_inv_def by blast
  have new: "hm_get (hm_put tx ?n (ss_streams st)) (si_txid ((ss_objects st @ [?si]) ! i)) = Some i \<or>
      ended ((ss_objects st @ [?si]) ! i)" if "i < Suc ?n" for i
  proof (cases "i = ?n")
    case False
    then have "i < ?n"
      using that by simp
    then have "hm_get (ss_streams st) (si_txid (ss_objects st ! i)) = Some i \<or> ended (ss_objects st ! i)"
      using inv unfolding objects_inv_def by blast
    then show ?thesis
      using \<open>i < ?n\<close> none by (auto simp: nth_append)
  qed (use si in simp)
  have "objects_inv (open_stream tx tot ems st)"
    using si none old new inv unfolding objects_inv_def open_stream_def
    by (auto simp: nth_append split: if_splits dest: less_SucI)
  then show ?thesis
    using assms none by (auto simp: session_inv_but_def open_stream_def owners_inv_def)
qed

lemma on_stream_inv_but:
  "session_inv_but tx st \<Longrightarrow> keeps_live f \<Longrightarrow> session_inv_but tx (on_stream u f st)"
  by (simp add: session_inv_but_def objects_inv_on_stream owners_inv_def)

lemma take_inv_but:
  "session_inv_but tx st \<Longrightarrow>
   session_inv_but tx (st\<lparr>ss_reassembler := snd (take_completed (ss_reassembler st) tx)\<rparr>)"
  by (auto simp: session_inv_but_def take_inv take_slots owners_inv_def)

lemma complete_inbound_inv:
  assumes "session_inv_but tx st"
  shows "session_inv (fst (complete_inbound crc tx hp st))"
proof (cases "hm_contains (ss_stream_owned st) tx")
  case True
  let ?st2 = "end_stream tx (stream_finish Complete) (unown_stream tx (forget_acks tx st))"
  have "session_inv_but tx ?st2"
    using assms objects_inv_end_stream [of "unown_stream tx (forget_acks tx st)" "stream_finish Complete" tx]
    by (auto simp: session_inv_but_def owners_inv_def ends_stream_ops)
  from take_inv_but [OF this] have "session_inv (fst (complete_inbound crc tx hp st))"
    by (intro session_inv_but_restore(2) [of tx]) (simp_all add: complete_inbound_def Let_def True)
  then show ?thesis .
next
  case False
  then have no: "\<not> hm_contains (ss_streams st) tx"
    using assms by (simp add: session_inv_but_def owners_inv_def)
  have "session_inv_but tx (forget_acks tx st)"
    using assms by (simp add: session_inv_but_def owners_inv_def)
  with take_inv_but [OF this] no show ?thesis
    by (auto simp: complete_inbound_def Let_def False split: prod.split option.split
        intro!: session_inv_but_restore(2) [of tx])
qed

lemma data_frame_inv: "session_inv st \<Longrightarrow> session_inv (fst (on_data_frame crc f hp sp now st))"
proof -
  assume st: "session_inv st"
  let ?tx = "f_txid f"
  obtain res r where res: "receive_frame (ss_reassembler st) ?tx (f_seq f) (f_total_len f)
      (length (f_payload f)) (f_payload f) now sp = (res, r)"
    by (metis surj_pair)
  note but = receive_inv_but [OF st res] and sl = receive_slots [OF res]
  show ?thesis
  proof (cases "\<exists>c ems. res = Inr (Accepted c ems)")
    case True
    then obtain c ems where acc: "res = Inr (Accepted c ems)"
      by blast
    let ?st1 = "count_pending_ack ?tx (st\<lparr>ss_reassembler := r\<rparr>)"
    let ?opens = "sp \<and> f_seq f = 0 \<and> \<not> slot_exists (ss_reassembler st) ?tx"
    define st2 where "st2 = (if ?opens then open_stream ?tx (f_total_len f) ems ?st1
      else on_stream ?tx (\<lambda>si. fold chunk_send ems (stream_clear_paused si)) ?st1)"
    have no: "\<not> hm_contains (ss_streams ?st1) ?tx" if ?opens
      using st that by (auto simp: session_inv_def slots_inv_def)
    have r2: "ss_reassembler st2 = r"
      by (auto simp: st2_def open_stream_def split: option.split)
    have b2: "session_inv_but ?tx st2"
      using open_stream_inv [OF count_pending_ack_inv [OF but] no]
        on_stream_inv_but [OF count_pending_ack_inv [OF but] keeps_live_push]
      by (simp add: st2_def)
    have "fst (on_data_frame crc f hp sp now st) =
        (if c then fst (complete_inbound crc ?tx hp st2) else st2)"
      using acc by (simp add: on_data_frame_def res Let_def st2_def split_beta)
    then show ?thesis
      using complete_inbound_inv [OF b2] session_inv_but_restore(1) [OF b2] sl acc r2 by auto
  next
    case False
    then have "fst (on_data_frame crc f hp sp now st) = st\<lparr>ss_reassembler := r\<rparr>"
      by (auto simp: on_data_frame_def res Let_def split: sum.split receive_outcome.split)
    moreover have "slot_exists r ?tx \<and> \<not> is_complete r ?tx" if "hm_contains (ss_streams st) ?tx"
    proof -
      have "slot_exists (ss_reassembler st) ?tx \<and> \<not> is_complete (ss_reassembler st) ?tx"
        using st that by (simp add: session_inv_def slots_inv_def)
      then show ?thesis
        using False sl by (auto split: sum.splits receive_outcome.splits)
    qed
    then have "session_inv (st\<lparr>ss_reassembler := r\<rparr>)"
      using session_inv_but_restore [OF but] by (cases "hm_contains (ss_streams st) ?tx") simp_all
    ultimately show ?thesis
      by simp
  qed
qed

lemmas inbound_inv = pause_frame_inv abort_frame_inv completed_frame_inv error_frame_inv resume_request_inv
  ack_frame_inv nack_frame_inv resume_response_inv data_frame_inv

lemma dispatch_inv: "session_inv st \<Longrightarrow> session_inv (fst (dispatch ev lk hp sp now f st))"
  by (cases "f_type f") (simp_all add: dispatch_def inbound_inv split_beta)

lemma handle_inbound_inv: "session_inv (co_state co) \<Longrightarrow> session_inv (co_state (snd (handle_inbound ev lk now f co)))"
  using dispatch_inv [of "(co_state co)\<lparr>ss_last_peer_activity_ms := now\<rparr>"]
  by (simp add: handle_inbound_def Let_def split_beta session_inv_misc)

section \<open>Reconnection: the receiver's answer\<close>

lemma abandon_simps [simp]:
  "ss_reassembler (abandon tx st) = snd (discard (ss_reassembler st) tx)"
  "ss_streams (abandon tx st) = hm_del tx (ss_streams st)"
  "ss_sender (abandon tx st) = ss_sender st" "ss_completions (abandon tx st) = ss_completions st"
  by (simp_all add: abandon_def)

lemma abandon_all_tables:
  "slot_exists (ss_reassembler (fold abandon txs st)) u \<longleftrightarrow> u \<notin> set txs \<and> slot_exists (ss_reassembler st) u"
  "is_complete (ss_reassembler (fold abandon txs st)) u \<longleftrightarrow> u \<notin> set txs \<and> is_complete (ss_reassembler st) u"
  "hm_get (ss_streams (fold abandon txs st)) u = (if u \<in> set txs then None else hm_get (ss_streams st) u)"
  "ss_sender (fold abandon txs st) = ss_sender st" "ss_completions (fold abandon txs st) = ss_completions st"
  by (induction txs arbitrary: st) auto

text \<open>The object of a stream changes only when its own transaction is abandoned.\<close>

lemma abandon_objects:
  assumes "objects_inv st" "i < length (ss_objects st)"
  shows "ss_objects (abandon tx st) ! i =
    (if hm_get (ss_streams st) tx = Some i then chunk_close (stream_finish Cancelled (ss_objects st ! i))
     else ss_objects st ! i)"
  using assms by (auto simp: abandon_def end_stream_def nth_list_update split: option.split)

lemma abandon_objects_inv:
  "objects_inv st \<Longrightarrow> objects_inv (abandon tx st)"
  "length (ss_objects (abandon tx st)) = length (ss_objects st)"
  by (simp add: abandon_def objects_inv_end_stream ends_stream_ops)
    (simp add: abandon_def end_stream_def split: option.split)

lemma objects_inv_inj:
  "objects_inv st \<Longrightarrow> hm_get (ss_streams st) u = Some i \<Longrightarrow> hm_get (ss_streams st) v = Some i \<Longrightarrow> u = v"
  unfolding objects_inv_def by metis

text \<open>A stream that is in no entry any more is left alone.\<close>

lemma abandon_all_unlisted:
  assumes "objects_inv st" "i < length (ss_objects st)" "\<And>v. v \<in> set txs \<Longrightarrow> hm_get (ss_streams st) v \<noteq> Some i"
  shows "ss_objects (fold abandon txs st) ! i = ss_objects st ! i"
  using assms
proof (induction txs arbitrary: st)
  case (Cons v vs)
  then show ?case
    using Cons.IH [of "abandon v st"] abandon_objects_inv(1) [of st v] abandon_objects_inv(2) [of v st] abandon_objects [of st i v] by simp
qed simp

lemma abandon_all_objects:
  assumes "objects_inv st" "i < length (ss_objects st)"
  shows "ss_objects (fold abandon txs st) ! i =
    (if \<exists>tx \<in> set txs. hm_get (ss_streams st) tx = Some i
     then chunk_close (stream_finish Cancelled (ss_objects st ! i)) else ss_objects st ! i)"
proof (cases "\<exists>tx \<in> set txs. hm_get (ss_streams st) tx = Some i")
  case True
  then obtain xs tx ys where tx: "hm_get (ss_streams st) tx = Some i" "txs = xs @ tx # ys" "tx \<notin> set xs"
    using objects_inv_inj [OF assms(1)] by (metis split_list_first)
  let ?st = "fold abandon xs st"
  have inv: "objects_inv (fold abandon vs st')" "length (ss_objects (fold abandon vs st')) = length (ss_objects st')" if "objects_inv st'" for vs st'
    using that by (induction vs arbitrary: st') (simp_all add: abandon_objects_inv)
  have "hm_get (ss_streams st) v \<noteq> Some i" if "v \<in> set xs" for v
    using objects_inv_inj [OF assms(1) tx(1), of v] tx(3) that by blast
  then have before: "ss_objects ?st ! i = ss_objects st ! i" "hm_get (ss_streams ?st) tx = Some i"
    using abandon_all_unlisted [OF assms, of xs] tx(1,3) by (simp_all add: abandon_all_tables)
  have "hm_get (ss_streams (abandon tx ?st)) v \<noteq> Some i" for v
    using objects_inv_inj [OF inv(1) [OF assms(1)] before(2), of v] by auto
  then have "ss_objects (fold abandon ys (abandon tx ?st)) ! i = ss_objects (abandon tx ?st) ! i"
    using inv [OF assms(1)] assms(2) by (intro abandon_all_unlisted) (simp_all add: abandon_objects_inv)
  then show ?thesis
    using True tx(2) before abandon_objects [OF inv(1) [OF assms(1)], of i xs tx] inv(2) [OF assms(1)] assms(2) by simp
qed (use abandon_all_unlisted [OF assms] in auto)

lemma abandon_all_rest:
  "get_slot (ss_reassembler (fold abandon txs st)) u = (if u \<in> set txs then None else get_slot (ss_reassembler st) u)"
  "hm_get (ss_stream_owned (fold abandon txs st)) u = (if u \<in> set txs then None else hm_get (ss_stream_owned st) u)"
  "length (ss_objects (fold abandon txs st)) = length (ss_objects st)"
proof (induction txs arbitrary: st)
  case (Cons v vs)
  {
    case 1
    then show ?case
      by (simp add: Cons.IH discard_def)
  next
    case 2
    have "ss_stream_owned (abandon v st) = hm_del v (ss_stream_owned st)"
      by (simp add: abandon_def)
    then show ?case
      by (simp add: Cons.IH)
  next
    case 3
    then show ?case
      by (simp add: Cons.IH abandon_objects_inv(2))
  }
qed simp_all

lemma abandon_all_frame:
  fixes txs st
  defines "st' \<equiv> fold abandon txs st"
  shows "st' = st\<lparr>ss_reassembler := ss_reassembler st', ss_streams := ss_streams st', ss_stream_owned := ss_stream_owned st', ss_objects := ss_objects st'\<rparr>"
proof -
  have one: "ss_pending_ack_frames (abandon tx u) = ss_pending_ack_frames u" "ss_last_ack_ms (abandon tx u) = ss_last_ack_ms u"
      "ss_last_nack_ms (abandon tx u) = ss_last_nack_ms u" "ss_heartbeat_seq (abandon tx u) = ss_heartbeat_seq u"
      "ss_last_heartbeat_ms (abandon tx u) = ss_last_heartbeat_ms u" "ss_last_peer_activity_ms (abandon tx u) = ss_last_peer_activity_ms u"
      "session_state.more (abandon tx u) = session_state.more u" for tx u
    by (simp_all add: abandon_def unown_stream_def discard_slot_def end_stream_def update_object_def split: option.split)
  have "ss_pending_ack_frames st' = ss_pending_ack_frames st" "ss_last_ack_ms st' = ss_last_ack_ms st"
      "ss_last_nack_ms st' = ss_last_nack_ms st" "ss_heartbeat_seq st' = ss_heartbeat_seq st"
      "ss_last_heartbeat_ms st' = ss_last_heartbeat_ms st" "ss_last_peer_activity_ms st' = ss_last_peer_activity_ms st"
      "session_state.more st' = session_state.more st"
    unfolding st'_def by (induction txs arbitrary: st) (simp_all add: one)
  then show ?thesis
    by (intro session_state.equality) (simp_all add: st'_def abandon_all_tables)
qed

lemma resume_response_fits: "length es \<le> 255 \<Longrightarrow> \<exists>bs. resume_response_encode \<lparr>rp_entries = es\<rparr> = Inr bs"
  by (auto simp: resume_response_encode_def CONTROL_PAYLOAD_CAP_def frame_consts
      length_concat comp_def sum_list_triv RESUME_STATUS_ENTRY_LEN_def)

lemma resume_request_length: "resume_request_encode \<lparr>rr_entries = es\<rparr> = Inr bs \<Longrightarrow> length es \<le> 255"
  by (auto simp: resume_request_encode_def entries_encode_def)

lemma resume_request_handled:
  assumes "resume_request_encode \<lparr>rr_entries = es\<rparr> = Inr bs" "es \<noteq> []" "f_payload f = bs"
  obtains w answer where
    "on_resume_request_frame crc f st =
      (fold abandon (abandoned (ss_reassembler st) es) st, no_out\<lparr>io_writes := [WriteControl w]\<rparr>)"
    "decode_write crc w = [frame_new ResumeResponse 0 0 0 answer]"
    "resume_response_decode answer = Inr \<lparr>rp_entries = map (resume_verdict (ss_reassembler st)) es\<rparr>"
proof -
  let ?vs = "map (resume_verdict (ss_reassembler st)) es"
  obtain answer where a: "resume_response_encode \<lparr>rp_entries = ?vs\<rparr> = Inr answer"
    using resume_response_fits [of ?vs] resume_request_length [OF assms(1)] by auto
  obtain w where w: "send_control crc ResumeResponse (Inr answer) = [WriteControl w]"
      "decode_write crc w = [frame_new ResumeResponse 0 0 0 answer]"
    using send_control_read [of ResumeResponse answer crc] resume_response_codec.enc_cap [OF a] by auto
  have "resume_request_decode bs = Inr \<lparr>rr_entries = es\<rparr>"
    by (rule resume_request_codec.dec_enc [OF _ assms(1)]) simp
  then have "on_resume_request_frame crc f st =
      (fold abandon (abandoned (ss_reassembler st) es) st, no_out\<lparr>io_writes := [WriteControl w]\<rparr>)"
    using assms(2,3) a w by (simp add: on_resume_request_frame_def Let_def)
  then show ?thesis
    using that w resume_response_codec.dec_enc [OF _ a] by simp
qed

section \<open>Properties of inbound dispatch\<close>

text \<open>What the holder has given up: an open slot that lacks bytes and is not in the declaration.\<close>

definition given_up :: "reassembler \<Rightarrow> ack_entry list \<Rightarrow> txid \<Rightarrow> bool" where
  "given_up r es u \<longleftrightarrow>
    u \<notin> ae_txid ` set es \<and>
    (\<exists>sl. get_slot r u = Some sl \<and> (sl_contiguous_prefix sl = None \<or> sl_received_bytes sl \<noteq> unat (sl_total_len sl)))"

lemma in_abandoned: "u \<in> set (abandoned r es) \<longleftrightarrow> given_up r es u"
  by (auto simp: abandoned_def given_up_def open_transactions_def hm_keys_iff hm_contains_def is_complete_def slot_is_complete_def
      split: option.splits)

text \<open>
  C29. The receiver's answer to a RESUME declaration. The peer reads exactly one RESUME_RESPONSE frame
  with one verdict per declared entry, in order: \<open>Resumed\<close> if the declared transaction has a slot that
  lacks its first frame or bytes of its total, \<open>Unknown\<close> otherwise. The transactions with such a slot that
  were not declared lose their slot and their stream entries; their streams are cancelled, and a reader
  gets what was queued and then the end. Every other slot, stream entry and stream object is what it was,
  and nothing else of the session changes but the time of the last peer activity.
\<close>

theorem resume_answer_exact:
  assumes "session_inv (co_state co)" "resume_request_encode \<lparr>rr_entries = es\<rparr> = Inr bs" "es \<noteq> []"
    and "handle_inbound ev lk now (frame_new Resume 0 0 0 bs) co = (eff, co')"
    and "st = co_state co" "gone = given_up (ss_reassembler st) es"
  shows "(\<exists>answer vs. concat (map (peer_reads (env_crc ev)) eff) = [frame_new ResumeResponse 0 0 0 answer] \<and>
      resume_response_decode answer = Inr \<lparr>rp_entries = vs\<rparr> \<and> map rs_txid vs = map ae_txid es \<and>
      (\<forall>v \<in> set vs. rs_status v =
        (case get_slot (ss_reassembler st) (rs_txid v) of
           None \<Rightarrow> UnknownTx
         | Some sl \<Rightarrow>
           (if sl_contiguous_prefix sl \<noteq> None \<and> sl_received_bytes sl = unat (sl_total_len sl) then UnknownTx else Resumed)))) \<and>
    (\<exists>ra str own obj.
      co' = co\<lparr>co_state := st\<lparr>ss_reassembler := ra, ss_streams := str, ss_stream_owned := own, ss_objects := obj,
        ss_last_peer_activity_ms := now\<rparr>\<rparr> \<and>
      (\<forall>u. get_slot ra u = (if gone u then None else get_slot (ss_reassembler st) u)) \<and>
      (\<forall>u. hm_get str u = (if gone u then None else hm_get (ss_streams st) u)) \<and>
      (\<forall>u. hm_get own u = (if gone u then None else hm_get (ss_stream_owned st) u)) \<and>
      length obj = length (ss_objects st) \<and>
      (\<forall>i < length obj.
        if \<exists>u. gone u \<and> hm_get (ss_streams st) u = Some i
        then stream_state_of (obj ! i) = Cancelled \<and> drain (obj ! i) = (si_chunks (ss_objects st ! i), ReadEnd)
        else obj ! i = ss_objects st ! i))"
proof -
  let ?st = "st\<lparr>ss_last_peer_activity_ms := now\<rparr>" and ?r = "ss_reassembler st"
  obtain w answer where h: "on_resume_request_frame (env_crc ev) (frame_new Resume 0 0 0 bs) ?st =
      (fold abandon (abandoned ?r es) ?st, no_out\<lparr>io_writes := [WriteControl w]\<rparr>)"
    "decode_write (env_crc ev) w = [frame_new ResumeResponse 0 0 0 answer]"
    "resume_response_decode answer = Inr \<lparr>rp_entries = map (resume_verdict ?r) es\<rparr>"
    by (rule resume_request_handled [OF assms(2,3), of "frame_new Resume 0 0 0 bs" "env_crc ev" ?st]) auto
  define st' where "st' = fold abandon (abandoned ?r es) ?st"
  have eff: "eff = [WriteControl w]" "co' = co\<lparr>co_state := st'\<rparr>"
    using assms(4) h(1) by (auto simp: handle_inbound_def dispatch_def no_out_def Let_def assms(5) [symmetric] st'_def)
  have ab: "u \<in> set (abandoned ?r es) \<longleftrightarrow> gone u" for u
    by (simp add: in_abandoned assms(6))
  have inv: "objects_inv ?st"
    using assms(1,5) by (simp add: session_inv_def objects_inv_def)
  have answer: "map rs_txid (map (resume_verdict ?r) es) = map ae_txid es"
      "v \<in> set (map (resume_verdict ?r) es) \<Longrightarrow> rs_status v = (case get_slot ?r (rs_txid v) of None \<Rightarrow> UnknownTx
         | Some sl \<Rightarrow> (if sl_contiguous_prefix sl \<noteq> None \<and> sl_received_bytes sl = unat (sl_total_len sl) then UnknownTx else Resumed))" for v
    by (auto simp: resume_verdict_def slot_exists_def hm_contains_def is_complete_def slot_is_complete_def split: option.split)
  obtain ra str own obj where f: "st' = ?st\<lparr>ss_reassembler := ra, ss_streams := str, ss_stream_owned := own, ss_objects := obj\<rparr>"
    using abandon_all_frame [of "abandoned ?r es" ?st] unfolding st'_def [symmetric] by metis
  have tables: "get_slot ra u = (if gone u then None else get_slot ?r u)" "hm_get str u = (if gone u then None else hm_get (ss_streams st) u)"
      "hm_get own u = (if gone u then None else hm_get (ss_stream_owned st) u)" "length obj = length (ss_objects st)" for u
    using abandon_all_rest [of "abandoned ?r es" ?st] abandon_all_tables(3) [of "abandoned ?r es" ?st u]
    by (simp_all add: st'_def [symmetric] f ab)
  have objects: "if \<exists>u. gone u \<and> hm_get (ss_streams st) u = Some i
        then stream_state_of (obj ! i) = Cancelled \<and> drain (obj ! i) = (si_chunks (ss_objects st ! i), ReadEnd)
        else obj ! i = ss_objects st ! i" if "i < length obj" for i
    using abandon_all_objects [OF inv, of i "abandoned ?r es"] that tables(4)
    by (auto simp: st'_def [symmetric] f ab drain_eq chunk_close_def stream_finish_def stream_state_of_def Let_def
        stream_state_from_u8_def [of 3])
  have "concat (map (peer_reads (env_crc ev)) eff) = [frame_new ResumeResponse 0 0 0 answer]"
    using h(2) by (simp add: eff)
  moreover have "co' = co\<lparr>co_state := st\<lparr>ss_reassembler := ra, ss_streams := str, ss_stream_owned := own, ss_objects := obj,
        ss_last_peer_activity_ms := now\<rparr>\<rparr>"
    by (simp add: eff(2) f)
  ultimately show ?thesis
    using h(3) answer tables objects by blast
qed

text \<open>A stand-in environment, to evaluate the handlers in.\<close>

definition sample_env :: env where
  "sample_env = \<lparr>env_crc = sample_crc, env_uuid_parse = (\<lambda>_. None)\<rparr>"

definition sample_entry :: "txid \<Rightarrow> ack_entry" where
  "sample_entry tx = \<lparr>ae_txid = tx, ae_highest_contiguous_seq = 0, ae_received_frames = 1\<rparr>"

theorem resume_answer_exact_witness:
  "\<exists>bs eff co'. resume_request_encode \<lparr>rr_entries = [sample_entry 9]\<rparr> = Inr bs \<and>
    handle_inbound sample_env link_up 10 (frame_new Resume 0 0 0 bs) sample_core = (eff, co') \<and>
    stream_state_of (ss_objects (co_state co') ! 0) = Cancelled \<and> get_slot (ss_reassembler (co_state co')) 7 = None"
proof -
  obtain bs where bs: "resume_request_encode \<lparr>rr_entries = [sample_entry 9]\<rparr> = Inr bs"
    by (auto simp: resume_request_encode_def entries_encode_def CONTROL_PAYLOAD_CAP_def ACK_ENTRY_LEN_def frame_consts)
  obtain eff co' where h: "handle_inbound sample_env link_up 10 (frame_new Resume 0 0 0 bs) sample_core = (eff, co')"
    by (metis surj_pair)
  have s: "hm_get (ss_streams (co_state sample_core)) 7 = Some 0" "0 < length (ss_objects (co_state sample_core))"
    by code_simp+
  have "slot_exists (ss_reassembler (co_state sample_core)) 7" "\<not> is_complete (ss_reassembler (co_state sample_core)) 7"
    by code_simp+
  then have g: "given_up (ss_reassembler (co_state sample_core)) [sample_entry 9] 7"
    by (auto simp: given_up_def sample_entry_def slot_exists_def hm_contains_def is_complete_def slot_is_complete_def)
  obtain ra str own obj where c: "co' = sample_core\<lparr>co_state := (co_state sample_core)\<lparr>ss_reassembler := ra, ss_streams := str,
        ss_stream_owned := own, ss_objects := obj, ss_last_peer_activity_ms := 10\<rparr>\<rparr>"
      "\<forall>u. get_slot ra u = (if given_up (ss_reassembler (co_state sample_core)) [sample_entry 9] u then None
        else get_slot (ss_reassembler (co_state sample_core)) u)" "length obj = length (ss_objects (co_state sample_core))"
      "\<forall>i < length obj. if \<exists>u. given_up (ss_reassembler (co_state sample_core)) [sample_entry 9] u \<and> hm_get (ss_streams (co_state sample_core)) u = Some i
        then stream_state_of (obj ! i) = Cancelled \<and> drain (obj ! i) = (si_chunks (ss_objects (co_state sample_core) ! i), ReadEnd)
        else obj ! i = ss_objects (co_state sample_core) ! i"
    using resume_answer_exact [OF sample_core_inv bs _ h refl refl] by blast
  have "stream_state_of (obj ! 0) = Cancelled"
    using c(4) [rule_format, of 0] c(3) s g by (metis (mono_tags, lifting))
  then show ?thesis
    using c(1,2) g bs h by auto
qed

lemma txid_payloads_decode [simp]:
  "pause_decode (txid_to_bytes tx) = Inr \<lparr>pp_txid = tx\<rparr>"
  "abort_decode (txid_to_bytes tx) = Inr \<lparr>ap_txid = tx\<rparr>"
  "completed_decode (txid_to_bytes tx) = Inr \<lparr>cp_txid = tx\<rparr>"
  by (simp_all add: pause_decode_def abort_decode_def completed_decode_def txid_payload_decode_def)

lemma end_stream_object:
  assumes "objects_inv st" "hm_get (ss_streams st) tx = Some i"
  shows "ss_objects (end_stream tx f st) ! i = chunk_close (f (ss_objects st ! i))"
  using assms by (simp add: end_stream_def objects_inv_def)

text \<open>
  The holder's completion announcement. It answers nothing. For a transaction without a slot, or
  whose bytes are all there, it changes nothing (the first verdict stands). If bytes are missing, the
  slot is dropped, and the stream of the transaction ends \<open>Incomplete\<close> with the exact byte gap; its
  reader still gets the chunks queued so far and then the end.
\<close>

theorem completion_announcement_settles:
  assumes "session_inv (co_state co)"
    and "handle_inbound ev lk now (frame_new TransactionCompleted 0 0 0 (txid_to_bytes tx)) co = (eff, co')"
  shows "eff = [] \<and>
    (case get_slot (ss_reassembler (co_state co)) tx of
       None \<Rightarrow> co' = on_activity co now
     | Some sl \<Rightarrow>
         if slot_is_complete sl then co' = on_activity co now
         else \<not> slot_exists (ss_reassembler (co_state co')) tx \<and>
           (\<forall>i. hm_get (ss_streams (co_state co)) tx = Some i \<longrightarrow>
             incomplete_detail_of (ss_objects (co_state co') ! i) =
               Some \<lparr>id_received = sl_received_bytes sl, id_expected = sl_total_len sl\<rparr> \<and>
             drain (ss_objects (co_state co') ! i) = (si_chunks (ss_objects (co_state co) ! i), ReadEnd)))"
proof -
  let ?st = "(co_state co)\<lparr>ss_last_peer_activity_ms := now\<rparr>" and ?r = "ss_reassembler (co_state co)"
  let ?f = "frame_new TransactionCompleted 0 0 0 (txid_to_bytes tx)"
  have co': "eff = []" "co' = co\<lparr>co_state := on_transaction_completed_frame ?f ?st\<rparr>"
    using assms(2) by (auto simp: handle_inbound_def dispatch_def no_out_def Let_def)
  have inv: "objects_inv ?st" "\<not> (hm_contains (ss_streams ?st) tx \<and> is_complete ?r tx)"
    using assms(1) by (auto simp: session_inv_def objects_inv_def slots_inv_def)
  show ?thesis
  proof (cases "get_slot ?r tx")
    case None
    then show ?thesis
      using co' by (simp add: on_transaction_completed_frame_def Let_def slot_exists_def hm_contains_def on_activity_def)
  next
    case (Some sl)
    note slot = Some
    show ?thesis
    proof (cases "slot_is_complete sl")
      case True
      then show ?thesis
        using co' slot inv(2) by (simp add: on_transaction_completed_frame_def Let_def slot_exists_def
            hm_contains_def is_complete_def on_activity_def)
    next
      case False
      then have h: "on_transaction_completed_frame ?f ?st =
          forget_acks tx (discard_slot tx (unown_stream tx
            (end_stream tx (finish_incomplete (sl_received_bytes sl) (sl_total_len sl)) ?st)))"
        using slot by (simp add: on_transaction_completed_frame_def Let_def slot_exists_def hm_contains_def
            is_complete_def byte_progress_def)
      then have "ss_objects (co_state co') ! i =
          chunk_close (finish_incomplete (sl_received_bytes sl) (sl_total_len sl) (ss_objects (co_state co) ! i))"
        if "hm_get (ss_streams (co_state co)) tx = Some i" for i
        using that co' end_stream_object [OF inv(1), of tx i] by simp
      then show ?thesis
        using co' slot False h
        by (auto simp: drain_eq incomplete_detail_of_def stream_state_of_def chunk_close_def finish_incomplete_def
            stream_finish_def stream_state_from_u8_def [of 5])
    qed
  qed
qed

theorem completion_announcement_settles_witness:
  "incomplete_detail_of (ss_objects (co_state (snd (handle_inbound sample_env link_up 10
      (frame_new TransactionCompleted 0 0 0 (txid_to_bytes 7)) sample_core))) ! 0) =
    Some \<lparr>id_received = 2, id_expected = 5\<rparr>"
proof -
  obtain eff co' where h: "handle_inbound sample_env link_up 10
      (frame_new TransactionCompleted 0 0 0 (txid_to_bytes 7)) sample_core = (eff, co')"
    by (metis surj_pair)
  have "hm_get (ss_streams (co_state sample_core)) 7 = Some 0"
    "map_option (\<lambda>sl. (slot_is_complete sl, sl_received_bytes sl, sl_total_len sl))
       (get_slot (ss_reassembler (co_state sample_core)) 7) = Some (False, 2, 5)"
    by code_simp+
  then show ?thesis
    using completion_announcement_settles [OF sample_core_inv h] h by (auto split: option.splits)
qed

end
