(* ===== verification/Session_Delivery.thy ===== *)
theory Session_Delivery
  imports Session_Inbound
begin

text \<open>
  What the receiving session does with the frames of one payload: final acknowledgement, delivery to
  the binary handler, or the stream a reader drains.
\<close>

section \<open>A payload's frames at the receiver\<close>

primrec inbound_all :: "env \<Rightarrow> link \<Rightarrow> nat \<Rightarrow> frame list \<Rightarrow> session_core \<Rightarrow> effect list \<times> session_core" where
  "inbound_all ev lk now [] co = ([], co)"
| "inbound_all ev lk now (f # fs) co =
    (let (eff, co1) = handle_inbound ev lk now f co; (effs, co2) = inbound_all ev lk now fs co1
     in (eff @ effs, co2))"

lemma inbound_all_append:
  "inbound_all ev lk now (fs @ gs) co =
    (let (eff, co1) = inbound_all ev lk now fs co; (eff', co2) = inbound_all ev lk now gs co1
     in (eff @ eff', co2))"
  by (induction fs arbitrary: co) (simp_all add: split_beta)

lemma inbound_all_handlers:
  "co_binary_handler (snd (inbound_all ev lk now fs co)) = co_binary_handler co \<and>
   co_stream_handler (snd (inbound_all ev lk now fs co)) = co_stream_handler co"
  by (induction fs arbitrary: co) (simp_all add: split_beta handle_inbound_def Let_def)

definition piece_frame :: "txid \<Rightarrow> byte list list \<Rightarrow> nat \<Rightarrow> frame" where
  "piece_frame tx ps i = mk_frame tx (of_nat (length (concat ps))) i (ps ! i)"

text \<open>Emission is the only thing the streaming flag changes.\<close>

lemma receive_frame_emit:
  "receive_frame r tx sq tot n p now em =
    (map_sum (\<lambda>e. e) (\<lambda>out. case out of Accepted c ems \<Rightarrow> Accepted c (if em then ems else []) | _ \<Rightarrow> out)
       (fst (receive_frame r tx sq tot n p now True)), snd (receive_frame r tx sq tot n p now True))"
  by (simp add: receive_frame_def Let_def)

abbreviation slot_or_fresh :: "reassembler \<Rightarrow> txid \<Rightarrow> byte list list \<Rightarrow> slot" where
  "slot_or_fresh r tx ps \<equiv>
    (case get_slot r tx of None \<Rightarrow> fresh_slot (of_nat (length (concat ps))) | Some sl \<Rightarrow> sl)"

lemma receive_piece:
  assumes "reassembler_inv r" "transferable ps" "i < length ps" "honest ps I (slot_or_fresh r tx ps)"
    and "get_slot r tx = None \<longrightarrow> i = 0"
  obtains sl r' where "get_slot r' tx = Some sl" "honest ps (insert i I) sl"
    "receive_frame r tx (of_nat i) (of_nat (length (concat ps))) (length (ps ! i)) (ps ! i) now em =
      (Inr (if i \<in> I then Duplicate
            else Accepted (insert i I = {..<length ps})
              (if em then emission (prefix_end (slot_or_fresh r tx ps)) sl else [])), r')"
    "emission 0 (slot_or_fresh r tx ps) @ emission (prefix_end (slot_or_fresh r tx ps)) sl = emission 0 sl"
    "i \<in> I \<Longrightarrow> emission (prefix_end (slot_or_fresh r tx ps)) sl = []"
proof -
  obtain res r' where f: "receive_frame r tx (of_nat i) (of_nat (length (concat ps))) (length (ps ! i))
      (ps ! i) now True = (res, r')"
    by (metis surj_pair)
  obtain sl where sl: "get_slot r' tx = Some sl" "honest ps (insert i I) sl"
    "if i \<in> I then res = Inr Duplicate else \<exists>em. res = Inr (Accepted (insert i I = {..<length ps}) em)"
    using receive_honest [OF assms f] by blast
  have old: "prefix_end (slot_of r tx) = prefix_end (slot_or_fresh r tx ps)"
    "sl_frames (slot_of r tx) = sl_frames (slot_or_fresh r tx ps)"
    "emission 0 (slot_of r tx) = emission 0 (slot_or_fresh r tx ps)"
    by (simp_all add: slot_of_def fresh_slot_def emission_def split: option.split)
  have g: "grows (slot_of r tx) sl" "emitted res = emission (prefix_end (slot_or_fresh r tx ps)) sl"
    using receive_frame_grows [OF assms(1) f, of tx] sl(1) old(1) by (simp_all add: slot_of_def)
  show thesis
  proof (rule that [OF sl(1,2)])
    show "receive_frame r tx (of_nat i) (of_nat (length (concat ps))) (length (ps ! i)) (ps ! i) now em =
      (Inr (if i \<in> I then Duplicate
            else Accepted (insert i I = {..<length ps})
              (if em then emission (prefix_end (slot_or_fresh r tx ps)) sl else [])), r')"
      using sl(3) g(2) by (subst receive_frame_emit) (auto simp: f split: if_splits)
    show "emission 0 (slot_or_fresh r tx ps) @ emission (prefix_end (slot_or_fresh r tx ps)) sl = emission 0 sl"
      using emission_extend [of 0 "slot_of r tx" sl] g(1) old by (simp add: grows_def)
    show "i \<in> I \<Longrightarrow> emission (prefix_end (slot_or_fresh r tx ps)) sl = []"
      using sl(3) g(2) by simp
  qed
qed

lemma honest_full:
  assumes "honest ps {..<length ps} sl" "transferable ps"
  shows "prefix_end sl = length ps" "sl_contiguous_prefix sl = Some (length ps - 1)"
    "sl_received_frames sl = of_nat (length ps)"
    "emission 0 sl = map (\<lambda>i. (of_nat i, ps ! i)) [0..<length ps]"
proof -
  have st: "stored sl i \<longleftrightarrow> i < length ps" for i
    using assms(1) by (simp add: honest_def)
  have inv: "\<forall>i<prefix_end sl. stored sl i" "\<not> stored sl (prefix_end sl)"
      "sl_received_frames sl = of_nat (length (sl_frames sl))"
    using slot_invD(3,4,5) [of sl] assms(1) by (auto simp: honest_def)
  then show pe: "prefix_end sl = length ps"
    unfolding st using le_antisym not_less by (metis lessI less_antisym nat_neq_iff)
  then show "sl_contiguous_prefix sl = Some (length ps - 1)"
    using assms(2) by (cases "sl_contiguous_prefix sl") (auto simp: transferable_def)
  show "sl_received_frames sl = of_nat (length ps)"
    using inv(3) honest_frames [OF assms(1)] by simp
  show "emission 0 sl = map (\<lambda>i. (of_nat i, ps ! i)) [0..<length ps]"
    using assms(1) by (simp add: emission_def pe honest_def)
qed

lemma piece_frame_simps [simp]:
  "f_type (piece_frame tx ps i) = DataBinary" "f_txid (piece_frame tx ps i) = tx"
  "f_seq (piece_frame tx ps i) = of_nat i" "f_payload (piece_frame tx ps i) = ps ! i"
  "f_total_len (piece_frame tx ps i) = of_nat (length (concat ps))"
  by (simp_all add: piece_frame_def)

definition final_ack :: "txid \<Rightarrow> byte list list \<Rightarrow> ack_entry" where
  "final_ack tx ps =
    \<lparr>ae_txid = tx, ae_highest_contiguous_seq = of_nat (length ps - 1), ae_received_frames = of_nat (length ps)\<rparr>"

lemma honest_final_ack:
  "get_slot r tx = Some sl \<Longrightarrow> honest ps {..<length ps} sl \<Longrightarrow> transferable ps \<Longrightarrow>
   ack_entry_of r tx = Some (final_ack tx ps)"
  by (simp add: ack_entry_of_def honest_full final_ack_def)

definition ack_frame :: "ack_entry list \<Rightarrow> frame \<Rightarrow> bool" where
  "ack_frame es f \<longleftrightarrow>
    f_type f = Ack \<and> ack_decode (f_payload f) = Inr \<lparr>ack_entries = es\<rparr> \<and> f = frame_new Ack 0 0 0 (f_payload f)"

lemma send_single_ack:
  "\<exists>w f. send_ack_entries crc [e] = [WriteControl w] \<and> decode_write crc w = [f] \<and> ack_frame [e] f"
proof -
  obtain bs where a: "ack_encode \<lparr>ack_entries = [e]\<rparr> = Inr bs"
    by (auto simp: ack_encode_def entries_encode_def CONTROL_PAYLOAD_CAP_def ACK_ENTRY_LEN_def frame_consts)
  obtain w where "send_control crc Ack (Inr bs) = [WriteControl w]" "decode_write crc w = [frame_new Ack 0 0 0 bs]"
    using send_control_read [of Ack bs crc] ack_codec.enc_cap [OF a] by auto
  then show ?thesis
    using ack_codec.dec_enc [OF _ a] a by (auto simp: send_ack_entries_def ack_frame_def)
qed

text \<open>The pieces of a payload gather in a slot that no stream owns.\<close>

definition gathering :: "txid \<Rightarrow> byte list list \<Rightarrow> nat set \<Rightarrow> session_state \<Rightarrow> bool" where
  "gathering tx ps I st \<longleftrightarrow>
    session_inv st \<and> \<not> hm_contains (ss_stream_owned st) tx \<and>
    honest ps I (slot_or_fresh (ss_reassembler st) tx ps) \<and>
    (get_slot (ss_reassembler st) tx = None \<longrightarrow> I = {})"

lemma session_inv_reassembler: "session_inv st \<Longrightarrow> reassembler_inv (ss_reassembler st)"
  by (simp add: session_inv_def)

lemma gathering_no_stream: "gathering tx ps I st \<Longrightarrow> hm_get (ss_streams st) tx = None"
  by (auto simp: gathering_def session_inv_def owners_inv_def hm_contains_def)

lemma gathering_step:
  assumes "transferable ps" "gathering tx ps I st" "i < length ps" "insert i I \<noteq> {..<length ps}"
    and "get_slot (ss_reassembler st) tx = None \<longrightarrow> i = 0"
  obtains st' where "on_data_frame crc (piece_frame tx ps i) hp False now st = (st', no_out)"
    "gathering tx ps (insert i I) st'" "get_slot (ss_reassembler st') tx \<noteq> None"
proof -
  obtain sl r' where r: "get_slot r' tx = Some sl" "honest ps (insert i I) sl"
    "receive_frame (ss_reassembler st) tx (of_nat i) (of_nat (length (concat ps))) (length (ps ! i)) (ps ! i) now False =
      (Inr (if i \<in> I then Duplicate else Accepted (insert i I = {..<length ps}) []), r')"
    by (rule receive_piece [OF _ assms(1,3) _ assms(5), of I now False])
      (use assms(2) in \<open>auto simp: gathering_def session_inv_reassembler\<close>)
  let ?st = "fst (on_data_frame crc (piece_frame tx ps i) hp False now st)"
  have out: "on_data_frame crc (piece_frame tx ps i) hp False now st = (?st, no_out)"
    "ss_reassembler ?st = r'" "ss_stream_owned ?st = ss_stream_owned st"
    using r(3) assms(4) by (cases "i \<in> I"; simp add: on_data_frame_def Let_def no_out_def)+
  have "session_inv ?st"
    using data_frame_inv assms(2) by (simp add: gathering_def)
  then show ?thesis
    using that [OF out(1)] out r(1,2) assms(2) by (simp add: gathering_def)
qed

lemma gathering_last:
  assumes "transferable ps" "gathering tx ps I st" "i < length ps" "insert i I = {..<length ps}" "i \<notin> I"
    and "get_slot (ss_reassembler st) tx = None \<longrightarrow> i = 0"
  obtains st' where "on_data_frame crc (piece_frame tx ps i) True False now st =
      (st', no_out\<lparr>io_writes := send_ack_entries crc [final_ack tx ps], io_delivered := [(tx, concat ps)]\<rparr>)"
    "session_inv st'" "\<not> slot_exists (ss_reassembler st') tx"
proof -
  obtain sl r' where r: "get_slot r' tx = Some sl" "honest ps {..<length ps} sl"
    "receive_frame (ss_reassembler st) tx (of_nat i) (of_nat (length (concat ps))) (length (ps ! i)) (ps ! i) now False =
      (Inr (Accepted True []), r')"
    by (rule receive_piece [OF _ assms(1,3) _ assms(6), of I now False])
      (use assms(2,4,5) in \<open>auto simp: gathering_def session_inv_reassembler\<close>)
  have take: "take_completed r' tx = (Some (concat ps), r'\<lparr>ra_slots := hm_del tx (ra_slots r')\<rparr>)"
    using r(1) honest_complete_iff [OF r(2) assms(1)] honest_contents [OF r(2)] by (simp add: take_completed_def)
  let ?st = "fst (on_data_frame crc (piece_frame tx ps i) True False now st)"
  have "on_data_frame crc (piece_frame tx ps i) True False now st =
      (?st, no_out\<lparr>io_writes := send_ack_entries crc [final_ack tx ps], io_delivered := [(tx, concat ps)]\<rparr>)"
    "ss_reassembler ?st = r'\<lparr>ra_slots := hm_del tx (ra_slots r')\<rparr>"
    using r(3) assms(2) honest_final_ack [OF r(1,2) assms(1)] take
    by (simp_all add: on_data_frame_def Let_def complete_inbound_def gathering_def no_out_def)
  moreover have "session_inv ?st"
    using data_frame_inv assms(2) by (simp add: gathering_def)
  ultimately show ?thesis
    using that by (simp add: slot_exists_def)
qed

lemma gathering_activity: "gathering tx ps I (st\<lparr>ss_last_peer_activity_ms := now\<rparr>) = gathering tx ps I st"
  by (simp add: gathering_def session_inv_misc)

lemma gathering_all:
  assumes "transferable ps" "gathering tx ps I (co_state co)" "\<not> co_stream_handler co"
    and "set js \<subseteq> {..<length ps}" "I \<union> set js \<noteq> {..<length ps}"
    and "get_slot (ss_reassembler (co_state co)) tx = None \<longrightarrow> js \<noteq> [] \<longrightarrow> hd js = 0"
  shows "\<exists>co'. inbound_all ev lk now (map (piece_frame tx ps) js) co = ([], co') \<and>
    gathering tx ps (I \<union> set js) (co_state co') \<and>
    (js \<noteq> [] \<longrightarrow> get_slot (ss_reassembler (co_state co')) tx \<noteq> None)"
  using assms(2-6)
proof (induction js arbitrary: I co)
  case (Cons j js)
  have I: "I \<subseteq> {..<length ps}"
    using Cons.prems(1) by (simp add: gathering_def honest_def)
  have "I \<union> set (j # js) = insert j I \<union> set js" "set js \<subseteq> {..<length ps}"
    using Cons.prems(3) by auto
  then have "insert j I \<noteq> {..<length ps}"
    using Cons.prems(4) by (metis sup.absorb1)
  note I = I this
  obtain st' where d: "on_data_frame (env_crc ev) (piece_frame tx ps j) (co_binary_handler co) False now
        ((co_state co)\<lparr>ss_last_peer_activity_ms := now\<rparr>) = (st', no_out)"
      "gathering tx ps (insert j I) st'" "get_slot (ss_reassembler st') tx \<noteq> None"
    by (rule gathering_step [OF assms(1), of tx I "(co_state co)\<lparr>ss_last_peer_activity_ms := now\<rparr>" j])
      (use Cons.prems I(2) in \<open>auto simp: gathering_activity\<close>)
  have h: "handle_inbound ev lk now (piece_frame tx ps j) co = ([], co\<lparr>co_state := st'\<rparr>)"
    using d(1) Cons.prems(2) by (simp add: handle_inbound_def dispatch_def no_out_def Let_def)
  obtain co' where "inbound_all ev lk now (map (piece_frame tx ps) js) (co\<lparr>co_state := st'\<rparr>) = ([], co')"
      "gathering tx ps (insert j I \<union> set js) (co_state co')"
      "js \<noteq> [] \<longrightarrow> get_slot (ss_reassembler (co_state co')) tx \<noteq> None"
    using Cons.IH [of "insert j I" "co\<lparr>co_state := st'\<rparr>"] Cons.prems d(2,3) by auto
  then show ?case
    using h d(3) by (cases js) (auto simp: insert_commute)
qed (simp add: gathering_def)

lemma gathering_delivers:
  assumes "transferable ps" "gathering tx ps I (co_state co)" "co_binary_handler co" "\<not> co_stream_handler co"
    and "js \<noteq> []" "I \<union> set js = {..<length ps}" "last js \<notin> I \<union> set (butlast js)"
    and "get_slot (ss_reassembler (co_state co)) tx = None \<longrightarrow> hd js = 0"
    and "send_ack_entries (env_crc ev) [final_ack tx ps] = [WriteControl w]"
  shows "\<exists>co'. inbound_all ev lk now (map (piece_frame tx ps) js) co = ([WriteControl w, Deliver tx (concat ps)], co') \<and>
    session_inv (co_state co') \<and> \<not> slot_exists (ss_reassembler (co_state co')) tx"
proof -
  let ?mid = "butlast js" and ?l = "last js"
  have split: "js = ?mid @ [?l]"
    using assms(5) by simp
  have l: "?l < length ps" "insert ?l (I \<union> set ?mid) = {..<length ps}" "set ?mid \<subseteq> {..<length ps}"
      "I \<union> set ?mid \<noteq> {..<length ps}" "?l \<notin> I \<union> set ?mid"
    using assms(6,7) arg_cong [OF split, of set] by auto
  have hd0: "get_slot (ss_reassembler (co_state co)) tx = None \<longrightarrow> ?mid \<noteq> [] \<longrightarrow> hd ?mid = 0"
    using assms(8) split by (metis hd_append2)
  obtain co1 where 1: "inbound_all ev lk now (map (piece_frame tx ps) ?mid) co = ([], co1)"
      "gathering tx ps (I \<union> set ?mid) (co_state co1)"
      "?mid \<noteq> [] \<longrightarrow> get_slot (ss_reassembler (co_state co1)) tx \<noteq> None"
    using gathering_all [OF assms(1,2,4), of ?mid ev lk now] l(3,4) hd0 by blast
  have h: "co_binary_handler co1" "\<not> co_stream_handler co1"
    using inbound_all_handlers [of ev lk now "map (piece_frame tx ps) ?mid" co] 1(1) assms(3,4) by simp_all
  have first: "get_slot (ss_reassembler (co_state co1)) tx = None \<longrightarrow> ?l = 0"
    using 1(1,3) assms(8) split by (cases "?mid = []") (auto, metis append_Nil list.sel(1))
  let ?st1 = "(co_state co1)\<lparr>ss_last_peer_activity_ms := now\<rparr>"
  obtain st' where d: "on_data_frame (env_crc ev) (piece_frame tx ps ?l) True False now ?st1 =
      (st', no_out\<lparr>io_writes := send_ack_entries (env_crc ev) [final_ack tx ps], io_delivered := [(tx, concat ps)]\<rparr>)"
    "session_inv st'" "\<not> slot_exists (ss_reassembler st') tx"
    by (rule gathering_last [OF assms(1), of tx "I \<union> set ?mid" ?st1 ?l])
      (use 1(2) l first in \<open>auto simp: gathering_activity\<close>)
  have "handle_inbound ev lk now (piece_frame tx ps ?l) co1 =
      ([WriteControl w, Deliver tx (concat ps)], co1\<lparr>co_state := st'\<rparr>)"
    using d(1) h assms(9) by (simp add: handle_inbound_def dispatch_def no_out_def Let_def deliver_def)
  moreover have "map (piece_frame tx ps) js = map (piece_frame tx ps) ?mid @ [piece_frame tx ps ?l]"
    using arg_cong [OF split, of "map (piece_frame tx ps)"] by simp
  ultimately show ?thesis
    using 1(1) d(2,3) by (auto simp: inbound_all_append)
qed

lemma gathering_fresh:
  "session_inv st \<Longrightarrow> transferable ps \<Longrightarrow> \<not> slot_exists (ss_reassembler st) tx \<Longrightarrow> gathering tx ps {} st"
  using honest_fresh [of ps]
  by (auto simp: gathering_def session_inv_def owners_inv_def slots_inv_def slot_exists_def hm_contains_def)

section \<open>Streamed transactions\<close>

definition chunk_of :: "u32 \<times> byte list \<Rightarrow> stream_chunk" where
  "chunk_of c = \<lparr>ch_seq = fst c, ch_bytes = snd c\<rparr>"

lemma chunk_sends_of: "si_chunks (fold chunk_send cs si) = si_chunks si @ map chunk_of cs"
  by (simp add: chunk_sends(6) chunk_of_def [abs_def])

text \<open>The stream of object \<open>k\<close> holds the contiguous prefix of the pieces received.\<close>

definition streaming :: "txid \<Rightarrow> byte list list \<Rightarrow> nat set \<Rightarrow> nat \<Rightarrow> session_state \<Rightarrow> bool" where
  "streaming tx ps I k st \<longleftrightarrow>
    session_inv st \<and> hm_get (ss_streams st) tx = Some k \<and>
    (\<exists>sl. get_slot (ss_reassembler st) tx = Some sl \<and> honest ps I sl \<and>
      si_chunks (ss_objects st ! k) = map chunk_of (emission 0 sl))"

lemma complete_streamed:
  assumes "transferable ps" "hm_contains (ss_stream_owned st) tx" "hm_get (ss_streams st) tx = Some k"
    and "get_slot (ss_reassembler st) tx = Some sl" "honest ps {..<length ps} sl" "k < length (ss_objects st)"
  obtains st' where "complete_inbound crc tx hp st = (st', send_ack_entries crc [final_ack tx ps], [])"
    "ss_objects st' ! k = chunk_close (stream_finish Complete (ss_objects st ! k))"
    "\<not> slot_exists (ss_reassembler st') tx"
proof -
  let ?st = "fst (complete_inbound crc tx hp st)"
  have "complete_inbound crc tx hp st = (?st, send_ack_entries crc [final_ack tx ps], [])"
    "ss_objects ?st ! k = chunk_close (stream_finish Complete (ss_objects st ! k))"
    "ss_reassembler ?st = (ss_reassembler st)\<lparr>ra_slots := hm_del tx (ra_slots (ss_reassembler st))\<rparr>"
    using assms honest_final_ack [OF assms(4,5,1)] honest_complete_iff [OF assms(5,1)]
    by (simp_all add: complete_inbound_def Let_def take_completed_def end_stream_def)
  then show ?thesis
    using that by (simp add: slot_exists_def)
qed

text \<open>
  One new piece of a streamed transaction: the first one opens the stream, a later one extends it;
  the last missing one ends it.
\<close>

definition streamed :: "byte list list \<Rightarrow> nat \<Rightarrow> session_state \<Rightarrow> bool" where
  "streamed ps k st \<longleftrightarrow>
    stream_state_of (ss_objects st ! k) = Complete \<and> \<not> si_sender_alive (ss_objects st ! k) \<and>
    si_chunks (ss_objects st ! k) = map (\<lambda>i. chunk_of (of_nat i, ps ! i)) [0..<length ps]"

lemma streamed_closed:
  assumes "transferable ps" "honest ps {..<length ps} sl" "si_chunks si = map chunk_of (emission 0 sl)"
    and "ss_objects st ! k = chunk_close (stream_finish Complete si)"
  shows "streamed ps k st"
  using assms honest_full(4) [OF assms(2,1)]
  by (simp add: streamed_def chunk_close_def stream_finish_def stream_state_of_def stream_state_from_u8_def [of 2] comp_def)

lemma lessThan_is_zero: "{0} = {..<n} \<longleftrightarrow> n = (1 :: nat)"
proof
  assume "{0} = {..<n}"
  then have "card {0 :: nat} = card {..<n}"
    by simp
  then show "n = 1"
    by simp
qed auto

lemma stream_opens:
  assumes "transferable ps" "session_inv st" "\<not> slot_exists (ss_reassembler st) tx"
  shows "\<exists>st'. session_inv st' \<and>
    (if length ps = 1
     then on_data_frame crc (piece_frame tx ps 0) hp True now st =
         (st', no_out\<lparr>io_writes := send_ack_entries crc [final_ack tx ps], io_opened := Some (length (ss_objects st))\<rparr>) \<and>
       streamed ps (length (ss_objects st)) st' \<and> \<not> slot_exists (ss_reassembler st') tx
     else on_data_frame crc (piece_frame tx ps 0) hp True now st =
         (st', no_out\<lparr>io_opened := Some (length (ss_objects st))\<rparr>) \<and>
       streaming tx ps {0} (length (ss_objects st)) st')"
proof -
  let ?k = "length (ss_objects st)"
  let ?st' = "fst (on_data_frame crc (piece_frame tx ps 0) hp True now st)"
  have none: "get_slot (ss_reassembler st) tx = None" "hm_get (ss_streams st) tx = None" "0 < length ps"
    using assms by (auto simp: slot_exists_def hm_contains_def session_inv_def slots_inv_def transferable_def)
  have h: "honest ps {} (slot_or_fresh (ss_reassembler st) tx ps)"
    using honest_fresh [OF assms(1)] none(1) by simp
  have pe: "prefix_end (slot_or_fresh (ss_reassembler st) tx ps) = 0"
    using none(1) by (simp add: fresh_slot_def)
  obtain sl r' where r: "get_slot r' tx = Some sl" "honest ps {0} sl"
    "receive_frame (ss_reassembler st) tx (of_nat 0) (of_nat (length (concat ps))) (length (ps ! 0)) (ps ! 0) now True =
      (Inr (Accepted ({0} = {..<length ps}) (emission 0 sl)), r')"
    by (rule receive_piece [OF session_inv_reassembler [OF assms(2)] assms(1) none(3) h, of now True]) (auto simp: pe)
  define st2 where "st2 = open_stream tx (of_nat (length (concat ps))) (emission 0 sl)
      (count_pending_ack tx (st\<lparr>ss_reassembler := r'\<rparr>))"
  have st2: "hm_contains (ss_stream_owned st2) tx" "hm_get (ss_streams st2) tx = Some ?k" "ss_reassembler st2 = r'"
    "?k < length (ss_objects st2)" "si_chunks (ss_objects st2 ! ?k) = map chunk_of (emission 0 sl)"
    using none(2) by (simp_all add: st2_def open_stream_def Let_def nth_append chunk_sends_of stream_new_def)
  have inv: "session_inv ?st'"
    by (rule data_frame_inv [OF assms(2)])
  show ?thesis
  proof (cases "length ps = 1")
    case True
    then have full: "{0} = {..<length ps}"
      by auto
    obtain st3 where st3: "complete_inbound crc tx hp st2 = (st3, send_ack_entries crc [final_ack tx ps], [])"
      "ss_objects st3 ! ?k = chunk_close (stream_finish Complete (ss_objects st2 ! ?k))"
      "\<not> slot_exists (ss_reassembler st3) tx"
      by (rule complete_streamed [OF assms(1) st2(1,2), of sl]) (use r st2 full in simp_all)
    have "on_data_frame crc (piece_frame tx ps 0) hp True now st =
        (st3, no_out\<lparr>io_writes := send_ack_entries crc [final_ack tx ps], io_opened := Some ?k\<rparr>)"
      using r(3) assms(3) st3(1) full by (simp add: on_data_frame_def Let_def st2_def no_out_def)
    then show ?thesis
      using inv True st3(3) streamed_closed [OF assms(1) _ st2(5) st3(2)] r(2) full by auto
  next
    case False
    then have "{0} \<noteq> {..<length ps}"
      by (simp add: lessThan_is_zero)
    then have d: "on_data_frame crc (piece_frame tx ps 0) hp True now st = (st2, no_out\<lparr>io_opened := Some ?k\<rparr>)"
      using r(3) assms(3) by (simp add: on_data_frame_def Let_def st2_def)
    then show ?thesis
      using inv False st2 r(1,2) by (auto simp: streaming_def)
  qed
qed

lemma stream_extends:
  assumes "transferable ps" "streaming tx ps I k st" "i < length ps" "I \<noteq> {..<length ps}"
  shows "\<exists>st'. session_inv st' \<and>
    (if insert i I = {..<length ps}
     then on_data_frame crc (piece_frame tx ps i) hp True now st =
         (st', no_out\<lparr>io_writes := send_ack_entries crc [final_ack tx ps]\<rparr>) \<and>
       streamed ps k st' \<and> \<not> slot_exists (ss_reassembler st') tx
     else on_data_frame crc (piece_frame tx ps i) hp True now st = (st', no_out) \<and>
       streaming tx ps (insert i I) k st')"
proof -
  let ?st' = "fst (on_data_frame crc (piece_frame tx ps i) hp True now st)"
  obtain sl0 where st: "session_inv st" "hm_get (ss_streams st) tx = Some k"
    "get_slot (ss_reassembler st) tx = Some sl0" "honest ps I sl0"
    "si_chunks (ss_objects st ! k) = map chunk_of (emission 0 sl0)"
    using assms(2) by (auto simp: streaming_def)
  have k: "k < length (ss_objects st)" "hm_contains (ss_stream_owned st) tx"
    using st(1,2) by (auto simp: session_inv_def objects_inv_def owners_inv_def hm_contains_def)
  obtain sl r' where r: "get_slot r' tx = Some sl" "honest ps (insert i I) sl"
    "receive_frame (ss_reassembler st) tx (of_nat i) (of_nat (length (concat ps))) (length (ps ! i)) (ps ! i) now True =
      (Inr (if i \<in> I then Duplicate else Accepted (insert i I = {..<length ps}) (emission (prefix_end sl0) sl)), r')"
    "emission 0 sl0 @ emission (prefix_end sl0) sl = emission 0 sl" "i \<in> I \<Longrightarrow> emission (prefix_end sl0) sl = []"
    by (rule receive_piece [OF session_inv_reassembler [OF st(1)] assms(1,3), of I tx now True])
      (use st(3,4) in auto)
  define st2 where "st2 = on_stream tx (\<lambda>si. fold chunk_send (emission (prefix_end sl0) sl) (stream_clear_paused si))
      (count_pending_ack tx (st\<lparr>ss_reassembler := r'\<rparr>))"
  have "si_chunks (stream_clear_paused si) = si_chunks si" for si
    by (simp add: stream_defs)
  then have st2: "hm_contains (ss_stream_owned st2) tx" "hm_get (ss_streams st2) tx = Some k" "ss_reassembler st2 = r'"
    "k < length (ss_objects st2)" "si_chunks (ss_objects st2 ! k) = map chunk_of (emission 0 sl)"
    using k st(2,5) r(4) by (auto simp: st2_def on_stream_def chunk_sends_of simp flip: map_append)
  have ex: "slot_exists (ss_reassembler st) tx"
    using st(3) by (simp add: slot_exists_def hm_contains_def)
  have inv: "session_inv ?st'"
    by (rule data_frame_inv [OF st(1)])
  consider "i \<in> I" | "i \<notin> I" "insert i I = {..<length ps}" | "i \<notin> I" "insert i I \<noteq> {..<length ps}"
    by blast
  then show ?thesis
  proof cases
    case 1
    then have "on_data_frame crc (piece_frame tx ps i) hp True now st = (st\<lparr>ss_reassembler := r'\<rparr>, no_out)"
      using r(3) by (simp add: on_data_frame_def Let_def)
    then show ?thesis
      using inv 1 assms(4) st r by (auto simp: streaming_def insert_absorb)
  next
    case 2
    obtain st3 where st3: "complete_inbound crc tx hp st2 = (st3, send_ack_entries crc [final_ack tx ps], [])"
      "ss_objects st3 ! k = chunk_close (stream_finish Complete (ss_objects st2 ! k))"
      "\<not> slot_exists (ss_reassembler st3) tx"
      by (rule complete_streamed [OF assms(1) st2(1,2), of sl]) (use r st2 2 in simp_all)
    have "on_data_frame crc (piece_frame tx ps i) hp True now st =
        (st3, no_out\<lparr>io_writes := send_ack_entries crc [final_ack tx ps]\<rparr>)"
      using r(3) ex st3(1) 2 by (simp add: on_data_frame_def Let_def st2_def no_out_def)
    then show ?thesis
      using inv 2 st3(3) streamed_closed [OF assms(1) _ st2(5) st3(2)] r(2) by auto
  next
    case 3
    then have "on_data_frame crc (piece_frame tx ps i) hp True now st = (st2, no_out)"
      using r(3) ex by (simp add: on_data_frame_def Let_def st2_def no_out_def)
    then show ?thesis
      using inv 3 st2 r(1,2) by (auto simp: streaming_def)
  qed
qed

lemma session_inv_activity: "session_inv (st\<lparr>ss_last_peer_activity_ms := now\<rparr>) = session_inv st"
  by (rule session_inv_misc)

lemma streaming_activity:
  "streaming tx ps I k (st\<lparr>ss_last_peer_activity_ms := now\<rparr>) = streaming tx ps I k st"
  by (simp add: streaming_def session_inv_activity)

lemma streaming_all:
  assumes "transferable ps" "streaming tx ps I k (co_state co)" "co_stream_handler co"
    and "set js \<subseteq> {..<length ps}" "I \<union> set js \<noteq> {..<length ps}" "I \<subseteq> {..<length ps}"
  shows "\<exists>co'. inbound_all ev lk now (map (piece_frame tx ps) js) co = ([], co') \<and>
    streaming tx ps (I \<union> set js) k (co_state co')"
  using assms(2-6)
proof (induction js arbitrary: I co)
  case (Cons j js)
  have "I \<union> set (j # js) = insert j I \<union> set js" "set js \<subseteq> {..<length ps}" "insert j I \<subseteq> {..<length ps}"
    using Cons.prems(3,5) by auto
  then have I: "insert j I \<noteq> {..<length ps}" "I \<noteq> {..<length ps}"
    using Cons.prems(3-5) by (metis sup.absorb1, metis Cons.prems(3,4) sup.absorb1)
  obtain st' where d: "on_data_frame (env_crc ev) (piece_frame tx ps j) (co_binary_handler co) True now
        ((co_state co)\<lparr>ss_last_peer_activity_ms := now\<rparr>) = (st', no_out)"
      "streaming tx ps (insert j I) k st'"
    using stream_extends [OF assms(1), of tx I k "(co_state co)\<lparr>ss_last_peer_activity_ms := now\<rparr>" j
        "env_crc ev" "co_binary_handler co" now]
      Cons.prems(1,3) I by (auto simp: streaming_activity)
  have h: "handle_inbound ev lk now (piece_frame tx ps j) co = ([], co\<lparr>co_state := st'\<rparr>)"
    using d(1) Cons.prems(2) by (simp add: handle_inbound_def dispatch_def no_out_def Let_def)
  obtain co' where "inbound_all ev lk now (map (piece_frame tx ps) js) (co\<lparr>co_state := st'\<rparr>) = ([], co')"
      "streaming tx ps (insert j I \<union> set js) k (co_state co')"
    using Cons.IH [of "insert j I" "co\<lparr>co_state := st'\<rparr>"] Cons.prems d(2) by auto
  then show ?case
    using h by auto
qed simp

lemma streaming_to_end:
  assumes "transferable ps" "streaming tx ps I k (co_state co)" "co_stream_handler co"
    and "js \<noteq> []" "I \<union> set js = {..<length ps}" "last js \<notin> I \<union> set (butlast js)"
    and "send_ack_entries (env_crc ev) [final_ack tx ps] = [WriteControl w]"
  shows "\<exists>co'. inbound_all ev lk now (map (piece_frame tx ps) js) co = ([WriteControl w], co') \<and>
    streamed ps k (co_state co') \<and> \<not> slot_exists (ss_reassembler (co_state co')) tx"
proof -
  let ?mid = "butlast js" and ?l = "last js"
  have split: "js = ?mid @ [?l]"
    using assms(4) by simp
  have l: "?l < length ps" "insert ?l (I \<union> set ?mid) = {..<length ps}" "I \<union> set ?mid \<subseteq> {..<length ps}"
      "I \<union> set ?mid \<noteq> {..<length ps}"
    using assms(5,6) arg_cong [OF split, of set] by auto
  obtain co2 where co2: "inbound_all ev lk now (map (piece_frame tx ps) ?mid) co = ([], co2)"
      "streaming tx ps (I \<union> set ?mid) k (co_state co2)"
    using streaming_all [OF assms(1-3), of ?mid ev lk now] l by auto
  have sh: "co_stream_handler co2"
    using inbound_all_handlers [of ev lk now "map (piece_frame tx ps) ?mid" co] co2(1) assms(3) by simp
  let ?st2 = "(co_state co2)\<lparr>ss_last_peer_activity_ms := now\<rparr>"
  obtain st3 where st3: "on_data_frame (env_crc ev) (piece_frame tx ps ?l) (co_binary_handler co2) True now ?st2 =
       (st3, no_out\<lparr>io_writes := send_ack_entries (env_crc ev) [final_ack tx ps]\<rparr>)"
     "streamed ps k st3" "\<not> slot_exists (ss_reassembler st3) tx"
    using stream_extends [OF assms(1), of tx "I \<union> set ?mid" k ?st2 ?l "env_crc ev" "co_binary_handler co2" now]
      co2(2) l by (auto simp: streaming_activity)
  have "handle_inbound ev lk now (piece_frame tx ps ?l) co2 = ([WriteControl w], co2\<lparr>co_state := st3\<rparr>)"
    using st3(1) sh assms(7) by (simp add: handle_inbound_def dispatch_def no_out_def Let_def)
  moreover have "map (piece_frame tx ps) js = map (piece_frame tx ps) ?mid @ [piece_frame tx ps ?l]"
    using arg_cong [OF split, of "map (piece_frame tx ps)"] by simp
  ultimately show ?thesis
    using co2(1) st3(2,3) by (auto simp: inbound_all_append)
qed

lemma streamed_reads:
  "streamed ps k st \<Longrightarrow>
   stream_state_of (ss_objects st ! k) = Complete \<and>
   drain (ss_objects st ! k) = (map (\<lambda>i. chunk_of (of_nat i, ps ! i)) [0..<length ps], ReadEnd)"
  by (simp add: streamed_def drain_eq)

section \<open>Properties\<close>

text \<open>
  Aggregate delivery. Let a session with a binary handler (and no stream handler) receive the
  frames of a payload it has no slot for: any order that starts with frame 0, any repetitions before
  the last missing frame. Then the outcome of all these frames is exactly one ACK frame that the peer
  decodes to the final acknowledgement, followed by exactly one delivery of the whole payload, and the
  slot is released.
\<close>

theorem payload_delivered_once:
  assumes "session_inv (co_state co)" "co_binary_handler co" "\<not> co_stream_handler co"
    and "transferable ps" "\<not> slot_exists (ss_reassembler (co_state co)) tx"
    and "js \<noteq> []" "hd js = 0" "set js = {..<length ps}" "last js \<notin> set (butlast js)"
    and "inbound_all ev lk now (map (piece_frame tx ps) js) co = (eff, co')"
  shows "(\<exists>w f. eff = [WriteControl w, Deliver tx (concat ps)] \<and> decode_write (env_crc ev) w = [f] \<and>
      ack_frame [final_ack tx ps] f) \<and>
    \<not> slot_exists (ss_reassembler (co_state co')) tx \<and> session_inv (co_state co')"
proof -
  obtain w f where w: "send_ack_entries (env_crc ev) [final_ack tx ps] = [WriteControl w]"
      "decode_write (env_crc ev) w = [f]" "ack_frame [final_ack tx ps] f"
    using send_single_ack by blast
  obtain co1 where "inbound_all ev lk now (map (piece_frame tx ps) js) co = ([WriteControl w, Deliver tx (concat ps)], co1)"
      "session_inv (co_state co1)" "\<not> slot_exists (ss_reassembler (co_state co1)) tx"
    using gathering_delivers [OF assms(4) gathering_fresh [OF assms(1,4,5)] assms(2,3,6) _ _ _ w(1), of lk now]
      assms(7-9) by auto
  then show ?thesis
    using w assms(10) by auto
qed

definition sample_receiver :: session_core where
  "sample_receiver = session_new sample_transfer_config 0"

lemma sample_receiver_fresh:
  "session_inv (co_state sample_receiver)" "\<not> slot_exists (ss_reassembler (co_state sample_receiver)) tx"
  "ss_objects (co_state sample_receiver) = []" "co_stream_handler sample_receiver = False"
  by (simp_all add: sample_receiver_def) (simp_all add: session_new_def reassembler_new_def slot_exists_def)

lemma sample_arrivals: "set [0, 2, 0, 1] = {..<length sample_pieces}"
  by (auto simp: sample_pieces_def)

theorem payload_delivered_once_witness:
  "\<exists>w co'. inbound_all sample_env link_up 3 (map (piece_frame 7 sample_pieces) [0, 2, 0, 1]) (on_binary sample_receiver) =
      ([WriteControl w, Deliver 7 [1, 2, 3, 4, 5]], co')"
proof -
  obtain eff co' where h: "inbound_all sample_env link_up 3 (map (piece_frame 7 sample_pieces) [0, 2, 0, 1])
      (on_binary sample_receiver) = (eff, co')"
    by (metis surj_pair)
  have "concat sample_pieces = [1, 2, 3, 4, 5]"
    by (simp add: sample_pieces_def)
  then show ?thesis
    using payload_delivered_once [OF _ _ _ sample_transferable _ _ _ sample_arrivals _ h] sample_receiver_fresh h
    by (auto simp: on_binary_def)
qed

lemma streamed_delivery:
  assumes "session_inv (co_state co)" "co_stream_handler co"
    and "transferable ps" "\<not> slot_exists (ss_reassembler (co_state co)) tx"
    and "js \<noteq> []" "hd js = 0" "set js = {..<length ps}" "last js \<notin> set (butlast js)"
    and "inbound_all ev lk now (map (piece_frame tx ps) js) co = (eff, co')"
    and "k = length (ss_objects (co_state co))"
  shows "(\<exists>w f. (eff = [StreamHandler k, WriteControl w] \<or> eff = [WriteControl w, StreamHandler k]) \<and>
      decode_write (env_crc ev) w = [f] \<and> ack_frame [final_ack tx ps] f) \<and>
    stream_state_of (ss_objects (co_state co') ! k) = Complete \<and>
    drain (ss_objects (co_state co') ! k) =
      (map (\<lambda>i. \<lparr>ch_seq = of_nat i, ch_bytes = ps ! i\<rparr>) [0..<length ps], ReadEnd) \<and>
    \<not> slot_exists (ss_reassembler (co_state co')) tx"
proof -
  let ?st = "(co_state co)\<lparr>ss_last_peer_activity_ms := now\<rparr>"
  obtain w f where w: "send_ack_entries (env_crc ev) [final_ack tx ps] = [WriteControl w]"
      "decode_write (env_crc ev) w = [f]" "ack_frame [final_ack tx ps] f"
    using send_single_ack by blast
  obtain js' where js: "js = 0 # js'"
    using assms(5,6) by (cases js) auto
  note opens = stream_opens [OF assms(3), of ?st tx "env_crc ev" "co_binary_handler co" now]
  have reads: "stream_state_of (ss_objects st' ! k) = Complete \<and> drain (ss_objects st' ! k) =
      (map (\<lambda>i. \<lparr>ch_seq = of_nat i, ch_bytes = ps ! i\<rparr>) [0..<length ps], ReadEnd)" if "streamed ps k st'" for st'
    using streamed_reads [OF that] by (simp add: chunk_of_def)
  show ?thesis
  proof (cases "js' = []")
    case True
    then have "length ps = 1"
      using assms(7) by (simp add: js lessThan_is_zero)
    then obtain st' where st': "on_data_frame (env_crc ev) (piece_frame tx ps 0) (co_binary_handler co) True now ?st =
         (st', no_out\<lparr>io_writes := send_ack_entries (env_crc ev) [final_ack tx ps], io_opened := Some k\<rparr>)"
       "streamed ps k st'" "\<not> slot_exists (ss_reassembler st') tx"
      using opens assms(1,4,10) by (auto simp: session_inv_activity)
    then have "eff = [WriteControl w, StreamHandler k]" "co' = co\<lparr>co_state := st'\<rparr>"
      using assms(2,9) js True w(1) by (auto simp: handle_inbound_def dispatch_def no_out_def Let_def)
    then show ?thesis
      using reads [OF st'(2)] st'(3) w by simp
  next
    case False
    have bl: "butlast js = 0 # butlast js'" "last js = last js'"
      using False js by simp_all
    have l: "last js' \<notin> {0} \<union> set (butlast js')" "{0} \<union> set js' = {..<length ps}" "last js' \<in> set js'"
      using assms(7,8) False unfolding bl js by auto
    then have n: "length ps \<noteq> 1"
      by (metis Un_iff lessThan_is_zero)
    obtain st1 where st1: "on_data_frame (env_crc ev) (piece_frame tx ps 0) (co_binary_handler co) True now ?st =
         (st1, no_out\<lparr>io_opened := Some k\<rparr>)" "streaming tx ps {0} k st1"
      using opens assms(1,4,10) n by (auto simp: session_inv_activity)
    have "handle_inbound ev lk now (piece_frame tx ps 0) co = ([StreamHandler k], co\<lparr>co_state := st1\<rparr>)"
      using st1(1) assms(2) by (simp add: handle_inbound_def dispatch_def no_out_def Let_def)
    moreover obtain co2 where co2: "inbound_all ev lk now (map (piece_frame tx ps) js') (co\<lparr>co_state := st1\<rparr>) =
        ([WriteControl w], co2)" "streamed ps k (co_state co2)" "\<not> slot_exists (ss_reassembler (co_state co2)) tx"
      using streaming_to_end [OF assms(3), of tx "{0}" k "co\<lparr>co_state := st1\<rparr>" js' ev w lk now]
        st1(2) assms(2) False l(1,2) w(1) by auto
    ultimately have "eff = [StreamHandler k, WriteControl w]" "co' = co2"
      using assms(9) by (auto simp: js)
    then show ?thesis
      using reads [OF co2(2)] co2(3) w by simp
  qed
qed

text \<open>
  C28. Streamed delivery. When a stream handler is registered, the same frames hand exactly one stream
  to it and make exactly one final acknowledgement; the aggregate handler gets nothing. The stream
  ends \<open>Complete\<close>, and its reader gets every piece of the payload, in order, each once, and then the end.
\<close>

theorem stream_delivers_payload:
  assumes "session_inv (co_state co)" "co_stream_handler co"
    and "transferable ps" "\<not> slot_exists (ss_reassembler (co_state co)) tx"
    and "js \<noteq> []" "hd js = 0" "set js = {..<length ps}" "last js \<notin> set (butlast js)"
    and "inbound_all ev lk now (map (piece_frame tx ps) js) co = (eff, co')"
    and "k = length (ss_objects (co_state co))"
  shows "(\<exists>w f. (eff = [StreamHandler k, WriteControl w] \<or> eff = [WriteControl w, StreamHandler k]) \<and>
      decode_write (env_crc ev) w = [f] \<and> ack_frame [final_ack tx ps] f) \<and>
    stream_state_of (ss_objects (co_state co') ! k) = Complete \<and>
    drain (ss_objects (co_state co') ! k) =
      (map (\<lambda>i. \<lparr>ch_seq = of_nat i, ch_bytes = ps ! i\<rparr>) [0..<length ps], ReadEnd) \<and>
    \<not> slot_exists (ss_reassembler (co_state co')) tx"
  by (rule streamed_delivery [OF assms])

theorem stream_delivers_payload_witness:
  "drain (ss_objects (co_state (snd (inbound_all sample_env link_up 3
      (map (piece_frame 7 sample_pieces) [0, 2, 0, 1]) (on_binary_stream sample_receiver)))) ! 0) =
    ([\<lparr>ch_seq = 0, ch_bytes = [1, 2]\<rparr>, \<lparr>ch_seq = 1, ch_bytes = [3]\<rparr>, \<lparr>ch_seq = 2, ch_bytes = [4, 5]\<rparr>], ReadEnd)"
proof -
  obtain eff co' where h: "inbound_all sample_env link_up 3 (map (piece_frame 7 sample_pieces) [0, 2, 0, 1])
      (on_binary_stream sample_receiver) = (eff, co')"
    by (metis surj_pair)
  have "map (\<lambda>i. \<lparr>ch_seq = of_nat i, ch_bytes = sample_pieces ! i\<rparr>) [0..<length sample_pieces] =
      [\<lparr>ch_seq = 0, ch_bytes = [1, 2]\<rparr>, \<lparr>ch_seq = 1, ch_bytes = [3]\<rparr>, \<lparr>ch_seq = 2, ch_bytes = [4, 5]\<rparr>]"
    by (simp add: sample_pieces_def upt_rec)
  then show ?thesis
    using stream_delivers_payload [OF _ _ sample_transferable _ _ _ sample_arrivals _ h, of 0] sample_receiver_fresh h
    by (auto simp: on_binary_stream_def)
qed

end
