(* ===== verification/Session_Clock.thy ===== *)
theory Session_Clock
  imports Session_Delivery
begin

text \<open>
  The session clock, \<open>src/src/transfer/clock.rs\<close>: the RESUME declaration, one clock tick, deferred
  delivery, and one turn of the clock task's loop (\<open>clock_turn\<close>; its result says whether the task goes on).
\<close>

section \<open>Operations\<close>

definition send_resume_frame :: "crc_fn \<Rightarrow> ack_entry list \<Rightarrow> effect list" where
  "send_resume_frame crc entries = send_control crc Resume (resume_request_encode \<lparr>rr_entries = entries\<rparr>)"

definition send_resume_declaration :: "crc_fn \<Rightarrow> nat \<Rightarrow> session_core \<Rightarrow> effect list \<times> session_core" where
  "send_resume_declaration crc now co =
    (let (entries, s) = declare_pending (ss_sender (co_state co)) now
     in ((if entries = [] then [] else send_resume_frame crc entries), set_sender s co))"

definition declare_pending_sends :: "crc_fn \<Rightarrow> nat \<Rightarrow> session_core \<Rightarrow> effect list \<times> session_core" where
  "declare_pending_sends crc now co =
    (if co_wiring co = None then ([], co) else send_resume_declaration crc now co)"

text \<open>Step 1: the batched ACK export.\<close>

definition export_acks :: "crc_fn \<Rightarrow> transfer_config \<Rightarrow> nat \<Rightarrow> session_state \<Rightarrow> session_state \<times> effect list" where
  "export_acks crc cfg now st =
    (let pending_total = sum_list (map snd (ss_pending_ack_frames st)) in
     if tc_ack_batch_frames cfg \<le> pending_total \<or>
        (0 < pending_total \<and> now - ss_last_ack_ms st \<ge> tc_ack_batch_interval_ms cfg)
     then
       let entries = List.map_filter (ack_entry_of (ss_reassembler st)) (hm_keys (ss_pending_ack_frames st));
           exported = filter (\<lambda>tx. ack_entry_of (ss_reassembler st) tx \<noteq> None) (hm_keys (ss_pending_ack_frames st))
       in ((fold forget_acks exported st)\<lparr>ss_last_ack_ms := now\<rparr>, send_ack_entries crc entries)
     else (st, []))"

text \<open>Step 2: one NACK frame per transaction with a gap.\<close>

definition nack_report :: "crc_fn \<Rightarrow> reassembler \<Rightarrow> txid \<Rightarrow> effect list" where
  "nack_report crc r tx =
    (let missing = missing_seqs r tx MAX_NACK_MISSING_ENTRIES in
     if missing = [] then []
     else send_control crc Nack
       (nack_encode \<lparr>nack_entries = [\<lparr>ne_txid = tx, ne_missing_seqs = missing\<rparr>]\<rparr>))"

definition export_nacks :: "crc_fn \<Rightarrow> transfer_config \<Rightarrow> nat \<Rightarrow> session_state \<Rightarrow> session_state \<times> effect list" where
  "export_nacks crc cfg now st =
    (if now - ss_last_nack_ms st \<ge> tc_nack_feedback_interval_ms cfg
     then (st\<lparr>ss_last_nack_ms := now\<rparr>,
           concat (map (nack_report crc (ss_reassembler st)) (open_transactions (ss_reassembler st))))
     else (st, []))"

text \<open>Step 4: the heartbeat.\<close>

definition heartbeat :: "crc_fn \<Rightarrow> transfer_config \<Rightarrow> nat \<Rightarrow> session_state \<Rightarrow> session_state \<times> effect list" where
  "heartbeat crc cfg now st =
    (if now - ss_last_heartbeat_ms st \<ge> tc_heartbeat_interval_ms cfg
     then
       let sq = ss_heartbeat_seq st + 1
       in (st\<lparr>ss_last_heartbeat_ms := now, ss_heartbeat_seq := sq\<rparr>,
           send_control crc Heartbeat
             (heartbeat_encode \<lparr>hb_monotonic_seq = sq, hb_sender_epoch_ms = of_nat now\<rparr>))
     else (st, []))"

definition clock_tick ::
  "crc_fn \<Rightarrow> transfer_config \<Rightarrow> link \<Rightarrow> nat \<Rightarrow> session_state \<Rightarrow> bool \<times> effect list \<times> session_state" where
  "clock_tick crc cfg lk now st =
    (let (st1, acks) = export_acks crc cfg now st;
         (st2, nacks) = export_nacks crc cfg now st1;
         (due, s3) = due_retransmissions (ss_sender st2) now;
         st3 = st2\<lparr>ss_sender := s3\<rparr>;
         (sent, failed) = write_frames lk [] due;
         out3 = acks @ nacks @ map WriteData sent
     in if failed \<noteq> None then (True, out3, st3)
        else
          let (redeclare, s4) = timed_out_declarations (ss_sender st3) now (tc_resume_verdict_timeout_ms cfg);
              st4 = st3\<lparr>ss_sender := s4\<rparr>;
              resumes = (if redeclare = [] then [] else send_resume_frame crc redeclare);
              (st5, beats) = heartbeat crc cfg now st4
          in (now - ss_last_peer_activity_ms st5 \<ge> tc_silent_timeout_ms cfg,
              out3 @ resumes @ beats, st5))"

text \<open>\<open>drain_completed\<close>: every retained payload is taken out once, in slot order.\<close>

primrec take_all :: "txid list \<Rightarrow> reassembler \<Rightarrow> (txid \<times> byte list) list \<times> reassembler" where
  "take_all [] r = ([], r)"
| "take_all (tx # txs) r =
    (let (payload, r1) = take_completed r tx;
         (rest, r2) = take_all txs r1
     in ((case payload of Some p \<Rightarrow> (tx, p) # rest | None \<Rightarrow> rest), r2))"

definition drain_completed :: "session_core \<Rightarrow> (txid \<times> byte list) list \<times> session_core" where
  "drain_completed co =
    (if \<not> co_binary_handler co then ([], co)
     else
       let st = co_state co;
           completed = filter (is_complete (ss_reassembler st)) (open_transactions (ss_reassembler st));
           (taken, r) = take_all completed (ss_reassembler st)
       in (taken, co\<lparr>co_state := st\<lparr>ss_reassembler := r\<rparr>\<rparr>))"

definition clock_turn ::
  "crc_fn \<Rightarrow> link \<Rightarrow> nat \<Rightarrow> bool \<Rightarrow> nat \<Rightarrow> session_core \<Rightarrow> bool \<times> effect list \<times> session_core" where
  "clock_turn crc lk transport connection_closed now co =
    (if connection_closed then
       let (eff, co1) = detach_connection co in (False, eff, stall_streams co1)
     else
       let (silent, eff, st) = clock_tick crc (co_config co) lk now (co_state co);
           co1 = co\<lparr>co_state := st\<rparr>
       in if silent then
            let (eff', co2) = detach_connection co1
            in (False, eff @ eff' @ [Disconnect transport], stall_streams co2)
          else
            let (taken, co2) = drain_completed (wake_writers co1)
            in (True, eff @ concat (map (\<lambda>(tx, payload). deliver co2 tx payload) taken), co2))"

section \<open>Every operation keeps the session invariant\<close>

lemma forget_all_fields:
  "ss_sender (fold forget_acks txs st) = ss_sender st"
  "ss_reassembler (fold forget_acks txs st) = ss_reassembler st"
  "ss_completions (fold forget_acks txs st) = ss_completions st"
  "ss_streams (fold forget_acks txs st) = ss_streams st"
  "ss_stream_owned (fold forget_acks txs st) = ss_stream_owned st"
  "ss_objects (fold forget_acks txs st) = ss_objects st"
  "ss_last_peer_activity_ms (fold forget_acks txs st) = ss_last_peer_activity_ms st"
  by (induction txs arbitrary: st) simp_all

lemma forget_all_inv: "session_inv st \<Longrightarrow> session_inv (fold forget_acks txs st)"
  by (induction txs arbitrary: st) (simp_all add: session_inv_def table_inv_defs)

lemma export_acks_inv: "session_inv st \<Longrightarrow> session_inv (fst (export_acks crc cfg now st))"
  by (simp add: export_acks_def Let_def session_inv_misc forget_all_inv)

lemma export_nacks_inv: "session_inv st \<Longrightarrow> session_inv (fst (export_nacks crc cfg now st))"
  by (simp add: export_nacks_def session_inv_misc)

lemma heartbeat_inv: "session_inv st \<Longrightarrow> session_inv (fst (heartbeat crc cfg now st))"
  by (simp add: heartbeat_def Let_def session_inv_misc)

lemma clock_tick_inv:
  assumes "session_inv st"
  shows "session_inv (snd (snd (clock_tick crc cfg lk now st)))"
proof -
  define st2 where "st2 = fst (export_nacks crc cfg now (fst (export_acks crc cfg now st)))"
  define st3 where "st3 = st2\<lparr>ss_sender := snd (due_retransmissions (ss_sender st2) now)\<rparr>"
  define st4 where "st4 = st3\<lparr>ss_sender :=
    snd (timed_out_declarations (ss_sender st3) now (tc_resume_verdict_timeout_ms cfg))\<rparr>"
  have st2: "session_inv st2"
    using assms by (simp add: st2_def export_acks_inv export_nacks_inv)
  then have st3: "session_inv st3"
    by (simp add: st3_def session_inv_sender session_inv_senderD sender_inv_ops)
  then have st4: "session_inv st4"
    by (simp add: st4_def session_inv_sender session_inv_senderD sender_inv_ops)
  have "snd (snd (clock_tick crc cfg lk now st)) \<in> {st3, fst (heartbeat crc cfg now st4)}"
    by (simp add: clock_tick_def Let_def split_beta st2_def st3_def st4_def)
  then show ?thesis
    using st3 heartbeat_inv [OF st4] by auto
qed

lemma take_all_inv: "reassembler_inv r \<Longrightarrow> reassembler_inv (snd (take_all txs r))"
  by (induction txs arbitrary: r) (simp_all add: split_beta take_inv)

lemma take_all_slots:
  "\<not> is_complete r u \<Longrightarrow>
   slot_exists (snd (take_all txs r)) u = slot_exists r u \<and> \<not> is_complete (snd (take_all txs r)) u"
proof (induction txs arbitrary: r)
  case (Cons tx txs)
  have "\<not> is_complete (snd (take_completed r tx)) u"
    using Cons.prems by (simp add: take_slots)
  from Cons.IH [OF this] show ?case
    using Cons.prems by (auto simp: split_beta take_slots)
qed simp

lemma drain_completed_inv:
  assumes "session_inv (co_state co)"
  shows "session_inv (co_state (snd (drain_completed co)))"
proof -
  let ?st = "co_state co"
  have "session_inv (?st\<lparr>ss_reassembler := snd (take_all txs (ss_reassembler ?st))\<rparr>)" for txs
    using assms take_all_slots [of "ss_reassembler ?st" _ txs] take_all_inv [of "ss_reassembler ?st" txs]
    by (auto simp: session_inv_def owners_inv_def slots_inv_def objects_inv_def)
  then show ?thesis
    using assms by (simp add: drain_completed_def Let_def split_beta)
qed

lemma clock_turn_inv:
  assumes "session_inv (co_state co)"
  shows "session_inv (co_state (snd (snd (clock_turn crc lk tr closed now co))))"
proof -
  let ?st = "snd (snd (clock_tick crc (co_config co) lk now (co_state co)))"
  have "session_inv ?st"
    by (rule clock_tick_inv [OF assms])
  then show ?thesis
    using assms stall_streams_inv [of "snd (detach_connection co)"]
      stall_streams_inv [of "snd (detach_connection (co\<lparr>co_state := ?st\<rparr>))"]
      drain_completed_inv [of "wake_writers (co\<lparr>co_state := ?st\<rparr>)"]
    by (simp add: clock_turn_def Let_def split_beta)
qed

lemma declare_pending_sends_inv:
  "session_inv (co_state co) \<Longrightarrow> session_inv (co_state (snd (declare_pending_sends crc now co)))"
  using session_inv_senderD [of "co_state co"]
  by (simp add: declare_pending_sends_def send_resume_declaration_def split_beta session_inv_sender sender_inv_ops)

section \<open>The activity clock\<close>

lemma ack_all_activity:
  "ss_last_peer_activity_ms (fst (ack_all now es acc)) = ss_last_peer_activity_ms (fst acc)"
proof (induction es arbitrary: acc)
  case (Cons e es)
  have "ss_last_peer_activity_ms (fst (fire_completion tx c a)) = ss_last_peer_activity_ms (fst a)" for tx c a
    by (cases a) (simp add: fire_completion_def split: option.split)
  then show ?case
    using Cons.IH by (simp add: Let_def split_beta)
qed simp

lemma fire_all_activity:
  "ss_last_peer_activity_ms (fst (fold (\<lambda>tx. fire_completion tx c) txs acc)) = ss_last_peer_activity_ms (fst acc)"
proof (induction txs arbitrary: acc)
  case (Cons tx txs)
  have "ss_last_peer_activity_ms (fst (fire_completion tx c acc)) = ss_last_peer_activity_ms (fst acc)"
    by (cases acc) (simp add: fire_completion_def split: option.split)
  then show ?case
    using Cons.IH by simp
qed simp

lemma abandon_all_activity:
  "ss_last_peer_activity_ms (fold abandon txs st) = ss_last_peer_activity_ms st"
  by (induction txs arbitrary: st) (simp_all add: abandon_def)

lemma data_frame_activity:
  "ss_last_peer_activity_ms (fst (on_data_frame crc f hp sp now st)) = ss_last_peer_activity_ms st"
proof -
  have "ss_last_peer_activity_ms (open_stream tx tot ems st) = ss_last_peer_activity_ms st" for tx tot ems st
    by (simp add: open_stream_def Let_def split: option.split)
  moreover have "ss_last_peer_activity_ms (fst (complete_inbound crc tx hp st)) = ss_last_peer_activity_ms st" for tx st
    by (simp add: complete_inbound_def Let_def split: prod.split option.split)
  ultimately show ?thesis
    by (simp add: on_data_frame_def Let_def split_beta split: prod.split sum.split receive_outcome.split)
qed

lemma dispatch_activity:
  "ss_last_peer_activity_ms (fst (dispatch ev lk hp sp now f st)) = ss_last_peer_activity_ms st"
  using ack_all_activity [of now _ "(st, [])"]
  by (cases "f_type f")
    (simp_all add: dispatch_def split_beta data_frame_activity on_ack_frame_def on_nack_frame_def Let_def
      on_resume_request_frame_def abandon_all_activity on_resume_response_frame_def fire_all_activity
      on_transaction_pause_frame_def on_transaction_abort_frame_def on_transaction_completed_frame_def
      on_error_frame_def split: sum.split option.split)

lemma inbound_activity: "ss_last_peer_activity_ms (co_state (snd (handle_inbound ev lk now f co))) = now"
  by (simp add: handle_inbound_def Let_def split_beta dispatch_activity)

lemma tick_activity:
  "fst (clock_tick crc cfg link_up now st) \<longleftrightarrow> tc_silent_timeout_ms cfg \<le> now - ss_last_peer_activity_ms st"
  by (simp add: clock_tick_def Let_def split_beta heartbeat_def export_acks_def export_nacks_def forget_all_fields)

lemma tick_streams: "ss_streams (snd (snd (clock_tick crc cfg lk now st))) = ss_streams st"
  by (simp add: clock_tick_def Let_def split_beta heartbeat_def export_acks_def export_nacks_def forget_all_fields)

lemma turn_streams:
  "ss_streams (co_state (snd (snd (clock_turn crc lk tr closed now co)))) = ss_streams (co_state co)"
  by (simp add: clock_turn_def Let_def split_beta tick_streams stall_streams_def drain_completed_def)

section \<open>Properties\<close>

text \<open>
  C33. Silent peer. While its link accepts writes, the clock task stops exactly when nothing arrived for
  the silent timeout; it then unwires the session, stalls its streams and disconnects the transport.
  Every inbound frame restarts the window, and so does wiring: a session wired at some instant is not
  declared silent before a full timeout has passed since then, whatever silence it had accumulated.
\<close>

theorem silent_peer_detected:
  assumes "session_inv (co_state co)" "clock_turn crc link_up transport False now co = (go, eff, co')"
  shows "(go \<longleftrightarrow> now - ss_last_peer_activity_ms (co_state co) < tc_silent_timeout_ms (co_config co)) \<and>
    (\<not> go \<longrightarrow> \<not> is_wired co' \<and> last eff = Disconnect transport \<and>
      (\<forall>tx i. hm_get (ss_streams (co_state co')) tx = Some i \<longrightarrow>
        stream_state_of (ss_objects (co_state co') ! i) = Stalled)) \<and>
    ss_last_peer_activity_ms (co_state (snd (handle_inbound ev lk t f co))) = t \<and>
    (\<not> is_wired co \<longrightarrow> ss_last_peer_activity_ms (co_state (snd (snd (wire co transport t t')))) = t)"
proof -
  let ?st = "snd (snd (clock_tick crc (co_config co) link_up now (co_state co)))"
  let ?co1 = "snd (detach_connection (co\<lparr>co_state := ?st\<rparr>))"
  have tick: "fst (clock_tick crc (co_config co) link_up now (co_state co)) \<longleftrightarrow>
      tc_silent_timeout_ms (co_config co) \<le> now - ss_last_peer_activity_ms (co_state co)"
    by (rule tick_activity)
  have inv: "objects_inv ?st"
    using clock_tick_inv [OF assms(1), of crc "co_config co" link_up now] by (simp add: session_inv_def)
  have go: "go \<longleftrightarrow> \<not> fst (clock_tick crc (co_config co) link_up now (co_state co))"
    using assms(2) by (auto simp: clock_turn_def Let_def split_beta)
  have "co_wiring co' = None \<and> last eff = Disconnect transport \<and> co_state co' = each_stream stream_set_stalled ?st"
    if "\<not> go"
    using assms(2) that go by (auto simp: clock_turn_def Let_def split_beta stall_streams_def)
  moreover have "stream_state_of (ss_objects (each_stream stream_set_stalled ?st) ! i) = Stalled"
    if "hm_get (ss_streams ?st) tx = Some i" for tx i
  proof -
    have i: "i < length (ss_objects ?st)" "live (ss_objects ?st ! i)" "si_txid (ss_objects ?st ! i) = tx"
      using inv that by (auto simp: objects_inv_def)
    then have "ss_objects (each_stream stream_set_stalled ?st) ! i = stream_set_stalled (ss_objects ?st ! i)"
      using each_stream_objects(2) [OF inv i(1), of stream_set_stalled] that by simp
    then show ?thesis
      using i(2) by (auto simp: live_def flowing_def stream_set_stalled_def stream_state_of_def stream_state_from_u8_def)
  qed
  ultimately show ?thesis
    using go tick by (auto simp: is_wired_def inbound_activity wire_def Let_def not_le)
qed

theorem silent_peer_detected_witness:
  "fst (clock_turn sample_crc link_up 1 False 89 sample_core) \<and>
   \<not> fst (clock_turn sample_crc link_up 1 False 90 sample_core) \<and>
   stream_state_of (ss_objects (co_state (snd (snd (clock_turn sample_crc link_up 1 False 90 sample_core)))) ! 0) = Stalled"
proof -
  have e: "ss_last_peer_activity_ms (co_state sample_core) = 0" "tc_silent_timeout_ms (co_config sample_core) = 90"
    by code_simp+
  obtain g1 e1 c1 where 1: "clock_turn sample_crc link_up 1 False 89 sample_core = (g1, e1, c1)"
    by (metis surj_pair)
  obtain g2 e2 c2 where 2: "clock_turn sample_crc link_up 1 False 90 sample_core = (g2, e2, c2)"
    by (metis surj_pair)
  have "hm_get (ss_streams (co_state sample_core)) 7 = Some 0"
    by code_simp
  then have s: "hm_get (ss_streams (co_state (snd (snd (clock_turn sample_crc link_up 1 False 90 sample_core))))) 7 = Some 0"
    by (simp add: turn_streams)
  show ?thesis
    using silent_peer_detected [OF sample_core_inv 1] silent_peer_detected [OF sample_core_inv 2] e s 1 2 by auto
qed

lemma take_all_completed:
  assumes "distinct txs" "\<forall>tx\<in>set txs. is_complete r tx" "take_all txs r = (out, r')"
  shows "map fst out = txs \<and> (\<forall>(tx, p)\<in>set out. fst (take_completed r tx) = Some p) \<and>
    (\<forall>u. get_slot r' u = (if u \<in> set txs then None else get_slot r u))"
  using assms
proof (induction txs arbitrary: r out)
  case (Cons tx txs)
  obtain sl where sl: "get_slot r tx = Some sl" "slot_is_complete sl"
    using Cons.prems(2) by (auto simp: is_complete_def split: option.splits)
  let ?r1 = "r\<lparr>ra_slots := hm_del tx (ra_slots r)\<rparr>"
  have t: "take_completed r tx = (Some (concat (map snd (sl_frames sl))), ?r1)"
    using sl by (simp add: take_completed_def)
  obtain out1 where o: "take_all txs ?r1 = (out1, r')" "out = (tx, concat (map snd (sl_frames sl))) # out1"
    using Cons.prems(3) t by (auto split: prod.splits)
  have same: "fst (take_completed ?r1 u) = fst (take_completed r u)" "is_complete ?r1 u = is_complete r u" if "u \<noteq> tx" for u
    using that by (simp_all add: take_completed_def is_complete_def split: option.split)
  have "\<forall>u\<in>set txs. is_complete ?r1 u"
    using Cons.prems(1,2) same(2) by (metis distinct.simps(2) list.set_intros(2))
  from Cons.IH [OF _ this o(1)] have IH: "map fst out1 = txs"
      "\<forall>(u, p)\<in>set out1. fst (take_completed ?r1 u) = Some p"
      "\<forall>u. get_slot r' u = (if u \<in> set txs then None else get_slot ?r1 u)"
    using Cons.prems(1) by auto
  have "fst (take_completed r u) = Some p" if "(u, p) \<in> set out1" for u p
  proof -
    have "u \<noteq> tx"
      using that IH(1) Cons.prems(1) by force
    then show ?thesis
      using that IH(2) same(1) by fastforce
  qed
  then show ?case
    using IH o(2) t by auto
qed simp

text \<open>
  Deferred delivery. With a binary handler present, draining takes exactly the completed
  transactions, each once, with its whole payload; their slots are gone, every other slot is untouched,
  and draining again yields nothing.
\<close>

theorem retained_payloads_drained_once:
  assumes "session_inv (co_state co)" "co_binary_handler co" "drain_completed co = (out, co')"
    and "r = ss_reassembler (co_state co)"
  shows "distinct (map fst out) \<and> (\<forall>tx. tx \<in> fst ` set out \<longleftrightarrow> is_complete r tx) \<and>
    (\<forall>(tx, p)\<in>set out. fst (take_completed r tx) = Some p) \<and>
    (\<forall>tx. get_slot (ss_reassembler (co_state co')) tx = (if is_complete r tx then None else get_slot r tx)) \<and>
    fst (drain_completed co') = []"
proof -
  let ?txs = "filter (is_complete r) (open_transactions r)"
  obtain r' where t: "take_all ?txs r = (out, r')" "ss_reassembler (co_state co') = r'" "co_binary_handler co'"
    using assms(2-4) by (auto simp: drain_completed_def Let_def split: prod.splits)
  have "hm_inv (ra_slots r)"
    using assms(1,4) by (simp add: session_inv_def reassembler_inv_def)
  then have d: "distinct ?txs" and mem: "tx \<in> set ?txs \<longleftrightarrow> is_complete r tx" for tx
    by (auto simp: open_transactions_def hm_keys_def hm_inv_def)
      (metis hm_keys_def hm_keys_iff hm_contains_def image_set is_complete_def option.case(1))
  note a = take_all_completed [OF d _ t(1)]
  have slots: "get_slot r' tx = (if is_complete r tx then None else get_slot r tx)" for tx
    using a mem by auto
  then have "filter (is_complete r') (open_transactions r') = []"
    by (auto simp: filter_empty_conv is_complete_def split: option.splits)
  then have "fst (drain_completed co') = []"
    using t(2,3) by (simp add: drain_completed_def Let_def)
  moreover have "map fst out = ?txs" "\<forall>(tx, p)\<in>set out. fst (take_completed r tx) = Some p"
    using a mem by auto
  moreover from this(1) have "distinct (map fst out)" "\<forall>tx. tx \<in> fst ` set out \<longleftrightarrow> is_complete r tx"
    using d mem by (simp_all only: set_map [symmetric] simp_thms)
  ultimately show ?thesis
    using slots t(2) by auto
qed

text \<open>A session without handlers that received a whole payload and retains it.\<close>

definition sample_retained :: session_core where
  "sample_retained =
    (let co = on_binary (session_new sample_transfer_config 0)
     in co\<lparr>co_state := (co_state co)\<lparr>ss_reassembler :=
          snd (receive_all reassembler_new 0 (map (piece_frame 7 sample_pieces) [0, 1, 2]))\<rparr>\<rparr>)"

lemma sample_retained_inv: "session_inv (co_state sample_retained)"
  using receive_all_inv [OF reassembler_inv_new, of 0 "map (piece_frame 7 sample_pieces) [0, 1, 2]"]
  by (simp add: sample_retained_def session_new_def on_binary_def Let_def session_inv_def table_inv_defs)

theorem retained_payloads_drained_once_witness:
  "\<exists>p co'. drain_completed sample_retained = ([(7, p)], co') \<and> p = [1, 2, 3, 4, 5] \<and> fst (drain_completed co') = []"
proof -
  obtain out co' where d: "drain_completed sample_retained = (out, co')"
    by (metis surj_pair)
  have e: "co_binary_handler sample_retained" "is_complete (ss_reassembler (co_state sample_retained)) 7"
    "hm_keys (ra_slots (ss_reassembler (co_state sample_retained))) = [7]"
    "fst (take_completed (ss_reassembler (co_state sample_retained)) 7) = Some [1, 2, 3, 4, 5]"
    by code_simp+
  have "is_complete (ss_reassembler (co_state sample_retained)) tx \<longleftrightarrow> tx = 7" for tx
  proof (cases "tx = 7")
    case False
    then have "\<not> hm_contains (ra_slots (ss_reassembler (co_state sample_retained))) tx"
      using e(3) by (simp flip: hm_keys_iff)
    then show ?thesis
      using False by (simp add: is_complete_def hm_contains_def)
  qed (use e(2) in simp)
  note r = retained_payloads_drained_once [OF sample_retained_inv e(1) d refl, unfolded this]
  have "set (map fst out) = {7}" "distinct (map fst out)"
    using r by auto
  then have "length (map fst out) = 1"
    by (metis One_nat_def card.empty card_insert_disjoint distinct_card empty_iff finite.emptyI)
  then obtain u p where "out = [(u, p)]"
    by (metis One_nat_def length_0_conv length_Suc_conv length_map surj_pair)
  moreover from this have "u = 7"
    using \<open>set (map fst out) = {7}\<close> by simp
  ultimately show ?thesis
    using r d e(4) by auto
qed

section \<open>Batched acknowledgements\<close>

lemma forget_all_pending:
  "hm_contains (ss_pending_ack_frames (fold forget_acks txs st)) u \<longleftrightarrow>
   u \<notin> set txs \<and> hm_contains (ss_pending_ack_frames st) u"
  by (induction txs arbitrary: st) auto

lemma ack_entry_of_txid: "ack_entry_of r tx = Some e \<Longrightarrow> ae_txid e = tx"
  by (auto simp: ack_entry_of_def split: option.splits)

lemma map_filter_acks:
  "map ae_txid (List.map_filter (ack_entry_of r) txs) = filter (\<lambda>tx. ack_entry_of r tx \<noteq> None) txs"
  by (induction txs) (auto simp: map_filter_simps ack_entry_of_txid split: option.split)

lemma set_map_filter_acks:
  "e \<in> set (List.map_filter (ack_entry_of r) txs) \<longleftrightarrow> ae_txid e \<in> set txs \<and> ack_entry_of r (ae_txid e) = Some e"
  by (induction txs) (auto simp: map_filter_simps dest: ack_entry_of_txid split: option.split)

lemma ack_batch_read:
  assumes "1 \<le> length es" "length es \<le> 255"
  shows "\<exists>w f. send_ack_entries crc es = [WriteControl w] \<and> decode_write crc w = [f] \<and> ack_frame es f"
proof -
  obtain bs where a: "ack_encode \<lparr>ack_entries = es\<rparr> = Inr bs"
    using assms by (auto simp: ack_encode_def entries_encode_def CONTROL_PAYLOAD_CAP_def ACK_ENTRY_LEN_def
        frame_consts length_concat comp_def sum_list_triv)
  obtain w where "send_control crc Ack (Inr bs) = [WriteControl w]" "decode_write crc w = [frame_new Ack 0 0 0 bs]"
    using send_control_read [of Ack bs crc] ack_codec.enc_cap [OF a] by auto
  then show ?thesis
    using ack_codec.dec_enc [OF _ a] a assms(1) by (auto simp: send_ack_entries_def ack_frame_def)
qed

definition ack_batch_due :: "transfer_config \<Rightarrow> nat \<Rightarrow> session_state \<Rightarrow> bool" where
  "ack_batch_due cfg now st \<longleftrightarrow>
    (let n = sum_list (map snd (ss_pending_ack_frames st)) in
     tc_ack_batch_frames cfg \<le> n \<or> 0 < n \<and> tc_ack_batch_interval_ms cfg \<le> now - ss_last_ack_ms st)"

text \<open>
  Batched acknowledgements. When the batch is due, the entries exported are those of exactly the
  transactions with new frames that have a contiguous prefix, one each, and exactly these leave the
  accounting. A batch of up to 255 entries reaches the peer as one ACK frame with these entries; a
  larger one does not encode and is lost, although its accounting is gone.
\<close>

theorem ack_batch_export:
  assumes "session_inv st" "ack_batch_due cfg now st" "export_acks crc cfg now st = (st', eff)"
    and "es = List.map_filter (ack_entry_of (ss_reassembler st)) (hm_keys (ss_pending_ack_frames st))"
  shows "distinct (map ae_txid es) \<and>
    (\<forall>e. e \<in> set es \<longleftrightarrow> hm_contains (ss_pending_ack_frames st) (ae_txid e) \<and>
      ack_entry_of (ss_reassembler st) (ae_txid e) = Some e) \<and>
    (\<forall>tx. hm_contains (ss_pending_ack_frames st') tx \<longleftrightarrow>
      hm_contains (ss_pending_ack_frames st) tx \<and> ack_entry_of (ss_reassembler st) tx = None) \<and>
    (if es = [] \<or> 255 < length es then eff = []
     else \<exists>f. concat (map (peer_reads crc) eff) = [f] \<and> ack_frame es f)"
proof -
  let ?r = "ss_reassembler st" and ?p = "ss_pending_ack_frames st"
  let ?ex = "filter (\<lambda>tx. ack_entry_of ?r tx \<noteq> None) (hm_keys ?p)"
  have st': "st' = (fold forget_acks ?ex st)\<lparr>ss_last_ack_ms := now\<rparr>" and eff: "eff = send_ack_entries crc es"
    using assms(2-4) by (auto simp: export_acks_def ack_batch_due_def Let_def split: if_splits)
  have "distinct (hm_keys ?p)"
    using assms(1) by (simp add: session_inv_def hm_inv_def hm_keys_def)
  then have "distinct (map ae_txid es)"
    by (simp add: assms(4) map_filter_acks)
  moreover have "e \<in> set es \<longleftrightarrow> hm_contains ?p (ae_txid e) \<and> ack_entry_of ?r (ae_txid e) = Some e" for e
    by (simp add: assms(4) set_map_filter_acks hm_keys_iff)
  moreover have "hm_contains (ss_pending_ack_frames st') tx \<longleftrightarrow> hm_contains ?p tx \<and> ack_entry_of ?r tx = None" for tx
    by (auto simp: st' forget_all_pending hm_keys_iff)
  moreover have "if es = [] \<or> 255 < length es then eff = []
     else \<exists>f. concat (map (peer_reads crc) eff) = [f] \<and> ack_frame es f"
  proof -
    have "es = [] \<or> 255 < length es \<Longrightarrow> eff = []"
      by (elim disjE) (simp_all add: eff send_ack_entries_def send_control_def ack_encode_def entries_encode_def check_count_def)
    moreover have "\<exists>f. concat (map (peer_reads crc) eff) = [f] \<and> ack_frame es f" if "es \<noteq> []" "\<not> 255 < length es"
      using ack_batch_read [of es crc] that by (auto simp: eff Suc_le_eq)
    ultimately show ?thesis
      by simp
  qed
  ultimately show ?thesis
    by blast
qed

text \<open>Two new frames of one transaction, of which only the first is contiguous.\<close>

definition sample_acks :: session_state where
  "sample_acks =
    (co_state sample_receiver)\<lparr>
      ss_reassembler := snd (receive_all reassembler_new 0 (map (piece_frame 7 sample_pieces) [0, 2])),
      ss_pending_ack_frames := [(7, 2), (9, 2)]\<rparr>"

lemma sample_acks_inv: "session_inv sample_acks"
  using receive_all_inv [OF reassembler_inv_new, of 0 "map (piece_frame 7 sample_pieces) [0, 2]"]
  by (simp add: sample_acks_def sample_receiver_def session_new_def session_inv_def table_inv_defs hm_inv_def)

theorem ack_batch_export_witness:
  "\<exists>st' eff f. export_acks sample_crc sample_transfer_config 1 sample_acks = (st', eff) \<and>
    concat (map (peer_reads sample_crc) eff) = [f] \<and> ack_frame [sample_entry 7\<lparr>ae_received_frames := 2\<rparr>] f \<and>
    \<not> hm_contains (ss_pending_ack_frames st') 7 \<and> hm_contains (ss_pending_ack_frames st') 9"
proof -
  have e: "ack_batch_due sample_transfer_config 1 sample_acks"
    "List.map_filter (ack_entry_of (ss_reassembler sample_acks)) (hm_keys (ss_pending_ack_frames sample_acks)) =
      [sample_entry 7\<lparr>ae_received_frames := 2\<rparr>]"
    "ack_entry_of (ss_reassembler sample_acks) 9 = None" "ack_entry_of (ss_reassembler sample_acks) 7 \<noteq> None"
    "hm_contains (ss_pending_ack_frames sample_acks) 9"
    by code_simp+
  obtain st' eff where x: "export_acks sample_crc sample_transfer_config 1 sample_acks = (st', eff)"
    by (metis surj_pair)
  show ?thesis
    using ack_batch_export [OF sample_acks_inv e(1) x refl] x e(3-5) unfolding e(2) by auto
qed

end
