(* ===== verification/Transfer_Session.thy ===== *)
theory Transfer_Session
  imports Session_Sink Session_Clock
begin

text \<open>
  The transfer session as one machine: every entry point of \<open>src/src/transfer/\<close> is a step, in any order
  and interleaving, with any transport behaviour. \<open>sink_finish\<close> releases the state lock several times,
  so its sections are steps of their own.
\<close>

section \<open>The machine\<close>

datatype session_op =
    OpInbound link nat frame
  | OpActivity nat
  | OpTurn link nat bool nat
  | OpSendBinary link txid "byte list" "nat option" nat
  | OpOpenSink u32 "txid option" txid nat
  | OpSinkWrite link txid "byte list" nat
  | OpSinkFinish link txid nat nat
  | OpFinishClose link txid nat nat
  | OpFinishWoken link txid nat "frame list"
  | OpFinishRegister link txid nat bool "frame list"
  | OpSinkPause link txid nat
  | OpSinkResume txid nat
  | OpSinkAbort link txid
  | OpWire nat nat nat
  | OpUnwire
  | OpDeclareSends nat
  | OpOnBinary
  | OpOnBinaryStream

fun session_step :: "env \<Rightarrow> session_op \<Rightarrow> session_core \<Rightarrow> effect list \<times> session_core" where
  "session_step ev (OpInbound lk now f) co = handle_inbound ev lk now f co"
| "session_step ev (OpActivity now) co = ([], on_activity co now)"
| "session_step ev (OpTurn lk tr closed now) co = snd (clock_turn (env_crc ev) lk tr closed now co)"
| "session_step ev (OpSendBinary lk tx payload cb now) co = snd (send_binary co lk tx payload cb now)"
| "session_step ev (OpOpenSink tot txo fresh now) co = ([], snd (open_binary_sink co tot txo fresh now))"
| "session_step ev (OpSinkWrite lk tx chunk now) co = snd (sink_write co lk tx chunk now)"
| "session_step ev (OpSinkFinish lk tx cb now) co = snd (sink_finish co lk tx cb now)"
| "session_step ev (OpFinishClose lk tx cb now) co = snd (finish_close co lk tx cb now)"
| "session_step ev (OpFinishWoken lk tx cb fs) co = snd (sink_finish_woken co lk tx cb fs)"
| "session_step ev (OpFinishRegister lk tx cb fl sent) co = snd (finish_register co lk tx cb fl sent)"
| "session_step ev (OpSinkPause lk tx now) co = snd (sink_pause co lk tx now)"
| "session_step ev (OpSinkResume tx now) co = ([], snd (sink_resume co tx now))"
| "session_step ev (OpSinkAbort lk tx) co = snd (sink_abort co lk tx)"
| "session_step ev (OpWire tr now1 now2) co = snd (wire co tr now1 now2)"
| "session_step ev OpUnwire co = unwire co"
| "session_step ev (OpDeclareSends now) co = declare_pending_sends (env_crc ev) now co"
| "session_step ev OpOnBinary co = ([], on_binary co)"
| "session_step ev OpOnBinaryStream co = ([], on_binary_stream co)"

lemma session_step_inv:
  "session_inv (co_state co) \<Longrightarrow> session_inv (co_state (snd (session_step ev op co)))"
  by (cases "(ev, op, co)" rule: session_step.cases)
    (simp_all add: handle_inbound_inv clock_turn_inv send_binary_inv sink_inv wire_inv unwire_inv
      declare_pending_sends_inv on_activity_def on_binary_def on_binary_stream_def session_inv_misc)

interpretation session_machine:
  invariant_machine "\<lambda>op co. snd (session_step ev op co)" "\<lambda>co. session_inv (co_state co)"
  for ev
  by unfold_locales (rule session_step_inv)

section \<open>Completions\<close>

text \<open>The callbacks an operation fired.\<close>

definition fired :: "effect list \<Rightarrow> (nat \<times> binary_send_result) list" where
  "fired eff = List.map_filter (\<lambda>e. case e of Completion cb res \<Rightarrow> Some (cb, res) | _ \<Rightarrow> None) eff"

text \<open>
  What happened to the callbacks of a state: those fired belonged to the transaction they report,
  which is released; all others stand, and their transactions are still held.
\<close>

definition settles :: "session_state \<Rightarrow> (nat \<times> binary_send_result) list \<Rightarrow> session_state \<Rightarrow> bool" where
  "settles st fires st' \<longleftrightarrow>
    distinct (map (br_txid \<circ> snd) fires) \<and>
    (\<forall>(cb, res)\<in>set fires. hm_get (ss_completions st) (br_txid res) = Some cb \<and>
      \<not> contains_transaction (ss_sender st') (br_txid res)) \<and>
    (\<forall>tx cb. hm_get (ss_completions st) tx = Some cb \<longrightarrow>
      (if tx \<in> (br_txid \<circ> snd) ` set fires then hm_get (ss_completions st') tx = None
       else hm_get (ss_completions st') tx = Some cb)) \<and>
    (\<forall>tx. hm_contains (ss_completions st') tx \<longrightarrow> contains_transaction (ss_sender st') tx)"

definition callbacks_held :: "session_state \<Rightarrow> bool" where
  "callbacks_held st \<longleftrightarrow> (\<forall>tx. hm_contains (ss_completions st) tx \<longrightarrow> contains_transaction (ss_sender st) tx)"

lemma settles_quiet:
  assumes "callbacks_held st" "ss_completions st' = ss_completions st"
    and "\<And>tx. contains_transaction (ss_sender st) tx \<Longrightarrow> contains_transaction (ss_sender st') tx"
  shows "settles st [] st'"
  using assms by (auto simp: settles_def callbacks_held_def)

text \<open>Which operations of the sender keep a transaction.\<close>

lemma contains_after:
  "contains_transaction (snd (append_chunk s tx chunk now)) u = contains_transaction s u"
  "contains_transaction (snd (finish_transaction s tx now)) u = contains_transaction s u"
  "contains_transaction (snd (set_paused s tx b now)) u = contains_transaction s u"
  "contains_transaction (snd (handle_nack s tx missing now)) u = contains_transaction s u"
  "contains_transaction (snd (declare_pending s now)) u = contains_transaction s u"
  "contains_transaction (snd (timed_out_declarations s now d)) u = contains_transaction s u"
  "contains_transaction s u \<Longrightarrow> contains_transaction (snd (open_transaction s tx tot now)) u"
proof -
  show "contains_transaction (snd (append_chunk s tx chunk now)) u = contains_transaction s u"
    by (auto simp: append_chunk_def Let_def split_beta contains_transaction_def hm_contains_def split: option.split)
  show "contains_transaction (snd (finish_transaction s tx now)) u = contains_transaction s u"
    by (auto simp: finish_transaction_def push_frame_def Let_def contains_transaction_def hm_contains_def split: option.split)
  show "contains_transaction (snd (set_paused s tx b now)) u = contains_transaction s u"
    by (auto simp: set_paused_def Let_def contains_transaction_def hm_contains_def split: option.split)
  show "contains_transaction (snd (handle_nack s tx missing now)) u = contains_transaction s u"
    by (auto simp: handle_nack_def Let_def split_beta contains_transaction_def hm_contains_def split: option.split)
  show "contains_transaction (snd (declare_pending s now)) u = contains_transaction s u"
    by (simp add: declare_pending_def contains_transaction_def hm_contains_def hm_get_map)
  show "contains_transaction (snd (timed_out_declarations s now d)) u = contains_transaction s u"
    by (simp add: timed_out_declarations_def contains_transaction_def hm_contains_def hm_get_map)
  show "contains_transaction (snd (open_transaction s tx tot now)) u" if "contains_transaction s u"
    using that by (auto simp: open_transaction_def contains_transaction_def)
qed

lemma contains_due: "contains_transaction (snd (due_retransmissions s now)) u = contains_transaction s u"
proof -
  have "contains_transaction (snd (due_loop txs now s out)) u = contains_transaction s u" for txs out
    by (induction txs arbitrary: s out)
      (auto simp: Let_def split_beta contains_transaction_def hm_contains_def split: option.split)
  then show ?thesis
    by (simp add: due_retransmissions_def)
qed

lemma contains_nacks: "contains_transaction (fst (nack_all lk now es s sent)) u = contains_transaction s u"
  by (induction es arbitrary: s sent) (simp_all add: Let_def split_beta contains_after)

lemma contains_ack:
  "contains_transaction (snd (handle_ack s e now)) u \<longleftrightarrow>
   contains_transaction s u \<and> \<not> (fst (handle_ack s e now) \<and> u = ae_txid e)"
  by (auto simp: handle_ack_def Let_def contains_transaction_def hm_contains_def split: option.splits)

text \<open>Acknowledgements release one by one.\<close>

definition shrinks :: "session_state \<Rightarrow> session_state \<Rightarrow> bool" where
  "shrinks st st' \<longleftrightarrow>
    (\<forall>tx cb. hm_get (ss_completions st') tx = Some cb \<longrightarrow> hm_get (ss_completions st) tx = Some cb)"

lemma settles_ack_all:
  "settles st0 (snd acc) (fst acc) \<Longrightarrow> shrinks st0 (fst acc) \<Longrightarrow>
   settles st0 (snd (ack_all now es acc)) (fst (ack_all now es acc))"
proof (induction es arbitrary: acc)
  case (Cons e es)
  obtain st cs where acc: "acc = (st, cs)"
    by (metis surj_pair)
  define final where "final = fst (handle_ack (ss_sender st) e now)"
  define s where "s = snd (handle_ack (ss_sender st) e now)"
  have s: "contains_transaction s u \<longleftrightarrow> contains_transaction (ss_sender st) u \<and> \<not> (final \<and> u = ae_txid e)" for u
    by (simp add: s_def final_def contains_ack)
  let ?acc1 = "(st\<lparr>ss_sender := s\<rparr>, cs)"
  let ?acc2 = "if final then fire_completion (ae_txid e) True ?acc1 else ?acc1"
  have "settles st0 (snd ?acc2) (fst ?acc2)"
  proof (cases "final \<and> hm_contains (ss_completions st) (ae_txid e)")
    case True
    then obtain cb where cb: "hm_get (ss_completions st) (ae_txid e) = Some cb"
      "hm_get (ss_completions st0) (ae_txid e) = Some cb"
      using Cons.prems(2) by (auto simp: acc shrinks_def hm_contains_def)
    have "contains_transaction (ss_sender st) (ae_txid e)"
      using Cons.prems(1) True by (simp add: acc settles_def)
    then have "ae_txid e \<notin> (br_txid \<circ> snd) ` set cs"
      using Cons.prems(1) by (auto simp: acc settles_def)
    then show ?thesis
      using Cons.prems(1) True cb s
      by (auto simp: acc settles_def fire_completion_def) (metis (mono_tags, lifting) image_eqI snd_conv)
  next
    case False
    then show ?thesis
      using Cons.prems(1) s by (auto simp: acc settles_def fire_completion_def hm_contains_def split: option.split)
  qed
  moreover have "shrinks st0 (fst ?acc2)"
    using Cons.prems(2) by (auto simp: acc shrinks_def fire_completion_def split: option.split)
  moreover have "ack_all now (e # es) acc = ack_all now es ?acc2"
    by (simp add: acc Let_def split_beta s_def final_def)
  ultimately show ?case
    using Cons.IH by (simp only:)
qed simp

text \<open>Verdicts release in bulk, then fire.\<close>

lemma map_filter_cong: "(\<And>x. x \<in> set xs \<Longrightarrow> g x = h x) \<Longrightarrow> List.map_filter g xs = List.map_filter h xs"
  by (induction xs) (auto simp: map_filter_simps split: option.split)

lemma fire_all:
  "distinct txs \<Longrightarrow>
   fst (fold (\<lambda>tx. fire_completion tx b) txs (st, cs)) = st\<lparr>ss_completions := fold hm_del txs (ss_completions st)\<rparr> \<and>
   snd (fold (\<lambda>tx. fire_completion tx b) txs (st, cs)) = cs @
     List.map_filter (\<lambda>tx. map_option (\<lambda>cb. (cb, \<lparr>br_txid = tx, br_confirmed = b\<rparr>)) (hm_get (ss_completions st) tx)) txs"
proof (induction txs arbitrary: st cs)
  case (Cons tx txs)
  let ?g = "\<lambda>m tx. map_option (\<lambda>cb. (cb, \<lparr>br_txid = tx, br_confirmed = b\<rparr>)) (hm_get m tx)"
  have "List.map_filter (?g (hm_del tx (ss_completions st))) txs = List.map_filter (?g (ss_completions st)) txs"
    using Cons.prems by (intro map_filter_cong) auto
  then show ?case
    using Cons.IH [of "st\<lparr>ss_completions := hm_del tx (ss_completions st)\<rparr>"] Cons.IH [of st cs] Cons.prems
    by (cases "hm_get (ss_completions st) tx") (auto simp: fire_completion_def map_filter_simps hm_contains_def)
qed (simp add: map_filter_simps)

lemma hm_get_fold_del: "hm_get (fold hm_del txs m) u = (if u \<in> set txs then None else hm_get m u)"
  by (induction txs arbitrary: m) auto

lemma settles_verdicts:
  assumes "callbacks_held st" "apply_resume_verdicts (ss_sender st) es now = (v, s)"
    and "fold (\<lambda>tx. fire_completion tx False) (rv_failed v)
          (fold (\<lambda>tx. fire_completion tx True) (rv_confirmed v) (st\<lparr>ss_sender := s\<rparr>, [])) = (st', cs)"
  shows "settles st cs st'"
proof -
  let ?C = "ss_completions st"
  let ?g = "\<lambda>b tx. map_option (\<lambda>cb. (cb, \<lparr>br_txid = tx, br_confirmed = b\<rparr>)) (hm_get ?C tx)"
  have "verdict_loop now es (ss_sender st) \<lparr>rv_retransmit = [], rv_confirmed = [], rv_failed = []\<rparr> = (s, v)"
    using assms(2) by (simp add: apply_resume_verdicts_def split_beta prod_eq_iff)
  from verdict_loop_effect [OF this] have v: "distinct (rv_confirmed v @ rv_failed v)"
    "set (rv_confirmed v @ rv_failed v) = {tx. contains_transaction (ss_sender st) tx \<and> closing es tx}"
    "contains_transaction s tx \<longleftrightarrow> contains_transaction (ss_sender st) tx \<and> \<not> closing es tx" for tx
    by (auto simp: contains_transaction_def)
  have d: "distinct (rv_confirmed v)" "distinct (rv_failed v)" "set (rv_confirmed v) \<inter> set (rv_failed v) = {}"
    using v(1) by auto
  have same: "List.map_filter (\<lambda>tx. map_option (\<lambda>cb. (cb, \<lparr>br_txid = tx, br_confirmed = False\<rparr>))
        (hm_get (fold hm_del (rv_confirmed v) ?C) tx)) (rv_failed v) = List.map_filter (?g False) (rv_failed v)"
    using d(3) by (intro map_filter_cong) (auto simp: hm_get_fold_del)
  have f1: "fold (\<lambda>tx. fire_completion tx True) (rv_confirmed v) (st\<lparr>ss_sender := s\<rparr>, []) =
      (st\<lparr>ss_sender := s, ss_completions := fold hm_del (rv_confirmed v) ?C\<rparr>, List.map_filter (?g True) (rv_confirmed v))"
    using fire_all [OF d(1), of True "st\<lparr>ss_sender := s\<rparr>" "[]"] by (simp add: prod_eq_iff)
  have res: "ss_completions st' = fold hm_del (rv_failed v) (fold hm_del (rv_confirmed v) ?C)" "ss_sender st' = s"
    "cs = List.map_filter (?g True) (rv_confirmed v) @ List.map_filter (?g False) (rv_failed v)"
    using assms(3) same unfolding f1 prod_eq_iff
    by (auto simp: fire_all [OF d(2)])
  have ids: "map (br_txid \<circ> snd) (List.map_filter (?g b) txs) = filter (hm_contains ?C) txs" for b txs
    by (induction txs) (auto simp: map_filter_simps hm_contains_def split: option.split)
  have cs: "map (br_txid \<circ> snd) cs = filter (hm_contains ?C) (rv_confirmed v @ rv_failed v)"
    by (simp add: res(3) ids)
  have "(cb, r) \<in> set cs \<Longrightarrow> hm_get ?C (br_txid r) = Some cb" for cb r
    by (auto simp: res(3) map_filter_def)
  moreover have "hm_get (ss_completions st') tx = (if closing es tx \<and> contains_transaction (ss_sender st) tx then None else hm_get ?C tx)" for tx
    using v(2) by (auto simp: res(1) hm_get_fold_del)
  moreover have mem: "tx \<in> (br_txid \<circ> snd) ` set cs \<longleftrightarrow> hm_contains ?C tx \<and> contains_transaction (ss_sender st) tx \<and> closing es tx" for tx
    using arg_cong [OF cs, of set] v(2) by auto
  moreover have "(cb, r) \<in> set cs \<Longrightarrow> closing es (br_txid r)" for cb r
    using mem [of "br_txid r"] by (metis comp_apply imageI snd_conv)
  moreover have "distinct (map (br_txid \<circ> snd) cs)"
    using v(1) unfolding cs by (rule distinct_filter)
  ultimately show ?thesis
    using assms(1) v(3)
    by (auto simp: settles_def callbacks_held_def res(2) hm_contains_def split: if_splits)
qed

subsection \<open>Which effects fire callbacks\<close>

lemma fired_simps [simp]:
  "fired [] = []" "fired (a @ b) = fired a @ fired b" "fired (map WriteData fs) = []"
  "fired (WriteControl w # eff) = fired eff" "fired (WriteData f # eff) = fired eff"
  "fired (StreamHandler i # eff) = fired eff" "fired (Deliver tx p # eff) = fired eff"
  "fired (SetHooks n h # eff) = fired eff" "fired (Disconnect n # eff) = fired eff"
  "fired (Completion cb res # eff) = (cb, res) # fired eff"
  by (simp_all add: fired_def map_filter_def comp_def)

lemma fired_completions [simp]: "fired (map (\<lambda>(cb, res). Completion cb res) cs) = cs"
  by (induction cs) auto

lemma fired_controls [simp]:
  "fired (send_control crc t enc) = []" "fired (send_ack_entries crc es) = []" "fired (deliver co tx p) = []"
  by (simp_all add: send_control_def send_ack_entries_def deliver_def split: sum.split)

lemma fired_deliveries [simp]: "fired (concat (map (\<lambda>(tx, p). deliver co tx p) ds)) = []"
  by (induction ds) auto

lemma fired_concat: "(\<And>x. x \<in> set xs \<Longrightarrow> fired (g x) = []) \<Longrightarrow> fired (concat (map g xs)) = []"
  by (induction xs) auto

subsection \<open>Inbound frames\<close>

lemma data_frame_quiet:
  "ss_sender (fst (on_data_frame crc f hp sp now st)) = ss_sender st"
  "ss_completions (fst (on_data_frame crc f hp sp now st)) = ss_completions st"
  "io_completions (snd (on_data_frame crc f hp sp now st)) = []"
  "fired (io_writes (snd (on_data_frame crc f hp sp now st))) = []"
proof -
  have 1: "ss_sender (open_stream tx tot ems st) = ss_sender st"
      "ss_completions (open_stream tx tot ems st) = ss_completions st" for tx tot ems st
    by (simp_all add: open_stream_def Let_def split: option.split)
  have 2: "ss_sender (fst (complete_inbound crc tx hp st)) = ss_sender st"
      "ss_completions (fst (complete_inbound crc tx hp st)) = ss_completions st"
      "fired (fst (snd (complete_inbound crc tx hp st))) = []" for tx st
    by (simp_all add: complete_inbound_def Let_def split: prod.split option.split)
  show "ss_sender (fst (on_data_frame crc f hp sp now st)) = ss_sender st"
    "ss_completions (fst (on_data_frame crc f hp sp now st)) = ss_completions st"
    "io_completions (snd (on_data_frame crc f hp sp now st)) = []"
    "fired (io_writes (snd (on_data_frame crc f hp sp now st))) = []"
    by (simp_all add: on_data_frame_def Let_def split_beta 1 2 no_out_def split: prod.split sum.split receive_outcome.split)
qed

lemma dispatch_quiet:
  assumes "f_type f \<noteq> Ack" "f_type f \<noteq> ResumeResponse" "dispatch ev lk hp sp now f st = (st', out)"
  shows "ss_completions st' = ss_completions st \<and>
    (\<forall>u. contains_transaction (ss_sender st') u = contains_transaction (ss_sender st) u) \<and>
    io_completions out = [] \<and> fired (io_writes out) = []"
  using assms data_frame_quiet [of "env_crc ev" f hp sp now st]
  by (cases "f_type f")
    (auto simp: dispatch_def split_beta on_nack_frame_def Let_def contains_nacks
      on_resume_request_frame_def abandon_all_tables no_out_def
      on_transaction_pause_frame_def on_transaction_abort_frame_def on_transaction_completed_frame_def
      on_error_frame_def split: sum.splits option.splits if_splits)

lemma settles_dispatch:
  assumes "callbacks_held st" "dispatch ev link_up hp sp now f st = (st', out)"
  shows "settles st (io_completions out) st' \<and> fired (io_writes out) = []"
proof -
  have base: "settles st [] st" "shrinks st st"
    using assms(1) by (auto simp: settles_quiet shrinks_def)
  consider (ack) "f_type f = Ack" | (response) "f_type f = ResumeResponse"
    | (other) "f_type f \<noteq> Ack" "f_type f \<noteq> ResumeResponse"
    by blast
  then show ?thesis
  proof cases
    case ack
    then show ?thesis
      using assms(2) base settles_ack_all [of st "(st, [])" now]
      by (auto simp: dispatch_def split_beta on_ack_frame_def Let_def no_out_def split: sum.splits)
  next
    case response
    show ?thesis
    proof (cases "resume_response_decode (f_payload f)")
      case (Inl e)
      then show ?thesis
        using assms(2) base response by (auto simp: dispatch_def on_resume_response_frame_def no_out_def)
    next
      case (Inr p)
      obtain v s where v: "apply_resume_verdicts (ss_sender st) (rp_entries p) now = (v, s)"
        by (metis surj_pair)
      have "settles st (io_completions out) st'"
        by (rule settles_verdicts [OF assms(1) v])
          (use assms(2) response Inr v in \<open>auto simp: dispatch_def on_resume_response_frame_def Let_def split_beta no_out_def prod_eq_iff\<close>)
      then show ?thesis
        using assms(2) response Inr v by (auto simp: dispatch_def on_resume_response_frame_def Let_def split_beta no_out_def)
    qed
  next
    case other
    then show ?thesis
      using dispatch_quiet [OF other assms(2)] settles_quiet [OF assms(1), of st'] by simp
  qed
qed

lemma callbacks_held_activity [simp]: "callbacks_held (st\<lparr>ss_last_peer_activity_ms := now\<rparr>) = callbacks_held st"
  by (simp add: callbacks_held_def)

lemma settles_activity [simp]: "settles (st\<lparr>ss_last_peer_activity_ms := now\<rparr>) cs st' = settles st cs st'"
  by (simp add: settles_def)

lemma settles_inbound:
  assumes "callbacks_held (co_state co)" "handle_inbound ev link_up now f co = (eff, co')"
  shows "settles (co_state co) (fired eff) (co_state co')"
proof -
  obtain st' out where d: "dispatch ev link_up (co_binary_handler co) (co_stream_handler co) now f
      ((co_state co)\<lparr>ss_last_peer_activity_ms := now\<rparr>) = (st', out)"
    by (metis surj_pair)
  have "settles (co_state co) (io_completions out) st'" "fired (io_writes out) = []"
    using settles_dispatch [OF _ d] assms(1) by simp_all
  then show ?thesis
    using assms(2) d by (auto simp: handle_inbound_def Let_def split: option.split if_splits)
qed

subsection \<open>The clock and the wiring\<close>

lemma turn_quiet:
  "ss_completions (co_state (snd (snd (clock_turn crc lk tr closed now co)))) = ss_completions (co_state co)"
  "contains_transaction (ss_sender (co_state (snd (snd (clock_turn crc lk tr closed now co))))) u =
     contains_transaction (ss_sender (co_state co)) u"
  "fired (fst (snd (clock_turn crc lk tr closed now co))) = []"
proof -
  have nack: "fired (concat (map (nack_report crc r) txs)) = []" for r txs
    by (rule fired_concat) (simp add: nack_report_def Let_def)
  have tick: "ss_completions (snd (snd (clock_tick crc cfg lk now st))) = ss_completions st"
    "contains_transaction (ss_sender (snd (snd (clock_tick crc cfg lk now st)))) u = contains_transaction (ss_sender st) u"
    "fired (fst (snd (clock_tick crc cfg lk now st))) = []" for cfg st
    by (simp_all add: clock_tick_def Let_def split_beta heartbeat_def export_acks_def export_nacks_def
        forget_all_fields contains_after contains_due nack send_resume_frame_def)
  show "ss_completions (co_state (snd (snd (clock_turn crc lk tr closed now co)))) = ss_completions (co_state co)"
    "contains_transaction (ss_sender (co_state (snd (snd (clock_turn crc lk tr closed now co))))) u =
       contains_transaction (ss_sender (co_state co)) u"
    "fired (fst (snd (clock_turn crc lk tr closed now co))) = []"
    by (simp_all add: clock_turn_def Let_def split_beta tick stall_streams_def drain_completed_def
        detach_connection_def split: option.split)
qed

subsection \<open>Sending\<close>

lemma settles_send:
  assumes "callbacks_held (co_state co)" "session_inv (co_state co)"
  shows "settles (co_state co) [] (co_state (snd (admit_payload co tx payload cb now)))"
proof (cases rule: admit_payload_cases [of co tx payload cb now])
  case full
  then show ?thesis
    using assms(1) by (simp add: settles_quiet)
next
  case (rejected s e)
  have "contains_transaction (ss_sender (co_state (snd (admit_payload co tx payload cb now)))) u"
    if "contains_transaction (ss_sender (co_state co)) u" for u
    using that by (simp add: admit_payload_def Let_def split_beta contains_after split: sum.split)
  then show ?thesis
    using assms(1) rejected by (simp add: settles_quiet)
next
  case (admitted s1 fs1 s2 fs2 s3)
  have c: "contains_transaction s3 u \<longleftrightarrow> contains_transaction s1 u" for u
    using admitted(3,4) contains_after(1,2) by (metis snd_conv)
  have new: "\<not> contains_transaction (ss_sender (co_state co)) tx"
    "contains_transaction s1 u \<longleftrightarrow> u = tx \<or> contains_transaction (ss_sender (co_state co)) u" for u
    using admitted(2) by (auto simp: open_transaction_def contains_transaction_def split: if_splits)
  then have "hm_get (ss_completions (co_state co)) tx = None"
    using assms(1) by (auto simp: callbacks_held_def hm_contains_def)
  then show ?thesis
    using admitted(5) assms(1) c new by (auto simp: settles_def callbacks_held_def split: option.split if_splits)
qed

lemma fired_send_binary: "fired (fst (snd (send_binary co lk tx payload cb now))) = []"
  by (auto simp: send_binary_def split: prod.split sum.split option.split)

subsection \<open>Sinks\<close>

lemma fired_sink_write: "fired (fst (snd (sink_write co lk tx chunk now))) = []"
proof -
  obtain r s where a: "append_chunk (ss_sender (co_state co)) tx chunk now = (r, s)"
    by (metis surj_pair)
  show ?thesis
  proof (cases r)
    case (Inl e)
    then show ?thesis
      by (cases e) (simp_all add: sink_write_def Let_def a)
  qed (simp add: sink_write_def Let_def a)
qed

lemma settles_abort:
  assumes "callbacks_held (co_state co)"
  shows "settles (co_state co) (fired (fst (snd (sink_abort co lk tx)))) (co_state (snd (snd (sink_abort co lk tx))))"
proof -
  let ?st = "co_state co"
  have "fired (fst (snd (sink_abort co lk tx))) = (case hm_get (ss_completions ?st) tx of
      Some cb \<Rightarrow> [(cb, \<lparr>br_txid = tx, br_confirmed = False\<rparr>)] | None \<Rightarrow> [])"
    using assms
    by (auto simp: sink_abort_def Let_def split_beta txid_control_frames abort_transaction_def callbacks_held_def
        contains_transaction_def hm_contains_def split: option.split)
  then show ?thesis
    using assms by (auto simp: sink_abort_state settles_def callbacks_held_def abort_transaction_def
        contains_transaction_def hm_contains_def split: option.split)
qed

lemma settles_register:
  assumes "callbacks_held (co_state co)" "hm_get (ss_completions (co_state co)) tx = None"
  shows "settles (co_state co) (fired (fst (snd (finish_register co lk tx cb fl sent))))
    (co_state (snd (snd (finish_register co lk tx cb fl sent))))"
  using assms by (auto simp: finish_register_def Let_def settles_def callbacks_held_def)

lemma settles_close:
  assumes "callbacks_held (co_state co)" "hm_get (ss_completions (co_state co)) tx = None"
  shows "settles (co_state co) (fired (fst (snd (finish_close co lk tx cb now))))
    (co_state (snd (snd (finish_close co lk tx cb now))))"
proof -
  obtain r s where f: "finish_transaction (ss_sender (co_state co)) tx now = (r, s)"
    by (metis surj_pair)
  have c: "contains_transaction s u = contains_transaction (ss_sender (co_state co)) u" for u
    using contains_after(2) [of "ss_sender (co_state co)" tx now u] f by simp
  let ?co = "set_sender s co"
  have held: "callbacks_held (co_state ?co)" "hm_get (ss_completions (co_state ?co)) tx = None"
    using assms c by (simp_all add: callbacks_held_def)
  have lift: "settles (co_state ?co) cs st' \<longleftrightarrow> settles (co_state co) cs st'" for cs st'
    by (simp add: settles_def)
  have quiet: "settles (co_state co) [] (co_state ?co)"
    using assms(1) c by (intro settles_quiet) simp_all
  show ?thesis
  proof (cases r)
    case (Inl e)
    then show ?thesis
      using settles_abort [OF held(1), of lk tx] unfolding lift by (simp add: finish_close_def f split_beta)
  next
    case (Inr fs)
    then show ?thesis
      using settles_register [OF held, of lk cb] quiet unfolding lift
      by (simp add: finish_close_def f finish_flush_def split_beta Let_def)
  qed
qed

text \<open>
  The conditions of the code's own API: a transaction is finished once (\<open>BinarySink::finish\<close> consumes
  the sink), and the retransmissions a RESUME response asks for can be written.
\<close>

fun orderly :: "session_op \<Rightarrow> session_core \<Rightarrow> bool" where
  "orderly (OpInbound lk now f) co \<longleftrightarrow> lk = link_up"
| "orderly (OpSinkFinish lk tx cb now) co \<longleftrightarrow> hm_get (ss_completions (co_state co)) tx = None"
| "orderly (OpFinishClose lk tx cb now) co \<longleftrightarrow> hm_get (ss_completions (co_state co)) tx = None"
| "orderly (OpFinishWoken lk tx cb fs) co \<longleftrightarrow> hm_get (ss_completions (co_state co)) tx = None"
| "orderly (OpFinishRegister lk tx cb fl sent) co \<longleftrightarrow> hm_get (ss_completions (co_state co)) tx = None"
| "orderly _ co \<longleftrightarrow> True"

lemma settles_step:
  assumes "session_inv (co_state co)" "callbacks_held (co_state co)" "orderly op co"
  shows "settles (co_state co) (fired (fst (session_step ev op co))) (co_state (snd (session_step ev op co)))"
  using assms(3)
proof (cases "(ev, op, co)" rule: session_step.cases)
  case (1 ev lk now f co)
  then show ?thesis
    using assms settles_inbound [of co ev now f] by (simp add: prod_eq_iff)
next
  case (4 ev lk tx payload cb now co)
  then show ?thesis
    using settles_send [OF assms(2,1)] fired_send_binary send_binary_core by simp
next
  case (5 ev tot txo fresh now co)
  have "ss_completions (co_state (snd (open_binary_sink co tot txo fresh now))) = ss_completions (co_state co)"
    "contains_transaction (ss_sender (co_state co)) u \<Longrightarrow>
      contains_transaction (ss_sender (co_state (snd (open_binary_sink co tot txo fresh now)))) u" for u
    by (simp_all add: open_binary_sink_def Let_def split_beta contains_after split: sum.split)
  then show ?thesis
    using 5 assms(2) by (simp add: settles_quiet)
next
  case (6 ev lk tx chunk now co)
  then show ?thesis
    using assms(2) sink_write_core [of co lk tx chunk now] fired_sink_write [of co lk tx chunk now]
    by (auto simp: contains_after intro!: settles_quiet)
next
  case (7 ev lk tx cb now co)
  then show ?thesis
    using assms settles_close [of co tx lk cb now] by (simp add: sink_finish_def settles_quiet)
qed (use assms in \<open>simp_all add: settles_quiet on_activity_def turn_quiet settles_close settles_register
      sink_finish_woken_def finish_flush_def split_beta settles_abort sink_pause_def sink_resume_def Let_def
      txid_control_frames contains_after wire_def unwire_def detach_connection_def stall_streams_def
      declare_pending_sends_def send_resume_declaration_def send_resume_frame_def on_binary_def on_binary_stream_def
      split: option.split\<close>)

section \<open>Runs\<close>

primrec run_ops :: "env \<Rightarrow> session_op list \<Rightarrow> session_core \<Rightarrow> effect list \<times> session_core" where
  "run_ops ev [] co = ([], co)"
| "run_ops ev (op # ops) co =
    (let (eff, co1) = session_step ev op co; (effs, co2) = run_ops ev ops co1 in (eff @ effs, co2))"

primrec orderly_run :: "env \<Rightarrow> session_op list \<Rightarrow> session_core \<Rightarrow> bool" where
  "orderly_run ev [] co \<longleftrightarrow> True"
| "orderly_run ev (op # ops) co \<longleftrightarrow> orderly op co \<and> orderly_run ev ops (snd (session_step ev op co))"

lemma run_ops_core: "snd (run_ops ev ops co) = session_machine.run ev ops co"
  by (induction ops arbitrary: co) (simp_all add: session_machine.run_def split_beta Let_def)

lemma run_ops_inv: "session_inv (co_state co) \<Longrightarrow> session_inv (co_state (snd (run_ops ev ops co)))"
  unfolding run_ops_core by (rule session_machine.run_good)

lemma settles_held: "settles st cs st' \<Longrightarrow> callbacks_held st'"
  by (simp add: settles_def callbacks_held_def)

lemma orderly_run_held:
  "session_inv (co_state co) \<Longrightarrow> callbacks_held (co_state co) \<Longrightarrow> orderly_run ev ops co \<Longrightarrow>
   callbacks_held (co_state (snd (run_ops ev ops co)))"
proof (induction ops arbitrary: co)
  case (Cons op ops)
  have "callbacks_held (co_state (snd (session_step ev op co)))"
    using settles_held [OF settles_step [OF Cons.prems(1,2)]] Cons.prems(3) by simp
  then show ?case
    using Cons.IH [OF session_step_inv [OF Cons.prems(1)]] Cons.prems(3) by (simp add: split_beta Let_def)
qed simp

lemma orderly_run_snoc:
  "orderly_run ev (ops @ [op]) co \<longleftrightarrow> orderly_run ev ops co \<and> orderly op (snd (run_ops ev ops co))"
  by (induction ops arbitrary: co) (simp_all add: split_beta Let_def)

lemma callbacks_held_new [simp]: "callbacks_held (co_state (session_new cfg now))"
  by (simp add: callbacks_held_def session_new_def)

lemma fired_once:
  assumes "distinct (map f xs)" "x \<in> set xs" "f x = k"
  shows "filter (\<lambda>y. f y = k) xs = [x]"
  using assms
proof (induction xs)
  case (Cons y ys)
  show ?case
  proof (cases "f y = k")
    case True
    then have "x = y" "filter (\<lambda>z. f z = k) ys = []"
      using Cons.prems by (auto simp: filter_empty_conv image_iff)
    then show ?thesis
      using True by simp
  qed (use Cons in auto)
qed simp

section \<open>Properties\<close>

text \<open>
  C8. Every state a session can reach, by any interleaving of its entry points, over any transport and
  at any instants, is well formed: the bytes retained for the peer stay under the configured cap, and
  every stream handed to a reader is either ended (terminal state, and the reader reaches the end after
  the queued chunks) or live (not terminal, its channel open), in which case its transaction still has
  an open, incomplete slot that can feed it.
\<close>

theorem session_invariant_reachable:
  "let st = co_state (snd (run_ops ev ops (session_new cfg now))) in
   session_inv st \<and>
   unacked_bytes (ss_sender st) \<le> sc_backpressure_cap_bytes (ts_config (ss_sender st)) \<and>
   (\<forall>si\<in>set (ss_objects st).
     if is_terminal (stream_state_of si) then snd (drain si) = ReadEnd
     else snd (drain si) = ReadPending \<and> slot_exists (ss_reassembler st) (si_txid si) \<and>
       \<not> is_complete (ss_reassembler st) (si_txid si))"
proof -
  define st where "st = co_state (snd (run_ops ev ops (session_new cfg now)))"
  have inv: "session_inv st"
    unfolding st_def by (rule run_ops_inv) simp
  have "if is_terminal (stream_state_of si) then snd (drain si) = ReadEnd
     else snd (drain si) = ReadPending \<and> slot_exists (ss_reassembler st) (si_txid si) \<and>
       \<not> is_complete (ss_reassembler st) (si_txid si)" if mem: "si \<in> set (ss_objects st)" for si
  proof -
    obtain i where i: "i < length (ss_objects st)" "si = ss_objects st ! i"
      using mem by (auto simp: in_set_conv_nth)
    then consider "ended si" | "hm_get (ss_streams st) (si_txid si) = Some i" "live si"
      using inv unfolding session_inv_def objects_inv_def by blast
    then show ?thesis
    proof cases
      case 1
      then show ?thesis
        by (auto simp: ended_def stream_state_of_def drain_eq Let_def)
    next
      case 2
      then have "\<not> is_terminal (stream_state_of si)"
        by (auto simp: live_def flowing_def stream_state_of_def stream_state_from_u8_def Let_def)
      then show ?thesis
        using 2 inv by (auto simp: session_inv_def slots_inv_def hm_contains_def drain_eq live_def)
    qed
  qed
  moreover have "unacked_bytes (ss_sender st) \<le> sc_backpressure_cap_bytes (ts_config (ss_sender st))"
    using inv by (simp add: session_inv_def sender_inv_def)
  ultimately show ?thesis
    using inv by (simp flip: st_def)
qed

text \<open>A stream handler is registered and the first frame of a payload arrives.\<close>

theorem session_invariant_reachable_witness:
  "map (\<lambda>si. snd (drain si)) (ss_objects (co_state (snd (run_ops sample_env
      [OpOnBinaryStream, OpInbound link_up 3 (piece_frame 7 sample_pieces 0)]
      (session_new sample_transfer_config 0))))) = [ReadPending]"
proof -
  let ?st = "co_state (snd (run_ops sample_env [OpOnBinaryStream, OpInbound link_up 3 (piece_frame 7 sample_pieces 0)]
      (session_new sample_transfer_config 0)))"
  have "map (\<lambda>si. is_terminal (stream_state_of si)) (ss_objects ?st) = [False]"
    by code_simp
  then obtain si where "ss_objects ?st = [si]" "\<not> is_terminal (stream_state_of si)"
    by auto
  then show ?thesis
    using session_invariant_reachable [of sample_env "[OpOnBinaryStream, OpInbound link_up 3 (piece_frame 7 sample_pieces 0)]"
        sample_transfer_config 0] unfolding Let_def by simp
qed

text \<open>
  C7. Completion callbacks, at every step of every orderly run. A callback that is registered belongs
  to a transaction the sender still holds. In the next step, either the transaction is still held
  afterwards and then the callback has not fired and is still registered, or the transaction has been
  settled and then the callback has fired exactly once and is gone. Nothing else fires.
\<close>

theorem completion_exactly_once:
  assumes "orderly_run ev (ops @ [op]) (session_new cfg now)"
    and "run_ops ev ops (session_new cfg now) = (past, co)" "session_step ev op co = (eff, co')"
  shows "(\<forall>tx cb. hm_get (ss_completions (co_state co)) tx = Some cb \<longrightarrow>
      contains_transaction (ss_sender (co_state co)) tx \<and>
      (if contains_transaction (ss_sender (co_state co')) tx
       then hm_get (ss_completions (co_state co')) tx = Some cb \<and>
         filter (\<lambda>fire. br_txid (snd fire) = tx) (fired eff) = []
       else hm_get (ss_completions (co_state co')) tx = None \<and>
         map fst (filter (\<lambda>fire. br_txid (snd fire) = tx) (fired eff)) = [cb])) \<and>
    (\<forall>(cb, res)\<in>set (fired eff). hm_get (ss_completions (co_state co)) (br_txid res) = Some cb)"
proof -
  let ?new = "session_new cfg now"
  have run: "orderly_run ev ops ?new" "orderly op (snd (run_ops ev ops ?new))"
    using assms(1) by (simp_all add: orderly_run_snoc)
  have held: "callbacks_held (co_state co)"
    using orderly_run_held [OF session_inv_new callbacks_held_new run(1)] assms(2) by simp
  have inv: "session_inv (co_state co)"
    using run_ops_inv [OF session_inv_new, of ev ops cfg now] assms(2) by simp
  have s: "settles (co_state co) (fired eff) (co_state co')"
    using settles_step [OF inv held, of op ev] run(2) assms(2,3) by simp
  have d: "distinct (map (br_txid \<circ> snd) (fired eff))"
    using s by (simp add: settles_def)
  have "contains_transaction (ss_sender (co_state co)) tx \<and>
      (if contains_transaction (ss_sender (co_state co')) tx
       then hm_get (ss_completions (co_state co')) tx = Some cb \<and>
         filter (\<lambda>fire. br_txid (snd fire) = tx) (fired eff) = []
       else hm_get (ss_completions (co_state co')) tx = None \<and>
         map fst (filter (\<lambda>fire. br_txid (snd fire) = tx) (fired eff)) = [cb])"
    if cb: "hm_get (ss_completions (co_state co)) tx = Some cb" for tx cb
  proof (cases "tx \<in> (br_txid \<circ> snd) ` set (fired eff)")
    case True
    then obtain fire where fire: "fire \<in> set (fired eff)" "br_txid (snd fire) = tx"
      by auto
    then have "fst fire = cb" "\<not> contains_transaction (ss_sender (co_state co')) tx"
        "hm_get (ss_completions (co_state co')) tx = None"
      using s cb True by (auto simp: settles_def)
    then show ?thesis
      using fired_once [OF d fire(1), of tx] fire(2) held cb by (simp add: callbacks_held_def hm_contains_def)
  next
    case False
    then have "hm_get (ss_completions (co_state co')) tx = Some cb"
      using s cb by (auto simp: settles_def)
    moreover from this have "contains_transaction (ss_sender (co_state co')) tx"
      using settles_held [OF s] by (simp add: callbacks_held_def hm_contains_def)
    ultimately show ?thesis
      using False held cb by (auto simp: callbacks_held_def hm_contains_def filter_empty_conv)
  qed
  moreover have "\<forall>(cb, res)\<in>set (fired eff). hm_get (ss_completions (co_state co)) (br_txid res) = Some cb"
    using s by (auto simp: settles_def)
  ultimately show ?thesis
    by blast
qed

text \<open>A whole payload is sent, then its sink is aborted.\<close>

theorem completion_exactly_once_witness:
  "map fst (fired (fst (session_step sample_env (OpSinkAbort link_up 5)
     (snd (run_ops sample_env [OpSendBinary link_up 5 [1, 2, 3] (Some 77) 0] (session_new sample_transfer_config 0)))))) = [77]"
proof -
  let ?new = "session_new sample_transfer_config 0" and ?ops = "[OpSendBinary link_up 5 [1, 2, 3] (Some 77) 0]"
  obtain past co where 1: "run_ops sample_env ?ops ?new = (past, co)"
    by (metis surj_pair)
  obtain eff co' where 2: "session_step sample_env (OpSinkAbort link_up 5) co = (eff, co')"
    by (metis surj_pair)
  have co: "co = snd (admit_payload ?new 5 [1, 2, 3] (Some 77) 0)"
    using arg_cong [OF 1, of snd] by (simp add: split_beta Let_def send_binary_core)
  have "hm_get (ss_completions (co_state co)) 5 = Some 77"
    unfolding co by code_simp
  moreover have "\<not> contains_transaction (ss_sender (co_state co')) 5"
    using arg_cong [OF 2, of snd] by (auto simp: sink_abort_state abort_transaction_def contains_transaction_def)
  moreover have "orderly_run sample_env (?ops @ [OpSinkAbort link_up 5]) ?new"
    by simp
  ultimately have "map fst (filter (\<lambda>fire. br_txid (snd fire) = 5) (fired eff)) = [77]"
      "\<forall>(cb, res)\<in>set (fired eff). hm_get (ss_completions (co_state co)) (br_txid res) = Some cb"
    using completion_exactly_once [OF _ 1 2] by auto
  moreover have "ss_completions (co_state co) = [(5, 77)]"
    unfolding co by code_simp
  ultimately have "filter (\<lambda>fire. br_txid (snd fire) = 5) (fired eff) = fired eff"
    by (intro filter_True) (auto simp: hm_get_def split: if_splits)
  then show ?thesis
    using \<open>map fst (filter _ (fired eff)) = [77]\<close> 1 2 by simp
qed

end
