(* ===== verification/Wire_Message.thy ===== *)
theory Wire_Message
  imports Wire_Error
begin

text \<open>
  The envelope layer: \<open>src/src/wire/message.rs\<close>, \<open>src/src/wire/commands/mod.rs\<close>, the event envelope of
  \<open>src/src/wire/events/\<close>, the negotiated capabilities of \<open>src/src/wire/capability.rs\<close> and the fetch
  vocabulary of \<open>src/src/wire/fetch.rs\<close>.

  Strings are byte strings (a \<open>char\<close> is a byte). A JSON value is \<open>serde_json::Value\<close> with numbers kept
  as their literal and objects as association lists; its text form is \<open>serde_json\<close>'s and stays a
  parameter of the layers above, as is the derived \<open>Debug\<close> rendering of a response.
\<close>

unbundle bit_operations_syntax

section \<open>Values, commands, events\<close>

datatype json =
    JNull
  | JBool bool
  | JNumber string
  | JString string
  | JArray "json list"
  | JObject "(string \<times> json) list"

fun json_get :: "json \<Rightarrow> string \<Rightarrow> json option" where
  "json_get (JObject members) key = map_of members key"
| "json_get _ key = None"

fun json_as_str :: "json \<Rightarrow> string option" where
  "json_as_str (JString s) = Some s"
| "json_as_str _ = None"

record capabilities =
  cap_commands :: "json list"
  cap_produce_events :: "json list"
  cap_accept_events :: "json list"
  cap_fetch_ext :: "u32 option"

definition capabilities_default :: capabilities where
  "capabilities_default =
    \<lparr>cap_commands = [], cap_produce_events = [], cap_accept_events = [], cap_fetch_ext = None\<rparr>"

record activity_ref =
  act_id :: string

definition activity_ref_new :: "string \<Rightarrow> activity_ref" where
  "activity_ref_new i = \<lparr>act_id = i\<rparr>"

datatype xacpp_command =
    Negotiate_Cmd capabilities
  | Establish "string option"
  | EstablishConfirm
  | Fetch string
  | FetchBegin string
  | FetchPause string
  | FetchResume string
  | FetchAbort string
  | Generic_Cmd string json "activity_ref option"

definition command_generic :: "string \<Rightarrow> json \<Rightarrow> xacpp_command" where
  "command_generic nm arguments = Generic_Cmd nm arguments None"

definition command_generic_with_activity :: "string \<Rightarrow> json \<Rightarrow> activity_ref \<Rightarrow> xacpp_command" where
  "command_generic_with_activity nm arguments activity = Generic_Cmd nm arguments (Some activity)"

fun command_name :: "xacpp_command \<Rightarrow> string" where
  "command_name (Negotiate_Cmd _) = ''negotiate''"
| "command_name (Establish _) = ''establish''"
| "command_name EstablishConfirm = ''establish_confirm''"
| "command_name (Fetch _) = ''fetch''"
| "command_name (FetchBegin _) = ''fetch_begin''"
| "command_name (FetchPause _) = ''fetch_pause''"
| "command_name (FetchResume _) = ''fetch_resume''"
| "command_name (FetchAbort _) = ''fetch_abort''"
| "command_name (Generic_Cmd nm _ _) = nm"

fun is_fetch_family :: "xacpp_command \<Rightarrow> bool" where
  "is_fetch_family (Fetch _) = True"
| "is_fetch_family (FetchBegin _) = True"
| "is_fetch_family (FetchPause _) = True"
| "is_fetch_family (FetchResume _) = True"
| "is_fetch_family (FetchAbort _) = True"
| "is_fetch_family _ = False"

record xacpp_event =
  ev_name :: string
  ev_data :: json

definition event_new :: "string \<Rightarrow> json \<Rightarrow> xacpp_event" where
  "event_new nm d = \<lparr>ev_name = nm, ev_data = d\<rparr>"

record xacpp_activity_event =
  ae_activity :: activity_ref
  ae_event :: xacpp_event

definition activity_event_new :: "string \<Rightarrow> xacpp_event \<Rightarrow> xacpp_activity_event" where
  "activity_event_new activity e = \<lparr>ae_activity = activity_ref_new activity, ae_event = e\<rparr>"

section \<open>Messages\<close>

datatype xacpp_request =
    Command xacpp_command
  | Event xacpp_activity_event

datatype xacpp_response =
    Negotiated_Resp capabilities
  | Established string string
  | EstablishPrepare string
  | EstablishReject_Resp string
  | FetchReady string string nat string
  | Generic_Resp string json
  | Error_Resp string string

definition acknowledge :: xacpp_response where
  "acknowledge = Generic_Resp ''acknowledge'' JNull"

definition activity_not_found :: xacpp_response where
  "activity_not_found = Generic_Resp ''activity_not_found'' JNull"

definition response_generic :: "string \<Rightarrow> json \<Rightarrow> xacpp_response" where
  "response_generic nm d = Generic_Resp nm d"

definition response_error :: "string \<Rightarrow> string \<Rightarrow> xacpp_response" where
  "response_error code message = Error_Resp code message"

datatype xacpp_envelope =
    Request_Env string "string option" xacpp_request
  | Response_Env string "string option" xacpp_response

section \<open>Negotiated capabilities\<close>

definition FETCH_EXT_VERSION :: u32 where
  "FETCH_EXT_VERSION = 1"

record effective_capabilities =
  ef_remote_commands :: "json list"
  ef_emit_events :: "string list"
  ef_remote_fetch_ext :: "u32 option"
  ef_fetch_enabled :: bool

definition extract_names :: "json list \<Rightarrow> string list" where
  "extract_names schemas = List.map_filter (\<lambda>s. Option.bind (json_get s ''name'') json_as_str) schemas"

definition from_capabilities :: "capabilities \<Rightarrow> capabilities \<Rightarrow> effective_capabilities" where
  "from_capabilities local remote =
    (let local_produce = extract_names (cap_produce_events local);
         remote_accept = extract_names (cap_accept_events remote)
     in \<lparr>ef_remote_commands = cap_commands remote,
         ef_emit_events = filter (\<lambda>nm. nm \<in> set remote_accept) local_produce,
         ef_remote_fetch_ext = cap_fetch_ext remote,
         ef_fetch_enabled =
           (cap_fetch_ext local = Some FETCH_EXT_VERSION \<and> cap_fetch_ext remote = Some FETCH_EXT_VERSION)\<rparr>)"

section \<open>Command declarations\<close>

datatype dispatcher = Tool | Bridge | Unknown_Dispatcher string

fun dispatcher_to_str :: "dispatcher \<Rightarrow> string" where
  "dispatcher_to_str Tool = ''tool''"
| "dispatcher_to_str Bridge = ''bridge''"
| "dispatcher_to_str (Unknown_Dispatcher s) = s"

definition dispatcher_of_str :: "string \<Rightarrow> dispatcher" where
  "dispatcher_of_str s = (if s = ''tool'' then Tool else if s = ''bridge'' then Bridge else Unknown_Dispatcher s)"

datatype extra_scope = Compact | Unknown_Scope string

fun scope_to_str :: "extra_scope \<Rightarrow> string" where
  "scope_to_str Compact = ''compact''"
| "scope_to_str (Unknown_Scope s) = s"

definition scope_of_str :: "string \<Rightarrow> extra_scope" where
  "scope_of_str s = (if s = ''compact'' then Compact else Unknown_Scope s)"

record require_tool_call =
  rt_require :: string
  rt_on_failure :: string

record evaluation_policy =
  ep_require_tool_call :: "require_tool_call option"

record command_declaration =
  cd_name :: string
  cd_description :: "string option"
  cd_parameters :: "json option"
  cd_dispatcher :: "dispatcher option"
  cd_evaluation_policy :: "evaluation_policy option"
  cd_extra_scopes :: "extra_scope list"

definition is_tool_facing :: "command_declaration \<Rightarrow> bool" where
  "is_tool_facing d \<longleftrightarrow> cd_dispatcher d = Some Tool"

definition require_tool_call_of :: "command_declaration \<Rightarrow> require_tool_call option" where
  "require_tool_call_of d = Option.bind (cd_evaluation_policy d) ep_require_tool_call"

definition has_compact_scope :: "command_declaration \<Rightarrow> bool" where
  "has_compact_scope d \<longleftrightarrow> list_ex (\<lambda>s. s = Compact) (cd_extra_scopes d)"

section \<open>Fetch vocabulary\<close>

definition FETCH_NOT_FOUND :: string where
  "FETCH_NOT_FOUND = ''fetch_not_found''"

definition FETCH_REFUSED :: string where
  "FETCH_REFUSED = ''fetch_refused''"

definition FETCH_UNAVAILABLE :: string where
  "FETCH_UNAVAILABLE = ''fetch_unavailable''"

record fetch_ready_meta =
  fm_txid :: txid
  fm_sha256 :: string
  fm_size_bytes :: nat
  fm_mime :: string

definition lower_hex_char :: "char \<Rightarrow> bool" where
  "lower_hex_char c \<longleftrightarrow>
    48 \<le> (of_char c :: nat) \<and> of_char c \<le> (57 :: nat) \<or> 97 \<le> (of_char c :: nat) \<and> of_char c \<le> (102 :: nat)"

text \<open>\<open>char::to_digit(16)\<close> accepts both cases.\<close>

definition to_digit16 :: "char \<Rightarrow> nat option" where
  "to_digit16 c =
    (let n = of_char c in
     if 48 \<le> n \<and> n \<le> 57 then Some (n - 48)
     else if 97 \<le> n \<and> n \<le> 102 then Some (n - 87)
     else if 65 \<le> n \<and> n \<le> 70 then Some (n - 55)
     else None)"

definition malformed_txid :: "string \<Rightarrow> xacpp_error" where
  "malformed_txid s =
    Internal (''malformed fetch transaction id '' @ [CHR 0x27] @ s @ [CHR 0x27] @ '': expected 32 lowercase hex chars'')"

fun parse_hex_pairs :: "string \<Rightarrow> string \<Rightarrow> xacpp_error + byte list" where
  "parse_hex_pairs s (h # l # cs) =
    (case (to_digit16 h, to_digit16 l) of
       (Some hi, Some lo) \<Rightarrow>
         (case parse_hex_pairs s cs of
            Inr bs \<Rightarrow> Inr ((push_bit 4 (of_nat hi) OR of_nat lo) # bs)
          | Inl e \<Rightarrow> Inl e)
     | _ \<Rightarrow> Inl (malformed_txid s))"
| "parse_hex_pairs s _ = Inr []"

definition parse_transaction_id :: "string \<Rightarrow> xacpp_error + txid" where
  "parse_transaction_id s =
    (if length s \<noteq> 32 \<or> \<not> list_all lower_hex_char s then Inl (malformed_txid s)
     else map_sum id txid_of_bytes (parse_hex_pairs s s))"

definition show_hex2 :: "byte \<Rightarrow> string" where
  "show_hex2 b = [digit (unat b div 16), digit (unat b mod 16)]"

definition format_transaction_id :: "txid \<Rightarrow> string" where
  "format_transaction_id tx = concat (map show_hex2 (txid_to_bytes tx))"

fun response_to_meta :: "(xacpp_response \<Rightarrow> string) \<Rightarrow> xacpp_response \<Rightarrow> xacpp_error + fetch_ready_meta" where
  "response_to_meta dbg (FetchReady t sha size_bytes mime) =
    map_sum id (\<lambda>tx. \<lparr>fm_txid = tx, fm_sha256 = sha, fm_size_bytes = size_bytes, fm_mime = mime\<rparr>) (parse_transaction_id t)"
| "response_to_meta dbg (Error_Resp code message) = Inl (Application code message)"
| "response_to_meta dbg other = Inl (Internal (''unexpected response to fetch: '' @ dbg other))"

section \<open>The text form of a transaction id\<close>

lemma of_char_digit: "n < 16 \<Longrightarrow> of_char (digit n) = (if n < 10 then 48 + n else 87 + n)"
  by (simp add: digit_def of_char_of)

lemma digit_hex: "n < 16 \<Longrightarrow> lower_hex_char (digit n) \<and> to_digit16 (digit n) = Some n"
  by (simp add: lower_hex_char_def to_digit16_def of_char_digit Let_def)

lemma lower_hex_digit:
  assumes "lower_hex_char c"
  shows "\<exists>n<16. to_digit16 c = Some n \<and> digit n = c"
proof -
  let ?n = "if of_char c \<le> (57 :: nat) then of_char c - 48 else of_char c - (87 :: nat)"
  have "?n < 16" "to_digit16 c = Some ?n" "digit ?n = c"
    using assms by (auto simp: lower_hex_char_def to_digit16_def digit_def Let_def)
  then show ?thesis
    by blast
qed

lemma nibbles:
  assumes "lo < 16"
  shows "push_bit 4 (of_nat hi) OR of_nat lo = (of_nat (16 * hi + lo) :: byte)"
proof -
  have "\<not> bit lo n" if "4 \<le> n" for n
  proof -
    have "(2 :: nat) ^ 4 \<le> 2 ^ n"
      using that by (intro power_increasing) simp_all
    then show ?thesis
      using assms by (simp add: bit_iff_odd)
  qed
  then have "push_bit 4 (of_nat hi) AND of_nat lo = (0 :: byte)"
    by (intro bit_eqI) (auto simp: bit_and_iff bit_push_bit_iff bit_of_nat_iff)
  then show ?thesis
    by (simp add: push_bit_eq_mult flip: disjunctive_add_eq_or)
qed

lemma unat_nibbles: "hi < 16 \<Longrightarrow> lo < 16 \<Longrightarrow> unat (of_nat (16 * hi + lo) :: byte) = 16 * hi + lo"
  by (simp add: unat_of_nat take_bit_nat_eq_self del: of_nat_add of_nat_mult)

lemma nibble_bounds: "unat (b :: byte) div 16 < 16" "unat (b :: byte) mod 16 < 16"
  using unat_byte_less [of b] by (simp_all add: less_mult_imp_div_less)

lemma show_hex2_nibbles: "hi < 16 \<Longrightarrow> lo < 16 \<Longrightarrow> show_hex2 (of_nat (16 * hi + lo)) = [digit hi, digit lo]"
  unfolding show_hex2_def by (simp only: unat_nibbles) simp

lemma parse_show_pairs: "parse_hex_pairs s (concat (map show_hex2 bs)) = Inr bs"
proof (induction bs)
  case (Cons b bs)
  have "push_bit 4 (of_nat (unat b div 16)) OR of_nat (unat b mod 16) = b"
    using nibbles [OF nibble_bounds(2), of "unat b div 16" b] by (simp only: mult_div_mod_eq) simp
  then show ?case
    using Cons digit_hex [OF nibble_bounds(1) [of b]] digit_hex [OF nibble_bounds(2) [of b]] by (simp add: show_hex2_def)
qed simp

lemma show_parse_pairs:
  "list_all lower_hex_char cs \<Longrightarrow> even (length cs) \<Longrightarrow>
   \<exists>bs. parse_hex_pairs s cs = Inr bs \<and> concat (map show_hex2 bs) = cs \<and> length cs = 2 * length bs"
proof (induction s cs rule: parse_hex_pairs.induct)
  case (1 s h l cs)
  obtain hi lo where n: "hi < 16" "to_digit16 h = Some hi" "digit hi = h" "lo < 16" "to_digit16 l = Some lo" "digit lo = l"
    using "1.prems" lower_hex_digit [of h] lower_hex_digit [of l] by auto
  obtain bs where bs: "parse_hex_pairs s cs = Inr bs" "concat (map show_hex2 bs) = cs" "length cs = 2 * length bs"
    using "1.IH" [OF refl n(2,5)] "1.prems" by auto
  show ?case
    using n bs show_hex2_nibbles [OF n(1,4)] nibbles [OF n(4), of hi]
    by (intro exI [of _ "of_nat (16 * hi + lo) # bs"]) (simp del: of_nat_add of_nat_mult)
qed simp_all

lemma parse_transaction_id_iff:
  "(parse_transaction_id s = Inr tx \<longleftrightarrow> s = format_transaction_id tx) \<and>
   (parse_transaction_id s = Inl e \<longleftrightarrow> e = malformed_txid s \<and> s \<notin> range format_transaction_id)"
proof -
  have fmt: "length (format_transaction_id tx) = 32 \<and> list_all lower_hex_char (format_transaction_id tx)" for tx
  proof -
    have "length (concat (map show_hex2 bs)) = 2 * length bs \<and> list_all lower_hex_char (concat (map show_hex2 bs))" for bs
    proof (induction bs)
      case (Cons b bs)
      then show ?case
        using digit_hex [OF nibble_bounds(1) [of b]] digit_hex [OF nibble_bounds(2) [of b]] by (simp add: show_hex2_def)
    qed simp
    from this [of "txid_to_bytes tx"] show ?thesis
      by (simp add: format_transaction_id_def)
  qed
  have inv: "parse_transaction_id (format_transaction_id tx) = Inr tx" for tx
    using fmt [of tx] parse_show_pairs [of _ "txid_to_bytes tx"]
    by (simp add: parse_transaction_id_def format_transaction_id_def codec_simps)
  have ok: "\<exists>tx. s = format_transaction_id tx \<and> parse_transaction_id s = Inr tx"
    if len: "length s = 32" and hex: "list_all lower_hex_char s"
  proof -
    obtain bs where bs: "parse_hex_pairs s s = Inr bs" "concat (map show_hex2 bs) = s" "length bs = 16"
      using show_parse_pairs [OF hex, of s] len by auto
    then show ?thesis
      using len hex by (intro exI [of _ "txid_of_bytes bs"])
        (simp add: parse_transaction_id_def format_transaction_id_def codec_simps)
  qed
  show ?thesis
  proof (cases "length s = 32 \<and> list_all lower_hex_char s")
    case True
    then obtain u where u: "s = format_transaction_id u" "parse_transaction_id s = Inr u"
      using ok by blast
    have "format_transaction_id u = format_transaction_id tx \<longleftrightarrow> u = tx"
      using inv by (metis sum.inject(2))
    with u show ?thesis
      by auto
  next
    case False
    then have "parse_transaction_id s = Inl (malformed_txid s)"
      by (auto simp: parse_transaction_id_def)
    with False fmt show ?thesis
      by auto
  qed
qed

section \<open>Properties\<close>

text \<open>
  C40. Transaction ids have exactly one text form. The parser accepts a string if and only if it is what
  the formatter prints for some id, and then it returns that id; so parsing and printing are inverse,
  and hyphenated, upper-case, short or long forms are all rejected with the malformed-id error.
\<close>

theorem transaction_id_text_exact:
  "(parse_transaction_id s = Inr tx \<longleftrightarrow> s = format_transaction_id tx) \<and>
   (parse_transaction_id s = Inl e \<longleftrightarrow> e = malformed_txid s \<and> s \<notin> range format_transaction_id)"
  by (rule parse_transaction_id_iff)

end
