(* ===== verification/Xacpp_Session.thy ===== *)
theory Xacpp_Session
  imports Transfer_Session Wire_Message
begin

text \<open>
  The logical session, \<open>src/src/session/mod.rs\<close>: a transfer session with an identity, the negotiated
  facts and the transport it is wired to. A transport is a number; sending a request over it is a
  parameter, as is the text form of a response. The readings of the clock are arguments.
\<close>

record xacpp_session =
  xs_transfer :: session_core
  xs_session_id :: string
  xs_credentials :: string
  xs_emit_events :: "string list"
  xs_fetch_enabled :: bool
  xs_transport :: "nat option"

type_synonym send_fn = "nat \<Rightarrow> string option \<Rightarrow> xacpp_request \<Rightarrow> xacpp_error + xacpp_response"

definition xsession_new :: "transfer_config option \<Rightarrow> nat \<Rightarrow> xacpp_session" where
  "xsession_new config now =
    \<lparr>xs_transfer = session_new (case config of Some c \<Rightarrow> c | None \<Rightarrow> transfer_config_default) now,
     xs_session_id = [], xs_credentials = [], xs_emit_events = [], xs_fetch_enabled = False, xs_transport = None\<rparr>"

definition with_identity :: "string \<Rightarrow> string \<Rightarrow> xacpp_session \<Rightarrow> xacpp_session" where
  "with_identity sid creds s = s\<lparr>xs_session_id := sid, xs_credentials := creds\<rparr>"

definition set_emit_events :: "string list \<Rightarrow> xacpp_session \<Rightarrow> xacpp_session" where
  "set_emit_events evs s = s\<lparr>xs_emit_events := evs\<rparr>"

definition set_fetch_enabled :: "bool \<Rightarrow> xacpp_session \<Rightarrow> xacpp_session" where
  "set_fetch_enabled enabled s = s\<lparr>xs_fetch_enabled := enabled\<rparr>"

section \<open>Wiring\<close>

definition xs_unwire :: "xacpp_session \<Rightarrow> effect list \<times> xacpp_session" where
  "xs_unwire s = (case unwire (xs_transfer s) of (eff, co) \<Rightarrow> (eff, s\<lparr>xs_transfer := co, xs_transport := None\<rparr>))"

definition wire_without_declaration ::
  "nat \<Rightarrow> nat \<Rightarrow> nat \<Rightarrow> xacpp_session \<Rightarrow> (xacpp_error + unit) \<times> effect list \<times> xacpp_session" where
  "wire_without_declaration transport now1 now2 s =
    (let (eff0, s1) = xs_unwire s in
     case wire (xs_transfer s1) transport now1 now2 of
       (Inl e, eff1, co) \<Rightarrow> (Inl e, eff0 @ eff1, s1\<lparr>xs_transfer := co\<rparr>)
     | (Inr _, eff1, co) \<Rightarrow> (Inr (), eff0 @ eff1, s1\<lparr>xs_transfer := co, xs_transport := Some transport\<rparr>))"

definition xs_declare_pending_sends :: "crc_fn \<Rightarrow> nat \<Rightarrow> xacpp_session \<Rightarrow> effect list \<times> xacpp_session" where
  "xs_declare_pending_sends crc now s =
    (case declare_pending_sends crc now (xs_transfer s) of (eff, co) \<Rightarrow> (eff, s\<lparr>xs_transfer := co\<rparr>))"

definition xs_wire ::
  "crc_fn \<Rightarrow> nat \<Rightarrow> nat \<Rightarrow> nat \<Rightarrow> nat \<Rightarrow> xacpp_session \<Rightarrow> (xacpp_error + unit) \<times> effect list \<times> xacpp_session" where
  "xs_wire crc transport now1 now2 now3 s =
    (case wire_without_declaration transport now1 now2 s of
       (Inl e, eff, s1) \<Rightarrow> (Inl e, eff, s1)
     | (Inr _, eff, s1) \<Rightarrow> (case xs_declare_pending_sends crc now3 s1 of (eff', s2) \<Rightarrow> (Inr (), eff @ eff', s2)))"

definition transfer_wired :: "xacpp_session \<Rightarrow> bool" where
  "transfer_wired s = is_wired (xs_transfer s)"

definition attach_transfer ::
  "nat \<Rightarrow> nat \<Rightarrow> nat \<Rightarrow> xacpp_session \<Rightarrow> (xacpp_error + unit) \<times> effect list \<times> xacpp_session" where
  "attach_transfer transport now1 now2 s =
    (if transfer_wired s then (Inr (), [], s)
     else case wire (xs_transfer s) transport now1 now2 of (r, eff, co) \<Rightarrow> (r, eff, s\<lparr>xs_transfer := co\<rparr>))"

definition detach_transfer :: "xacpp_session \<Rightarrow> effect list \<times> xacpp_session" where
  "detach_transfer s = (case unwire (xs_transfer s) of (eff, co) \<Rightarrow> (eff, s\<lparr>xs_transfer := co\<rparr>))"

definition backfill :: "string \<Rightarrow> string \<Rightarrow> string list \<Rightarrow> bool \<Rightarrow> xacpp_session \<Rightarrow> xacpp_session" where
  "backfill sid creds evs fetch s =
    s\<lparr>xs_session_id := sid, xs_credentials := creds, xs_emit_events := evs, xs_fetch_enabled := fetch\<rparr>"

section \<open>Requests\<close>

definition session_transport :: "xacpp_session \<Rightarrow> xacpp_error + nat" where
  "session_transport s = (case xs_transport s of Some t \<Rightarrow> Inr t | None \<Rightarrow> Inl NotConnected)"

definition fetch_not_negotiated :: xacpp_error where
  "fetch_not_negotiated =
    Application FETCH_UNAVAILABLE ''fetch unavailable on this end (fetch extension not enabled by negotiation)''"

definition request_command :: "send_fn \<Rightarrow> xacpp_session \<Rightarrow> xacpp_command \<Rightarrow> xacpp_error + xacpp_response" where
  "request_command send s cmd =
    (if is_fetch_family cmd \<and> \<not> xs_fetch_enabled s then Inl fetch_not_negotiated
     else and_then (session_transport s) (\<lambda>t. send t (Some (xs_session_id s)) (Command cmd)))"

definition validate_event :: "xacpp_session \<Rightarrow> xacpp_activity_event \<Rightarrow> xacpp_error + unit" where
  "validate_event s e =
    (if xs_emit_events s \<noteq> [] \<and> ev_name (ae_event e) \<notin> set (xs_emit_events s)
     then Inl (Internal (''event '' @ [CHR 0x27] @ ev_name (ae_event e) @ [CHR 0x27] @ '' not in negotiated emit_events capability''))
     else Inr ())"

definition request_event :: "send_fn \<Rightarrow> xacpp_session \<Rightarrow> xacpp_activity_event \<Rightarrow> xacpp_error + xacpp_response" where
  "request_event send s e =
    and_then (validate_event s e) (\<lambda>_. and_then (session_transport s) (\<lambda>t. send t (Some (xs_session_id s)) (Event e)))"

definition send_event ::
  "(nat \<Rightarrow> string option \<Rightarrow> xacpp_request \<Rightarrow> xacpp_error + unit) \<Rightarrow> xacpp_session \<Rightarrow> xacpp_activity_event \<Rightarrow> xacpp_error + unit" where
  "send_event send_faf s e =
    and_then (validate_event s e) (\<lambda>_. and_then (session_transport s) (\<lambda>t. send_faf t (Some (xs_session_id s)) (Event e)))"

definition xs_send_binary ::
  "(nat \<Rightarrow> link) \<Rightarrow> txid \<Rightarrow> byte list \<Rightarrow> nat option \<Rightarrow> nat \<Rightarrow> xacpp_session \<Rightarrow> (xacpp_error + txid) \<times> effect list \<times> xacpp_session" where
  "xs_send_binary lk tx payload on_complete now s =
    (case session_transport s of
       Inl e \<Rightarrow> (Inl e, [], s)
     | Inr t \<Rightarrow> (case send_binary (xs_transfer s) (lk t) tx payload on_complete now of (r, eff, co) \<Rightarrow> (r, eff, s\<lparr>xs_transfer := co\<rparr>)))"

definition xs_open_binary_sink :: "u32 \<Rightarrow> txid option \<Rightarrow> txid \<Rightarrow> nat \<Rightarrow> xacpp_session \<Rightarrow> (xacpp_error + txid) \<times> xacpp_session" where
  "xs_open_binary_sink total_len txo fresh now s =
    (case open_binary_sink (xs_transfer s) total_len txo fresh now of (r, co) \<Rightarrow> (r, s\<lparr>xs_transfer := co\<rparr>))"

definition xs_on_binary :: "xacpp_session \<Rightarrow> xacpp_session" where
  "xs_on_binary s = s\<lparr>xs_transfer := on_binary (xs_transfer s)\<rparr>"

definition xs_on_binary_stream :: "xacpp_session \<Rightarrow> xacpp_session" where
  "xs_on_binary_stream s = s\<lparr>xs_transfer := on_binary_stream (xs_transfer s)\<rparr>"

definition xs_fetch :: "(xacpp_response \<Rightarrow> string) \<Rightarrow> send_fn \<Rightarrow> xacpp_session \<Rightarrow> string \<Rightarrow> xacpp_error + fetch_ready_meta" where
  "xs_fetch dbg send s uri = and_then (request_command send s (Fetch uri)) (response_to_meta dbg)"

section \<open>Properties\<close>

text \<open>
  The fetch kernel. \<open>fetch\<close> yields metadata exactly when fetch was negotiated, the session has a
  transport, and the peer answered the fetch command with \<open>fetch_ready\<close>; the metadata is then the
  announced one, and the announced id is the text form of its transaction id, so that the requester
  claims the very stream the responder opens.
\<close>

theorem fetch_returns_announced:
  "xs_fetch dbg send s uri = Inr m \<longleftrightarrow>
    xs_fetch_enabled s \<and>
    (\<exists>t. xs_transport s = Some t \<and>
      send t (Some (xs_session_id s)) (Command (Fetch uri)) =
        Inr (FetchReady (format_transaction_id (fm_txid m)) (fm_sha256 m) (fm_size_bytes m) (fm_mime m)))"
proof -
  have meta: "response_to_meta dbg r = Inr m \<longleftrightarrow>
      r = FetchReady (format_transaction_id (fm_txid m)) (fm_sha256 m) (fm_size_bytes m) (fm_mime m)" for r
  proof (cases r)
    case (FetchReady t sha size_bytes mime)
    have "map_sum id f x = Inr y \<longleftrightarrow> (\<exists>z. x = Inr z \<and> f z = y)" for f :: "txid \<Rightarrow> fetch_ready_meta" and x :: "xacpp_error + txid" and y
      by (cases x) auto
    then show ?thesis
      using FetchReady by (cases m) (auto simp: parse_transaction_id_iff)
  qed simp_all
  show ?thesis
    by (auto simp: xs_fetch_def request_command_def session_transport_def meta split: option.splits if_splits)
qed

end
