(* ===== verification/Fetch_Service.thy ===== *)
theory Fetch_Service
  imports Xacpp_Session
begin

text \<open>
  The responder of the fetch extension, \<open>src/src/ext/fetch.rs\<close>: \<open>FetchService\<close> with its tables, the
  five command handlers and the serving tasks.

  Handlers run concurrently. A handler is a call whose state says where it is between two critical
  sections; one step runs the next section of one call or task, or drops a call that is suspended. An \<open>Arc<Serving>\<close> is an index into
  \<open>fs_servings\<close>, a \<open>ResolveSlot\<close> an index into \<open>fs_slots\<close>. The provider is consumer code: what
  \<open>resolve\<close> returns and what \<open>serve\<close> writes are inputs of the steps.
\<close>

section \<open>State\<close>

record resolved_resource =
  rs_size_bytes :: nat
  rs_sha256 :: string
  rs_mime :: string

datatype serve_control = Pause_Control | Resume_Control | Abort_Control

text \<open>\<open>sg_control\<close> is the content of the control channel, \<open>sg_control_rx\<close> whether its receiver was not yet taken.\<close>

record serving =
  sg_uri :: string
  sg_txid :: txid
  sg_meta :: fetch_ready_meta
  sg_control :: "serve_control list"
  sg_control_rx :: bool
  sg_begun :: bool

datatype uri_entry = Resolving nat | Ready nat

type_synonym resolve_outcome = "xacpp_error + nat"

text \<open>
  Where a handler is. The numbers are servings and slots a call holds a reference to; \<open>Fetch_Parking\<close> is
  the window of \<open>ResolveSlot::wait\<close> between the look at the result and the subscription.
\<close>

datatype fetch_call =
    Fetch_Lookup string
  | Fetch_Claim string
  | Fetch_Wait nat
  | Fetch_Parking nat
  | Fetch_Parked nat
  | Fetch_Reply nat resolve_outcome
  | Fetch_Resolve string nat
  | Fetch_Publish string nat resolve_outcome
  | Fetch_Fill nat resolve_outcome xacpp_response
  | Fetch_Notify nat resolve_outcome xacpp_response
  | Begin_Lookup string
  | Begin_Spawn nat string
  | Begin_Return nat
  | Flow_Lookup string serve_control string
  | Abort_Lookup string
  | Abort_Signal nat
  | Abort_Return nat

text \<open>A serving task: in its loop, leaving it (\<open>True\<close>: aborted), parked in \<open>finish\<close>, over.\<close>

datatype serving_phase =
    Serving_Run
  | Serving_Evict bool
  | Serving_End bool
  | Serving_Parked nat "frame list"
  | Serving_Over

record fetch_service =
  fs_by_uri :: "(string, uri_entry) hash_map"
  fs_by_txid :: "(txid, nat) hash_map"
  fs_servings :: "serving list"
  fs_slots :: "resolve_outcome option list"
  fs_calls :: "(nat, fetch_call) hash_map"
  fs_tasks :: "(nat, serving_phase) hash_map"
  fs_session :: xacpp_session

definition fetch_service_new :: "xacpp_session \<Rightarrow> fetch_service" where
  "fetch_service_new s =
    \<lparr>fs_by_uri = [], fs_by_txid = [], fs_servings = [], fs_slots = [], fs_calls = [], fs_tasks = [], fs_session = s\<rparr>"

text \<open>What the service does to the outside. Sink operations carry the transaction they act on.\<close>

datatype fetch_effect =
    Answer nat "xacpp_error + xacpp_response"
  | Resolve_Called string
  | Resolve_Failed string
  | Published string nat
  | Evicted string nat
  | Serve_Started nat
  | Provider_Wrote nat "effect list"
  | Flow_Applied nat "effect list"
  | Sink_Finished nat "effect list"
  | Sink_Aborted nat "effect list"
  | Terminal_Skipped nat
  | Session_Did "effect list"

section \<open>References\<close>

text \<open>
  The references to a serving that keep it alive: table entries, the locals of calls, and the result
  of a slot that some call still holds.
\<close>

fun call_serving :: "fetch_call \<Rightarrow> nat option" where
  "call_serving (Fetch_Reply n (Inr i)) = Some i"
| "call_serving (Fetch_Publish uri n (Inr i)) = Some i"
| "call_serving (Fetch_Fill n (Inr i) resp) = Some i"
| "call_serving (Fetch_Notify n (Inr i) resp) = Some i"
| "call_serving (Begin_Spawn i hex) = Some i"
| "call_serving (Begin_Return i) = Some i"
| "call_serving (Abort_Signal i) = Some i"
| "call_serving (Abort_Return i) = Some i"
| "call_serving _ = None"

fun call_slot :: "fetch_call \<Rightarrow> nat option" where
  "call_slot (Fetch_Wait n) = Some n"
| "call_slot (Fetch_Parking n) = Some n"
| "call_slot (Fetch_Parked n) = Some n"
| "call_slot (Fetch_Reply n out) = Some n"
| "call_slot (Fetch_Resolve uri n) = Some n"
| "call_slot (Fetch_Publish uri n out) = Some n"
| "call_slot (Fetch_Fill n out resp) = Some n"
| "call_slot (Fetch_Notify n out resp) = Some n"
| "call_slot _ = None"

definition slot_result :: "fetch_service \<Rightarrow> nat \<Rightarrow> resolve_outcome option" where
  "slot_result fs n = (if n < length (fs_slots fs) then fs_slots fs ! n else None)"

definition call_refers :: "fetch_service \<Rightarrow> nat \<Rightarrow> fetch_call \<Rightarrow> bool" where
  "call_refers fs i fc \<longleftrightarrow>
    call_serving fc = Some i \<or> (case call_slot fc of Some n \<Rightarrow> slot_result fs n = Some (Inr i) | None \<Rightarrow> False)"

definition serving_alive :: "fetch_service \<Rightarrow> nat \<Rightarrow> bool" where
  "serving_alive fs i \<longleftrightarrow>
    Ready i \<in> set (map snd (fs_by_uri fs)) \<or> i \<in> set (map snd (fs_by_txid fs)) \<or>
    (\<exists>fc \<in> set (map snd (fs_calls fs)). call_refers fs i fc)"

section \<open>Responses\<close>

definition ready_response :: "fetch_ready_meta \<Rightarrow> xacpp_response" where
  "ready_response m = FetchReady (format_transaction_id (fm_txid m)) (fm_sha256 m) (fm_size_bytes m) (fm_mime m)"

fun error_response :: "xacpp_error \<Rightarrow> xacpp_response" where
  "error_response (Application code message) = Error_Resp code message"
| "error_response other = Error_Resp FETCH_NOT_FOUND (xacpp_error_text other)"

definition outcome_response :: "fetch_service \<Rightarrow> resolve_outcome \<Rightarrow> xacpp_response" where
  "outcome_response fs out =
    (case out of Inr i \<Rightarrow> ready_response (sg_meta (fs_servings fs ! i)) | Inl e \<Rightarrow> error_response e)"

definition malformed_fetch_id :: "string \<Rightarrow> xacpp_response" where
  "malformed_fetch_id hex = Error_Resp FETCH_REFUSED (''malformed fetch transaction id: '' @ hex)"

section \<open>Calls\<close>

definition set_call :: "nat \<Rightarrow> fetch_call \<Rightarrow> fetch_service \<Rightarrow> fetch_service" where
  "set_call c fc fs = fs\<lparr>fs_calls := hm_put c fc (fs_calls fs)\<rparr>"

definition answer :: "nat \<Rightarrow> xacpp_error + xacpp_response \<Rightarrow> fetch_service \<Rightarrow> fetch_effect list \<times> fetch_service" where
  "answer c r fs = ([Answer c r], fs\<lparr>fs_calls := hm_del c (fs_calls fs)\<rparr>)"

definition update_serving :: "nat \<Rightarrow> (serving \<Rightarrow> serving) \<Rightarrow> fetch_service \<Rightarrow> fetch_service" where
  "update_serving i f fs = fs\<lparr>fs_servings := (fs_servings fs)[i := f (fs_servings fs ! i)]\<rparr>"

definition set_transfer :: "session_core \<Rightarrow> fetch_service \<Rightarrow> fetch_service" where
  "set_transfer co fs = fs\<lparr>fs_session := (fs_session fs)\<lparr>xs_transfer := co\<rparr>\<rparr>"

text \<open>Removing a serving from both tables; the uri entry goes only if it is still this serving's.\<close>

definition evict :: "txid \<Rightarrow> fetch_service \<Rightarrow> fetch_effect list \<times> fetch_service" where
  "evict tx fs =
    (case hm_get (fs_by_txid fs) tx of
       None \<Rightarrow> ([], fs)
     | Some i \<Rightarrow>
       let uri = sg_uri (fs_servings fs ! i);
           fs1 = fs\<lparr>fs_by_txid := hm_del tx (fs_by_txid fs)\<rparr>
       in case hm_get (fs_by_uri fs) uri of
            Some (Ready j) \<Rightarrow>
              (if sg_txid (fs_servings fs ! j) = tx
               then ([Evicted uri i], fs1\<lparr>fs_by_uri := hm_del uri (fs_by_uri fs)\<rparr>) else ([], fs1))
          | _ \<Rightarrow> ([], fs1))"

definition size_zero_error :: xacpp_error where
  "size_zero_error = Application FETCH_REFUSED ''resource size must be non-zero''"

definition size_limit_error :: xacpp_error where
  "size_limit_error = Application FETCH_REFUSED ''resource exceeds protocol size limit (u32::MAX)''"

definition build_serving ::
  "string \<Rightarrow> resolved_resource \<Rightarrow> txid \<Rightarrow> nat \<Rightarrow> fetch_service \<Rightarrow> resolve_outcome \<times> fetch_service" where
  "build_serving uri res fresh now fs =
    (if rs_size_bytes res = 0 then (Inl size_zero_error, fs)
     else if rs_size_bytes res > 2 ^ 32 - 1 then (Inl size_limit_error, fs)
     else case xs_open_binary_sink (of_nat (rs_size_bytes res)) None fresh now (fs_session fs) of
         (Inl e, s) \<Rightarrow> (Inl e, fs\<lparr>fs_session := s\<rparr>)
       | (Inr tx, s) \<Rightarrow>
         (Inr (length (fs_servings fs)),
          fs\<lparr>fs_session := s,
             fs_servings := fs_servings fs @
               [\<lparr>sg_uri = uri, sg_txid = tx,
                 sg_meta = \<lparr>fm_txid = tx, fm_sha256 = rs_sha256 res, fm_size_bytes = rs_size_bytes res, fm_mime = rs_mime res\<rparr>,
                 sg_control = [], sg_control_rx = True, sg_begun = False\<rparr>]\<rparr>))"

text \<open>\<open>provider.resolve\<close> returned \<open>res\<close>.\<close>

definition fetch_resolved ::
  "nat \<Rightarrow> xacpp_error + resolved_resource \<Rightarrow> txid \<Rightarrow> nat \<Rightarrow> fetch_service \<Rightarrow> fetch_effect list \<times> fetch_service" where
  "fetch_resolved c res fresh now fs =
    (case hm_get (fs_calls fs) c of
       Some (Fetch_Resolve uri n) \<Rightarrow>
         (let (out, fs1) = (case res of Inl e \<Rightarrow> (Inl e, fs) | Inr r \<Rightarrow> build_serving uri r fresh now fs)
          in ([], set_call c (Fetch_Publish uri n out) fs1))
     | _ \<Rightarrow> ([], fs))"

definition fetch_claim :: "nat \<Rightarrow> string \<Rightarrow> fetch_service \<Rightarrow> fetch_effect list \<times> fetch_service" where
  "fetch_claim c uri fs =
    (case hm_get (fs_by_uri fs) uri of
       Some (Ready i) \<Rightarrow> answer c (Inr (ready_response (sg_meta (fs_servings fs ! i)))) fs
     | Some (Resolving n) \<Rightarrow> ([], set_call c (Fetch_Wait n) fs)
     | None \<Rightarrow>
       (let n = length (fs_slots fs)
        in ([Resolve_Called uri],
            set_call c (Fetch_Resolve uri n)
              (fs\<lparr>fs_slots := fs_slots fs @ [None], fs_by_uri := hm_put uri (Resolving n) (fs_by_uri fs)\<rparr>))))"

definition fetch_publish ::
  "nat \<Rightarrow> string \<Rightarrow> nat \<Rightarrow> resolve_outcome \<Rightarrow> fetch_service \<Rightarrow> fetch_effect list \<times> fetch_service" where
  "fetch_publish c uri n out fs =
    (case out of
       Inr i \<Rightarrow>
         ([Published uri i],
          set_call c (Fetch_Fill n out (outcome_response fs out))
            (fs\<lparr>fs_by_uri := hm_put uri (Ready i) (fs_by_uri fs),
                fs_by_txid := hm_put (sg_txid (fs_servings fs ! i)) i (fs_by_txid fs)\<rparr>))
     | Inl e \<Rightarrow>
         (let fs1 = (if hm_get (fs_by_uri fs) uri = Some (Resolving n)
                     then fs\<lparr>fs_by_uri := hm_del uri (fs_by_uri fs)\<rparr> else fs)
          in ([Resolve_Failed uri], set_call c (Fetch_Fill n out (outcome_response fs out)) fs1)))"

definition slot_fill :: "nat \<Rightarrow> resolve_outcome \<Rightarrow> fetch_service \<Rightarrow> fetch_service" where
  "slot_fill n out fs = fs\<lparr>fs_slots := (fs_slots fs)[n := Some out]\<rparr>"

text \<open>\<open>notify_waiters\<close> wakes the calls that are subscribed, and stores no permit for others.\<close>

definition notify_waiters :: "nat \<Rightarrow> fetch_service \<Rightarrow> fetch_service" where
  "notify_waiters n fs =
    fs\<lparr>fs_calls := map (\<lambda>(c, fc). (c, if fc = Fetch_Parked n then Fetch_Wait n else fc)) (fs_calls fs)\<rparr>"

definition begin_lookup :: "nat \<Rightarrow> string \<Rightarrow> fetch_service \<Rightarrow> fetch_effect list \<times> fetch_service" where
  "begin_lookup c hex fs =
    (case parse_transaction_id hex of
       Inl _ \<Rightarrow> answer c (Inr (malformed_fetch_id hex)) fs
     | Inr tx \<Rightarrow>
       (case hm_get (fs_by_txid fs) tx of
          None \<Rightarrow> answer c (Inr (Error_Resp FETCH_REFUSED ''unknown fetch transaction'')) fs
        | Some i \<Rightarrow>
          (if sg_begun (fs_servings fs ! i) then answer c (Inr acknowledge) fs
           else ([], set_call c (Begin_Spawn i hex) (update_serving i (sg_begun_update (\<lambda>_. True)) fs)))))"

definition begin_spawn :: "nat \<Rightarrow> nat \<Rightarrow> string \<Rightarrow> fetch_service \<Rightarrow> fetch_effect list \<times> fetch_service" where
  "begin_spawn c i hex fs =
    (if \<not> sg_control_rx (fs_servings fs ! i)
     then answer c (Inr (Error_Resp FETCH_REFUSED (''fetch serving: control channel already taken for '' @ hex))) fs
     else ([Serve_Started i],
           set_call c (Begin_Return i)
             ((update_serving i (sg_control_rx_update (\<lambda>_. False)) fs)\<lparr>fs_tasks := hm_put i Serving_Run (fs_tasks fs)\<rparr>)))"

definition handle_flow ::
  "nat \<Rightarrow> string \<Rightarrow> serve_control \<Rightarrow> string \<Rightarrow> fetch_service \<Rightarrow> fetch_effect list \<times> fetch_service" where
  "handle_flow c hex control what fs =
    (case parse_transaction_id hex of
       Inl _ \<Rightarrow> answer c (Inr (malformed_fetch_id hex)) fs
     | Inr tx \<Rightarrow>
       (case hm_get (fs_by_txid fs) tx of
          Some i \<Rightarrow> answer c (Inr acknowledge) (update_serving i (\<lambda>s. s\<lparr>sg_control := sg_control s @ [control]\<rparr>) fs)
        | None \<Rightarrow> answer c (Inr (Error_Resp FETCH_REFUSED (what @ '': unknown fetch transaction''))) fs))"

definition abort_lookup :: "nat \<Rightarrow> string \<Rightarrow> fetch_service \<Rightarrow> fetch_effect list \<times> fetch_service" where
  "abort_lookup c hex fs =
    (case parse_transaction_id hex of
       Inl _ \<Rightarrow> answer c (Inr acknowledge) fs
     | Inr tx \<Rightarrow>
       (case hm_get (fs_by_txid fs) tx of
          None \<Rightarrow> answer c (Inr acknowledge) fs
        | Some i \<Rightarrow> apsnd (set_call c (Abort_Signal i)) (evict tx fs)))"

text \<open>Without a serving task the sink is aborted here, if this call holds the last reference.\<close>

definition abort_signal :: "link \<Rightarrow> nat \<Rightarrow> nat \<Rightarrow> fetch_service \<Rightarrow> fetch_effect list \<times> fetch_service" where
  "abort_signal lk c i fs =
    (if sg_begun (fs_servings fs ! i)
     then ([], set_call c (Abort_Return i) (update_serving i (\<lambda>s. s\<lparr>sg_control := sg_control s @ [Abort_Control]\<rparr>) fs))
     else
       let fs1 = (update_serving i (sg_begun_update (\<lambda>_. True)) fs)\<lparr>fs_calls := hm_del c (fs_calls fs)\<rparr>
       in if serving_alive fs1 i then ([Terminal_Skipped i, Answer c (Inr acknowledge)], fs1)
          else case sink_abort (xs_transfer (fs_session fs1)) lk (sg_txid (fs_servings fs1 ! i)) of
              (_, eff, co) \<Rightarrow> ([Sink_Aborted i eff, Answer c (Inr acknowledge)], set_transfer co fs1))"

text \<open>The next section of a call; a call that waits does nothing.\<close>

definition run_call :: "link \<Rightarrow> nat \<Rightarrow> fetch_service \<Rightarrow> fetch_effect list \<times> fetch_service" where
  "run_call lk c fs =
    (case hm_get (fs_calls fs) c of
       None \<Rightarrow> ([], fs)
     | Some (Fetch_Lookup uri) \<Rightarrow>
       (case hm_get (fs_by_uri fs) uri of
          Some (Ready i) \<Rightarrow> answer c (Inr (ready_response (sg_meta (fs_servings fs ! i)))) fs
        | Some (Resolving n) \<Rightarrow> ([], set_call c (Fetch_Wait n) fs)
        | None \<Rightarrow> ([], set_call c (Fetch_Claim uri) fs))
     | Some (Fetch_Claim uri) \<Rightarrow> fetch_claim c uri fs
     | Some (Fetch_Wait n) \<Rightarrow>
       (case slot_result fs n of
          Some out \<Rightarrow> ([], set_call c (Fetch_Reply n out) fs)
        | None \<Rightarrow> ([], set_call c (Fetch_Parking n) fs))
     | Some (Fetch_Parking n) \<Rightarrow> ([], set_call c (Fetch_Parked n) fs)
     | Some (Fetch_Parked n) \<Rightarrow> ([], fs)
     | Some (Fetch_Reply n out) \<Rightarrow> answer c (Inr (outcome_response fs out)) fs
     | Some (Fetch_Resolve uri n) \<Rightarrow> ([], fs)
     | Some (Fetch_Publish uri n out) \<Rightarrow> fetch_publish c uri n out fs
     | Some (Fetch_Fill n out resp) \<Rightarrow> ([], set_call c (Fetch_Notify n out resp) (slot_fill n out fs))
     | Some (Fetch_Notify n out resp) \<Rightarrow> answer c (Inr resp) (notify_waiters n fs)
     | Some (Begin_Lookup hex) \<Rightarrow> begin_lookup c hex fs
     | Some (Begin_Spawn i hex) \<Rightarrow> begin_spawn c i hex fs
     | Some (Begin_Return i) \<Rightarrow> answer c (Inr acknowledge) fs
     | Some (Flow_Lookup hex control what) \<Rightarrow> handle_flow c hex control what fs
     | Some (Abort_Lookup hex) \<Rightarrow> abort_lookup c hex fs
     | Some (Abort_Signal i) \<Rightarrow> abort_signal lk c i fs
     | Some (Abort_Return i) \<Rightarrow> answer c (Inr acknowledge) fs)"

text \<open>
  A handler is dropped: a transport that disconnects aborts the handlers in flight, and an aborted handler
  stops where it awaits a lock, the provider, a notification or the sink; nothing is answered. Between two
  awaits it cannot stop. The not-begun branch of \<open>handle_abort\<close> awaits in \<open>sink.abort\<close>, behind the flag.
\<close>

fun awaits :: "fetch_call \<Rightarrow> bool" where
  "awaits (Fetch_Parking n) = False"
| "awaits (Fetch_Reply n out) = False"
| "awaits (Fetch_Notify n out resp) = False"
| "awaits (Begin_Return i) = False"
| "awaits (Abort_Signal i) = False"
| "awaits (Abort_Return i) = False"
| "awaits _ = True"

definition drop_call :: "nat \<Rightarrow> fetch_service \<Rightarrow> fetch_service" where
  "drop_call c fs =
    (case hm_get (fs_calls fs) c of
       None \<Rightarrow> fs
     | Some (Abort_Signal i) \<Rightarrow>
       (let fs1 = (update_serving i (sg_begun_update (\<lambda>_. True)) fs)\<lparr>fs_calls := hm_del c (fs_calls fs)\<rparr>
        in if sg_begun (fs_servings fs ! i) \<or> serving_alive fs1 i then fs else fs1)
     | Some fc \<Rightarrow> (if awaits fc then fs\<lparr>fs_calls := hm_del c (fs_calls fs)\<rparr> else fs))"

text \<open>\<open>on_command\<close>: a fetch command starts its handler, the inner handler answers the rest.\<close>

definition no_inner_handler :: xacpp_error where
  "no_inner_handler = Application ''unknown_command'' ''no inner handler registered''"

definition fetch_on_command ::
  "(xacpp_command \<Rightarrow> xacpp_error + xacpp_response) option \<Rightarrow> nat \<Rightarrow> xacpp_command \<Rightarrow> fetch_service
    \<Rightarrow> fetch_effect list \<times> fetch_service" where
  "fetch_on_command inner c cmd fs =
    (case cmd of
       Fetch uri \<Rightarrow> ([], set_call c (Fetch_Lookup uri) fs)
     | FetchBegin hex \<Rightarrow> ([], set_call c (Begin_Lookup hex) fs)
     | FetchPause hex \<Rightarrow> ([], set_call c (Flow_Lookup hex Pause_Control ''fetch_pause'') fs)
     | FetchResume hex \<Rightarrow> ([], set_call c (Flow_Lookup hex Resume_Control ''fetch_resume'') fs)
     | FetchAbort hex \<Rightarrow> ([], set_call c (Abort_Lookup hex) fs)
     | other \<Rightarrow> ([Answer c (case inner of Some h \<Rightarrow> h other | None \<Rightarrow> Inl no_inner_handler)], fs))"

definition fetch_on_event ::
  "(xacpp_activity_event \<Rightarrow> xacpp_error + xacpp_response) option \<Rightarrow> nat \<Rightarrow> xacpp_activity_event \<Rightarrow> fetch_service
    \<Rightarrow> fetch_effect list \<times> fetch_service" where
  "fetch_on_event inner c evt fs = ([Answer c (case inner of Some h \<Rightarrow> h evt | None \<Rightarrow> Inr acknowledge)], fs)"

section \<open>Serving tasks\<close>

definition set_task :: "nat \<Rightarrow> serving_phase \<Rightarrow> fetch_service \<Rightarrow> fetch_service" where
  "set_task i ph fs = fs\<lparr>fs_tasks := hm_put i ph (fs_tasks fs)\<rparr>"

text \<open>One pass of \<open>sink.write\<close> by the provider; the serve task runs only while its serving does.\<close>

definition serve_write :: "link \<Rightarrow> nat \<Rightarrow> byte list \<Rightarrow> nat \<Rightarrow> fetch_service \<Rightarrow> fetch_effect list \<times> fetch_service" where
  "serve_write lk i chunk now fs =
    (if hm_get (fs_tasks fs) i \<noteq> Some Serving_Run then ([], fs)
     else case sink_write (xs_transfer (fs_session fs)) lk (sg_txid (fs_servings fs ! i)) chunk now of
         (_, eff, co) \<Rightarrow> ([Provider_Wrote i eff], set_transfer co fs))"

definition serve_done :: "nat \<Rightarrow> bool \<Rightarrow> fetch_service \<Rightarrow> fetch_effect list \<times> fetch_service" where
  "serve_done i ok fs = (if hm_get (fs_tasks fs) i \<noteq> Some Serving_Run then ([], fs) else ([], set_task i (Serving_Evict (\<not> ok)) fs))"

text \<open>The control branch of the loop; the channel is closed once the serving is gone.\<close>

definition serve_control_step :: "link \<Rightarrow> nat \<Rightarrow> nat \<Rightarrow> fetch_service \<Rightarrow> fetch_effect list \<times> fetch_service" where
  "serve_control_step lk i now fs =
    (if hm_get (fs_tasks fs) i \<noteq> Some Serving_Run then ([], fs)
     else
       let s = fs_servings fs ! i; co = xs_transfer (fs_session fs);
           taken = update_serving i (\<lambda>s. s\<lparr>sg_control := tl (sg_control s)\<rparr>) fs
       in case sg_control s of
            [] \<Rightarrow> (if serving_alive fs i then ([], fs) else ([], set_task i (Serving_Evict True) fs))
          | Pause_Control # q \<Rightarrow>
              (case sink_pause co lk (sg_txid s) now of (_, eff, co') \<Rightarrow> ([Flow_Applied i eff], set_transfer co' taken))
          | Resume_Control # q \<Rightarrow>
              (case sink_resume co (sg_txid s) now of (_, co') \<Rightarrow> ([Flow_Applied i []], set_transfer co' taken))
          | Abort_Control # q \<Rightarrow> ([], set_task i (Serving_Evict True) taken))"

definition finish_phase :: "nat \<Rightarrow> finish_pass \<Rightarrow> serving_phase" where
  "finish_phase cb r = (case r of FinishParked fs \<Rightarrow> Serving_Parked cb fs | _ \<Rightarrow> Serving_Over)"

text \<open>
  The rest of the task: eviction, then the terminal operation on the sink, which needs the last
  reference to it.
\<close>

definition serve_end :: "link \<Rightarrow> nat \<Rightarrow> nat \<Rightarrow> nat \<Rightarrow> fetch_service \<Rightarrow> fetch_effect list \<times> fetch_service" where
  "serve_end lk i cb now fs =
    (let tx = sg_txid (fs_servings fs ! i); co = xs_transfer (fs_session fs)
     in case hm_get (fs_tasks fs) i of
          Some (Serving_Evict aborted) \<Rightarrow> apsnd (set_task i (Serving_End aborted)) (evict tx fs)
        | Some (Serving_End aborted) \<Rightarrow>
            (if serving_alive fs i then ([Terminal_Skipped i], set_task i Serving_Over fs)
             else if aborted then
               (case sink_abort co lk tx of (_, eff, co') \<Rightarrow> ([Sink_Aborted i eff], set_task i Serving_Over (set_transfer co' fs)))
             else
               (case sink_finish co lk tx cb now of
                  (r, eff, co') \<Rightarrow> ([Sink_Finished i eff], set_task i (finish_phase cb r) (set_transfer co' fs))))
        | Some (Serving_Parked cb' frames) \<Rightarrow>
            (case sink_finish_woken co lk tx cb' frames of
               (r, eff, co') \<Rightarrow> ([Session_Did eff], set_task i (finish_phase cb' r) (set_transfer co' fs)))
        | _ \<Rightarrow> ([], fs))"

section \<open>Runs\<close>

datatype fetch_op =
    F_Command nat xacpp_command
  | F_Event nat xacpp_activity_event
  | F_Run link nat
  | F_Drop nat
  | F_Resolved nat "xacpp_error + resolved_resource" txid nat
  | F_Write link nat "byte list" nat
  | F_Done nat bool
  | F_Control link nat nat
  | F_End link nat nat nat
  | F_Session env session_op

record inner_handler =
  ih_command :: "xacpp_command \<Rightarrow> xacpp_error + xacpp_response"
  ih_event :: "xacpp_activity_event \<Rightarrow> xacpp_error + xacpp_response"

text \<open>
  A command or event arrives under a number that no call in progress has. Meanwhile the session is used by its
  owner, its clock and its transport.
\<close>

fun fetch_step :: "inner_handler option \<Rightarrow> fetch_op \<Rightarrow> fetch_service \<Rightarrow> fetch_effect list \<times> fetch_service" where
  "fetch_step inner (F_Command c cmd) fs =
    (if hm_contains (fs_calls fs) c then ([], fs) else fetch_on_command (map_option ih_command inner) c cmd fs)"
| "fetch_step inner (F_Event c evt) fs =
    (if hm_contains (fs_calls fs) c then ([], fs) else fetch_on_event (map_option ih_event inner) c evt fs)"
| "fetch_step inner (F_Run lk c) fs = run_call lk c fs"
| "fetch_step inner (F_Drop c) fs = ([], drop_call c fs)"
| "fetch_step inner (F_Resolved c res fresh now) fs = fetch_resolved c res fresh now fs"
| "fetch_step inner (F_Write lk i chunk now) fs = serve_write lk i chunk now fs"
| "fetch_step inner (F_Done i ok) fs = serve_done i ok fs"
| "fetch_step inner (F_Control lk i now) fs = serve_control_step lk i now fs"
| "fetch_step inner (F_End lk i cb now) fs = serve_end lk i cb now fs"
| "fetch_step inner (F_Session ev op) fs =
    (case session_step ev op (xs_transfer (fs_session fs)) of (eff, co) \<Rightarrow> ([Session_Did eff], set_transfer co fs))"

end
