(* ===== verification/Fetch_Serving.thy ===== *)
theory Fetch_Serving
  imports Fetch_Service
begin

text \<open>
  The tables of the fetch service and the life of a serving, in every interleaving of its handlers and
  tasks: one resolution per uri, the begin gate, and the forced terminal operation.
\<close>

section \<open>What a call answers for\<close>

text \<open>
  The placeholder a call owns, the unpublished serving it has built, the serving whose gate it has
  taken and will spawn, and the serving it has removed in order to abort it.
\<close>

fun call_owner :: "fetch_call \<Rightarrow> (string \<times> nat) option" where
  "call_owner (Fetch_Resolve uri n) = Some (uri, n)"
| "call_owner (Fetch_Publish uri n out) = Some (uri, n)"
| "call_owner _ = None"

fun call_built :: "fetch_call \<Rightarrow> nat option" where
  "call_built (Fetch_Publish uri n (Inr i)) = Some i"
| "call_built _ = None"

fun call_spawns :: "fetch_call \<Rightarrow> nat option" where
  "call_spawns (Begin_Spawn i hex) = Some i"
| "call_spawns _ = None"

fun call_aborts :: "fetch_call \<Rightarrow> nat option" where
  "call_aborts (Abort_Signal i) = Some i"
| "call_aborts _ = None"

definition of_call :: "(fetch_call \<Rightarrow> 'a option) \<Rightarrow> fetch_service \<Rightarrow> nat \<Rightarrow> 'a option" where
  "of_call f fs c = Option.bind (hm_get (fs_calls fs) c) f"

lemma of_call_simps [simp]:
  "of_call f (set_call c fc fs) d = (if d = c then f fc else of_call f fs d)"
  "of_call f (fs\<lparr>fs_calls := hm_del c (fs_calls fs')\<rparr>) d = (if d = c then None else of_call f fs' d)"
  "of_call f (fs\<lparr>fs_by_uri := bu\<rparr>) = of_call f fs"
  "of_call f (fs\<lparr>fs_by_txid := bt\<rparr>) = of_call f fs"
  "of_call f (fs\<lparr>fs_servings := sv\<rparr>) = of_call f fs"
  "of_call f (fs\<lparr>fs_slots := sl\<rparr>) = of_call f fs"
  "of_call f (fs\<lparr>fs_tasks := ta\<rparr>) = of_call f fs"
  "of_call f (fs\<lparr>fs_session := s\<rparr>) = of_call f fs"
  "of_call f (update_serving i g fs) = of_call f fs"
  "of_call f (set_task i ph fs) = of_call f fs"
  "of_call f (set_transfer co fs) = of_call f fs"
  "of_call f (slot_fill n out fs) = of_call f fs"
  by (auto simp: of_call_def set_call_def update_serving_def set_task_def set_transfer_def slot_fill_def fun_eq_iff)

lemma of_call_notify [simp]:
  "f (Fetch_Parked n) = f (Fetch_Wait n) \<Longrightarrow> of_call f (notify_waiters n fs) = of_call f fs"
  by (rule ext) (auto simp: of_call_def notify_waiters_def hm_get_map [where f = "\<lambda>c fc. if fc = Fetch_Parked n then Fetch_Wait n else fc"]
      split: option.split bind_split)

lemma of_call_at: "hm_get (fs_calls fs) c = Some fc \<Longrightarrow> of_call f fs c = f fc"
  by (simp add: of_call_def)

section \<open>The invariants\<close>

text \<open>
  Ready entries and transaction entries are inverse; every owner has its placeholder, and no placeholder
  two owners; a serving is unpublished while its builder holds it.
\<close>

definition tables_inv :: "fetch_service \<Rightarrow> bool" where
  "tables_inv fs \<longleftrightarrow>
    (\<forall>tx i. hm_get (fs_by_txid fs) tx = Some i \<longrightarrow>
      i < length (fs_servings fs) \<and> sg_txid (fs_servings fs ! i) = tx \<and>
      hm_get (fs_by_uri fs) (sg_uri (fs_servings fs ! i)) = Some (Ready i)) \<and>
    (\<forall>uri i. hm_get (fs_by_uri fs) uri = Some (Ready i) \<longrightarrow>
      i < length (fs_servings fs) \<and> sg_uri (fs_servings fs ! i) = uri \<and>
      hm_get (fs_by_txid fs) (sg_txid (fs_servings fs ! i)) = Some i) \<and>
    distinct (map sg_txid (fs_servings fs))"

definition owners_inv :: "fetch_service \<Rightarrow> bool" where
  "owners_inv fs \<longleftrightarrow>
    (\<forall>c uri n. of_call call_owner fs c = Some (uri, n) \<longrightarrow> hm_get (fs_by_uri fs) uri = Some (Resolving n)) \<and>
    (\<forall>c d uri m n. of_call call_owner fs c = Some (uri, m) \<longrightarrow> of_call call_owner fs d = Some (uri, n) \<longrightarrow> c = d) \<and>
    (\<forall>c i. of_call call_built fs c = Some i \<longrightarrow>
      i < length (fs_servings fs) \<and> hm_get (fs_by_txid fs) (sg_txid (fs_servings fs ! i)) = None \<and>
      (\<exists>n. of_call call_owner fs c = Some (sg_uri (fs_servings fs ! i), n)))"

text \<open>The gate: not begun means no task and the control channel in place; begun by a call means that call spawns.\<close>

definition begin_inv :: "fetch_service \<Rightarrow> bool" where
  "begin_inv fs \<longleftrightarrow>
    (\<forall>i. hm_get (fs_tasks fs) i \<noteq> None \<longrightarrow> i < length (fs_servings fs) \<and> \<not> sg_control_rx (fs_servings fs ! i)) \<and>
    (\<forall>i < length (fs_servings fs). \<not> sg_begun (fs_servings fs ! i) \<longrightarrow> sg_control_rx (fs_servings fs ! i)) \<and>
    (\<forall>c i. of_call call_spawns fs c = Some i \<longrightarrow>
      i < length (fs_servings fs) \<and> sg_begun (fs_servings fs ! i) \<and> sg_control_rx (fs_servings fs ! i)) \<and>
    (\<forall>c d i. of_call call_spawns fs c = Some i \<longrightarrow> of_call call_spawns fs d = Some i \<longrightarrow> c = d) \<and>
    (\<forall>c i. of_call call_aborts fs c = Some i \<longrightarrow>
      i < length (fs_servings fs) \<and> hm_get (fs_by_txid fs) (sg_txid (fs_servings fs ! i)) = None) \<and>
    (\<forall>i ph. hm_get (fs_tasks fs) i = Some ph \<longrightarrow> ph \<noteq> Serving_Run \<longrightarrow> (\<forall>a. ph \<noteq> Serving_Evict a) \<longrightarrow>
      hm_get (fs_by_txid fs) (sg_txid (fs_servings fs ! i)) = None) \<and>
    (\<forall>c i. of_call call_built fs c = Some i \<longrightarrow>
      \<not> sg_begun (fs_servings fs ! i) \<and> (\<forall>d. of_call call_aborts fs d \<noteq> Some i))"

definition maps_inv :: "fetch_service \<Rightarrow> bool" where
  "maps_inv fs \<longleftrightarrow> hm_inv (fs_by_uri fs) \<and> hm_inv (fs_by_txid fs) \<and> hm_inv (fs_calls fs) \<and> hm_inv (fs_tasks fs)"

definition fetch_inv :: "fetch_service \<Rightarrow> bool" where
  "fetch_inv fs \<longleftrightarrow> maps_inv fs \<and> tables_inv fs \<and> owners_inv fs \<and> begin_inv fs"

section \<open>Steps that change no table\<close>

lemma fetch_fields [simp]:
  "fs_by_uri (set_call c fc fs) = fs_by_uri fs" "fs_by_txid (set_call c fc fs) = fs_by_txid fs"
  "fs_servings (set_call c fc fs) = fs_servings fs" "fs_tasks (set_call c fc fs) = fs_tasks fs"
  "fs_slots (set_call c fc fs) = fs_slots fs" "fs_session (set_call c fc fs) = fs_session fs"
  "fs_calls (set_call c fc fs) = hm_put c fc (fs_calls fs)"
  "fs_by_uri (update_serving i f fs) = fs_by_uri fs" "fs_by_txid (update_serving i f fs) = fs_by_txid fs"
  "fs_calls (update_serving i f fs) = fs_calls fs" "fs_tasks (update_serving i f fs) = fs_tasks fs"
  "fs_slots (update_serving i f fs) = fs_slots fs" "fs_session (update_serving i f fs) = fs_session fs"
  "fs_servings (update_serving i f fs) = (fs_servings fs)[i := f (fs_servings fs ! i)]"
  "fs_by_uri (set_transfer co fs) = fs_by_uri fs" "fs_by_txid (set_transfer co fs) = fs_by_txid fs"
  "fs_calls (set_transfer co fs) = fs_calls fs" "fs_tasks (set_transfer co fs) = fs_tasks fs"
  "fs_slots (set_transfer co fs) = fs_slots fs" "fs_servings (set_transfer co fs) = fs_servings fs"
  "fs_by_uri (set_task i ph fs) = fs_by_uri fs" "fs_by_txid (set_task i ph fs) = fs_by_txid fs"
  "fs_calls (set_task i ph fs) = fs_calls fs" "fs_tasks (set_task i ph fs) = hm_put i ph (fs_tasks fs)"
  "fs_slots (set_task i ph fs) = fs_slots fs" "fs_servings (set_task i ph fs) = fs_servings fs"
  "fs_by_uri (slot_fill n out fs) = fs_by_uri fs" "fs_by_txid (slot_fill n out fs) = fs_by_txid fs"
  "fs_calls (slot_fill n out fs) = fs_calls fs" "fs_tasks (slot_fill n out fs) = fs_tasks fs"
  "fs_servings (slot_fill n out fs) = fs_servings fs"
  "fs_by_uri (notify_waiters n fs) = fs_by_uri fs" "fs_by_txid (notify_waiters n fs) = fs_by_txid fs"
  "fs_slots (notify_waiters n fs) = fs_slots fs" "fs_tasks (notify_waiters n fs) = fs_tasks fs"
  "fs_servings (notify_waiters n fs) = fs_servings fs"
  by (simp_all add: set_call_def update_serving_def set_transfer_def set_task_def slot_fill_def notify_waiters_def)

definition serving_view :: "serving \<Rightarrow> string \<times> txid \<times> bool \<times> bool" where
  "serving_view s = (sg_uri s, sg_txid s, sg_begun s, sg_control_rx s)"

text \<open>A step is quiet if it leaves the tables, the tasks and what calls answer for alone.\<close>

definition quiet :: "fetch_service \<Rightarrow> fetch_service \<Rightarrow> bool" where
  "quiet fs fs' \<longleftrightarrow>
    fs_by_uri fs' = fs_by_uri fs \<and> fs_by_txid fs' = fs_by_txid fs \<and> fs_tasks fs' = fs_tasks fs \<and>
    map serving_view (fs_servings fs') = map serving_view (fs_servings fs) \<and> (hm_inv (fs_calls fs) \<longrightarrow> hm_inv (fs_calls fs')) \<and>
    of_call call_owner fs' = of_call call_owner fs \<and> of_call call_built fs' = of_call call_built fs \<and>
    of_call call_spawns fs' = of_call call_spawns fs \<and> of_call call_aborts fs' = of_call call_aborts fs"

lemma quiet_refl [simp]: "quiet fs fs"
  by (simp add: quiet_def)

lemma view_nth:
  assumes "map serving_view ss' = map serving_view ss" "i < length ss"
  shows "sg_uri (ss' ! i) = sg_uri (ss ! i)" "sg_txid (ss' ! i) = sg_txid (ss ! i)"
    "sg_begun (ss' ! i) = sg_begun (ss ! i)" "sg_control_rx (ss' ! i) = sg_control_rx (ss ! i)"
  using arg_cong [OF assms(1), of "\<lambda>xs. xs ! i"] assms(2) map_eq_imp_length_eq [OF assms(1)]
  by (simp_all add: serving_view_def)

lemma quiet_inv:
  assumes "quiet fs fs'" "fetch_inv fs"
  shows "fetch_inv fs'"
proof -
  have v: "map serving_view (fs_servings fs') = map serving_view (fs_servings fs)"
    using assms(1) by (simp add: quiet_def)
  note n = view_nth [OF v] map_eq_imp_length_eq [OF v]
  have t: "map sg_txid (fs_servings fs') = map sg_txid (fs_servings fs)"
    using n(2,5) by (simp add: list_eq_iff_nth_eq)
  show ?thesis
    using assms n t unfolding quiet_def fetch_inv_def maps_inv_def tables_inv_def owners_inv_def begin_inv_def
    by (auto 4 3)
qed

text \<open>Calls that answer for nothing may come, move on and go.\<close>

definition idle_call :: "fetch_call \<Rightarrow> bool" where
  "idle_call fc \<longleftrightarrow> call_owner fc = None \<and> call_built fc = None \<and> call_spawns fc = None \<and> call_aborts fc = None"

definition idle_at :: "fetch_service \<Rightarrow> nat \<Rightarrow> bool" where
  "idle_at fs c \<longleftrightarrow> of_call call_owner fs c = None \<and> of_call call_built fs c = None \<and> of_call call_spawns fs c = None \<and> of_call call_aborts fs c = None"

lemma idle_atI: "hm_get (fs_calls fs) c = Some fc \<Longrightarrow> idle_call fc \<Longrightarrow> idle_at fs c"
  by (simp add: idle_at_def idle_call_def of_call_at)

lemma quiet_set_call: "idle_at fs c \<Longrightarrow> idle_call fc \<Longrightarrow> quiet fs (set_call c fc fs)"
  by (auto simp: quiet_def idle_at_def idle_call_def)

lemma quiet_answer: "idle_at fs c \<Longrightarrow> quiet fs (snd (answer c r fs))"
  by (auto simp: quiet_def idle_at_def answer_def fun_eq_iff)

lemma quiet_trans: "quiet fs fs1 \<Longrightarrow> quiet fs1 fs2 \<Longrightarrow> quiet fs fs2"
  by (simp add: quiet_def)

lemma quiet_idle_at: "quiet fs fs' \<Longrightarrow> idle_at fs' c = idle_at fs c"
  by (simp add: quiet_def idle_at_def)

lemma quiet_transfer: "quiet fs (set_transfer co fs)"
  by (simp add: quiet_def)

lemma quiet_fill: "quiet fs (slot_fill n out fs)"
  by (simp add: quiet_def)

lemma quiet_notify: "quiet fs (notify_waiters n fs)"
  by (simp add: quiet_def notify_waiters_def hm_inv_map [where f = "\<lambda>c fc. if fc = Fetch_Parked n then Fetch_Wait n else fc"])
    (simp add: notify_waiters_def [symmetric])

lemma quiet_control:
  assumes "\<And>s. serving_view (f s) = serving_view s"
  shows "quiet fs (update_serving i f fs)"
  using assms by (cases "i < length (fs_servings fs)") (auto simp: quiet_def map_update list_update_same_conv list_update_beyond)

section \<open>Steps that change a table\<close>

lemmas fetch_invs = fetch_inv_def maps_inv_def tables_inv_def owners_inv_def begin_inv_def

text \<open>The clauses of the invariant one by one, as facts to use and as goals to prove.\<close>

lemma fetch_invD:
  assumes "fetch_inv fs"
  shows maps_hold: "maps_inv fs"
    and by_txid_entry: "hm_get (fs_by_txid fs) tx = Some i \<Longrightarrow>
      i < length (fs_servings fs) \<and> sg_txid (fs_servings fs ! i) = tx \<and> hm_get (fs_by_uri fs) (sg_uri (fs_servings fs ! i)) = Some (Ready i)"
    and by_uri_entry: "hm_get (fs_by_uri fs) uri = Some (Ready i) \<Longrightarrow>
      i < length (fs_servings fs) \<and> sg_uri (fs_servings fs ! i) = uri \<and> hm_get (fs_by_txid fs) (sg_txid (fs_servings fs ! i)) = Some i"
    and txids_distinct: "distinct (map sg_txid (fs_servings fs))"
    and owner_placeholder: "of_call call_owner fs c = Some (uri, n) \<Longrightarrow> hm_get (fs_by_uri fs) uri = Some (Resolving n)"
    and owner_unique: "of_call call_owner fs c = Some (uri, n) \<Longrightarrow> of_call call_owner fs d = Some (uri, m) \<Longrightarrow> c = d"
    and built_entry: "of_call call_built fs c = Some i \<Longrightarrow>
      i < length (fs_servings fs) \<and> hm_get (fs_by_txid fs) (sg_txid (fs_servings fs ! i)) = None \<and>
      (\<exists>n. of_call call_owner fs c = Some (sg_uri (fs_servings fs ! i), n))"
    and task_entry: "hm_get (fs_tasks fs) i = Some ph \<Longrightarrow> i < length (fs_servings fs) \<and> \<not> sg_control_rx (fs_servings fs ! i)"
    and not_begun: "i < length (fs_servings fs) \<Longrightarrow> \<not> sg_begun (fs_servings fs ! i) \<Longrightarrow> sg_control_rx (fs_servings fs ! i)"
    and spawner_entry: "of_call call_spawns fs c = Some i \<Longrightarrow>
      i < length (fs_servings fs) \<and> sg_begun (fs_servings fs ! i) \<and> sg_control_rx (fs_servings fs ! i)"
    and spawner_unique: "of_call call_spawns fs c = Some i \<Longrightarrow> of_call call_spawns fs d = Some i \<Longrightarrow> c = d"
    and aborter_entry: "of_call call_aborts fs c = Some i \<Longrightarrow>
      i < length (fs_servings fs) \<and> hm_get (fs_by_txid fs) (sg_txid (fs_servings fs ! i)) = None"
    and ended_entry: "hm_get (fs_tasks fs) i = Some ph \<Longrightarrow> ph \<noteq> Serving_Run \<Longrightarrow> (\<And>a. ph \<noteq> Serving_Evict a) \<Longrightarrow>
      hm_get (fs_by_txid fs) (sg_txid (fs_servings fs ! i)) = None"
    and built_fresh: "of_call call_built fs c = Some i \<Longrightarrow> \<not> sg_begun (fs_servings fs ! i) \<and> of_call call_aborts fs d \<noteq> Some i"
proof -
  note fs = assms [unfolded fetch_inv_def]
  show "maps_inv fs" "distinct (map sg_txid (fs_servings fs))"
    using fs by (simp_all add: tables_inv_def)
  show "hm_get (fs_by_txid fs) tx = Some i \<Longrightarrow>
      i < length (fs_servings fs) \<and> sg_txid (fs_servings fs ! i) = tx \<and> hm_get (fs_by_uri fs) (sg_uri (fs_servings fs ! i)) = Some (Ready i)"
    "hm_get (fs_by_uri fs) uri = Some (Ready i) \<Longrightarrow>
      i < length (fs_servings fs) \<and> sg_uri (fs_servings fs ! i) = uri \<and> hm_get (fs_by_txid fs) (sg_txid (fs_servings fs ! i)) = Some i"
    using fs by (simp_all add: tables_inv_def)
  show "of_call call_owner fs c = Some (uri, n) \<Longrightarrow> hm_get (fs_by_uri fs) uri = Some (Resolving n)"
    "of_call call_owner fs c = Some (uri, n) \<Longrightarrow> of_call call_owner fs d = Some (uri, m) \<Longrightarrow> c = d"
    "of_call call_built fs c = Some i \<Longrightarrow>
      i < length (fs_servings fs) \<and> hm_get (fs_by_txid fs) (sg_txid (fs_servings fs ! i)) = None \<and>
      (\<exists>n. of_call call_owner fs c = Some (sg_uri (fs_servings fs ! i), n))"
    using fs unfolding owners_inv_def by blast+
  show "hm_get (fs_tasks fs) i = Some ph \<Longrightarrow> i < length (fs_servings fs) \<and> \<not> sg_control_rx (fs_servings fs ! i)"
    "i < length (fs_servings fs) \<Longrightarrow> \<not> sg_begun (fs_servings fs ! i) \<Longrightarrow> sg_control_rx (fs_servings fs ! i)"
    "of_call call_spawns fs c = Some i \<Longrightarrow>
      i < length (fs_servings fs) \<and> sg_begun (fs_servings fs ! i) \<and> sg_control_rx (fs_servings fs ! i)"
    "of_call call_spawns fs c = Some i \<Longrightarrow> of_call call_spawns fs d = Some i \<Longrightarrow> c = d"
    "of_call call_aborts fs c = Some i \<Longrightarrow>
      i < length (fs_servings fs) \<and> hm_get (fs_by_txid fs) (sg_txid (fs_servings fs ! i)) = None"
    "hm_get (fs_tasks fs) i = Some ph \<Longrightarrow> ph \<noteq> Serving_Run \<Longrightarrow> (\<And>a. ph \<noteq> Serving_Evict a) \<Longrightarrow>
      hm_get (fs_by_txid fs) (sg_txid (fs_servings fs ! i)) = None"
    "of_call call_built fs c = Some i \<Longrightarrow> \<not> sg_begun (fs_servings fs ! i) \<and> of_call call_aborts fs d \<noteq> Some i"
    using fs unfolding begin_inv_def by blast+
qed

lemma fetch_invI:
  assumes "maps_inv fs"
    and "\<And>tx i. hm_get (fs_by_txid fs) tx = Some i \<Longrightarrow>
      i < length (fs_servings fs) \<and> sg_txid (fs_servings fs ! i) = tx \<and> hm_get (fs_by_uri fs) (sg_uri (fs_servings fs ! i)) = Some (Ready i)"
    and "\<And>uri i. hm_get (fs_by_uri fs) uri = Some (Ready i) \<Longrightarrow>
      i < length (fs_servings fs) \<and> sg_uri (fs_servings fs ! i) = uri \<and> hm_get (fs_by_txid fs) (sg_txid (fs_servings fs ! i)) = Some i"
    and "distinct (map sg_txid (fs_servings fs))"
    and "\<And>c uri n. of_call call_owner fs c = Some (uri, n) \<Longrightarrow> hm_get (fs_by_uri fs) uri = Some (Resolving n)"
    and "\<And>c d uri m n. of_call call_owner fs c = Some (uri, m) \<Longrightarrow> of_call call_owner fs d = Some (uri, n) \<Longrightarrow> c = d"
    and "\<And>c i. of_call call_built fs c = Some i \<Longrightarrow>
      i < length (fs_servings fs) \<and> hm_get (fs_by_txid fs) (sg_txid (fs_servings fs ! i)) = None \<and>
      (\<exists>n. of_call call_owner fs c = Some (sg_uri (fs_servings fs ! i), n))"
    and "\<And>i ph. hm_get (fs_tasks fs) i = Some ph \<Longrightarrow> i < length (fs_servings fs) \<and> \<not> sg_control_rx (fs_servings fs ! i)"
    and "\<And>i. i < length (fs_servings fs) \<Longrightarrow> \<not> sg_begun (fs_servings fs ! i) \<Longrightarrow> sg_control_rx (fs_servings fs ! i)"
    and "\<And>c i. of_call call_spawns fs c = Some i \<Longrightarrow>
      i < length (fs_servings fs) \<and> sg_begun (fs_servings fs ! i) \<and> sg_control_rx (fs_servings fs ! i)"
    and "\<And>c d i. of_call call_spawns fs c = Some i \<Longrightarrow> of_call call_spawns fs d = Some i \<Longrightarrow> c = d"
    and "\<And>c i. of_call call_aborts fs c = Some i \<Longrightarrow>
      i < length (fs_servings fs) \<and> hm_get (fs_by_txid fs) (sg_txid (fs_servings fs ! i)) = None"
    and "\<And>i ph. hm_get (fs_tasks fs) i = Some ph \<Longrightarrow> ph \<noteq> Serving_Run \<Longrightarrow> (\<And>a. ph \<noteq> Serving_Evict a) \<Longrightarrow>
      hm_get (fs_by_txid fs) (sg_txid (fs_servings fs ! i)) = None"
    and "\<And>c d i. of_call call_built fs c = Some i \<Longrightarrow> \<not> sg_begun (fs_servings fs ! i) \<and> of_call call_aborts fs d \<noteq> Some i"
  shows "fetch_inv fs"
proof -
  have "tables_inv fs"
    unfolding tables_inv_def using assms(2-4) by simp
  moreover have "owners_inv fs"
    unfolding owners_inv_def using assms(5,7) by (intro conjI) (blast, blast intro: assms(6), blast)
  moreover have "begin_inv fs"
    unfolding begin_inv_def not_None_eq using assms(8-10,12-14)
    by (intro conjI) (blast, blast, blast, blast intro: assms(11), blast, blast, blast)
  ultimately show ?thesis
    using assms(1) by (simp add: fetch_inv_def)
qed

lemma txid_inj:
  assumes "fetch_inv fs" "i < length (fs_servings fs)" "j < length (fs_servings fs)"
    "sg_txid (fs_servings fs ! i) = sg_txid (fs_servings fs ! j)"
  shows "i = j"
  using assms nth_eq_iff_index_eq [of "map sg_txid (fs_servings fs)" i j] txids_distinct by auto

lemma evict_cases:
  assumes "fetch_inv fs" "hm_get (fs_by_txid fs) tx = Some i"
  shows "evict tx fs = ([Evicted (sg_uri (fs_servings fs ! i)) i],
    fs\<lparr>fs_by_txid := hm_del tx (fs_by_txid fs), fs_by_uri := hm_del (sg_uri (fs_servings fs ! i)) (fs_by_uri fs)\<rparr>)"
  using by_txid_entry [OF assms] assms(2) by (simp add: evict_def Let_def)

lemma claim_inv:
  assumes "fetch_inv fs" "idle_at fs c" "hm_get (fs_by_uri fs) uri = None"
  shows "fetch_inv (set_call c (Fetch_Resolve uri n) (fs\<lparr>fs_slots := sl, fs_by_uri := hm_put uri (Resolving n) (fs_by_uri fs)\<rparr>))"
proof -
  note fs = fetch_invD [OF assms(1)]
  have no_owner: "of_call call_owner fs d \<noteq> Some (uri, m)" for d m
    using fs(5) assms(3) by fastforce
  have no_owner_c: "of_call call_owner fs c = None" "of_call call_built fs c = None" "of_call call_spawns fs c = None" "of_call call_aborts fs c = None"
    using assms(2) by (simp_all add: idle_at_def)
  show ?thesis
    by (rule fetch_invI)
      (use fs no_owner no_owner_c assms(3) in \<open>auto simp: maps_inv_def split: if_splits\<close>)
qed

lemma built_inv:
  assumes "fetch_inv fs" "of_call call_owner fs c = Some (uri, n)" "of_call call_spawns fs c = None" "of_call call_aborts fs c = None"
    and "sg_txid sg \<notin> set (map sg_txid (fs_servings fs))" "sg_uri sg = uri" "\<not> sg_begun sg" "sg_control_rx sg"
  shows "fetch_inv (set_call c (Fetch_Publish uri n (Inr (length (fs_servings fs)))) (fs\<lparr>fs_session := s, fs_servings := fs_servings fs @ [sg]\<rparr>))"
proof -
  note fs = fetch_invD [OF assms(1)]
  have no_entry: "hm_get (fs_by_txid fs) (sg_txid sg) = None"
    using fs(2) [of "sg_txid sg"] assms(5) by (cases "hm_get (fs_by_txid fs) (sg_txid sg)") (auto, metis image_eqI nth_mem)
  have len: "hm_get (fs_tasks fs) (length (fs_servings fs)) = None" "of_call call_aborts fs d \<noteq> Some (length (fs_servings fs))" for d
    using fs(8) [of "length (fs_servings fs)"] fs(12) [of d "length (fs_servings fs)"]
    by (cases "hm_get (fs_tasks fs) (length (fs_servings fs))", auto)
  let ?fs = "set_call c (Fetch_Publish uri n (Inr (length (fs_servings fs)))) (fs\<lparr>fs_session := s, fs_servings := fs_servings fs @ [sg]\<rparr>)"
  show ?thesis
  proof (rule fetch_invI)
    fix d d' uri' m m'
    assume "of_call call_owner ?fs d = Some (uri', m)" "of_call call_owner ?fs d' = Some (uri', m')"
    then show "d = d'"
      using fs(6) [of d uri' m d' m'] fs(6) [OF assms(2), of d m] fs(6) [OF assms(2), of d' m'] by (auto split: if_splits)
  next
    fix d d' i
    assume "of_call call_spawns ?fs d = Some i" "of_call call_spawns ?fs d' = Some i"
    then show "d = d'"
      using fs(11) [of d i d'] by (auto split: if_splits)
  qed (use fs(1-5,7-10,12-14) no_entry len assms(2-8) in \<open>auto simp: maps_inv_def nth_append less_Suc_eq split: if_splits\<close>)
qed

lemma resolved_inv:
  assumes "fetch_inv fs" "fresh \<notin> set (map sg_txid (fs_servings fs))"
  shows "fetch_inv (snd (fetch_resolved c res fresh now fs))"
proof (cases "\<exists>uri n. hm_get (fs_calls fs) c = Some (Fetch_Resolve uri n)")
  case True
  then obtain uri n where c: "hm_get (fs_calls fs) c = Some (Fetch_Resolve uri n)"
    by blast
  have at: "of_call call_owner fs c = Some (uri, n)" "of_call call_built fs c = None" "of_call call_spawns fs c = None"
      "of_call call_aborts fs c = None"
    by (simp_all add: of_call_at [OF c])
  have failed: "fetch_inv (set_call c (Fetch_Publish uri n (Inl e)) fs1)" if "quiet fs fs1" for e fs1
    by (rule quiet_inv [OF _ assms(1)]) (use that at in \<open>auto simp: quiet_def fun_eq_iff\<close>)
  show ?thesis
    using c failed built_inv [OF assms(1) at(1,3,4)] assms(2)
    by (auto simp: fetch_resolved_def build_serving_def xs_open_binary_sink_def open_binary_sink_def Let_def quiet_def
        split: sum.split prod.split)
qed (use assms(1) in \<open>auto simp: fetch_resolved_def split: option.split fetch_call.split\<close>)

text \<open>What an owner relies on when it publishes.\<close>

lemma publishing:
  assumes "fetch_inv fs" "hm_get (fs_calls fs) c = Some (Fetch_Publish uri n out)"
  shows "of_call call_owner fs c = Some (uri, n)" "of_call call_spawns fs c = None" "of_call call_aborts fs c = None"
    "hm_get (fs_by_uri fs) uri = Some (Resolving n)"
proof -
  note fs = fetch_invD [OF assms(1)]
  show at: "of_call call_owner fs c = Some (uri, n)" "of_call call_spawns fs c = None" "of_call call_aborts fs c = None"
    by (simp_all add: of_call_at [OF assms(2)])
  show "hm_get (fs_by_uri fs) uri = Some (Resolving n)"
    by (rule fs(5) [OF at(1)])
qed

lemma publish_failed_inv:
  assumes "fetch_inv fs" "hm_get (fs_calls fs) c = Some (Fetch_Publish uri n (Inl e))"
  shows "fetch_inv (snd (fetch_publish c uri n (Inl e) fs))"
proof -
  note fs = fetch_invD [OF assms(1)] and at = publishing [OF assms] and entry = publishing(4) [OF assms]
  let ?fs = "\<lambda>r. set_call c (Fetch_Fill n (Inl e) r) (fs\<lparr>fs_by_uri := hm_del uri (fs_by_uri fs)\<rparr>)"
  have "fetch_inv (?fs r)" for r
  proof (rule fetch_invI)
    fix d uri' m
    assume "of_call call_owner (?fs r) d = Some (uri', m)"
    then show "hm_get (fs_by_uri (?fs r)) uri' = Some (Resolving m)"
      using fs(5) [of d uri' m] fs(6) [OF at(1), of d m] by (auto split: if_splits)
  next
    fix d d' uri' m m'
    assume "of_call call_owner (?fs r) d = Some (uri', m)" "of_call call_owner (?fs r) d' = Some (uri', m')"
    then show "d = d'"
      using fs(6) [of d uri' m d' m'] by (auto split: if_splits)
  next
    fix d d' i
    assume "of_call call_spawns (?fs r) d = Some i" "of_call call_spawns (?fs r) d' = Some i"
    then show "d = d'"
      using fs(11) [of d i d'] by (auto split: if_splits)
  qed (use fs(1-4,7-10,12-14) entry at in \<open>auto simp: maps_inv_def split: if_splits\<close>)
  then show ?thesis
    using entry by (simp add: fetch_publish_def)
qed

lemma publish_built_inv:
  assumes "fetch_inv fs" "hm_get (fs_calls fs) c = Some (Fetch_Publish uri n (Inr i))"
  shows "fetch_inv (snd (fetch_publish c uri n (Inr i) fs))"
proof -
  note fs = fetch_invD [OF assms(1)] and at = publishing [OF assms] and entry = publishing(4) [OF assms]
  have b: "of_call call_built fs c = Some i"
    by (simp add: of_call_at [OF assms(2)])
  have i: "i < length (fs_servings fs)" "hm_get (fs_by_txid fs) (sg_txid (fs_servings fs ! i)) = None"
      "sg_uri (fs_servings fs ! i) = uri" "\<not> sg_begun (fs_servings fs ! i)" "sg_control_rx (fs_servings fs ! i)"
    using fs(7,14) [OF b] at(1) fs(9) by auto
  have inj: "sg_txid (fs_servings fs ! j) \<noteq> sg_txid (fs_servings fs ! i)" if "j < length (fs_servings fs)" "j \<noteq> i" for j
    using txid_inj [OF assms(1) that(1) i(1)] that(2) by blast
  have not_i: "of_call call_aborts fs d \<noteq> Some i" "of_call call_built fs d = Some i \<Longrightarrow> d = c" for d
    using fs(14) [OF b, of d] i fs(7) [of d i] fs(6) [OF at(1)] by auto
  have no_task: "hm_get (fs_tasks fs) i = None"
    using fs(8) [of i] i(5) by (cases "hm_get (fs_tasks fs) i") auto
  have ready: "\<not> (hm_get (fs_by_uri fs) uri = Some (Ready j))" for j
    using entry by simp
  show ?thesis
    unfolding fetch_publish_def sum.case snd_conv
    apply (rule fetch_invI)
    subgoal using fs(1) by (simp add: maps_inv_def)
    subgoal for tx j using fs(2) [of tx j] i ready by (auto split: if_splits)
    subgoal for uri' j using fs(3) [of uri' j] i inj by (auto split: if_splits)
    subgoal using fs(4) by simp
    subgoal for d uri' m using fs(5) [of d uri' m] fs(6) [OF at(1), of d] by (auto split: if_splits)
    subgoal for d d' uri' m m' using fs(6) [of d uri' m d' m'] by (auto split: if_splits)
    subgoal for d j using fs(7) [of d j] inj [of j] not_i(2) [of d] by (auto split: if_splits)
    subgoal for j ph using fs(8) [of j ph] by simp
    subgoal for j using fs(9) [of j] by simp
    subgoal for d j using fs(10) [of d j] by (simp split: if_splits)
    subgoal for d d' j using fs(11) [of d j d'] by (auto split: if_splits)
    subgoal for d j using fs(12) [of d j] inj [of j] not_i(1) [of d] by (auto split: if_splits)
    subgoal for j ph using fs(13) [of j ph] inj [of j] no_task fs(8) [of j ph] by (cases "j = i") auto
    subgoal for d d' j using fs(14) [of d j d'] by (auto split: if_splits)
    done
qed

lemma fetch_publish_inv:
  assumes "fetch_inv fs" "hm_get (fs_calls fs) c = Some (Fetch_Publish uri n out)"
  shows "fetch_inv (snd (fetch_publish c uri n out fs))"
  using assms publish_failed_inv publish_built_inv by (cases out) auto

text \<open>Removing a ready entry from both tables.\<close>

lemma evicted_tables_inv:
  assumes "fetch_inv fs" "hm_get (fs_by_txid fs) tx = Some i"
  shows "tables_inv (fs\<lparr>fs_by_txid := hm_del tx (fs_by_txid fs), fs_by_uri := hm_del (sg_uri (fs_servings fs ! i)) (fs_by_uri fs)\<rparr>)"
    (is "tables_inv ?fs")
proof -
  note fs = fetch_invD [OF assms(1)] and i = fetch_invD(2) [OF assms]
  have uri: "sg_uri (fs_servings fs ! j) = sg_uri (fs_servings fs ! i) \<Longrightarrow> j = i" if "hm_get (fs_by_txid fs) tx' = Some j" for tx' j
    using fs(2) [OF that] i by (metis option.inject uri_entry.inject(2))
  have txid: "j = i" if "hm_get (fs_by_uri fs) uri = Some (Ready j)" "sg_txid (fs_servings fs ! j) = tx" for uri j
    using fs(3) [OF that(1)] that(2) assms(2) by simp
  have txs: "j < length (fs_servings fs) \<and> sg_txid (fs_servings fs ! j) = tx' \<and> hm_get (fs_by_uri ?fs) (sg_uri (fs_servings fs ! j)) = Some (Ready j)"
    if "hm_get (fs_by_txid ?fs) tx' = Some j" for tx' j
  proof -
    have t: "tx' \<noteq> tx" "hm_get (fs_by_txid fs) tx' = Some j"
      using that by (auto split: if_splits)
    then have "j \<noteq> i"
      using fs(2) i by metis
    then show ?thesis
      using fs(2) [OF t(2)] uri [OF t(2)] by auto
  qed
  have uris: "j < length (fs_servings fs) \<and> sg_uri (fs_servings fs ! j) = uri' \<and> hm_get (fs_by_txid ?fs) (sg_txid (fs_servings fs ! j)) = Some j"
    if "hm_get (fs_by_uri ?fs) uri' = Some (Ready j)" for uri' j
  proof -
    have u: "uri' \<noteq> sg_uri (fs_servings fs ! i)" "hm_get (fs_by_uri fs) uri' = Some (Ready j)"
      using that by (auto split: if_splits)
    then have "sg_txid (fs_servings fs ! j) \<noteq> tx"
      using txid [OF u(2)] fs(3) by metis
    then show ?thesis
      using fs(3) [OF u(2)] by auto
  qed
  have servings: "fs_servings ?fs = fs_servings fs"
    by simp
  show ?thesis
    unfolding tables_inv_def servings using txs uris fs(4) by blast
qed

lemma evict_inv:
  assumes "fetch_inv fs"
  shows "fetch_inv (snd (evict tx fs))" "hm_get (fs_by_txid (snd (evict tx fs))) tx = None"
proof -
  have "fetch_inv (snd (evict tx fs)) \<and> hm_get (fs_by_txid (snd (evict tx fs))) tx = None"
  proof (cases "hm_get (fs_by_txid fs) tx")
    case None
    then show ?thesis
      using assms by (simp add: evict_def)
  next
    case (Some i)
    note fs = fetch_invD [OF assms]
    let ?fs = "fs\<lparr>fs_by_txid := hm_del tx (fs_by_txid fs), fs_by_uri := hm_del (sg_uri (fs_servings fs ! i)) (fs_by_uri fs)\<rparr>"
    have "owners_inv ?fs"
      unfolding owners_inv_def of_call_simps
    proof (intro conjI allI impI)
      fix c uri n
      assume "of_call call_owner fs c = Some (uri, n)"
      then show "hm_get (fs_by_uri ?fs) uri = Some (Resolving n)"
        using fs(5) fs(2) [OF Some] by fastforce
    next
      fix c d uri m n
      assume "of_call call_owner fs c = Some (uri, m)" "of_call call_owner fs d = Some (uri, n)"
      then show "c = d"
        by (rule fs(6))
    qed (use fs(7) in \<open>auto split: if_splits\<close>)
    moreover have "maps_inv ?fs" "begin_inv ?fs"
      using assms fs(1) unfolding fetch_inv_def maps_inv_def begin_inv_def by auto
    ultimately have "fetch_inv ?fs"
      using evicted_tables_inv [OF assms Some] by (simp add: fetch_inv_def)
    then show ?thesis
      using evict_cases [OF assms Some] by simp
  qed
  then show "fetch_inv (snd (evict tx fs))" "hm_get (fs_by_txid (snd (evict tx fs))) tx = None"
    by simp_all
qed

text \<open>Steps on the life of a serving leave the tables and their owners alone.\<close>

lemma serving_step_inv:
  assumes "fetch_inv fs" "begin_inv fs'" "hm_inv (fs_calls fs')" "hm_inv (fs_tasks fs')"
    and "fs_by_uri fs' = fs_by_uri fs" "fs_by_txid fs' = fs_by_txid fs"
    and "map (\<lambda>s. (sg_uri s, sg_txid s)) (fs_servings fs') = map (\<lambda>s. (sg_uri s, sg_txid s)) (fs_servings fs)"
    and "of_call call_owner fs' = of_call call_owner fs" "of_call call_built fs' = of_call call_built fs"
  shows "fetch_inv fs'"
proof -
  have len: "length (fs_servings fs') = length (fs_servings fs)"
    using assms(7) by (rule map_eq_imp_length_eq)
  have v: "sg_uri (fs_servings fs' ! i) = sg_uri (fs_servings fs ! i) \<and> sg_txid (fs_servings fs' ! i) = sg_txid (fs_servings fs ! i)"
    if "i < length (fs_servings fs)" for i
    using arg_cong [OF assms(7), of "\<lambda>xs. xs ! i"] that len by simp
  have t: "map sg_txid (fs_servings fs') = map sg_txid (fs_servings fs)"
    using v len by (simp add: list_eq_iff_nth_eq)
  have "maps_inv fs'" "tables_inv fs'"
    using assms(1,3-6) v t len by (simp_all add: fetch_inv_def maps_inv_def tables_inv_def)
  moreover have "owners_inv fs'"
    using assms(1) v unfolding fetch_inv_def owners_inv_def assms(5,6,8,9) len by simp
  ultimately show ?thesis
    using assms(2) by (simp add: fetch_inv_def)
qed

lemma of_call_idle:
  "f fc = of_call f fs c \<Longrightarrow> of_call f (set_call c fc fs) = of_call f fs"
  "of_call f fs c = None \<Longrightarrow> of_call f (fs\<lparr>fs_calls := hm_del c (fs_calls fs)\<rparr>) = of_call f fs"
  by (auto simp: fun_eq_iff)

lemma updated_views [simp]:
  "map (\<lambda>s. (sg_uri s, sg_txid s)) (ss[i := (ss ! i)\<lparr>sg_begun := b\<rparr>]) = map (\<lambda>s. (sg_uri s, sg_txid s)) ss"
  "map (\<lambda>s. (sg_uri s, sg_txid s)) (ss[i := (ss ! i)\<lparr>sg_control_rx := b\<rparr>]) = map (\<lambda>s. (sg_uri s, sg_txid s)) ss"
  by (cases "i < length ss"; simp add: list_eq_iff_nth_eq nth_list_update)+

lemma gate_inv:
  assumes "fetch_inv fs" "idle_at fs c" "hm_get (fs_by_txid fs) tx = Some i" "\<not> sg_begun (fs_servings fs ! i)"
  shows "fetch_inv (set_call c (Begin_Spawn i hex) (update_serving i (sg_begun_update (\<lambda>_. True)) fs))" (is "fetch_inv ?fs")
proof (rule serving_step_inv [OF assms(1)])
  note fs = fetch_invD [OF assms(1)]
  note i = fs(2) [OF assms(3)]
  have idle: "of_call call_owner fs c = None" "of_call call_built fs c = None" "of_call call_spawns fs c = None" "of_call call_aborts fs c = None"
    using assms(2) by (simp_all add: idle_at_def)
  have "of_call call_spawns fs d \<noteq> Some i" "of_call call_built fs d \<noteq> Some i" for d
    using fs(10) [of d i] fs(7) [of d i] assms(3,4) i by auto
  then show "begin_inv ?fs"
    using assms(1) idle i assms(4) fs(9) [of i] unfolding fetch_inv_def begin_inv_def
    by (intro conjI) (auto simp: nth_list_update split: if_splits)
  show "of_call call_owner ?fs = of_call call_owner fs" "of_call call_built ?fs = of_call call_built fs"
    using idle by (simp_all add: of_call_idle)
qed (use fetch_invD(1) [OF assms(1)] in \<open>auto simp: maps_inv_def\<close>)

lemma spawn_inv:
  assumes "fetch_inv fs" "hm_get (fs_calls fs) c = Some (Begin_Spawn i hex)"
  shows "fetch_inv (snd (begin_spawn c i hex fs))" "sg_control_rx (fs_servings fs ! i)"
proof -
  note fs = fetch_invD [OF assms(1)]
  have at: "of_call call_owner fs c = None" "of_call call_built fs c = None" "of_call call_spawns fs c = Some i" "of_call call_aborts fs c = None"
    by (simp_all add: of_call_at [OF assms(2)])
  note i = fs(10) [OF at(3)]
  then show "sg_control_rx (fs_servings fs ! i)"
    by simp
  let ?fs = "set_call c (Begin_Return i)
     ((update_serving i (sg_control_rx_update (\<lambda>_. False)) fs)\<lparr>fs_tasks := hm_put i Serving_Run (fs_tasks fs)\<rparr>)"
  have "fetch_inv ?fs"
  proof (rule serving_step_inv [OF assms(1)])
    have "of_call call_spawns fs d = Some i \<Longrightarrow> d = c" for d
      using fs(11) [OF _ at(3)] by blast
    then show "begin_inv ?fs"
      using assms(1) at i unfolding fetch_inv_def begin_inv_def
      by (intro conjI) (auto simp: nth_list_update split: if_splits)
    show "of_call call_owner ?fs = of_call call_owner fs" "of_call call_built ?fs = of_call call_built fs"
      using at by (simp_all add: of_call_idle)
  qed (use fs(1) in \<open>auto simp: maps_inv_def\<close>)
  then show "fetch_inv (snd (begin_spawn c i hex fs))"
    using i by (simp add: begin_spawn_def)
qed

lemma aborter_inv:
  assumes "fetch_inv fs" "idle_at fs c" "hm_get (fs_by_txid fs) tx = Some i"
  shows "fetch_inv (set_call c (Abort_Signal i) (snd (evict tx fs)))" (is "fetch_inv (set_call c _ ?fs1)")
proof (rule serving_step_inv [OF evict_inv(1) [OF assms(1)]])
  note fs = fetch_invD [OF assms(1)]
  note fs1 = evict_inv [OF assms(1), of tx]
  have same: "of_call call_owner ?fs1 = of_call call_owner fs" "of_call call_built ?fs1 = of_call call_built fs"
      "of_call call_spawns ?fs1 = of_call call_spawns fs" "of_call call_aborts ?fs1 = of_call call_aborts fs" "fs_servings ?fs1 = fs_servings fs"
    by (simp_all add: evict_cases [OF assms(1,3)])
  have idle: "of_call call_owner ?fs1 c = None" "of_call call_built ?fs1 c = None" "of_call call_spawns ?fs1 c = None" "of_call call_aborts ?fs1 c = None"
    using assms(2) by (simp_all add: idle_at_def same)
  note i = fs(2) [OF assms(3)]
  have "of_call call_built ?fs1 d \<noteq> Some i" for d
    using fs(7) [of d i] assms(3) i same by auto
  then show "begin_inv (set_call c (Abort_Signal i) ?fs1)"
    using fs1 idle i unfolding fetch_inv_def begin_inv_def
    by (intro conjI) (auto simp: same split: if_splits)
  show "of_call call_owner (set_call c (Abort_Signal i) ?fs1) = of_call call_owner ?fs1"
    "of_call call_built (set_call c (Abort_Signal i) ?fs1) = of_call call_built ?fs1"
    using idle by (simp_all add: of_call_idle)
qed (use fetch_invD(1) [OF evict_inv(1) [OF assms(1)]] in \<open>auto simp: maps_inv_def\<close>)

lemma aborted_inv:
  assumes "fetch_inv fs" "hm_get (fs_calls fs) c = Some (Abort_Signal i)"
  shows "fetch_inv ((update_serving i (sg_begun_update (\<lambda>_. True)) fs)\<lparr>fs_calls := hm_del c (fs_calls fs)\<rparr>)" (is "fetch_inv ?fs")
proof (rule serving_step_inv [OF assms(1)])
  note fs = fetch_invD [OF assms(1)]
  have at: "of_call call_owner fs c = None" "of_call call_built fs c = None" "of_call call_spawns fs c = None" "of_call call_aborts fs c = Some i"
    by (simp_all add: of_call_at [OF assms(2)])
  have "of_call call_built fs d \<noteq> Some i" for d
    using fs(14) [of d i c] at(4) by blast
  then show "begin_inv ?fs"
    using assms(1) at fs(12) [OF at(4)] unfolding fetch_inv_def begin_inv_def
    by (intro conjI) (auto simp: nth_list_update split: if_splits)
  show "of_call call_owner ?fs = of_call call_owner fs" "of_call call_built ?fs = of_call call_built fs"
    using at by (auto simp: fun_eq_iff)
qed (use fetch_invD(1) [OF assms(1)] in \<open>auto simp: maps_inv_def\<close>)

lemma task_inv:
  assumes "fetch_inv fs" "hm_get (fs_tasks fs) i = Some ph"
    and "(\<exists>a. ph' = Serving_Evict a) \<or> hm_get (fs_by_txid fs) (sg_txid (fs_servings fs ! i)) = None"
  shows "fetch_inv (set_task i ph' fs)"
proof (rule serving_step_inv [OF assms(1)])
  note fs = fetch_invD [OF assms(1)]
  show "begin_inv (set_task i ph' fs)"
    using assms(1,3) fs(8) [OF assms(2)] unfolding fetch_inv_def begin_inv_def
    by (intro conjI) (auto split: if_splits)
qed (use fetch_invD(1) [OF assms(1)] in \<open>auto simp: maps_inv_def\<close>)

section \<open>Every step\<close>

lemma claim_step_inv:
  assumes "fetch_inv fs" "idle_at fs c"
  shows "fetch_inv (snd (fetch_claim c uri fs))"
  using claim_inv [OF assms] quiet_inv [OF quiet_answer [OF assms(2)] assms(1)] quiet_inv [OF quiet_set_call [OF assms(2)] assms(1)]
  by (auto simp: fetch_claim_def Let_def idle_call_def split: option.split uri_entry.split)

lemma begin_lookup_inv:
  assumes "fetch_inv fs" "idle_at fs c"
  shows "fetch_inv (snd (begin_lookup c hex fs))"
  using gate_inv [OF assms] quiet_inv [OF quiet_answer [OF assms(2)] assms(1)]
  by (auto simp: begin_lookup_def split: sum.split option.split)

lemma control_inv:
  assumes "fetch_inv fs"
  shows "fetch_inv (update_serving i (\<lambda>s. s\<lparr>sg_control := q s\<rparr>) fs)"
  by (rule quiet_inv [OF quiet_control assms]) (simp add: serving_view_def)

lemma idle_control: "idle_at (update_serving i (\<lambda>s. s\<lparr>sg_control := q s\<rparr>) fs) c = idle_at fs c"
  by (rule quiet_idle_at [OF quiet_control]) (simp add: serving_view_def)

lemma flow_inv:
  assumes "fetch_inv fs" "idle_at fs c"
  shows "fetch_inv (snd (handle_flow c hex control what fs))"
  using assms quiet_inv [OF quiet_answer [OF assms(2)] assms(1)]
  by (auto simp: handle_flow_def idle_control control_inv intro!: quiet_inv [OF quiet_answer] split: sum.split option.split)

lemma abort_lookup_inv:
  assumes "fetch_inv fs" "idle_at fs c"
  shows "fetch_inv (snd (abort_lookup c hex fs))"
  using aborter_inv [OF assms] quiet_inv [OF quiet_answer [OF assms(2)] assms(1)]
  by (auto simp: abort_lookup_def split: sum.split option.split)

lemma answer_del: "snd (answer c r fs) = fs\<lparr>fs_calls := hm_del c (fs_calls fs)\<rparr>"
  by (simp add: answer_def)

lemma signalled_inv:
  assumes "fetch_inv fs" "hm_get (fs_calls fs) c = Some (Abort_Signal i)"
  shows "fetch_inv (set_call c (Abort_Return i) fs)"
proof (rule serving_step_inv [OF assms(1)])
  have at: "of_call call_owner fs c = None" "of_call call_built fs c = None" "of_call call_spawns fs c = None" "of_call call_aborts fs c = Some i"
    by (simp_all add: of_call_at [OF assms(2)])
  show "begin_inv (set_call c (Abort_Return i) fs)"
    using assms(1) at unfolding fetch_inv_def begin_inv_def by (intro conjI) (auto split: if_splits)
  show "of_call call_owner (set_call c (Abort_Return i) fs) = of_call call_owner fs"
    "of_call call_built (set_call c (Abort_Return i) fs) = of_call call_built fs"
    using at by (simp_all add: of_call_idle)
qed (use fetch_invD(1) [OF assms(1)] in \<open>auto simp: maps_inv_def\<close>)

lemma abort_signal_inv:
  assumes "fetch_inv fs" "hm_get (fs_calls fs) c = Some (Abort_Signal i)"
  shows "fetch_inv (snd (abort_signal lk c i fs))"
proof -
  have "fetch_inv (set_call c (Abort_Return i) (update_serving i (\<lambda>s. s\<lparr>sg_control := q s\<rparr>) fs))" for q
    by (rule signalled_inv [OF control_inv [OF assms(1)]]) (simp add: assms(2))
  then show ?thesis
    using aborted_inv [OF assms] quiet_inv [OF quiet_transfer aborted_inv [OF assms]]
    by (auto simp: abort_signal_def Let_def split: prod.split)
qed

lemma run_call_inv:
  assumes "fetch_inv fs"
  shows "fetch_inv (snd (run_call lk c fs))"
proof (cases "hm_get (fs_calls fs) c")
  case None
  then show ?thesis
    using assms by (simp add: run_call_def)
next
  case (Some fc)
  have idle: "idle_call fc \<Longrightarrow> idle_at fs c"
    by (rule idle_atI [OF Some])
  note move = quiet_inv [OF quiet_set_call assms] and ret = quiet_inv [OF quiet_answer assms]
  note defs = run_call_def Some idle_call_def
  show ?thesis
  proof (cases fc)
    case (Fetch_Lookup uri)
    then show ?thesis
      using idle move ret by (auto simp: defs split: option.split uri_entry.split)
  next
    case (Fetch_Wait n)
    then show ?thesis
      using idle move by (auto simp: defs split: option.split)
  next
    case (Fetch_Publish uri n out)
    then show ?thesis
      using fetch_publish_inv [OF assms] Some by (simp add: defs)
  next
    case (Fetch_Fill n out resp)
    then show ?thesis
      using idle by (auto simp: defs intro!: quiet_inv [OF quiet_trans [OF quiet_fill quiet_set_call] assms] simp: quiet_idle_at [OF quiet_fill])
  next
    case (Fetch_Notify n out resp)
    then show ?thesis
      using idle by (auto simp: defs intro!: quiet_inv [OF quiet_trans [OF quiet_notify quiet_answer] assms] simp: quiet_idle_at [OF quiet_notify])
  next
    case (Begin_Spawn i hex)
    then show ?thesis
      using spawn_inv(1) [OF assms] Some by (simp add: defs)
  next
    case (Abort_Signal i)
    then show ?thesis
      using abort_signal_inv [OF assms] Some by (simp add: defs)
  qed (use assms idle move ret in \<open>simp_all add: defs claim_step_inv begin_lookup_inv flow_inv abort_lookup_inv\<close>)
qed

text \<open>Dropping a suspended handler keeps the invariant: what it answered for is no longer claimed by anyone.\<close>

lemma dropped_inv:
  assumes "fetch_inv fs"
  shows "fetch_inv (fs\<lparr>fs_calls := hm_del c (fs_calls fs)\<rparr>)"
proof (rule fetch_invI)
  note fs = fetch_invD [OF assms]
  let ?fs = "fs\<lparr>fs_calls := hm_del c (fs_calls fs)\<rparr>"
  fix d d'
  show "of_call call_owner ?fs d = Some (uri, m) \<Longrightarrow> of_call call_owner ?fs d' = Some (uri, n) \<Longrightarrow> d = d'" for uri m n
    using fs(6) [of d uri m d' n] by (auto split: if_splits)
  show "of_call call_spawns ?fs d = Some i \<Longrightarrow> of_call call_spawns ?fs d' = Some i \<Longrightarrow> d = d'" for i
    using fs(11) [of d i d'] by (auto split: if_splits)
qed (use fetch_invD [OF assms] in \<open>auto simp: maps_inv_def split: if_splits\<close>)

lemma drop_call_inv:
  assumes "fetch_inv fs"
  shows "fetch_inv (drop_call c fs)"
  using assms dropped_inv [OF assms] aborted_inv [OF assms]
  by (auto simp: drop_call_def Let_def split: option.split fetch_call.split)

lemma on_command_inv:
  assumes "fetch_inv fs" "\<not> hm_contains (fs_calls fs) c"
  shows "fetch_inv (snd (fetch_on_command inner c cmd fs))"
proof -
  have "idle_at fs c"
    using assms(2) by (simp add: idle_at_def of_call_def hm_contains_def)
  then show ?thesis
    using assms(1) by (auto simp: fetch_on_command_def idle_call_def intro!: quiet_inv [OF quiet_set_call] split: xacpp_command.split)
qed

lemma serve_inv:
  assumes "fetch_inv fs"
  shows "fetch_inv (snd (serve_write lk i chunk now fs))" "fetch_inv (snd (serve_done i ok fs))"
    "fetch_inv (snd (serve_control_step lk i now fs))"
  using assms control_inv [OF assms]
  by (auto simp: serve_write_def serve_done_def serve_control_step_def Let_def
      intro!: quiet_inv [OF quiet_transfer] task_inv split: prod.split list.split serve_control.split)

lemma serve_end_inv:
  assumes "fetch_inv fs"
  shows "fetch_inv (snd (serve_end lk i cb now fs))"
proof (cases "hm_get (fs_tasks fs) i")
  case (Some ph)
  let ?tx = "sg_txid (fs_servings fs ! i)"
  have evicted: "fetch_inv (set_task i (Serving_End a) (snd (evict ?tx fs)))" for a
  proof (rule task_inv [OF evict_inv(1) [OF assms]])
    show "hm_get (fs_tasks (snd (evict ?tx fs))) i = Some ph"
      using Some by (simp add: evict_def Let_def split: option.split uri_entry.split)
    have "fs_servings (snd (evict ?tx fs)) = fs_servings fs"
      by (simp add: evict_def Let_def split: option.split uri_entry.split)
    then show "(\<exists>b. Serving_End a = Serving_Evict b) \<or> hm_get (fs_by_txid (snd (evict ?tx fs))) (sg_txid (fs_servings (snd (evict ?tx fs)) ! i)) = None"
      using evict_inv(2) [OF assms] by simp
  qed
  have ended: "fetch_inv (set_task i ph' (set_transfer co fs))" "fetch_inv (set_task i ph' fs)"
    if "ph \<noteq> Serving_Run" "\<And>a. ph \<noteq> Serving_Evict a" for ph' co
    using fetch_invD(13) [OF assms Some that] task_inv [OF quiet_inv [OF quiet_transfer assms], where i = i and ph = ph] task_inv [OF assms Some] Some
    by simp_all
  show ?thesis
    using Some evicted ended assms by (cases ph) (auto simp: serve_end_def Let_def split: prod.split)
qed (use assms in \<open>simp add: serve_end_def Let_def\<close>)

fun new_ids :: "fetch_op list \<Rightarrow> txid list" where
  "new_ids [] = []"
| "new_ids (F_Resolved c res fresh now # ops) = fresh # new_ids ops"
| "new_ids (_ # ops) = new_ids ops"

definition known_ids :: "fetch_service \<Rightarrow> txid set" where
  "known_ids fs = set (map sg_txid (fs_servings fs))"

lemma fetch_step_inv:
  assumes "fetch_inv fs" "set (new_ids [op]) \<inter> known_ids fs = {}"
  shows "fetch_inv (snd (fetch_step inner op fs))"
proof (cases op)
  case (F_Session ev sop)
  then show ?thesis
    using quiet_inv [OF quiet_transfer assms(1)] by (simp split: prod.split)
qed (use assms in \<open>auto simp: known_ids_def run_call_inv drop_call_inv serve_inv serve_end_inv on_command_inv fetch_on_event_def resolved_inv\<close>)

section \<open>Placeholders and their owners\<close>

text \<open>As long as no handler is dropped, every placeholder has the handler that resolves it.\<close>

definition placeholders_owned :: "fetch_service \<Rightarrow> bool" where
  "placeholders_owned fs \<longleftrightarrow>
    (\<forall>uri n. hm_get (fs_by_uri fs) uri = Some (Resolving n) \<longrightarrow> (\<exists>c. of_call call_owner fs c = Some (uri, n)))"

lemma owned_keep:
  assumes "placeholders_owned fs" "of_call call_owner fs' = of_call call_owner fs"
    and "\<And>uri n. hm_get (fs_by_uri fs') uri = Some (Resolving n) \<Longrightarrow> hm_get (fs_by_uri fs) uri = Some (Resolving n)"
  shows "placeholders_owned fs'"
  using assms unfolding placeholders_owned_def by metis

text \<open>One call moves on: placeholders of others keep their owners.\<close>

lemma owned_move:
  assumes "placeholders_owned fs" "\<And>d. d \<noteq> c \<Longrightarrow> of_call call_owner fs' d = of_call call_owner fs d"
    and "\<And>uri n. hm_get (fs_by_uri fs') uri = Some (Resolving n) \<Longrightarrow>
      of_call call_owner fs' c = Some (uri, n) \<or> hm_get (fs_by_uri fs) uri = Some (Resolving n) \<and> of_call call_owner fs c \<noteq> Some (uri, n)"
  shows "placeholders_owned fs'"
  using assms unfolding placeholders_owned_def by metis

lemma evict_shrinks:
  "of_call f (snd (evict tx fs)) = of_call f fs"
  "hm_get (fs_by_uri (snd (evict tx fs))) uri = Some (Resolving n) \<Longrightarrow> hm_get (fs_by_uri fs) uri = Some (Resolving n)"
  by (auto simp: evict_def Let_def split: option.splits uri_entry.splits if_splits)

lemma owned_run_call:
  assumes "fetch_inv fs" "placeholders_owned fs"
  shows "placeholders_owned (snd (run_call lk c fs))"
proof (cases "hm_get (fs_calls fs) c")
  case (Some fc)
  note at = of_call_at [OF Some, of call_owner]
  note defs = run_call_def Some answer_def
  show ?thesis
  proof (cases fc)
    case (Fetch_Claim uri)
    then show ?thesis
      using at by (intro owned_move [OF assms(2), of c])
        (auto simp: defs fetch_claim_def Let_def split: option.splits uri_entry.splits if_splits)
  next
    case (Fetch_Publish uri n out)
    then show ?thesis
      using at fetch_invD(5) [OF assms(1), of c uri n] by (intro owned_move [OF assms(2), of c])
        (auto simp: defs fetch_publish_def split: sum.splits if_splits)
  next
    case (Abort_Lookup hex)
    then show ?thesis
      using at by (intro owned_move [OF assms(2), of c])
        (auto simp: defs abort_lookup_def evict_shrinks(1) dest: evict_shrinks(2) split: sum.splits option.splits if_splits)
  qed (use assms(2) at in \<open>auto simp: defs begin_lookup_def begin_spawn_def handle_flow_def abort_signal_def Let_def
        intro!: owned_move [OF assms(2), of c] split: sum.split option.split prod.split uri_entry.split\<close>)
qed (use assms(2) in \<open>simp add: run_call_def\<close>)

lemma owned_resolved:
  assumes "placeholders_owned fs"
  shows "placeholders_owned (snd (fetch_resolved c res fresh now fs))"
proof (rule owned_keep [OF assms])
  show "of_call call_owner (snd (fetch_resolved c res fresh now fs)) = of_call call_owner fs"
    by (auto simp: fetch_resolved_def build_serving_def Let_def of_call_at fun_eq_iff split: option.split fetch_call.split sum.split prod.split)
qed (auto simp: fetch_resolved_def build_serving_def Let_def split: option.splits fetch_call.splits sum.splits prod.splits if_splits)

lemma owned_step:
  assumes "fetch_inv fs" "placeholders_owned fs" "\<And>c. op \<noteq> F_Drop c"
  shows "placeholders_owned (snd (fetch_step inner op fs))"
proof (cases op)
  case (F_Run lk c)
  then show ?thesis
    using owned_run_call [OF assms(1,2)] by simp
next
  case (F_Command c cmd)
  have "of_call call_owner fs c = None" if "\<not> hm_contains (fs_calls fs) c"
    using that by (simp add: of_call_def hm_contains_def)
  then show ?thesis
    using assms(2) F_Command
    by (auto simp: fetch_on_command_def intro!: owned_move [OF assms(2), of c] split: xacpp_command.split)
next
  case (F_Resolved c res fresh now)
  then show ?thesis
    using owned_resolved [OF assms(2)] by simp
next
  case (F_End lk i cb now)
  then show ?thesis
    using assms(2)
    by (auto simp: serve_end_def Let_def evict_shrinks(1) dest: evict_shrinks(2) intro!: owned_keep [OF assms(2)]
        split: option.split serving_phase.split prod.split)
qed (use assms(2,3) in \<open>auto simp: fetch_on_event_def serve_write_def serve_done_def serve_control_step_def Let_def
      intro!: owned_keep [OF assms(2)] split: prod.split list.split serve_control.split\<close>)

end
