(* ===== verification/Fetch_Lifecycle.thy ===== *)
theory Fetch_Lifecycle
  imports Fetch_Serving
begin

text \<open>
  Whole runs of the fetch service: what the trace of a run says about resolutions, the begin gate and
  the end of each serving, and four interleavings in which the code falls short of it.
\<close>

section \<open>What a trace counts\<close>

fun fetch_run :: "inner_handler option \<Rightarrow> fetch_op list \<Rightarrow> fetch_service \<Rightarrow> fetch_effect list \<times> fetch_service" where
  "fetch_run inner [] fs = ([], fs)"
| "fetch_run inner (op # ops) fs =
    (case fetch_step inner op fs of (eff, fs1) \<Rightarrow> case fetch_run inner ops fs1 of (eff', fs2) \<Rightarrow> (eff @ eff', fs2))"

definition count_of :: "('e \<Rightarrow> bool) \<Rightarrow> 'e list \<Rightarrow> nat" where
  "count_of P tr = length (filter P tr)"

lemma count_of_simps [simp]:
  "count_of P [] = 0" "count_of P (e # tr) = of_bool (P e) + count_of P tr" "count_of P (xs @ ys) = count_of P xs + count_of P ys"
  by (simp_all add: count_of_def)

lemma two_ends:
  assumes "x \<in> set tr" "y \<in> set tr" "x \<noteq> y" "P x" "P y"
  shows "1 < count_of P tr"
proof -
  have "card {x, y} \<le> length (filter P tr)"
    using assms by (intro order_trans [OF card_mono card_length [of "filter P tr"]]) auto
  then show ?thesis
    using assms(3) by (simp add: count_of_def)
qed

lemma count_of_pos: "count_of P tr \<noteq> 0 \<Longrightarrow> \<exists>e \<in> set tr. P e"
  by (auto simp: count_of_def filter_empty_conv)

fun frees_uri :: "string \<Rightarrow> fetch_effect \<Rightarrow> bool" where
  "frees_uri uri (Resolve_Failed u) = (u = uri)"
| "frees_uri uri (Evicted u i) = (u = uri)"
| "frees_uri uri _ = False"

fun ends_serving :: "nat \<Rightarrow> fetch_effect \<Rightarrow> bool" where
  "ends_serving i (Sink_Finished j eff) = (j = i)"
| "ends_serving i (Sink_Aborted j eff) = (j = i)"
| "ends_serving i (Terminal_Skipped j) = (j = i)"
| "ends_serving i _ = False"

fun provider_act :: "fetch_effect \<Rightarrow> nat option" where
  "provider_act (Provider_Wrote i eff) = Some i"
| "provider_act (Flow_Applied i eff) = Some i"
| "provider_act _ = None"

definition occupied :: "string \<Rightarrow> fetch_service \<Rightarrow> nat" where
  "occupied uri fs = of_bool (hm_contains (fs_by_uri fs) uri)"

definition spawned :: "nat \<Rightarrow> fetch_service \<Rightarrow> nat" where
  "spawned i fs = of_bool (hm_contains (fs_tasks fs) i)"

text \<open>
  A serving is over when its task is, or when it is behind the gate and no handler is going to spawn its
  task: it was aborted before any task existed, or the handler that took the gate was dropped.
\<close>

fun over_when :: "serving_phase option \<Rightarrow> bool \<Rightarrow> bool \<Rightarrow> bool" where
  "over_when None begun spawning = (begun \<and> \<not> spawning)"
| "over_when (Some Serving_Over) begun spawning = True"
| "over_when (Some (Serving_Parked cb frames)) begun spawning = True"
| "over_when (Some _) begun spawning = False"

definition spawning :: "nat \<Rightarrow> fetch_service \<Rightarrow> bool" where
  "spawning i fs \<longleftrightarrow> (\<exists>c. of_call call_spawns fs c = Some i)"

definition is_over :: "nat \<Rightarrow> fetch_service \<Rightarrow> bool" where
  "is_over i fs \<longleftrightarrow>
    i < length (fs_servings fs) \<and> over_when (hm_get (fs_tasks fs) i) (sg_begun (fs_servings fs ! i)) (spawning i fs)"

definition over :: "nat \<Rightarrow> fetch_service \<Rightarrow> nat" where
  "over i fs = of_bool (is_over i fs)"

definition held_by_call :: "fetch_service \<Rightarrow> nat \<Rightarrow> bool" where
  "held_by_call fs i \<longleftrightarrow> (\<exists>c fc. hm_get (fs_calls fs) c = Some fc \<and> call_refers fs i fc)"

text \<open>
  How one step moves the counts; a serving without a task may be over with no end in the trace, when a handler
  was dropped. A terminal operation is skipped only while a call holds the serving.
\<close>

definition tracks :: "fetch_service \<Rightarrow> fetch_effect list \<Rightarrow> fetch_service \<Rightarrow> bool" where
  "tracks fs eff fs' \<longleftrightarrow>
    (\<forall>uri. count_of (\<lambda>e. e = Resolve_Called uri) eff + occupied uri fs = count_of (frees_uri uri) eff + occupied uri fs') \<and>
    (\<forall>i. count_of (\<lambda>e. e = Serve_Started i) eff + spawned i fs = spawned i fs') \<and>
    (\<forall>i. count_of (ends_serving i) eff + over i fs \<le> over i fs') \<and>
    (\<forall>i. hm_contains (fs_tasks fs') i \<longrightarrow> count_of (ends_serving i) eff + over i fs = over i fs') \<and>
    (\<forall>i. Serve_Started i \<in> set eff \<longrightarrow> over i fs = 0) \<and>
    (\<forall>e \<in> set eff. \<forall>i. provider_act e = Some i \<longrightarrow> eff = [e] \<and> hm_get (fs_tasks fs) i = Some Serving_Run) \<and>
    (\<forall>i x. Sink_Finished i x \<in> set eff \<longrightarrow> hm_get (fs_tasks fs) i = Some (Serving_End False)) \<and>
    (\<forall>i. Terminal_Skipped i \<in> set eff \<longrightarrow> held_by_call fs i)"

fun plain :: "fetch_effect \<Rightarrow> bool" where
  "plain (Answer c r) = True"
| "plain (Session_Did eff) = True"
| "plain _ = False"

lemma plain_counts:
  assumes "list_all plain eff"
  shows "count_of (\<lambda>e. e = Resolve_Called uri) eff = 0" "count_of (frees_uri uri) eff = 0"
    "count_of (\<lambda>e. e = Serve_Started i) eff = 0" "count_of (ends_serving i) eff = 0"
    "e \<in> set eff \<Longrightarrow> provider_act e = None" "Sink_Finished i x \<notin> set eff" "Terminal_Skipped i \<notin> set eff" "Serve_Started i \<notin> set eff"
proof -
  have "e \<noteq> Resolve_Called uri \<and> \<not> frees_uri uri e \<and> e \<noteq> Serve_Started i \<and> \<not> ends_serving i e \<and> provider_act e = None \<and>
      e \<noteq> Sink_Finished i x \<and> e \<noteq> Terminal_Skipped i" if "e \<in> set eff" for e
    using assms that by (cases e) (auto simp: list_all_iff)
  then show "count_of (\<lambda>e. e = Resolve_Called uri) eff = 0" "count_of (frees_uri uri) eff = 0"
    "count_of (\<lambda>e. e = Serve_Started i) eff = 0" "count_of (ends_serving i) eff = 0"
    "e \<in> set eff \<Longrightarrow> provider_act e = None" "Sink_Finished i x \<notin> set eff" "Terminal_Skipped i \<notin> set eff" "Serve_Started i \<notin> set eff"
    by (auto simp: count_of_def filter_empty_conv)
qed

lemma over_same:
  assumes "length (fs_servings fs') = length (fs_servings fs)" "fs_tasks fs' = fs_tasks fs" "of_call call_spawns fs' = of_call call_spawns fs"
    and "\<And>i. i < length (fs_servings fs) \<Longrightarrow> sg_begun (fs_servings fs' ! i) = sg_begun (fs_servings fs ! i)"
  shows "is_over i fs' = is_over i fs"
  using assms(4) [of i] by (auto simp: is_over_def spawning_def assms(1-3))

lemma quiet_over:
  assumes "quiet fs fs'"
  shows "is_over i fs' = is_over i fs"
proof (rule over_same)
  have v: "map serving_view (fs_servings fs') = map serving_view (fs_servings fs)"
    using assms by (simp add: quiet_def)
  show "length (fs_servings fs') = length (fs_servings fs)"
    by (rule map_eq_imp_length_eq [OF v])
  show "i < length (fs_servings fs) \<Longrightarrow> sg_begun (fs_servings fs' ! i) = sg_begun (fs_servings fs ! i)" for i
    by (rule view_nth(3) [OF v])
qed (use assms in \<open>simp_all add: quiet_def\<close>)

lemma tracks_quiet:
  assumes "quiet fs fs'" "list_all plain eff"
  shows "tracks fs eff fs'"
  using assms(1) quiet_over [OF assms(1)] plain_counts [OF assms(2)]
  unfolding tracks_def by (simp add: quiet_def occupied_def spawned_def over_def)

lemma tracks_act:
  assumes "quiet fs fs'" "provider_act e = Some i" "hm_get (fs_tasks fs) i = Some Serving_Run"
  shows "tracks fs [e] fs'"
  using assms(1,3) quiet_over [OF assms(1)] assms(2)
  by (cases e) (auto simp: tracks_def quiet_def occupied_def spawned_def over_def)

lemma tracks_simps:
  "(\<forall>uri. occupied uri fs' = occupied uri fs) \<and> (\<forall>i. spawned i fs' = spawned i fs) \<and> (\<forall>i. over i fs' = over i fs) \<Longrightarrow> tracks fs [] fs'"
  by (auto simp: tracks_def)

lemmas stage_defs = occupied_def spawned_def over_def hm_contains_def

lemma tracks_claim:
  assumes "hm_get (fs_by_uri fs) uri = None" "of_call call_spawns fs c = None"
  shows "tracks fs [Resolve_Called uri]
    (set_call c (Fetch_Resolve uri n) (fs\<lparr>fs_slots := sl, fs_by_uri := hm_put uri (Resolving n) (fs_by_uri fs)\<rparr>))" (is "tracks fs _ ?fs")
proof -
  have "is_over i ?fs = is_over i fs" for i
    by (rule over_same) (simp_all add: of_call_idle assms(2))
  then show ?thesis
    using assms(1) by (auto simp: tracks_def stage_defs)
qed

lemma tracks_publish:
  assumes "fetch_inv fs" "hm_get (fs_calls fs) c = Some (Fetch_Publish uri n out)" "fetch_publish c uri n out fs = (eff, fs')"
  shows "tracks fs eff fs'"
proof -
  have at: "of_call call_owner fs c = Some (uri, n)" "of_call call_spawns fs c = None"
    by (simp_all add: of_call_at [OF assms(2)])
  note entry = fetch_invD(5) [OF assms(1) at(1)]
  have "is_over i fs' = is_over i fs" for i
    by (rule over_same) (use assms(3) at(2) entry in \<open>auto simp: fetch_publish_def Let_def of_call_idle split: sum.splits\<close>)
  then show ?thesis
    using entry assms(3)
    by (auto simp: fetch_publish_def tracks_def stage_defs split: sum.splits if_splits)
qed

lemma tracks_built:
  assumes "fetch_inv fs" "hm_get (fs_calls fs) c = Some (Fetch_Resolve uri n)" "\<not> sg_begun sg"
  shows "tracks fs [] (set_call c (Fetch_Publish uri n out) (fs\<lparr>fs_session := s, fs_servings := fs_servings fs @ [sg]\<rparr>))" (is "tracks fs [] ?fs")
proof -
  have t: "hm_get (fs_tasks fs) (length (fs_servings fs)) = None"
    using fetch_invD(8) [OF assms(1), of "length (fs_servings fs)"] by (cases "hm_get (fs_tasks fs) (length (fs_servings fs))") auto
  have sp: "of_call call_spawns ?fs = of_call call_spawns fs"
    using of_call_at [OF assms(2), of call_spawns] by (simp add: of_call_idle)
  have "is_over i ?fs = is_over i fs" for i
  proof (cases "i < length (fs_servings fs)")
    case True
    then show ?thesis
      by (simp add: is_over_def spawning_def sp nth_append)
  next
    case False
    then show ?thesis
      using t assms(3) by (cases "i = length (fs_servings fs)") (simp_all add: is_over_def nth_append)
  qed
  then show ?thesis
    by (simp add: tracks_simps stage_defs)
qed

lemma tracks_gate:
  assumes "fetch_inv fs" "idle_at fs c" "hm_get (fs_by_txid fs) tx = Some i" "\<not> sg_begun (fs_servings fs ! i)"
  shows "tracks fs [] (set_call c (Begin_Spawn i hex) (update_serving i (sg_begun_update (\<lambda>_. True)) fs))" (is "tracks fs [] ?fs")
proof -
  note i = fetch_invD(2) [OF assms(1,3)]
  have t: "hm_get (fs_tasks fs) i = None"
    using i fetch_invD(8) [OF assms(1), of i] fetch_invD(9) [OF assms(1), of i] assms(4)
    by (cases "hm_get (fs_tasks fs) i") auto
  have sp: "spawning j ?fs = (j = i \<or> spawning j fs)" for j
  proof -
    have "of_call call_spawns ?fs d = (if d = c then Some i else of_call call_spawns fs d)" for d
      by simp
    then show ?thesis
      using assms(2) unfolding spawning_def idle_at_def by (metis option.distinct(1) option.inject)
  qed
  have "is_over j ?fs = is_over j fs" for j
    using t i assms(4) by (cases "j = i") (simp_all add: is_over_def sp)
  then show ?thesis
    by (simp add: tracks_simps stage_defs)
qed

lemma tracks_spawn:
  assumes "fetch_inv fs" "hm_get (fs_calls fs) c = Some (Begin_Spawn i hex)" "begin_spawn c i hex fs = (eff, fs')"
  shows "tracks fs eff fs'"
proof -
  have at: "of_call call_spawns fs c = Some i"
    by (simp add: of_call_at [OF assms(2)])
  note i = fetch_invD(10) [OF assms(1) at]
  have t: "hm_get (fs_tasks fs) i = None"
    using fetch_invD(8) [OF assms(1), of i] i by (cases "hm_get (fs_tasks fs) i") auto
  have e: "eff = [Serve_Started i]" "fs' = set_call c (Begin_Return i)
      ((update_serving i (sg_control_rx_update (\<lambda>_. False)) fs)\<lparr>fs_tasks := hm_put i Serving_Run (fs_tasks fs)\<rparr>)"
    using assms(3) i by (auto simp: begin_spawn_def)
  have spawns: "of_call call_spawns fs' d = (if d = c then None else of_call call_spawns fs d)" for d
    by (simp add: e(2))
  have sp: "spawning j fs' = spawning j fs" if "j \<noteq> i" for j
    unfolding spawning_def spawns using at that by (metis option.distinct(1) option.inject)
  have "is_over j fs' = is_over j fs" for j
  proof (cases "j = i")
    case True
    then show ?thesis
      using at t by (auto simp: is_over_def spawning_def e(2))
  next
    case False
    then show ?thesis
      using sp [OF False] by (simp add: is_over_def e(2))
  qed
  moreover have "\<not> is_over i fs"
    using at t by (auto simp: is_over_def spawning_def)
  ultimately show ?thesis
    using t by (auto simp: tracks_def stage_defs e)
qed

lemma evict_fields [simp]:
  "fs_servings (snd (evict tx fs)) = fs_servings fs" "fs_tasks (snd (evict tx fs)) = fs_tasks fs"
  "of_call f (snd (evict tx fs)) = of_call f fs"
  by (simp_all add: evict_def Let_def split: option.split uri_entry.split)

lemma evict_events:
  assumes "fetch_inv fs"
  shows "fst (evict tx fs) = [] \<or> (\<exists>uri i. fst (evict tx fs) = [Evicted uri i])"
    "count_of (frees_uri uri) (fst (evict tx fs)) + occupied uri (snd (evict tx fs)) = occupied uri fs"
proof -
  have "(fst (evict tx fs) = [] \<or> (\<exists>uri i. fst (evict tx fs) = [Evicted uri i])) \<and>
    count_of (frees_uri uri) (fst (evict tx fs)) + occupied uri (snd (evict tx fs)) = occupied uri fs"
  proof (cases "hm_get (fs_by_txid fs) tx")
    case None
    then show ?thesis
      by (simp add: evict_def)
  next
    case (Some i)
    then show ?thesis
      using fetch_invD(2) [OF assms Some] by (auto simp: evict_cases [OF assms Some] occupied_def hm_contains_def)
  qed
  then show "fst (evict tx fs) = [] \<or> (\<exists>uri i. fst (evict tx fs) = [Evicted uri i])"
    "count_of (frees_uri uri) (fst (evict tx fs)) + occupied uri (snd (evict tx fs)) = occupied uri fs"
    by simp_all
qed

lemma tracks_evict:
  assumes "fetch_inv fs" "fs_by_uri fs' = fs_by_uri (snd (evict tx fs))"
    and "\<And>i. spawned i fs' = spawned i fs" "\<And>i. over i fs' = over i fs"
  shows "tracks fs (fst (evict tx fs)) fs'"
  using evict_events [OF assms(1), where tx = tx] assms(2-4) by (auto simp: tracks_def occupied_def)

lemma tracks_aborter:
  assumes "fetch_inv fs" "idle_at fs c"
  shows "tracks fs (fst (evict tx fs)) (set_call c (Abort_Signal i) (snd (evict tx fs)))" (is "tracks fs _ ?fs")
proof (rule tracks_evict [OF assms(1)])
  have "is_over j ?fs = is_over j fs" for j
    using assms(2) by (intro over_same) (simp_all add: of_call_idle idle_at_def)
  then show "over j ?fs = over j fs" for j
    by (simp add: over_def)
qed (simp_all add: spawned_def)

text \<open>A serving not begun is over as soon as its aborter has set the flag.\<close>

lemma aborted_over:
  assumes "fetch_inv fs" "hm_get (fs_calls fs) c = Some (Abort_Signal i)" "\<not> sg_begun (fs_servings fs ! i)"
    and "fs' = (update_serving i (sg_begun_update (\<lambda>_. True)) fs)\<lparr>fs_calls := hm_del c (fs_calls fs)\<rparr>"
  shows "over j fs' = of_bool (j = i) + over j fs" "spawned j fs' = spawned j fs" "occupied uri fs' = occupied uri fs"
proof -
  have at: "of_call call_spawns fs c = None" "of_call call_aborts fs c = Some i"
    by (simp_all add: of_call_at [OF assms(2)])
  have i: "i < length (fs_servings fs)"
    using fetch_invD(12) [OF assms(1) at(2)] by simp
  have t: "hm_get (fs_tasks fs) i = None"
    using fetch_invD(8) [OF assms(1), of i] fetch_invD(9) [OF assms(1) i assms(3)] by (cases "hm_get (fs_tasks fs) i") auto
  have no: "of_call call_spawns fs d \<noteq> Some i" for d
    using fetch_invD(10) [OF assms(1), of d i] assms(3) by auto
  have "of_call call_spawns fs' = of_call call_spawns fs"
    using at(1) by (auto simp: assms(4) fun_eq_iff)
  then show "over j fs' = of_bool (j = i) + over j fs"
    using t i assms(3) no by (cases "j = i") (auto simp: over_def is_over_def spawning_def assms(4))
qed (simp_all add: assms(4) spawned_def occupied_def)

lemma kept_by_call:
  assumes "fetch_inv fs" "hm_get (fs_by_txid fs) (sg_txid (fs_servings fs ! i)) = None" "serving_alive fs' i"
    and "fs_by_uri fs' = fs_by_uri fs" "fs_by_txid fs' = fs_by_txid fs" "fs_slots fs' = fs_slots fs"
    and "hm_inv (fs_calls fs')" "\<And>c fc. hm_get (fs_calls fs') c = Some fc \<Longrightarrow> hm_get (fs_calls fs) c = Some fc"
  shows "held_by_call fs i"
proof -
  note fs = fetch_invD [OF assms(1)]
  have inv: "hm_inv (fs_by_uri fs)" "hm_inv (fs_by_txid fs)"
    using fs(1) by (simp_all add: maps_inv_def)
  have "Ready i \<notin> set (map snd (fs_by_uri fs))"
    using fs(3) assms(2) hm_in_set [OF inv(1)] by fastforce
  moreover have "i \<notin> set (map snd (fs_by_txid fs))"
    using fs(2) assms(2) hm_in_set [OF inv(2)] by fastforce
  ultimately have "\<exists>c fc. hm_get (fs_calls fs') c = Some fc \<and> call_refers fs' i fc"
    using assms(3) hm_in_set [OF assms(7)] unfolding serving_alive_def assms(4,5) by fastforce
  moreover have "call_refers fs' i fc = call_refers fs i fc" for fc
    by (simp add: call_refers_def slot_result_def assms(6) split: option.split)
  ultimately show ?thesis
    unfolding held_by_call_def using assms(8) by blast
qed

lemma tracks_abort_signal:
  assumes "fetch_inv fs" "hm_get (fs_calls fs) c = Some (Abort_Signal i)" "abort_signal lk c i fs = (eff, fs')"
  shows "tracks fs eff fs'"
proof -
  have at: "of_call call_spawns fs c = None" "of_call call_aborts fs c = Some i"
    by (simp_all add: of_call_at [OF assms(2)])
  have gone: "hm_get (fs_by_txid fs) (sg_txid (fs_servings fs ! i)) = None" "i < length (fs_servings fs)"
    using fetch_invD(12) [OF assms(1) at(2)] by simp_all
  show ?thesis
  proof (cases "sg_begun (fs_servings fs ! i)")
    case True
    then have e: "eff = []" "fs' = set_call c (Abort_Return i) (update_serving i (\<lambda>s. s\<lparr>sg_control := sg_control s @ [Abort_Control]\<rparr>) fs)"
      using assms(3) by (simp_all add: abort_signal_def)
    have "is_over j fs' = is_over j fs" for j
      by (rule over_same) (simp_all add: e(2) of_call_idle at nth_list_update gone(2))
    then show ?thesis
      unfolding e(1) by (intro tracks_simps) (simp add: over_def, simp add: e(2) occupied_def spawned_def)
  next
    case False
    define fs1 where "fs1 = (update_serving i (sg_begun_update (\<lambda>_. True)) fs)\<lparr>fs_calls := hm_del c (fs_calls fs)\<rparr>"
    note o = aborted_over [OF assms(1,2) False fs1_def]
    have q: "occupied uri (set_transfer co fs1) = occupied uri fs1" "spawned j (set_transfer co fs1) = spawned j fs1"
        "over j (set_transfer co fs1) = over j fs1" for uri j co
      by (simp_all add: occupied_def spawned_def over_def quiet_over [OF quiet_transfer])
    have "held_by_call fs i" if "serving_alive fs1 i"
      by (rule kept_by_call [OF assms(1) gone(1) that]) (use fetch_invD(1) [OF assms(1)] in \<open>auto simp: fs1_def maps_inv_def split: if_splits\<close>)
    then show ?thesis
      using assms(3) False o q
      by (auto simp: abort_signal_def Let_def tracks_def fs1_def [symmetric] split: if_splits prod.splits)
  qed
qed

lemma task_counts:
  assumes "fetch_inv fs" "hm_get (fs_tasks fs) i = Some ph" "quiet fs fs1"
  shows "spawned j (set_task i ph' fs1) = spawned j fs" "occupied uri (set_task i ph' fs1) = occupied uri fs"
    "over j (set_task i ph' fs1) = (if j = i then of_bool (over_when (Some ph') True False) else over j fs)"
proof -
  have "i < length (fs_servings fs1)"
    using fetch_invD(8) [OF assms(1,2)] assms(3) by (auto simp: quiet_def dest: map_eq_imp_length_eq)
  moreover have "over_when (Some ph') b c = over_when (Some ph') True False" for b c
    by (cases ph') simp_all
  moreover have "spawning j (set_task i ph' fs1) = spawning j fs1" for j
    by (simp add: spawning_def)
  moreover have "over j fs1 = over j fs"
    using quiet_over [OF assms(3)] by (simp add: over_def)
  ultimately show "over j (set_task i ph' fs1) = (if j = i then of_bool (over_when (Some ph') True False) else over j fs)"
    by (auto simp: over_def is_over_def)
qed (use assms in \<open>auto simp: quiet_def spawned_def occupied_def hm_contains_def\<close>)

lemma tracks_task:
  assumes "fetch_inv fs" "hm_get (fs_tasks fs) i = Some ph" "quiet fs fs1" "list_all plain eff"
    and "over_when (Some ph') True False = over_when (Some ph) True False"
  shows "tracks fs eff (set_task i ph' fs1)"
proof -
  have "over i fs = of_bool (over_when (Some ph) True False)"
    using fetch_invD(8) [OF assms(1,2)] assms(2) by (cases ph) (simp_all add: over_def is_over_def)
  then show ?thesis
    using task_counts [OF assms(1-3)] plain_counts [OF assms(4)] assms(5) unfolding tracks_def by simp
qed

section \<open>Every step tracks the counts\<close>

lemma tracks_serve_end:
  assumes "fetch_inv fs" "serve_end lk i cb now fs = (eff, fs')"
  shows "tracks fs eff fs'"
proof (cases "hm_get (fs_tasks fs) i")
  case None
  then show ?thesis
    using assms(2) tracks_quiet [OF quiet_refl, of "[]"] by (auto simp: serve_end_def Let_def)
next
  case (Some ph)
  let ?tx = "sg_txid (fs_servings fs ! i)"
  note counts = task_counts [OF assms(1) Some]
  show ?thesis
  proof (cases ph)
    case (Serving_Evict a)
    have "tracks fs (fst (evict ?tx fs)) (set_task i (Serving_End a) (snd (evict ?tx fs)))"
    proof (rule tracks_evict [OF assms(1)])
      have "spawning j (set_task i ph' (snd (evict tx fs))) = spawning j fs" for j tx ph'
        by (simp add: spawning_def)
      then show "over j (set_task i (Serving_End a) (snd (evict ?tx fs))) = over j fs" for j
        using Some Serving_Evict by (simp add: over_def is_over_def)
      show "spawned j (set_task i (Serving_End a) (snd (evict ?tx fs))) = spawned j fs" for j
        using Some by (simp add: spawned_def hm_contains_def)
    qed simp
    then show ?thesis
      using assms(2) Some Serving_Evict by (auto simp: serve_end_def Let_def prod_eq_iff)
  next
    case (Serving_End a)
    have before: "over i fs = 0"
      using Some Serving_End by (simp add: over_def is_over_def)
    have "hm_get (fs_by_txid fs) ?tx = None"
      using fetch_invD(13) [OF assms(1) Some] Serving_End by simp
    then have "serving_alive fs i \<Longrightarrow> held_by_call fs i"
      by (rule kept_by_call [OF assms(1)]) (use fetch_invD(1) [OF assms(1)] in \<open>simp_all add: maps_inv_def\<close>)
    moreover have "over_when (Some (finish_phase cb r)) True False" for r
      by (simp add: finish_phase_def split: finish_pass.split)
    ultimately show ?thesis
      using assms(2) Some Serving_End before counts [OF quiet_refl] counts [OF quiet_transfer]
      by (auto simp: serve_end_def Let_def tracks_def split: if_splits prod.splits)
  next
    case (Serving_Parked cb' frames)
    have "over_when (Some (finish_phase cb' r)) True False" for r
      by (simp add: finish_phase_def split: finish_pass.split)
    then show ?thesis
      using assms(2) Some Serving_Parked tracks_task [OF assms(1) Some quiet_transfer, of "[Session_Did _]"]
      by (auto simp: serve_end_def Let_def split: prod.splits)
  qed (use assms(2) Some tracks_quiet [OF quiet_refl, of "[]"] in \<open>auto simp: serve_end_def Let_def\<close>)
qed

lemma tracks_serve:
  assumes "fetch_inv fs"
  shows "serve_write lk i chunk now fs = (eff, fs') \<Longrightarrow> tracks fs eff fs'"
    and "serve_done i ok fs = (eff, fs') \<Longrightarrow> tracks fs eff fs'"
    and "serve_control_step lk i now fs = (eff, fs') \<Longrightarrow> tracks fs eff fs'"
proof -
  note none = tracks_quiet [OF quiet_refl, of "[]"]
  have q: "quiet fs (set_transfer co (update_serving i (\<lambda>s. s\<lparr>sg_control := tl (sg_control s)\<rparr>) fs))"
      "quiet fs (update_serving i (\<lambda>s. s\<lparr>sg_control := tl (sg_control s)\<rparr>) fs)" for co
    by (rule quiet_trans [OF quiet_control quiet_transfer], simp add: serving_view_def)
      (rule quiet_control, simp add: serving_view_def)
  show "serve_write lk i chunk now fs = (eff, fs') \<Longrightarrow> tracks fs eff fs'"
    using none tracks_act [OF quiet_transfer] by (auto simp: serve_write_def split: if_splits prod.splits)
  show "serve_done i ok fs = (eff, fs') \<Longrightarrow> tracks fs eff fs'"
    using none tracks_task [OF assms _ quiet_refl, of i Serving_Run "[]"] by (auto simp: serve_done_def split: if_splits)
  show "serve_control_step lk i now fs = (eff, fs') \<Longrightarrow> tracks fs eff fs'"
    using none tracks_act [OF q(1)] tracks_task [OF assms _ quiet_refl, of i Serving_Run "[]"] tracks_task [OF assms _ q(2), of i Serving_Run "[]"]
    by (auto simp: serve_control_step_def Let_def split: if_splits prod.splits list.splits serve_control.splits)
qed

lemma tracks_idle_calls:
  assumes "idle_at fs c"
  shows "idle_call fc \<Longrightarrow> tracks fs [] (set_call c fc fs)" "answer c r fs = (eff, fs') \<Longrightarrow> tracks fs eff fs'"
  using tracks_quiet [OF quiet_set_call [OF assms], of fc "[]"] tracks_quiet [OF quiet_answer [OF assms], of "[Answer c r]" r]
  by (auto simp: answer_def)

lemma tracks_run_call:
  assumes "fetch_inv fs" "run_call lk c fs = (eff, fs')"
  shows "tracks fs eff fs'"
proof (cases "hm_get (fs_calls fs) c")
  case None
  then show ?thesis
    using assms(2) tracks_quiet [OF quiet_refl, of "[]"] by (auto simp: run_call_def)
next
  case (Some fc)
  have idle: "idle_call fc \<Longrightarrow> idle_at fs c"
    by (rule idle_atI [OF Some])
  note move = tracks_idle_calls
  note defs = run_call_def Some idle_call_def
  show ?thesis
  proof (cases fc)
    case (Fetch_Lookup uri)
    then show ?thesis
      using assms(2) idle move by (auto simp: defs split: option.splits uri_entry.splits)
  next
    case (Fetch_Claim uri)
    then show ?thesis
      using assms(2) idle move tracks_claim of_call_at [OF Some, of call_spawns]
      by (auto simp: defs fetch_claim_def Let_def split: option.splits uri_entry.splits)
  next
    case (Fetch_Publish uri n out)
    then show ?thesis
      using assms(2) tracks_publish [OF assms(1), of c] Some by (auto simp: defs)
  next
    case (Fetch_Fill n out resp)
    then have "quiet fs (set_call c (Fetch_Notify n out resp) (slot_fill n out fs))"
      using idle by (intro quiet_trans [OF quiet_fill quiet_set_call]) (simp_all add: quiet_idle_at [OF quiet_fill] idle_call_def)
    then show ?thesis
      using assms(2) Fetch_Fill tracks_quiet [of fs _ "[]"] by (auto simp: defs)
  next
    case (Fetch_Notify n out resp)
    then have "quiet fs (snd (answer c (Inr resp) (notify_waiters n fs)))"
      using idle by (intro quiet_trans [OF quiet_notify quiet_answer]) (simp_all add: quiet_idle_at [OF quiet_notify] idle_call_def)
    then show ?thesis
      using assms(2) Fetch_Notify tracks_quiet [of fs _ "[Answer c (Inr resp)]"] by (auto simp: defs answer_def)
  next
    case (Begin_Lookup hex)
    then show ?thesis
      using assms idle move tracks_gate [OF assms(1)] by (auto simp: defs begin_lookup_def split: sum.splits option.splits if_splits)
  next
    case (Begin_Spawn i hex)
    then show ?thesis
      using assms(2) tracks_spawn [OF assms(1), of c] Some by (auto simp: defs)
  next
    case (Flow_Lookup hex control what)
    have "quiet fs (snd (answer c r (update_serving i (\<lambda>s. s\<lparr>sg_control := q s\<rparr>) fs)))" for i r q
      using idle Flow_Lookup
      by (intro quiet_trans [OF quiet_control quiet_answer]) (simp_all add: serving_view_def idle_control idle_call_def)
    then show ?thesis
      using assms(2) idle move Flow_Lookup tracks_quiet [of fs _ "[Answer c (Inr acknowledge)]"]
      by (auto simp: defs handle_flow_def answer_def split: sum.splits option.splits)
  next
    case (Abort_Lookup hex)
    then show ?thesis
      using assms idle move tracks_aborter [OF assms(1)]
      by (auto simp: defs abort_lookup_def prod_eq_iff split: sum.splits option.splits)
  next
    case (Abort_Signal i)
    then show ?thesis
      using assms(2) tracks_abort_signal [OF assms(1), of c] Some by (auto simp: defs)
  qed (use assms(2) idle move tracks_quiet [OF quiet_refl, of "[]"] in \<open>auto simp: defs split: option.splits\<close>)
qed

text \<open>Dropping a handler emits nothing, and ends nothing that could still end.\<close>

lemma tracks_dropped:
  assumes "fetch_inv fs"
  shows "tracks fs [] (fs\<lparr>fs_calls := hm_del c (fs_calls fs)\<rparr>)" (is "tracks fs [] ?fs")
proof -
  have sp: "spawning i ?fs \<Longrightarrow> spawning i fs" for i
    by (auto simp: spawning_def split: if_splits)
  have same: "over i ?fs = over i fs" if "hm_get (fs_tasks fs) i = Some ph" for i ph
    using that by (cases ph) (simp_all add: over_def is_over_def)
  moreover have "over i fs \<le> over i ?fs" for i
    using sp [of i] same [of i] by (cases "hm_get (fs_tasks fs) i") (auto simp: over_def is_over_def)
  ultimately show ?thesis
    by (auto simp: tracks_def occupied_def spawned_def hm_contains_def)
qed

lemma tracks_drop_call:
  assumes "fetch_inv fs"
  shows "tracks fs [] (drop_call c fs)"
proof (cases "\<exists>i. hm_get (fs_calls fs) c = Some (Abort_Signal i)")
  case True
  then obtain i where c: "hm_get (fs_calls fs) c = Some (Abort_Signal i)"
    by blast
  define fs1 where "fs1 = (update_serving i (sg_begun_update (\<lambda>_. True)) fs)\<lparr>fs_calls := hm_del c (fs_calls fs)\<rparr>"
  show ?thesis
  proof (cases "sg_begun (fs_servings fs ! i) \<or> serving_alive fs1 i")
    case False
    then have nb: "\<not> sg_begun (fs_servings fs ! i)"
      by simp
    have i: "i < length (fs_servings fs)"
      using fetch_invD(12) [OF assms, of c i] by (simp add: of_call_at [OF c])
    have "\<not> hm_contains (fs_tasks fs) i"
      using fetch_invD(8) [OF assms, of i] fetch_invD(9) [OF assms i nb] by (cases "hm_get (fs_tasks fs) i") (simp_all add: hm_contains_def)
    then have "tracks fs [] fs1"
      using aborted_over [OF assms c nb fs1_def] by (auto simp: tracks_def fs1_def)
    then show ?thesis
      using c False by (simp add: drop_call_def fs1_def [symmetric])
  qed (use c tracks_quiet [OF quiet_refl, of "[]"] in \<open>simp add: drop_call_def fs1_def [symmetric]\<close>)
qed (use tracks_dropped [OF assms] tracks_quiet [OF quiet_refl, of "[]"] in
    \<open>auto simp: drop_call_def split: option.split fetch_call.split\<close>)

lemma tracks_resolved:
  assumes "fetch_inv fs" "fetch_resolved c res fresh now fs = (eff, fs')"
  shows "tracks fs eff fs'"
proof (cases "\<exists>uri n. hm_get (fs_calls fs) c = Some (Fetch_Resolve uri n)")
  case True
  then obtain uri n where c: "hm_get (fs_calls fs) c = Some (Fetch_Resolve uri n)"
    by blast
  have at: "of_call call_owner fs c = Some (uri, n)" "of_call call_built fs c = None" "of_call call_spawns fs c = None"
      "of_call call_aborts fs c = None"
    by (simp_all add: of_call_at [OF c])
  have failed: "tracks fs [] (set_call c (Fetch_Publish uri n (Inl e)) fs1)" if "quiet fs fs1" for e fs1
    by (rule tracks_quiet) (use that at in \<open>auto simp: quiet_def fun_eq_iff\<close>)
  show ?thesis
    using assms(2) c failed tracks_built [OF assms(1) c]
    by (auto simp: fetch_resolved_def build_serving_def xs_open_binary_sink_def open_binary_sink_def Let_def quiet_def
        split: sum.splits prod.splits if_splits)
qed (use assms(2) tracks_quiet [OF quiet_refl, of "[]"] in \<open>auto simp: fetch_resolved_def split: option.splits fetch_call.splits\<close>)

lemma tracks_step:
  assumes "fetch_inv fs" "fetch_step inner op fs = (eff, fs')"
  shows "tracks fs eff fs'"
proof (cases op)
  case (F_Command c cmd)
  have "idle_at fs c" if "\<not> hm_contains (fs_calls fs) c"
    using that by (simp add: idle_at_def of_call_def hm_contains_def)
  then show ?thesis
    using assms(2) F_Command tracks_idle_calls(1) tracks_quiet [OF quiet_refl, of "[]"] tracks_quiet [OF quiet_refl, of "[Answer c _]"]
    by (auto simp: fetch_on_command_def idle_call_def split: if_splits xacpp_command.splits)
next
  case (F_Event c evt)
  then show ?thesis
    using assms(2) tracks_quiet [OF quiet_refl, of "[]"] tracks_quiet [OF quiet_refl, of "[Answer c _]"]
    by (auto simp: fetch_on_event_def split: if_splits)
next
  case (F_Session ev sop)
  then show ?thesis
    using assms(2) tracks_quiet [OF quiet_transfer, of "[Session_Did _]"] by (auto split: prod.splits)
qed (use assms in \<open>auto simp: tracks_run_call tracks_drop_call tracks_resolved tracks_serve tracks_serve_end\<close>)

section \<open>Whole runs\<close>

definition in_order :: "fetch_effect list \<Rightarrow> fetch_effect \<Rightarrow> bool" where
  "in_order xs e \<longleftrightarrow>
    (\<forall>i. provider_act e = Some i \<longrightarrow> Serve_Started i \<in> set xs \<and> count_of (ends_serving i) xs = 0) \<and>
    (\<forall>i x. e = Sink_Finished i x \<longrightarrow> Serve_Started i \<in> set xs)"

fun gated_from :: "fetch_effect list \<Rightarrow> fetch_effect list \<Rightarrow> bool" where
  "gated_from xs [] = True"
| "gated_from xs (e # es) = (in_order xs e \<and> gated_from (xs @ [e]) es)"

lemma gated_append: "gated_from xs (ys @ zs) = (gated_from xs ys \<and> gated_from (xs @ ys) zs)"
  by (induction ys arbitrary: xs) simp_all

lemma gated_plain: "(\<And>e xs. e \<in> set es \<Longrightarrow> in_order (tr @ xs) e) \<Longrightarrow> gated_from tr es"
proof (induction es arbitrary: tr)
  case (Cons e es)
  have "gated_from (tr @ [e]) es"
    by (rule Cons.IH) (use Cons.prems in auto)
  then show ?case
    using Cons.prems [of e "[]"] by simp
qed simp

text \<open>The trace so far agrees with the state.\<close>

definition trace_inv :: "fetch_effect list \<Rightarrow> fetch_service \<Rightarrow> bool" where
  "trace_inv tr fs \<longleftrightarrow>
    fetch_inv fs \<and>
    (\<forall>uri. count_of (\<lambda>e. e = Resolve_Called uri) tr = count_of (frees_uri uri) tr + occupied uri fs) \<and>
    (\<forall>i. count_of (\<lambda>e. e = Serve_Started i) tr = spawned i fs) \<and>
    (\<forall>i. count_of (ends_serving i) tr \<le> over i fs) \<and>
    (\<forall>i. hm_contains (fs_tasks fs) i \<longrightarrow> count_of (ends_serving i) tr = over i fs) \<and> gated_from [] tr"

lemma trace_inv_new: "trace_inv [] (fetch_service_new s)"
  by (simp add: trace_inv_def fetch_inv_def maps_inv_def tables_inv_def owners_inv_def begin_inv_def fetch_service_new_def of_call_def
      occupied_def spawned_def over_def is_over_def)

lemma trace_inv_step:
  assumes "trace_inv tr fs" "set (new_ids [op]) \<inter> known_ids fs = {}" "fetch_step inner op fs = (eff, fs')"
  shows "trace_inv (tr @ eff) fs'"
proof -
  have inv: "fetch_inv fs"
    using assms(1) by (simp add: trace_inv_def)
  have t: "tracks fs eff fs'"
    by (rule tracks_step [OF inv assms(3)])
  have started: "Serve_Started i \<in> set tr" if "hm_get (fs_tasks fs) i = Some ph" for i ph
    using assms(1) that count_of_pos [of "\<lambda>e. e = Serve_Started i" tr] by (simp add: trace_inv_def spawned_def hm_contains_def)
  have "gated_from tr eff"
  proof (cases "\<exists>e i. e \<in> set eff \<and> provider_act e = Some i")
    case True
    then obtain e i where e: "e \<in> set eff" "provider_act e = Some i"
      by blast
    then have "eff = [e]" "hm_get (fs_tasks fs) i = Some Serving_Run"
      using t by (auto simp: tracks_def)
    moreover have "count_of (ends_serving i) tr = 0"
      using assms(1) calculation(2) by (simp add: trace_inv_def over_def is_over_def hm_contains_def)
    ultimately show ?thesis
      using started e(2) by (auto simp: in_order_def)
  next
    case False
    then show ?thesis
      using t started by (intro gated_plain) (auto simp: in_order_def tracks_def)
  qed
  moreover have "fetch_inv fs'"
    using fetch_step_inv [OF inv assms(2), of inner] assms(3) by simp
  moreover have "count_of (ends_serving i) (tr @ eff) \<le> over i fs'" for i
    using assms(1) t unfolding trace_inv_def tracks_def
    by (metis add.commute add_le_cancel_left count_of_simps(3) order_trans)
  moreover have "count_of (ends_serving i) (tr @ eff) = over i fs'" if "hm_contains (fs_tasks fs') i" for i
  proof -
    have "count_of (ends_serving i) tr = over i fs"
    proof (cases "hm_contains (fs_tasks fs) i")
      case False
      then have "count_of (\<lambda>e. e = Serve_Started i) eff \<noteq> 0"
        using t that by (auto simp: tracks_def spawned_def dest: spec [of _ i])
      then have "Serve_Started i \<in> set eff"
        using count_of_pos by blast
      then have "over i fs = 0"
        using t unfolding tracks_def by blast
      then show ?thesis
        using assms(1) by (metis le_zero_eq trace_inv_def)
    qed (use assms(1) in \<open>simp add: trace_inv_def\<close>)
    then show ?thesis
      using t that unfolding tracks_def count_of_simps by (metis add.commute)
  qed
  moreover have "count_of (\<lambda>e. e = Resolve_Called uri) (tr @ eff) = count_of (frees_uri uri) (tr @ eff) + occupied uri fs'"
      "count_of (\<lambda>e. e = Serve_Started i) (tr @ eff) = spawned i fs'" for uri i
    using assms(1) t unfolding trace_inv_def tracks_def count_of_simps by (metis add.assoc add.commute)+
  ultimately show ?thesis
    using assms(1) by (simp add: trace_inv_def gated_append)
qed

lemma known_ids_simps [simp]:
  "known_ids (set_call c fc fs) = known_ids fs" "known_ids (set_transfer co fs) = known_ids fs" "known_ids (set_task i ph fs) = known_ids fs"
  "known_ids (slot_fill n out fs) = known_ids fs" "known_ids (notify_waiters n fs) = known_ids fs" "known_ids (snd (evict tx fs)) = known_ids fs"
  "known_ids (fs\<lparr>fs_calls := cs\<rparr>) = known_ids fs" "known_ids (fs\<lparr>fs_tasks := ts\<rparr>) = known_ids fs"
  "known_ids (fs\<lparr>fs_by_uri := bu\<rparr>) = known_ids fs" "known_ids (fs\<lparr>fs_by_txid := bt\<rparr>) = known_ids fs"
  "known_ids (fs\<lparr>fs_slots := sl\<rparr>) = known_ids fs" "known_ids (snd (answer c r fs)) = known_ids fs"
  by (simp_all add: known_ids_def answer_def)

lemma known_ids_update [simp]:
  assumes "\<And>s. sg_txid (f s) = sg_txid s"
  shows "known_ids (update_serving i f fs) = known_ids fs"
proof -
  have "map sg_txid ((fs_servings fs)[i := f (fs_servings fs ! i)]) = map sg_txid (fs_servings fs)"
    by (cases "i < length (fs_servings fs)") (simp_all add: map_update assms list_update_beyond list_update_same_conv)
  then show ?thesis
    by (simp add: known_ids_def del: map_update list_update_beyond)
qed

lemma known_ids_step: "known_ids (snd (fetch_step inner op fs)) \<subseteq> known_ids fs \<union> set (new_ids [op])"
proof (cases op)
  case (F_Run lk c)
  have "known_ids (snd (run_call lk c fs)) = known_ids fs"
    by (auto simp: run_call_def fetch_claim_def fetch_publish_def begin_lookup_def begin_spawn_def handle_flow_def abort_lookup_def
        abort_signal_def Let_def split: option.split fetch_call.split uri_entry.split sum.split prod.split)
  then show ?thesis
    using F_Run by simp
next
  case (F_Resolved c res fresh now)
  then show ?thesis
    by (auto simp: fetch_resolved_def build_serving_def xs_open_binary_sink_def open_binary_sink_def Let_def known_ids_def
        split: option.split fetch_call.split sum.split prod.split)
next
  case (F_Control lk i now)
  then show ?thesis
    by (auto simp: serve_control_step_def Let_def split: prod.split list.split serve_control.split)
next
  case (F_End lk i cb now)
  then show ?thesis
    by (auto simp: serve_end_def Let_def split: prod.split option.split serving_phase.split)
qed (auto simp: fetch_on_command_def fetch_on_event_def drop_call_def serve_write_def serve_done_def Let_def
    split: xacpp_command.split prod.split option.split fetch_call.split)

lemma trace_inv_run:
  assumes "fetch_run inner ops fs = (eff, fs')" "trace_inv tr fs" "distinct (new_ids ops)" "set (new_ids ops) \<inter> known_ids fs = {}"
  shows "trace_inv (tr @ eff) fs'"
  using assms
proof (induction ops arbitrary: tr fs eff)
  case (Cons op ops)
  obtain e1 fs1 where s: "fetch_step inner op fs = (e1, fs1)"
    by (metis surj_pair)
  obtain e2 where r: "fetch_run inner ops fs1 = (e2, fs')" "eff = e1 @ e2"
    using Cons.prems(1) s by (auto split: prod.splits)
  have ids: "new_ids (op # ops) = new_ids [op] @ new_ids ops"
    by (cases op) simp_all
  have "trace_inv (tr @ e1) fs1"
    using Cons.prems(2,4) ids by (intro trace_inv_step [OF _ _ s]) auto
  moreover have "set (new_ids ops) \<inter> known_ids fs1 = {}"
    using known_ids_step [of inner op fs] s Cons.prems(3,4) ids by auto
  ultimately show ?case
    using Cons.IH [OF r(1), of "tr @ e1"] Cons.prems(3) ids r(2) by simp
qed simp

lemma gated_split: "gated_from [] (xs @ e # ys) \<Longrightarrow> in_order xs e"
  by (simp add: gated_append)

lemma run_trace_inv:
  assumes "fetch_run inner ops (fetch_service_new s) = (tr, fs)" "distinct (new_ids ops)"
  shows "trace_inv tr fs"
  using trace_inv_run [OF assms(1) trace_inv_new assms(2)] by (simp add: known_ids_def fetch_service_new_def)

lemma owned_run:
  assumes "fetch_run inner ops fs = (eff, fs')" "trace_inv tr fs" "placeholders_owned fs" "\<And>c. F_Drop c \<notin> set ops"
    "distinct (new_ids ops)" "set (new_ids ops) \<inter> known_ids fs = {}"
  shows "placeholders_owned fs'"
  using assms
proof (induction ops arbitrary: tr fs eff)
  case (Cons op ops)
  obtain e1 fs1 where s: "fetch_step inner op fs = (e1, fs1)"
    by (metis surj_pair)
  obtain e2 where r: "fetch_run inner ops fs1 = (e2, fs')"
    using Cons.prems(1) s by (auto split: prod.splits)
  have ids: "new_ids (op # ops) = new_ids [op] @ new_ids ops"
    by (cases op) simp_all
  have "trace_inv (tr @ e1) fs1"
    using Cons.prems(2,6) ids by (intro trace_inv_step [OF _ _ s]) auto
  moreover have "placeholders_owned fs1"
    using owned_step [OF _ Cons.prems(3), of op inner] Cons.prems(2,4) s by (auto simp: trace_inv_def)
  moreover have "set (new_ids ops) \<inter> known_ids fs1 = {}"
    using known_ids_step [of inner op fs] s Cons.prems(5,6) ids by auto
  ultimately show ?case
    using Cons.IH [OF r] Cons.prems(4,5) ids by auto
qed simp

text \<open>A serving that is over without a task is never started.\<close>

lemma never_started:
  assumes "fetch_run inner ops fs = (eff, fs')" "trace_inv tr fs" "over i fs = 1"
    "distinct (new_ids ops)" "set (new_ids ops) \<inter> known_ids fs = {}"
  shows "Serve_Started i \<notin> set eff"
  using assms
proof (induction ops arbitrary: tr fs eff)
  case (Cons op ops)
  obtain e1 fs1 where s: "fetch_step inner op fs = (e1, fs1)"
    by (metis surj_pair)
  obtain e2 where r: "fetch_run inner ops fs1 = (e2, fs')" "eff = e1 @ e2"
    using Cons.prems(1) s by (auto split: prod.splits)
  have ids: "new_ids (op # ops) = new_ids [op] @ new_ids ops"
    by (cases op) simp_all
  have t: "tracks fs e1 fs1"
    using tracks_step [OF _ s] Cons.prems(2) by (simp add: trace_inv_def)
  then have "over i fs \<le> over i fs1"
    unfolding tracks_def by (meson add_leE)
  then have "over i fs1 = 1"
    using Cons.prems(3) by (auto simp: over_def split: if_splits)
  moreover have "trace_inv (tr @ e1) fs1"
    using Cons.prems(2,5) ids by (intro trace_inv_step [OF _ _ s]) auto
  moreover have "set (new_ids ops) \<inter> known_ids fs1 = {}"
    using known_ids_step [of inner op fs] s Cons.prems(4,5) ids by auto
  ultimately have "Serve_Started i \<notin> set e2"
    using Cons.IH [OF r(1)] Cons.prems(4) ids by auto
  moreover have "Serve_Started i \<notin> set e1"
    using t Cons.prems(3) by (auto simp: tracks_def)
  ultimately show ?case
    by (simp add: r(2))
qed simp

section \<open>A waiter that is never woken\<close>

fun call_notifies :: "fetch_call \<Rightarrow> nat option" where
  "call_notifies (Fetch_Resolve uri n) = Some n"
| "call_notifies (Fetch_Publish uri n out) = Some n"
| "call_notifies (Fetch_Fill n out resp) = Some n"
| "call_notifies (Fetch_Notify n out resp) = Some n"
| "call_notifies _ = None"

text \<open>Parked on a slot that nobody is going to notify.\<close>

definition stranded_on :: "nat \<Rightarrow> nat \<Rightarrow> fetch_service \<Rightarrow> bool" where
  "stranded_on c n fs \<longleftrightarrow>
    hm_get (fs_calls fs) c = Some (Fetch_Parked n) \<and> n < length (fs_slots fs) \<and> (\<forall>d. of_call call_notifies fs d \<noteq> Some n)"

lemma stranded_simps [simp]:
  "d \<noteq> c \<Longrightarrow> stranded_on c n fs \<Longrightarrow> call_notifies fc \<noteq> Some n \<Longrightarrow> stranded_on c n (set_call d fc fs)"
  "d \<noteq> c \<Longrightarrow> stranded_on c n fs \<Longrightarrow> stranded_on c n (fs\<lparr>fs_calls := hm_del d (fs_calls fs)\<rparr>)"
  "d \<noteq> c \<Longrightarrow> stranded_on c n fs \<Longrightarrow> stranded_on c n ((update_serving i f fs)\<lparr>fs_calls := hm_del d (fs_calls fs)\<rparr>)"
  "stranded_on c n (fs\<lparr>fs_by_uri := bu\<rparr>) = stranded_on c n fs"
  "stranded_on c n (fs\<lparr>fs_by_txid := bt\<rparr>) = stranded_on c n fs"
  "stranded_on c n (fs\<lparr>fs_tasks := ts\<rparr>) = stranded_on c n fs"
  "stranded_on c n (fs\<lparr>fs_session := s\<rparr>) = stranded_on c n fs"
  "stranded_on c n (fs\<lparr>fs_servings := ss\<rparr>) = stranded_on c n fs"
  "stranded_on c n (update_serving i f fs) = stranded_on c n fs"
  "stranded_on c n (set_task i ph fs) = stranded_on c n fs"
  "stranded_on c n (set_transfer co fs) = stranded_on c n fs"
  "stranded_on c n (slot_fill m out fs) = stranded_on c n fs"
  "stranded_on c n fs \<Longrightarrow> stranded_on c n (fs\<lparr>fs_slots := fs_slots fs @ xs\<rparr>)"
  "stranded_on c n (snd (evict tx fs)) = stranded_on c n fs"
  by (auto simp: stranded_on_def update_serving_def slot_fill_def evict_def Let_def split: option.split uri_entry.split)

lemma stranded_notify:
  assumes "stranded_on c n fs" "m \<noteq> n"
  shows "stranded_on c n (notify_waiters m fs)"
proof -
  have "hm_get (fs_calls (notify_waiters m fs)) c = Some (Fetch_Parked n)"
    using assms by (simp add: stranded_on_def notify_waiters_def
        hm_get_map [where f = "\<lambda>c fc. if fc = Fetch_Parked m then Fetch_Wait m else fc"])
  then show ?thesis
    using assms(1) by (simp add: stranded_on_def)
qed

lemma stranded_answer: "d \<noteq> c \<Longrightarrow> stranded_on c n fs \<Longrightarrow> stranded_on c n (snd (answer d r fs)) \<and> Answer c r' \<notin> set (fst (answer d r fs))"
  by (simp add: answer_def)

lemma stranded_run_call:
  assumes "stranded_on c n fs"
  shows "stranded_on c n (snd (run_call lk d fs)) \<and> Answer c r \<notin> set (fst (run_call lk d fs))"
proof (cases "hm_get (fs_calls fs) d")
  case (Some fc)
  show ?thesis
  proof (cases "d = c")
    case True
    then have "run_call lk d fs = ([], fs)"
      using assms by (simp add: run_call_def stranded_on_def)
    then show ?thesis
      using assms by simp
  next
    case False
    have m: "call_notifies fc \<noteq> Some n" "length (fs_slots fs) \<noteq> n"
      using assms of_call_at [OF Some, of call_notifies] by (auto simp: stranded_on_def)
    have e: "Answer c r \<notin> set (fst (evict tx fs))" for tx
      by (simp add: evict_def Let_def split: option.split uri_entry.split)
    show ?thesis
      using assms Some False m
      by (cases fc) (auto simp: run_call_def fetch_claim_def fetch_publish_def begin_lookup_def begin_spawn_def handle_flow_def
          abort_lookup_def abort_signal_def answer_def Let_def e stranded_notify
          split: option.split uri_entry.split sum.split prod.split)
  qed
qed (use assms in \<open>simp add: run_call_def\<close>)

lemma stranded_drop:
  assumes "stranded_on c n fs" "d \<noteq> c"
  shows "stranded_on c n (drop_call d fs)"
  using assms by (auto simp: drop_call_def Let_def split: option.split fetch_call.split)

lemma stranded_step:
  assumes "stranded_on c n fs" "op \<noteq> F_Drop c"
  shows "stranded_on c n (snd (fetch_step inner op fs)) \<and> Answer c r \<notin> set (fst (fetch_step inner op fs))"
proof (cases op)
  case (F_Run lk d)
  then show ?thesis
    using stranded_run_call [OF assms(1)] by simp
next
  case (F_Drop d)
  then show ?thesis
    using stranded_drop [OF assms(1), of d] assms(2) by auto
next
  case (F_Command d cmd)
  then show ?thesis
    using assms by (cases "d = c") (auto simp: fetch_on_command_def stranded_on_def hm_contains_def split: xacpp_command.split)
next
  case (F_Event d evt)
  then show ?thesis
    using assms by (auto simp: fetch_on_event_def stranded_on_def hm_contains_def)
next
  case (F_Resolved d res fresh now)
  show ?thesis
  proof (cases "\<exists>uri m. hm_get (fs_calls fs) d = Some (Fetch_Resolve uri m)")
    case True
    then obtain uri m where d: "hm_get (fs_calls fs) d = Some (Fetch_Resolve uri m)"
      by blast
    then have "d \<noteq> c" "m \<noteq> n"
      using assms of_call_at [OF d, of call_notifies] by (auto simp: stranded_on_def)
    then show ?thesis
      using assms F_Resolved d
      by (auto simp: fetch_resolved_def build_serving_def Let_def split: sum.split prod.split)
  qed (use assms F_Resolved in \<open>auto simp: fetch_resolved_def split: option.split fetch_call.split\<close>)
next
  case (F_Control lk i now)
  then show ?thesis
    using assms by (auto simp: serve_control_step_def Let_def split: prod.split list.split serve_control.split)
next
  case (F_End lk i cb now)
  have "Answer c r \<notin> set (fst (evict tx fs))" for tx
    by (simp add: evict_def Let_def split: option.split uri_entry.split)
  then show ?thesis
    using assms F_End by (auto simp: serve_end_def Let_def split: prod.split option.split serving_phase.split)
qed (use assms in \<open>auto simp: serve_write_def serve_done_def split: prod.split\<close>)

lemma stranded_run:
  assumes "stranded_on c n fs" "fetch_run inner ops fs = (eff, fs')" "F_Drop c \<notin> set ops"
  shows "stranded_on c n fs' \<and> Answer c r \<notin> set eff"
  using assms
proof (induction ops arbitrary: fs eff)
  case (Cons op ops)
  then show ?case
    using stranded_step [OF Cons.prems(1), of op inner r] by (fastforce split: prod.splits)
qed simp

section \<open>Schedules\<close>

definition sample_resource :: resolved_resource where
  "sample_resource = \<lparr>rs_size_bytes = 3, rs_sha256 = ''abc'', rs_mime = ''text/plain''\<rparr>"

text \<open>A fetch runs to its answer, a begin is taken up to the spawn, and the serving task writes the resource and runs to its end before the handler returns.\<close>

definition early_end_schedule :: "link \<Rightarrow> txid \<Rightarrow> fetch_op list" where
  "early_end_schedule lk tx =
    [F_Command 0 (Fetch ''u''), F_Run lk 0, F_Run lk 0, F_Resolved 0 (Inr sample_resource) tx 1, F_Run lk 0, F_Run lk 0, F_Run lk 0,
     F_Command 1 (FetchBegin (format_transaction_id tx)), F_Run lk 1, F_Run lk 1, F_Write lk 0 [1, 2, 3] 2, F_Done 0 True, F_End lk 0 9 2, F_End lk 0 9 2, F_Run lk 1]"

text \<open>A second fetch of the same uri looks at the slot, and subscribes only after the first one has filled and notified it.\<close>

definition lost_wakeup_schedule :: "link \<Rightarrow> fetch_op list" where
  "lost_wakeup_schedule lk =
    [F_Command 0 (Fetch ''u''), F_Run lk 0, F_Run lk 0, F_Command 1 (Fetch ''u''), F_Run lk 1, F_Run lk 1,
     F_Resolved 0 (Inl Closed) 0 1, F_Run lk 0, F_Run lk 0, F_Run lk 0, F_Run lk 1]"

text \<open>The handler of a fetch is dropped while the provider resolves; a second fetch of the same uri comes and waits.\<close>

definition dropped_resolver_schedule :: "link \<Rightarrow> fetch_op list" where
  "dropped_resolver_schedule lk =
    [F_Command 0 (Fetch ''u''), F_Run lk 0, F_Run lk 0, F_Drop 0, F_Command 1 (Fetch ''u''), F_Run lk 1, F_Run lk 1, F_Run lk 1]"

text \<open>The handler of a begin is dropped between the gate and the spawn.\<close>

definition dropped_begin_schedule :: "link \<Rightarrow> txid \<Rightarrow> fetch_op list" where
  "dropped_begin_schedule lk tx =
    [F_Command 0 (Fetch ''u''), F_Run lk 0, F_Run lk 0, F_Resolved 0 (Inr sample_resource) tx 1, F_Run lk 0, F_Run lk 0, F_Run lk 0,
     F_Command 1 (FetchBegin (format_transaction_id tx)), F_Run lk 1, F_Drop 1,
     F_Command 2 (FetchBegin (format_transaction_id tx)), F_Run lk 2]"

lemmas schedule_defs = drop_call_def fetch_service_new_def fetch_on_command_def run_call_def fetch_claim_def fetch_resolved_def build_serving_def
  fetch_publish_def slot_fill_def notify_waiters_def answer_def set_call_def update_serving_def begin_lookup_def begin_spawn_def
  serve_write_def serve_done_def serve_end_def evict_def set_task_def serving_alive_def call_refers_def slot_result_def set_transfer_def
  hm_get_def hm_put_def hm_del_def hm_contains_def Let_def

lemma lost_wakeup_run:
  "\<exists>tr fs. fetch_run None (lost_wakeup_schedule lk) (fetch_service_new s) = (tr, fs) \<and> stranded_on 1 0 fs \<and>
    slot_result fs 0 = Some (Inl Closed) \<and> fs_by_uri fs = []"
  by (simp add: lost_wakeup_schedule_def schedule_defs outcome_response_def stranded_on_def of_call_def)

lemma dropped_resolver_run:
  "\<exists>tr fs. fetch_run None (dropped_resolver_schedule lk) (fetch_service_new s) = (tr, fs) \<and> stranded_on 1 0 fs \<and>
    fs_by_uri fs = [(''u'', Resolving 0)] \<and> (\<forall>c. of_call call_owner fs c = None) \<and> slot_result fs 0 = None"
  by (simp add: dropped_resolver_schedule_def schedule_defs stranded_on_def of_call_def)

lemma sink_opens:
  assumes "\<not> contains_transaction (ss_sender (co_state (xs_transfer s))) tx" "tot \<noteq> 0"
  obtains s' where "xs_open_binary_sink tot None tx now s = (Inr tx, s')"
    "contains_transaction (ss_sender (co_state (xs_transfer s'))) tx"
  using assms by (auto simp: xs_open_binary_sink_def open_binary_sink_def open_transaction_def contains_transaction_def Let_def)

lemma early_end_run:
  assumes "\<not> contains_transaction (ss_sender (co_state (xs_transfer s))) tx"
  shows "\<exists>tr fs. fetch_run None (early_end_schedule lk tx) (fetch_service_new s) = (tr, fs) \<and> Terminal_Skipped 0 \<in> set tr \<and>
    Answer 1 (Inr acknowledge) \<in> set tr \<and> fs_calls fs = [] \<and> fs_by_uri fs = [] \<and> fs_by_txid fs = [] \<and>
    contains_transaction (ss_sender (co_state (xs_transfer (fs_session fs)))) tx \<and> known_ids fs = {tx}"
proof -
  obtain s' where s': "xs_open_binary_sink 3 None tx 1 s = (Inr tx, s')" "contains_transaction (ss_sender (co_state (xs_transfer s'))) tx"
    by (rule sink_opens [OF assms, of 3]) auto
  obtain r eff co where w: "sink_write (xs_transfer s') lk tx [1, 2, 3] 2 = (r, eff, co)"
    by (metis surj_pair)
  then have "contains_transaction (ss_sender (co_state co)) tx"
    using s'(2) sink_write_core [of "xs_transfer s'" lk tx "[1, 2, 3]" 2] by (auto simp: contains_after set_sender_simps)
  moreover have "parse_transaction_id (format_transaction_id tx) = Inr tx"
    by (simp add: parse_transaction_id_iff)
  ultimately show ?thesis
    using s' w by (simp add: early_end_schedule_def schedule_defs sample_resource_def known_ids_def)
qed

lemma dropped_begin_run:
  assumes "\<not> contains_transaction (ss_sender (co_state (xs_transfer s))) tx"
  shows "\<exists>tr fs. fetch_run None (dropped_begin_schedule lk tx) (fetch_service_new s) = (tr, fs) \<and> Answer 2 (Inr acknowledge) \<in> set tr \<and>
    fs_calls fs = [] \<and> hm_get (fs_by_txid fs) tx = Some 0 \<and> over 0 fs = 1 \<and> known_ids fs = {tx}"
proof -
  obtain s' where s': "xs_open_binary_sink 3 None tx 1 s = (Inr tx, s')"
    by (rule sink_opens [OF assms, of 3]) auto
  moreover have "parse_transaction_id (format_transaction_id tx) = Inr tx"
    by (simp add: parse_transaction_id_iff)
  ultimately show ?thesis
    by (simp add: dropped_begin_schedule_def schedule_defs sample_resource_def known_ids_def over_def is_over_def spawning_def of_call_def)
qed

section \<open>Properties\<close>

text \<open>
  C13. One resolution per entry. In every run of a fetch service, whatever the interleaving of its
  handlers and tasks and whichever handlers are dropped on the way: the tables are consistent (a uri is ready
  exactly when its serving is listed under its transaction, a handler that resolves has its placeholder, no
  placeholder has two, a serving has a task only behind the gate), and the provider was asked to resolve a
  uri once for each time its entry was freed (by a failed resolution or an eviction), plus once if the uri
  has an entry now. In a run in which no handler is dropped, every placeholder has its handler.
\<close>

theorem fetch_resolves_once:
  assumes "fetch_run inner ops (fetch_service_new s) = (tr, fs)" "distinct (new_ids ops)"
  shows "fetch_inv fs \<and>
    count_of (\<lambda>e. e = Resolve_Called uri) tr = count_of (frees_uri uri) tr + of_bool (hm_contains (fs_by_uri fs) uri) \<and>
    ((\<forall>c. F_Drop c \<notin> set ops) \<longrightarrow> placeholders_owned fs)"
proof -
  have "placeholders_owned fs" if "\<forall>c. F_Drop c \<notin> set ops"
    by (rule owned_run [OF assms(1) trace_inv_new])
      (use that assms(2) in \<open>simp_all add: placeholders_owned_def fetch_service_new_def known_ids_def\<close>)
  then show ?thesis
    using run_trace_inv [OF assms] by (simp add: trace_inv_def occupied_def)
qed

theorem fetch_resolves_once_witness:
  "(\<exists>tr fs. fetch_run None (dropped_resolver_schedule link_up) (fetch_service_new (xsession_new None 0)) = (tr, fs) \<and> fetch_inv fs \<and>
      count_of (\<lambda>e. e = Resolve_Called ''u'') tr = count_of (frees_uri ''u'') tr + 1) \<and>
    (\<exists>tr fs. fetch_run None (lost_wakeup_schedule link_up) (fetch_service_new (xsession_new None 0)) = (tr, fs) \<and> fetch_inv fs \<and>
      count_of (\<lambda>e. e = Resolve_Called ''u'') tr = count_of (frees_uri ''u'') tr \<and> placeholders_owned fs)"
proof -
  obtain tr fs where r: "fetch_run None (dropped_resolver_schedule link_up) (fetch_service_new (xsession_new None 0)) = (tr, fs)"
      "fs_by_uri fs = [(''u'', Resolving 0)]"
    using dropped_resolver_run by blast
  obtain tr' fs' where r': "fetch_run None (lost_wakeup_schedule link_up) (fetch_service_new (xsession_new None 0)) = (tr', fs')" "fs_by_uri fs' = []"
    using lost_wakeup_run by blast
  have ids: "distinct (new_ids (dropped_resolver_schedule link_up))" "distinct (new_ids (lost_wakeup_schedule link_up))"
    by (simp_all add: dropped_resolver_schedule_def lost_wakeup_schedule_def)
  have kept: "F_Drop c \<notin> set (lost_wakeup_schedule link_up)" for c
    by (simp add: lost_wakeup_schedule_def)
  show ?thesis
    using fetch_resolves_once [OF r(1) ids(1), of "''u''"] fetch_resolves_once [OF r'(1) ids(2), of "''u''"] r r' kept
    by (simp add: hm_contains_def hm_get_def)
qed

text \<open>
  C12. The begin gate and the forced lifetime. In every run: a serving is started at most once, the
  provider's writes and the flow control of a serving come after its start and before its end, and a serving is
  ended at most once, by finishing it, aborting it, or by skipping both. It has ended once its task is
  over. A step skips both only while the handler of some command still holds a reference to the serving.
\<close>

theorem serving_lifetime:
  assumes "fetch_run inner ops (fetch_service_new s) = (tr, fs)" "distinct (new_ids ops)"
  shows "count_of (\<lambda>e. e = Serve_Started i) tr \<le> 1 \<and> count_of (ends_serving i) tr \<le> 1 \<and>
    (\<forall>xs e ys. tr = xs @ e # ys \<and> provider_act e = Some i \<longrightarrow> Serve_Started i \<in> set xs \<and> count_of (ends_serving i) xs = 0) \<and>
    (hm_get (fs_tasks fs) i = Some Serving_Over \<longrightarrow> count_of (ends_serving i) tr = 1) \<and>
    (\<forall>op eff fs'. fetch_step inner op fs = (eff, fs') \<and> Terminal_Skipped i \<in> set eff \<longrightarrow> held_by_call fs i)"
proof -
  note t = run_trace_inv [OF assms]
  have inv: "fetch_inv fs" and started: "count_of (\<lambda>e. e = Serve_Started i) tr = spawned i fs"
      and ends: "count_of (ends_serving i) tr \<le> over i fs" "hm_contains (fs_tasks fs) i \<Longrightarrow> count_of (ends_serving i) tr = over i fs"
      and gate: "gated_from [] tr"
    using t by (simp_all add: trace_inv_def)
  have "count_of (ends_serving i) tr = 1" if "hm_get (fs_tasks fs) i = Some Serving_Over"
    using fetch_invD(8) [OF inv that] that ends(2) by (simp add: over_def is_over_def hm_contains_def)
  moreover have "Serve_Started i \<in> set xs \<and> count_of (ends_serving i) xs = 0"
    if "tr = xs @ e # ys" "provider_act e = Some i" for xs e ys
    using gated_split [of xs e ys] gate that by (simp add: in_order_def)
  moreover have "held_by_call fs i" if "fetch_step inner op fs = (eff, fs')" "Terminal_Skipped i \<in> set eff" for op eff fs'
    using tracks_step [OF inv that(1)] that(2) by (auto simp: tracks_def)
  moreover have "spawned i fs \<le> 1" "count_of (ends_serving i) tr \<le> 1"
    using order_trans [OF ends(1), of 1] by (simp_all add: spawned_def over_def)
  ultimately show ?thesis
    unfolding started by blast
qed

text \<open>
  A terminal operation is lost. The serving task runs on its own while the handler of \<open>fetch_begin\<close>
  still holds its reference. If the task ends first, it neither finishes nor aborts the sink: the command
  is acknowledged, the tables are empty, the sender still holds the transaction, and no continuation of
  the run ever ends it.
\<close>

theorem serving_terminal_skipped:
  assumes "\<not> contains_transaction (ss_sender (co_state (xs_transfer s))) tx"
  shows "\<exists>tr fs. fetch_run None (early_end_schedule lk tx) (fetch_service_new s) = (tr, fs) \<and>
    Answer 1 (Inr acknowledge) \<in> set tr \<and> fs_calls fs = [] \<and> fs_by_txid fs = [] \<and>
    contains_transaction (ss_sender (co_state (xs_transfer (fs_session fs)))) tx \<and>
    (\<forall>ops tr' fs' eff. fetch_run None ops fs = (tr', fs') \<longrightarrow> distinct (tx # new_ids ops) \<longrightarrow>
      Sink_Finished 0 eff \<notin> set (tr @ tr') \<and> Sink_Aborted 0 eff \<notin> set (tr @ tr'))"
proof -
  obtain tr fs where r: "fetch_run None (early_end_schedule lk tx) (fetch_service_new s) = (tr, fs)" "Terminal_Skipped 0 \<in> set tr"
      "Answer 1 (Inr acknowledge) \<in> set tr" "fs_calls fs = []" "fs_by_txid fs = []"
      "contains_transaction (ss_sender (co_state (xs_transfer (fs_session fs)))) tx" "known_ids fs = {tx}"
    using early_end_run [OF assms] by blast
  have t: "trace_inv tr fs"
    by (rule run_trace_inv [OF r(1)]) (simp add: early_end_schedule_def)
  have "Sink_Finished 0 eff \<notin> set (tr @ tr') \<and> Sink_Aborted 0 eff \<notin> set (tr @ tr')"
    if c: "fetch_run None ops fs = (tr', fs')" "distinct (tx # new_ids ops)" for ops tr' fs' eff
  proof -
    have "trace_inv (tr @ tr') fs'"
      using trace_inv_run [OF c(1) t] c(2) r(7) by simp
    then have "count_of (ends_serving 0) (tr @ tr') \<le> 1"
      unfolding trace_inv_def over_def by (metis of_bool_less_eq_one order_trans)
    then show ?thesis
      using r(2) two_ends [of "Terminal_Skipped 0" "tr @ tr'" "Sink_Finished 0 eff" "ends_serving 0"]
        two_ends [of "Terminal_Skipped 0" "tr @ tr'" "Sink_Aborted 0 eff" "ends_serving 0"]
      by auto
  qed
  then show ?thesis
    using r by blast
qed

theorem serving_terminal_skipped_witness:
  "\<exists>tr fs. fetch_run None (early_end_schedule link_up 7) (fetch_service_new (xsession_new None 0)) = (tr, fs) \<and>
    contains_transaction (ss_sender (co_state (xs_transfer (fs_session fs)))) 7"
proof -
  have "\<not> contains_transaction (ss_sender (co_state (xs_transfer (xsession_new None 0)))) 7"
    by (simp add: xsession_new_def session_new_def sender_new_def contains_transaction_def)
  from serving_terminal_skipped [OF this] show ?thesis
    by blast
qed

theorem serving_lifetime_witness:
  "\<exists>tr fs. fetch_run None (early_end_schedule link_up 7) (fetch_service_new (xsession_new None 0)) = (tr, fs) \<and>
    count_of (ends_serving 0) tr \<le> 1 \<and> Terminal_Skipped 0 \<in> set tr"
proof -
  have "\<not> contains_transaction (ss_sender (co_state (xs_transfer (xsession_new None 0)))) 7"
    by (simp add: xsession_new_def session_new_def sender_new_def contains_transaction_def)
  then obtain tr fs where r: "fetch_run None (early_end_schedule link_up 7) (fetch_service_new (xsession_new None 0)) = (tr, fs)" "Terminal_Skipped 0 \<in> set tr"
    using early_end_run by blast
  have "distinct (new_ids (early_end_schedule link_up 7))"
    by (simp add: early_end_schedule_def)
  from serving_lifetime [OF r(1) this, of 0] show ?thesis
    using r by blast
qed

text \<open>
  A wakeup is lost. A fetch that waits for another one's resolution looks at the slot and subscribes
  afterwards; when the resolver fills the slot and notifies in between, the waiter parks with the result
  in place, and in no continuation of the run is it ever answered, unless it is dropped.
\<close>

theorem fetch_waiter_stranded:
  "\<exists>tr fs. fetch_run None (lost_wakeup_schedule lk) (fetch_service_new s) = (tr, fs) \<and>
    hm_get (fs_calls fs) 1 = Some (Fetch_Parked 0) \<and> slot_result fs 0 = Some (Inl Closed) \<and>
    (\<forall>inner ops r. F_Drop 1 \<notin> set ops \<longrightarrow> Answer 1 r \<notin> set (fst (fetch_run inner ops fs)) \<and>
      hm_get (fs_calls (snd (fetch_run inner ops fs))) 1 = Some (Fetch_Parked 0))"
proof -
  obtain tr fs where r: "fetch_run None (lost_wakeup_schedule lk) (fetch_service_new s) = (tr, fs)" "stranded_on 1 0 fs"
      "slot_result fs 0 = Some (Inl Closed)"
    using lost_wakeup_run by blast
  have "Answer 1 x \<notin> set (fst (fetch_run inner ops fs)) \<and>
      hm_get (fs_calls (snd (fetch_run inner ops fs))) 1 = Some (Fetch_Parked 0)" if "F_Drop 1 \<notin> set ops" for inner ops x
    using stranded_run [OF r(2) prod.collapse [symmetric] that, of inner x] by (simp add: stranded_on_def)
  then show ?thesis
    using r by (auto simp: stranded_on_def)
qed

text \<open>
  A placeholder is orphaned. When the handler that resolves a uri is dropped, its placeholder stays: no
  handler owns it, its slot is empty, and a fetch of the same uri that comes later waits on it and is never
  answered in any continuation of the run, unless it is dropped too.
\<close>

theorem dropped_resolver_strands:
  "\<exists>tr fs. fetch_run None (dropped_resolver_schedule lk) (fetch_service_new s) = (tr, fs) \<and>
    hm_get (fs_by_uri fs) ''u'' = Some (Resolving 0) \<and> \<not> placeholders_owned fs \<and> slot_result fs 0 = None \<and>
    (\<forall>inner ops r. F_Drop 1 \<notin> set ops \<longrightarrow> Answer 1 r \<notin> set (fst (fetch_run inner ops fs)))"
proof -
  obtain tr fs where r: "fetch_run None (dropped_resolver_schedule lk) (fetch_service_new s) = (tr, fs)" "stranded_on 1 0 fs"
      "fs_by_uri fs = [(''u'', Resolving 0)]" "\<forall>c. of_call call_owner fs c = None" "slot_result fs 0 = None"
    using dropped_resolver_run by blast
  have u: "hm_get (fs_by_uri fs) ''u'' = Some (Resolving 0)"
    by (simp add: r(3) hm_get_def)
  then have "\<not> placeholders_owned fs"
    using r(4) by (fastforce simp: placeholders_owned_def)
  moreover have "Answer 1 x \<notin> set (fst (fetch_run inner ops fs))" if "F_Drop 1 \<notin> set ops" for inner ops x
    using stranded_run [OF r(2) prod.collapse [symmetric] that, of inner x] by simp
  ultimately show ?thesis
    using r(1,5) u by blast
qed

text \<open>
  A begun serving is never started. When the handler of a begin is dropped between the gate and the
  spawn, every later begin is acknowledged as already begun, and no continuation of the run starts the serving.
\<close>

theorem dropped_begin_unserved:
  assumes "\<not> contains_transaction (ss_sender (co_state (xs_transfer s))) tx"
  shows "\<exists>tr fs. fetch_run None (dropped_begin_schedule lk tx) (fetch_service_new s) = (tr, fs) \<and>
    Answer 2 (Inr acknowledge) \<in> set tr \<and> fs_calls fs = [] \<and> hm_get (fs_by_txid fs) tx = Some 0 \<and>
    (\<forall>ops. distinct (tx # new_ids ops) \<longrightarrow> Serve_Started 0 \<notin> set (fst (fetch_run None ops fs)))"
proof -
  obtain tr fs where r: "fetch_run None (dropped_begin_schedule lk tx) (fetch_service_new s) = (tr, fs)" "Answer 2 (Inr acknowledge) \<in> set tr"
      "fs_calls fs = []" "hm_get (fs_by_txid fs) tx = Some 0" "over 0 fs = 1" "known_ids fs = {tx}"
    using dropped_begin_run [OF assms] by blast
  have "trace_inv tr fs"
    by (rule run_trace_inv [OF r(1)]) (simp add: dropped_begin_schedule_def)
  then have "Serve_Started 0 \<notin> set (fst (fetch_run None ops fs))" if "distinct (tx # new_ids ops)" for ops
    using never_started [OF prod.collapse [symmetric] _ r(5)] that r(6) by simp
  then show ?thesis
    using r by blast
qed

end
