(* ===== verification/Fetch_Puller.thy ===== *)
theory Fetch_Puller
  imports Xacpp_Session "HOL-Library.Multiset"
begin

text \<open>
  The requester of the fetch extension, \<open>src/src/ext/fetch.rs\<close>: \<open>FetchPuller\<close>, which routes arriving
  streams to waiting pulls, the companion functions, and the canned providers.

  Pulls run concurrently: a pull is a call that advances when a reply or its stream arrives, and that its
  caller may drop at any time. The numbers of pulls are given in order, so that the flag and the one-shot
  channel of a pull are found under its number. \<open>sha\<close> is the hexadecimal SHA-256 digest of the sha2 crate.
\<close>

section \<open>Errors\<close>

datatype fetch_error =
    Refused string string
  | Transport xacpp_error
  | IntegrityMismatch string string nat
  | DuplicateTxid
  | Incomplete_Transfer nat u32

fun fetch_error_text :: "fetch_error \<Rightarrow> string" where
  "fetch_error_text (Refused code message) = ''['' @ code @ ''] '' @ message"
| "fetch_error_text (Transport e) = ''transport error: '' @ xacpp_error_text e"
| "fetch_error_text (IntegrityMismatch expected actual received) =
    ''integrity mismatch: expected sha256 '' @ expected @ '', got '' @ actual @ '' ('' @ show_nat received @ '' bytes received)''"
| "fetch_error_text DuplicateTxid = ''duplicate fetch transaction id''"
| "fetch_error_text (Incomplete_Transfer received expected) =
    ''incomplete transfer: '' @ show_nat received @ '' of '' @ show_nat (unat expected) @ '' bytes received''"

fun map_fetch_err :: "xacpp_error \<Rightarrow> fetch_error" where
  "map_fetch_err (Application code message) = Refused code message"
| "map_fetch_err other = Transport other"

fun expect_ack :: "(xacpp_response \<Rightarrow> string) \<Rightarrow> xacpp_response \<Rightarrow> string \<Rightarrow> fetch_error + unit" where
  "expect_ack dbg (Generic_Resp nm data) what = Inr ()"
| "expect_ack dbg (Error_Resp code message) what = Inl (Refused code message)"
| "expect_ack dbg other what = Inl (Refused FETCH_REFUSED (''unexpected '' @ what @ '' response: '' @ dbg other))"

section \<open>The puller\<close>

text \<open>A stream is its transaction id and its object; a pull is before its metadata, before its acknowledged begin, or waiting.\<close>

type_synonym stream_ref = "txid \<times> nat"

datatype pull_phase =
    Pull_Fetching string
  | Pull_Beginning fetch_ready_meta
  | Pull_Awaiting fetch_ready_meta

record fetch_puller =
  fp_pending :: "(txid, nat) hash_map"
  fp_dead :: "nat list"
  fp_calls :: "(nat, pull_phase) hash_map"
  fp_boxes :: "(nat, stream_ref) hash_map"
  fp_spawned :: "stream_ref list"
  fp_next :: nat

definition fetch_puller_new :: fetch_puller where
  "fetch_puller_new = \<lparr>fp_pending = [], fp_dead = [], fp_calls = [], fp_boxes = [], fp_spawned = [], fp_next = 0\<rparr>"

datatype pull_effect =
    Pull_Returned nat "fetch_error + stream_ref \<times> fetch_ready_meta"
  | Stream_Arrived stream_ref
  | Stream_Dropped stream_ref

definition start_pull :: "string \<Rightarrow> fetch_puller \<Rightarrow> pull_effect list \<times> fetch_puller" where
  "start_pull uri fp = ([], fp\<lparr>fp_calls := hm_put (fp_next fp) (Pull_Fetching uri) (fp_calls fp), fp_next := fp_next fp + 1\<rparr>)"

text \<open>
  The end of a pull. Once registered, its guard marks the entry dead unless disarmed; the channel goes
  with the call, and with it a stream in it.
\<close>

definition box_content :: "nat \<Rightarrow> fetch_puller \<Rightarrow> stream_ref list" where
  "box_content c fp = (case hm_get (fp_boxes fp) c of Some st \<Rightarrow> [st] | None \<Rightarrow> [])"

definition end_pull :: "nat \<Rightarrow> bool \<Rightarrow> fetch_puller \<Rightarrow> fetch_puller" where
  "end_pull c guarded fp =
    fp\<lparr>fp_calls := hm_del c (fp_calls fp), fp_boxes := hm_del c (fp_boxes fp),
       fp_dead := (if guarded then c # fp_dead fp else fp_dead fp)\<rparr>"

definition fail_pull :: "nat \<Rightarrow> fetch_error \<Rightarrow> fetch_puller \<Rightarrow> pull_effect list \<times> fetch_puller" where
  "fail_pull c e fp = (map Stream_Dropped (box_content c fp) @ [Pull_Returned c (Inl e)], end_pull c True fp)"

text \<open>The metadata arrived: sweep dead entries, refuse a second pull of the transaction, register.\<close>

definition pull_fetched :: "nat \<Rightarrow> xacpp_error + fetch_ready_meta \<Rightarrow> fetch_puller \<Rightarrow> pull_effect list \<times> fetch_puller" where
  "pull_fetched c res fp =
    (case hm_get (fp_calls fp) c of
       Some (Pull_Fetching uri) \<Rightarrow>
         (case res of
            Inl e \<Rightarrow> ([Pull_Returned c (Inl (map_fetch_err e))], end_pull c False fp)
          | Inr meta \<Rightarrow>
            (let live = filter (\<lambda>(tx, d). d \<notin> set (fp_dead fp)) (fp_pending fp)
             in if hm_contains live (fm_txid meta)
                then ([Pull_Returned c (Inl DuplicateTxid)], (end_pull c False fp)\<lparr>fp_pending := live\<rparr>)
                else ([], fp\<lparr>fp_pending := hm_put (fm_txid meta) c live,
                             fp_calls := hm_put c (Pull_Beginning meta) (fp_calls fp)\<rparr>)))
     | _ \<Rightarrow> ([], fp))"

definition pull_begun ::
  "(xacpp_response \<Rightarrow> string) \<Rightarrow> nat \<Rightarrow> xacpp_error + xacpp_response \<Rightarrow> fetch_puller \<Rightarrow> pull_effect list \<times> fetch_puller" where
  "pull_begun dbg c reply fp =
    (case hm_get (fp_calls fp) c of
       Some (Pull_Beginning meta) \<Rightarrow>
         (case reply of
            Inl e \<Rightarrow> fail_pull c (Transport e) fp
          | Inr resp \<Rightarrow>
            (case expect_ack dbg resp ''fetch_begin'' of
               Inl e \<Rightarrow> fail_pull c e fp
             | Inr _ \<Rightarrow> ([], fp\<lparr>fp_calls := hm_put c (Pull_Awaiting meta) (fp_calls fp)\<rparr>)))
     | _ \<Rightarrow> ([], fp))"

text \<open>\<open>rx.await\<close>: the stream, a wait while the sender is in the table, or a closed channel.\<close>

definition pull_receive :: "nat \<Rightarrow> fetch_puller \<Rightarrow> pull_effect list \<times> fetch_puller" where
  "pull_receive c fp =
    (case hm_get (fp_calls fp) c of
       Some (Pull_Awaiting meta) \<Rightarrow>
         (case hm_get (fp_boxes fp) c of
            Some st \<Rightarrow> ([Pull_Returned c (Inr (st, meta))], end_pull c False fp)
          | None \<Rightarrow>
            (if c \<in> set (map snd (fp_pending fp)) then ([], fp) else fail_pull c (Transport Closed) fp))
     | _ \<Rightarrow> ([], fp))"

definition drop_pull :: "nat \<Rightarrow> fetch_puller \<Rightarrow> pull_effect list \<times> fetch_puller" where
  "drop_pull c fp =
    (case hm_get (fp_calls fp) c of
       None \<Rightarrow> ([], fp)
     | Some (Pull_Fetching uri) \<Rightarrow> ([], end_pull c False fp)
     | Some _ \<Rightarrow> (map Stream_Dropped (box_content c fp), end_pull c True fp))"

text \<open>The stream handler spawns a task per stream; the task takes the entry of its transaction.\<close>

definition dispatch_stream :: "stream_ref \<Rightarrow> fetch_puller \<Rightarrow> pull_effect list \<times> fetch_puller" where
  "dispatch_stream st fp = ([Stream_Arrived st], fp\<lparr>fp_spawned := fp_spawned fp @ [st]\<rparr>)"

definition deliver_stream :: "nat \<Rightarrow> fetch_puller \<Rightarrow> pull_effect list \<times> fetch_puller" where
  "deliver_stream k fp =
    (if k < length (fp_spawned fp) then
       let st = fp_spawned fp ! k;
           fp1 = fp\<lparr>fp_spawned := take k (fp_spawned fp) @ drop (Suc k) (fp_spawned fp),
                    fp_pending := hm_del (fst st) (fp_pending fp)\<rparr>
       in case hm_get (fp_pending fp) (fst st) of
            Some c \<Rightarrow>
              (if c \<in> set (fp_dead fp) \<or> \<not> hm_contains (fp_calls fp) c then ([Stream_Dropped st], fp1)
               else ([], fp1\<lparr>fp_boxes := hm_put c st (fp_boxes fp1)\<rparr>))
          | None \<Rightarrow> ([Stream_Dropped st], fp1)
     else ([], fp))"

datatype pull_op =
    U_Pull string
  | U_Fetched nat "xacpp_error + fetch_ready_meta"
  | U_Begun nat "xacpp_error + xacpp_response"
  | U_Receive nat
  | U_Drop nat
  | U_Stream stream_ref
  | U_Deliver nat

fun pull_step :: "(xacpp_response \<Rightarrow> string) \<Rightarrow> pull_op \<Rightarrow> fetch_puller \<Rightarrow> pull_effect list \<times> fetch_puller" where
  "pull_step dbg (U_Pull uri) fp = start_pull uri fp"
| "pull_step dbg (U_Fetched c res) fp = pull_fetched c res fp"
| "pull_step dbg (U_Begun c reply) fp = pull_begun dbg c reply fp"
| "pull_step dbg (U_Receive c) fp = pull_receive c fp"
| "pull_step dbg (U_Drop c) fp = drop_pull c fp"
| "pull_step dbg (U_Stream st) fp = dispatch_stream st fp"
| "pull_step dbg (U_Deliver k) fp = deliver_stream k fp"

section \<open>Reading a pulled stream\<close>

definition verify :: "fetch_ready_meta \<Rightarrow> string \<Rightarrow> fetch_error + unit" where
  "verify meta actual = (if fm_sha256 meta = actual then Inr () else Inl (IntegrityMismatch (fm_sha256 meta) actual 0))"

text \<open>The read loop; \<open>ReadPending\<close> is a loop that still waits for chunks.\<close>

function read_all :: "byte list \<Rightarrow> nat \<Rightarrow> stream_inner \<Rightarrow> byte list \<times> nat \<times> read_poll" where
  "read_all collected received si =
    (case stream_read si of
       (ReadChunk ch, si') \<Rightarrow> read_all (collected @ ch_bytes ch) (received + length (ch_bytes ch)) si'
     | (r, si') \<Rightarrow> (collected, received, r))"
  by pat_completeness auto
termination
  by (relation "measure (\<lambda>(_, _, si). length (si_chunks si))") (auto simp: stream_read_def split: list.splits if_splits)

declare read_all.simps [simp del]

definition pull_to_vec ::
  "(byte list \<Rightarrow> string) \<Rightarrow> fetch_ready_meta \<Rightarrow> stream_inner \<Rightarrow> (fetch_error + byte list \<times> fetch_ready_meta) option" where
  "pull_to_vec sha meta si =
    (let (collected, received, r) = read_all [] 0 si
     in if r = ReadPending then None
        else Some (case incomplete_detail_of si of
            Some d \<Rightarrow> Inl (Incomplete_Transfer (id_received d) (id_expected d))
          | None \<Rightarrow>
            (if stream_state_of si \<noteq> Complete then Inl (Incomplete_Transfer received (of_nat (fm_size_bytes meta)))
             else case verify meta (sha collected) of
                 Inl (IntegrityMismatch expected actual _) \<Rightarrow> Inl (IntegrityMismatch expected actual received)
               | Inl e \<Rightarrow> Inl e
               | Inr _ \<Rightarrow> Inr (collected, meta))))"

section \<open>Companion commands\<close>

definition fetch_companion ::
  "(xacpp_response \<Rightarrow> string) \<Rightarrow> send_fn \<Rightarrow> xacpp_session \<Rightarrow> xacpp_command \<Rightarrow> string \<Rightarrow> fetch_error + unit" where
  "fetch_companion dbg send s cmd what =
    and_then (map_err Transport (request_command send s cmd)) (\<lambda>resp. expect_ack dbg resp what)"

definition fetch_pause :: "(xacpp_response \<Rightarrow> string) \<Rightarrow> send_fn \<Rightarrow> xacpp_session \<Rightarrow> txid \<Rightarrow> fetch_error + unit" where
  "fetch_pause dbg send s tx = fetch_companion dbg send s (FetchPause (format_transaction_id tx)) ''fetch_pause''"

definition fetch_resume :: "(xacpp_response \<Rightarrow> string) \<Rightarrow> send_fn \<Rightarrow> xacpp_session \<Rightarrow> txid \<Rightarrow> fetch_error + unit" where
  "fetch_resume dbg send s tx = fetch_companion dbg send s (FetchResume (format_transaction_id tx)) ''fetch_resume''"

text \<open>The outcome of an abort is logged and never surfaces.\<close>

definition fetch_abort_outcome :: "(xacpp_response \<Rightarrow> string) \<Rightarrow> send_fn \<Rightarrow> xacpp_session \<Rightarrow> txid \<Rightarrow> fetch_error + unit" where
  "fetch_abort_outcome dbg send s tx = fetch_companion dbg send s (FetchAbort (format_transaction_id tx)) ''fetch_abort''"

section \<open>The invariant of the puller\<close>

fun registered :: "pull_phase \<Rightarrow> fetch_ready_meta option" where
  "registered (Pull_Fetching uri) = None"
| "registered (Pull_Beginning m) = Some m"
| "registered (Pull_Awaiting m) = Some m"

definition pull_of :: "fetch_puller \<Rightarrow> nat \<Rightarrow> fetch_ready_meta option" where
  "pull_of fp c = Option.bind (hm_get (fp_calls fp) c) registered"

text \<open>
  An entry belongs to a dead pull or to a waiting one of that transaction; a registered pull has its
  stream or its entry, and only registered pulls have streams.
\<close>

definition puller_inv :: "fetch_puller \<Rightarrow> bool" where
  "puller_inv fp \<longleftrightarrow>
    hm_inv (fp_pending fp) \<and> hm_inv (fp_calls fp) \<and> hm_inv (fp_boxes fp) \<and>
    (\<forall>c \<in> set (fp_dead fp). c < fp_next fp \<and> hm_get (fp_calls fp) c = None) \<and>
    (\<forall>c. hm_contains (fp_calls fp) c \<longrightarrow> c < fp_next fp) \<and>
    (\<forall>tx c. hm_get (fp_pending fp) tx = Some c \<longrightarrow>
      c \<in> set (fp_dead fp) \<or> (\<exists>m. pull_of fp c = Some m \<and> fm_txid m = tx \<and> hm_get (fp_boxes fp) c = None)) \<and>
    (\<forall>c m. pull_of fp c = Some m \<longrightarrow> hm_get (fp_boxes fp) c = None \<longrightarrow> hm_get (fp_pending fp) (fm_txid m) = Some c) \<and>
    (\<forall>c m st. pull_of fp c = Some m \<longrightarrow> hm_get (fp_boxes fp) c = Some st \<longrightarrow> fst st = fm_txid m) \<and>
    (\<forall>c st. hm_get (fp_boxes fp) c = Some st \<longrightarrow> pull_of fp c \<noteq> None)"

lemma puller_invD:
  assumes "puller_inv fp"
  shows "hm_inv (fp_pending fp)" "hm_inv (fp_calls fp)" "hm_inv (fp_boxes fp)"
    and "c \<in> set (fp_dead fp) \<Longrightarrow> c < fp_next fp \<and> hm_get (fp_calls fp) c = None"
    and "hm_get (fp_calls fp) c = Some ph \<Longrightarrow> c < fp_next fp"
    and "hm_get (fp_pending fp) tx = Some c \<Longrightarrow>
      c \<in> set (fp_dead fp) \<or> (\<exists>m. pull_of fp c = Some m \<and> fm_txid m = tx \<and> hm_get (fp_boxes fp) c = None)"
    and "pull_of fp c = Some m \<Longrightarrow> hm_get (fp_boxes fp) c = None \<Longrightarrow> hm_get (fp_pending fp) (fm_txid m) = Some c"
    and "pull_of fp c = Some m \<Longrightarrow> hm_get (fp_boxes fp) c = Some st \<Longrightarrow> fst st = fm_txid m"
    and "hm_get (fp_boxes fp) c = Some st \<Longrightarrow> \<exists>m. pull_of fp c = Some m"
  using assms unfolding puller_inv_def hm_contains_def by blast+

lemma puller_invI:
  assumes "hm_inv (fp_pending fp)" "hm_inv (fp_calls fp)" "hm_inv (fp_boxes fp)"
    and "\<And>c. c \<in> set (fp_dead fp) \<Longrightarrow> c < fp_next fp \<and> hm_get (fp_calls fp) c = None"
    and "\<And>c ph. hm_get (fp_calls fp) c = Some ph \<Longrightarrow> c < fp_next fp"
    and "\<And>tx c. hm_get (fp_pending fp) tx = Some c \<Longrightarrow>
      c \<in> set (fp_dead fp) \<or> (\<exists>m. pull_of fp c = Some m \<and> fm_txid m = tx \<and> hm_get (fp_boxes fp) c = None)"
    and "\<And>c m. pull_of fp c = Some m \<Longrightarrow> hm_get (fp_boxes fp) c = None \<Longrightarrow> hm_get (fp_pending fp) (fm_txid m) = Some c"
    and "\<And>c m st. pull_of fp c = Some m \<Longrightarrow> hm_get (fp_boxes fp) c = Some st \<Longrightarrow> fst st = fm_txid m"
    and "\<And>c st. hm_get (fp_boxes fp) c = Some st \<Longrightarrow> \<exists>m. pull_of fp c = Some m"
  shows "puller_inv fp"
  unfolding puller_inv_def hm_contains_def not_None_eq using assms by (intro conjI) blast+

lemma pull_of_simps [simp]:
  "pull_of (fp\<lparr>fp_calls := hm_put c ph (fp_calls fp')\<rparr>) d = (if d = c then registered ph else pull_of fp' d)"
  "pull_of (fp\<lparr>fp_calls := hm_del c (fp_calls fp')\<rparr>) d = (if d = c then None else pull_of fp' d)"
  "pull_of (fp\<lparr>fp_pending := pe\<rparr>) d = pull_of fp d"
  "pull_of (fp\<lparr>fp_dead := de\<rparr>) d = pull_of fp d"
  "pull_of (fp\<lparr>fp_boxes := bo\<rparr>) d = pull_of fp d"
  "pull_of (fp\<lparr>fp_spawned := sp\<rparr>) d = pull_of fp d"
  "pull_of (fp\<lparr>fp_next := n\<rparr>) d = pull_of fp d"
  by (auto simp: pull_of_def)

lemma hm_get_filter:
  assumes "hm_inv m"
  shows "hm_get (filter (\<lambda>(k, v). P v) m) k = (case hm_get m k of Some v \<Rightarrow> if P v then Some v else None | None \<Rightarrow> None)"
  using assms by (induction m) (auto simp: hm_get_def hm_inv_def map_of_eq_None_iff split: option.split)

lemma hm_inv_filter: "hm_inv m \<Longrightarrow> hm_inv (filter P m)"
  by (simp add: hm_inv_def distinct_map_filter)

lemma end_pull_inv:
  assumes "puller_inv fp" "hm_get (fp_calls fp) c = Some ph" "registered ph \<noteq> None \<longrightarrow> g \<or> hm_get (fp_boxes fp) c \<noteq> None"
  shows "puller_inv (end_pull c g fp)"
proof -
  note fp = puller_invD [OF assms(1)]
  have c: "pull_of fp c = registered ph" "c < fp_next fp"
    using assms(2) fp(5) by (simp_all add: pull_of_def)
  have no_entry: "hm_get (fp_pending fp) tx \<noteq> Some c" if "\<not> g" for tx
    using fp(4) [of c] fp(6) [of tx c] assms(2,3) c that by auto
  show ?thesis
    unfolding end_pull_def
    by (rule puller_invI) (use fp c assms(3) no_entry in \<open>auto split: if_splits\<close>)
qed

lemma fetched_inv:
  assumes "puller_inv fp"
  shows "puller_inv (snd (pull_fetched c res fp))"
proof (cases "\<exists>uri. hm_get (fp_calls fp) c = Some (Pull_Fetching uri)")
  case True
  then obtain uri where c: "hm_get (fp_calls fp) c = Some (Pull_Fetching uri)"
    by blast
  note fp = puller_invD [OF assms]
  define live where "live = filter (\<lambda>(tx, d). d \<notin> set (fp_dead fp)) (fp_pending fp)"
  have at: "pull_of fp c = None" "hm_get (fp_boxes fp) c = None" "c \<notin> set (fp_dead fp)"
    using c fp(4) [of c] fp(9) [of c] by (simp add: pull_of_def, cases "hm_get (fp_boxes fp) c", auto simp: pull_of_def)
  have live: "hm_get live tx = Some d \<longleftrightarrow> hm_get (fp_pending fp) tx = Some d \<and> d \<notin> set (fp_dead fp)" "hm_inv live" for tx d
    unfolding live_def by (auto simp: hm_get_filter [OF fp(1)] hm_inv_filter [OF fp(1)] split: option.split)
  have entry: "\<exists>m. pull_of fp d = Some m \<and> fm_txid m = tx \<and> hm_get (fp_boxes fp) d = None"
    if "hm_get (fp_pending fp) tx = Some d" "d \<notin> set (fp_dead fp)" for tx d
    using fp(6) [OF that(1)] that(2) by blast
  have no_entry: "hm_get (fp_pending fp) tx \<noteq> Some c" for tx
    using entry [of tx c] at by auto
  have kept: "d \<notin> set (fp_dead fp)" if "pull_of fp d = Some m" for d m
    using fp(4) [of d] that by (auto simp: pull_of_def)
  have "puller_inv ((end_pull c False fp)\<lparr>fp_pending := live\<rparr>)"
    unfolding end_pull_def
    by (rule puller_invI) (use fp entry no_entry at live kept in \<open>auto split: if_splits\<close>)
  moreover have "puller_inv (fp\<lparr>fp_pending := hm_put (fm_txid m) c live, fp_calls := hm_put c (Pull_Beginning m) (fp_calls fp)\<rparr>)"
    if "\<not> hm_contains live (fm_txid m)" for m
  proof -
    have "fm_txid ma \<noteq> fm_txid m" if "pull_of fp d = Some ma" "hm_get (fp_boxes fp) d = None" for d ma
      using fp(7) [OF that] kept [OF that(1)] live(1) [of "fm_txid ma" d] \<open>\<not> hm_contains live (fm_txid m)\<close>
      by (auto simp: hm_contains_def)
    then show ?thesis
      by (intro puller_invI) (use fp entry no_entry at live kept c in \<open>auto split: if_splits\<close>)
  qed
  ultimately show ?thesis
    using end_pull_inv [OF assms c, of False] c
    by (auto simp: pull_fetched_def Let_def live_def [symmetric] split: sum.split)
qed (use assms in \<open>auto simp: pull_fetched_def split: option.split pull_phase.split\<close>)


lemma fail_pull_inv:
  assumes "puller_inv fp" "hm_get (fp_calls fp) c = Some ph"
  shows "puller_inv (snd (fail_pull c e fp))"
  using end_pull_inv [OF assms] by (simp add: fail_pull_def)

lemma deliver_inv:
  assumes "puller_inv fp"
  shows "puller_inv (snd (deliver_stream k fp))"
proof -
  note fp = puller_invD [OF assms]
  have dropped: "puller_inv (fp\<lparr>fp_spawned := sp, fp_pending := hm_del tx (fp_pending fp)\<rparr>)"
    if "\<And>c. hm_get (fp_pending fp) tx = Some c \<Longrightarrow> pull_of fp c = None" for tx sp
  proof -
    have "fm_txid m \<noteq> tx" if "pull_of fp d = Some m" "hm_get (fp_boxes fp) d = None" for d m
      using fp(7) [OF that] \<open>\<And>c. hm_get (fp_pending fp) tx = Some c \<Longrightarrow> pull_of fp c = None\<close> [of d] that(1) by auto
    then show ?thesis
      by (intro puller_invI) (use fp in \<open>auto split: if_splits\<close>)
  qed
  have given: "puller_inv (fp\<lparr>fp_spawned := sp, fp_pending := hm_del (fst st) (fp_pending fp), fp_boxes := hm_put c st (fp_boxes fp)\<rparr>)"
    if c: "hm_get (fp_pending fp) (fst st) = Some c" "c \<notin> set (fp_dead fp)" for st c sp
  proof -
    obtain m where m: "pull_of fp c = Some m" "fm_txid m = fst st" "hm_get (fp_boxes fp) c = None"
      using fp(6) [OF c(1)] c(2) by blast
    have one: "tx = fst st" if "hm_get (fp_pending fp) tx = Some c" for tx
      using fp(6) [OF that] c(2) m by auto
    have entry: "tx \<noteq> fst st \<Longrightarrow> hm_get (fp_pending fp) tx = Some d \<Longrightarrow> d \<noteq> c" for tx d
      using one by blast
    have alive: "c \<in> set (fp_dead fp) = False"
      using c(2) by simp
    have unique: "d \<noteq> c \<Longrightarrow> pull_of fp d = Some m' \<Longrightarrow> hm_get (fp_boxes fp) d = None \<Longrightarrow> fm_txid m' \<noteq> fst st" for d m'
      using fp(7) [of d m'] c(1) by auto
    show ?thesis
    proof (rule puller_invI, goal_cases)
      case (6 tx d)
      then have "tx \<noteq> fst st" "hm_get (fp_pending fp) tx = Some d"
        by (auto split: if_splits)
      then show ?case
        using fp(6) [of tx d] entry [of tx d] by auto
    next
      case (7 d m')
      then have "d \<noteq> c" "pull_of fp d = Some m'" "hm_get (fp_boxes fp) d = None"
        by (auto split: if_splits)
      then show ?case
        using fp(7) [of d m'] unique [of d m'] by auto
    next
      case (8 d m' st')
      then show ?case
        using fp(8) [of d m' st'] m by (auto split: if_splits)
    next
      case (9 d st')
      then show ?case
        using fp(9) [of d st'] m by (auto split: if_splits)
    qed (use fp(1-5) in auto)
  qed
  have dead: "pull_of fp c = None" if "c \<in> set (fp_dead fp) \<or> \<not> hm_contains (fp_calls fp) c" for c
    using fp(4) [of c] that by (auto simp: pull_of_def hm_contains_def)
  show ?thesis
    by (auto simp: deliver_stream_def Let_def assms dead intro!: dropped given split: option.split)
qed

lemma pull_step_inv:
  assumes "puller_inv fp"
  shows "puller_inv (snd (pull_step dbg op fp))"
proof (cases op)
  case (U_Pull uri)
  have "hm_get (fp_calls fp) (fp_next fp) = None" "hm_get (fp_boxes fp) (fp_next fp) = None"
    using puller_invD(5) [OF assms, of "fp_next fp"] puller_invD(9) [OF assms, of "fp_next fp"]
    by (cases "hm_get (fp_calls fp) (fp_next fp)"; cases "hm_get (fp_boxes fp) (fp_next fp)"; auto simp: pull_of_def)+
  moreover have "c \<in> set (fp_dead fp) \<Longrightarrow> c \<noteq> fp_next fp" for c
    using puller_invD(4) [OF assms, of c] by auto
  moreover have "hm_get (fp_pending fp) tx \<noteq> Some (fp_next fp)" for tx
    using puller_invD(6) [OF assms, of tx "fp_next fp"] calculation by (auto simp: pull_of_def)
  ultimately have "puller_inv (fp\<lparr>fp_calls := hm_put (fp_next fp) (Pull_Fetching uri) (fp_calls fp), fp_next := fp_next fp + 1\<rparr>)"
    by (intro puller_invI) (use puller_invD [OF assms] in \<open>auto simp: less_Suc_eq pull_of_def split: if_splits\<close>)
  then show ?thesis
    using U_Pull by (simp add: start_pull_def)
next
  case (U_Begun c reply)
  have "puller_inv (fp\<lparr>fp_calls := hm_put c (Pull_Awaiting m) (fp_calls fp)\<rparr>)" if "hm_get (fp_calls fp) c = Some (Pull_Beginning m)" for m
  proof -
    have same: "pull_of (fp\<lparr>fp_calls := hm_put c (Pull_Awaiting m) (fp_calls fp)\<rparr>) d = pull_of fp d" for d
      using that by (simp add: pull_of_def)
    show ?thesis
      by (rule puller_invI, unfold same) (use puller_invD [OF assms] that in \<open>auto split: if_splits\<close>)
  qed
  then show ?thesis
    using U_Begun assms fail_pull_inv [OF assms]
    by (auto simp: pull_begun_def split: option.split pull_phase.split sum.split)
next
  case (U_Receive c)
  then show ?thesis
    using assms fail_pull_inv [OF assms] end_pull_inv [OF assms]
    by (auto simp: pull_receive_def split: option.split pull_phase.split)
next
  case (U_Drop c)
  then show ?thesis
    using assms end_pull_inv [OF assms] by (auto simp: drop_pull_def split: option.split pull_phase.split)
next
  case (U_Stream st)
  have "puller_inv (fp\<lparr>fp_spawned := sp\<rparr>)" for sp
    by (rule puller_invI) (use puller_invD [OF assms] in auto)
  then show ?thesis
    using U_Stream by (simp add: dispatch_stream_def)
qed (use assms in \<open>auto simp: fetched_inv deliver_inv\<close>)

section \<open>What a run of the puller keeps\<close>

fun pull_run :: "(xacpp_response \<Rightarrow> string) \<Rightarrow> pull_op list \<Rightarrow> fetch_puller \<Rightarrow> pull_effect list \<times> fetch_puller" where
  "pull_run dbg [] fp = ([], fp)"
| "pull_run dbg (op # ops) fp =
    (case pull_step dbg op fp of (eff, fp1) \<Rightarrow> case pull_run dbg ops fp1 of (eff', fp2) \<Rightarrow> (eff @ eff', fp2))"

fun arrival :: "pull_effect \<Rightarrow> stream_ref option" where
  "arrival (Stream_Arrived st) = Some st"
| "arrival _ = None"

fun departure :: "pull_effect \<Rightarrow> stream_ref option" where
  "departure (Pull_Returned c (Inr (st, m))) = Some st"
| "departure (Stream_Dropped st) = Some st"
| "departure _ = None"

fun return_of :: "pull_effect \<Rightarrow> nat option" where
  "return_of (Pull_Returned c r) = Some c"
| "return_of _ = None"

definition streams_in :: "pull_effect list \<Rightarrow> stream_ref multiset" where
  "streams_in tr = mset (List.map_filter arrival tr)"

definition streams_out :: "pull_effect list \<Rightarrow> stream_ref multiset" where
  "streams_out tr = mset (List.map_filter departure tr)"

definition returns_of :: "nat \<Rightarrow> pull_effect list \<Rightarrow> nat" where
  "returns_of c tr = length (filter (\<lambda>e. return_of e = Some c) tr)"

text \<open>The streams the puller holds: in delivery tasks and in channels.\<close>

definition streams_held :: "fetch_puller \<Rightarrow> stream_ref multiset" where
  "streams_held fp = mset (fp_spawned fp) + mset (map snd (fp_boxes fp))"

lemma trace_simps [simp]:
  "streams_in [] = {#}" "streams_out [] = {#}" "returns_of c [] = 0"
  "streams_in (e # tr) = (case arrival e of Some st \<Rightarrow> {#st#} | None \<Rightarrow> {#}) + streams_in tr"
  "streams_out (e # tr) = (case departure e of Some st \<Rightarrow> {#st#} | None \<Rightarrow> {#}) + streams_out tr"
  "returns_of c (e # tr) = of_bool (return_of e = Some c) + returns_of c tr"
  "streams_in (xs @ ys) = streams_in xs + streams_in ys" "streams_out (xs @ ys) = streams_out xs + streams_out ys"
  "returns_of c (xs @ ys) = returns_of c xs + returns_of c ys"
  by (auto simp: streams_in_def streams_out_def returns_of_def List.map_filter_def split: option.split)

lemma values_del:
  assumes "hm_inv m"
  shows "mset (map snd m) = (case hm_get m k of Some v \<Rightarrow> {#v#} | None \<Rightarrow> {#}) + mset (map snd (hm_del k m))"
  using assms
proof (induction m)
  case (Cons e m)
  then show ?case
    by (cases e; cases "fst e = k")
      (auto simp: hm_get_def hm_del_def hm_inv_def AList.delete_eq delete_id [unfolded AList.delete_eq] split: option.split)
qed (simp add: hm_del_def)

lemma values_put:
  assumes "hm_inv m" "hm_get m k = None"
  shows "mset (map snd (hm_put k v m)) = {#v#} + mset (map snd m)"
  using assms by (induction m) (auto simp: hm_get_def hm_put_def hm_inv_def split: if_splits)

lemma held_end_pull:
  assumes "puller_inv fp"
  shows "streams_held fp = mset (box_content c fp) + streams_held (end_pull c g fp)"
  using values_del [OF puller_invD(3) [OF assms], of c]
  by (auto simp: streams_held_def end_pull_def box_content_def split: option.split)

lemma fetching_no_box:
  assumes "puller_inv fp" "hm_get (fp_calls fp) c = Some (Pull_Fetching uri)"
  shows "box_content c fp = []"
  using puller_invD(9) [OF assms(1), of c] assms(2) by (auto simp: box_content_def pull_of_def split: option.split)

lemma dropped_all [simp]:
  "streams_in (map Stream_Dropped sts) = {#}" "streams_out (map Stream_Dropped sts) = mset sts"
  "returns_of c (map Stream_Dropped sts) = 0"
  by (induction sts) simp_all

lemma spawned_split: "k < length xs \<Longrightarrow> mset xs = {#xs ! k#} + mset (take k xs @ drop (Suc k) xs)"
  by (metis add_mset_add_single id_take_nth_drop mset.simps(2) mset_append union_commute union_mset_add_mset_right)

lemma deliver_conserves:
  assumes "puller_inv fp" "deliver_stream k fp = (eff, fp')"
  shows "streams_in eff + streams_held fp = streams_out eff + streams_held fp'"
proof (cases "k < length (fp_spawned fp)")
  case True
  have "hm_get (fp_boxes fp) c = None" if "hm_get (fp_pending fp) (fst (fp_spawned fp ! k)) = Some c" "c \<notin> set (fp_dead fp)" for c
    using puller_invD(6) [OF assms(1) that(1)] that(2) by blast
  then show ?thesis
    using assms(2) True spawned_split [OF True] values_put [OF puller_invD(3) [OF assms(1)], where v = "fp_spawned fp ! k"]
    by (auto simp: deliver_stream_def Let_def streams_held_def split: option.splits if_splits)
qed (use assms(2) in \<open>auto simp: deliver_stream_def\<close>)

lemma step_conserves:
  assumes inv: "puller_inv fp" and step: "pull_step dbg op fp = (eff, fp')"
  shows "streams_in eff + streams_held fp = streams_out eff + streams_held fp'"
proof -
  have calls: "streams_held (fp\<lparr>fp_calls := ca, fp_next := n\<rparr>) = streams_held fp" "streams_held (fp\<lparr>fp_calls := ca\<rparr>) = streams_held fp"
      "streams_held (fp\<lparr>fp_pending := pe, fp_calls := ca\<rparr>) = streams_held fp"
      "streams_held ((end_pull c g fp)\<lparr>fp_pending := pe\<rparr>) = streams_held (end_pull c g fp)" for ca n c g pe
    by (simp_all add: streams_held_def)
  note ends = held_end_pull [OF inv]
  show ?thesis
  proof (cases op)
    case (U_Fetched c res)
    then show ?thesis
      using step ends [of c False] fetching_no_box [OF inv, of c]
      by (auto simp: pull_fetched_def Let_def calls split: option.splits pull_phase.splits sum.splits if_splits)
  next
    case (U_Begun c reply)
    then show ?thesis
      using step ends [of c True]
      by (auto simp: pull_begun_def fail_pull_def calls split: option.splits pull_phase.splits sum.splits)
  next
    case (U_Receive c)
    then show ?thesis
      using step ends [of c True] ends [of c False]
      by (auto simp: pull_receive_def fail_pull_def box_content_def split: option.splits pull_phase.splits if_splits)
  next
    case (U_Drop c)
    then show ?thesis
      using step ends [of c True] ends [of c False] fetching_no_box [OF inv, of c]
      by (auto simp: drop_pull_def split: option.splits pull_phase.splits)
  next
    case (U_Stream st)
    then show ?thesis
      using step by (auto simp: dispatch_stream_def streams_held_def)
  qed (use step deliver_conserves [OF inv] in \<open>auto simp: start_pull_def calls\<close>)
qed

text \<open>
  Every stream that arrived is held or was given to one pull or dropped; a pull returns at most once, and
  with a stream only of the transaction it was told.
\<close>

definition puller_good :: "pull_effect list \<Rightarrow> fetch_puller \<Rightarrow> bool" where
  "puller_good tr fp \<longleftrightarrow>
    puller_inv fp \<and> streams_in tr = streams_out tr + streams_held fp \<and>
    (\<forall>c. returns_of c tr + of_bool (hm_contains (fp_calls fp) c) \<le> of_bool (c < fp_next fp)) \<and>
    (\<forall>c st m. Pull_Returned c (Inr (st, m)) \<in> set tr \<longrightarrow> fst st = fm_txid m)"

lemma step_returns:
  assumes inv: "puller_inv fp" and step: "pull_step dbg op fp = (eff, fp')"
  shows "returns_of d eff + of_bool (hm_contains (fp_calls fp') d) + of_bool (d < fp_next fp) \<le>
    of_bool (hm_contains (fp_calls fp) d) + of_bool (d < fp_next fp')"
proof -
  have new: "\<not> hm_contains (fp_calls fp) (fp_next fp)"
    using puller_invD(5) [OF inv, of "fp_next fp"] by (cases "hm_get (fp_calls fp) (fp_next fp)") (auto simp: hm_contains_def)
  have at: "hm_get (fp_calls fp) c = Some ph \<Longrightarrow> hm_contains (fp_calls fp) c" for c ph
    by (simp add: hm_contains_def)
  show ?thesis
    using step new
    by (cases op)
      (auto simp: start_pull_def pull_fetched_def pull_begun_def pull_receive_def drop_pull_def dispatch_stream_def deliver_stream_def
        fail_pull_def end_pull_def Let_def at split: option.splits pull_phase.splits sum.splits if_splits)
qed

lemma step_returns_own:
  assumes inv: "puller_inv fp" and step: "pull_step dbg op fp = (eff, fp')" and ret: "Pull_Returned c (Inr (st, m)) \<in> set eff"
  shows "fst st = fm_txid m"
proof -
  have "hm_get (fp_calls fp) c = Some (Pull_Awaiting m) \<and> hm_get (fp_boxes fp) c = Some st"
    using step ret
    by (cases op)
      (auto simp: start_pull_def pull_fetched_def pull_begun_def pull_receive_def drop_pull_def dispatch_stream_def deliver_stream_def
        fail_pull_def Let_def split: option.splits pull_phase.splits sum.splits if_splits)
  then show ?thesis
    using puller_invD(8) [OF inv, of c m st] by (simp add: pull_of_def)
qed

interpretation pull_machine: traced_machine "pull_step dbg" puller_good for dbg
proof
  fix tr op and fp fp' :: fetch_puller and eff :: "pull_effect list"
  assume good: "puller_good tr fp" and step: "pull_step dbg op fp = (eff, fp')"
  have inv: "puller_inv fp" "puller_inv fp'"
    using good pull_step_inv [of fp dbg op] step by (simp_all add: puller_good_def)
  have "streams_in (tr @ eff) = streams_out (tr @ eff) + streams_held fp'"
    using good step_conserves [OF inv(1) step] by (simp add: puller_good_def) (metis add.commute add.left_commute)
  moreover have "returns_of c (tr @ eff) + of_bool (hm_contains (fp_calls fp') c) \<le> of_bool (c < fp_next fp')" for c
  proof -
    have "returns_of c tr + of_bool (hm_contains (fp_calls fp) c) \<le> (of_bool (c < fp_next fp) :: nat)"
      using good by (simp add: puller_good_def)
    then show ?thesis
      using step_returns [OF inv(1) step, of c] by simp
  qed
  ultimately show "puller_good (tr @ eff) fp'"
    using good inv step_returns_own [OF inv(1) step] by (auto simp: puller_good_def)
qed

lemma pull_run_trace: "pull_run dbg ops fp = pull_machine.trace_run dbg ops fp"
  by (induction ops arbitrary: fp) (simp_all split: prod.split)

lemma puller_good_new: "puller_good [] fetch_puller_new"
  by (simp add: puller_good_def puller_inv_def fetch_puller_new_def streams_held_def pull_of_def)

lemma pull_run_good:
  assumes "pull_run dbg ops fetch_puller_new = (tr, fp)"
  shows "puller_good tr fp"
  using pull_machine.trace_run_good [OF puller_good_new] assms unfolding pull_run_trace by fastforce

section \<open>Routing\<close>

lemma awaiting_waits:
  assumes "puller_inv fp" "hm_get (fp_calls fp) c = Some (Pull_Awaiting m)" "hm_get (fp_boxes fp) c = None"
  shows "pull_receive c fp = ([], fp)"
proof -
  have "hm_get (fp_pending fp) (fm_txid m) = Some c"
    using puller_invD(7) [OF assms(1), of c m] assms(2,3) by (simp add: pull_of_def)
  then have "c \<in> set (map snd (fp_pending fp))"
    using hm_in_set [OF puller_invD(1) [OF assms(1)], of "fm_txid m" c] by force
  then show ?thesis
    using assms(2,3) by (simp add: pull_receive_def)
qed

lemma delivered_to:
  assumes "puller_inv fp" "pull_of fp c = Some m" "hm_get (fp_boxes fp) c = None"
    and "k < length (fp_spawned fp)" "fst (fp_spawned fp ! k) = fm_txid m"
  shows "fst (deliver_stream k fp) = [] \<and> hm_get (fp_boxes (snd (deliver_stream k fp))) c = Some (fp_spawned fp ! k)"
proof -
  have "hm_get (fp_pending fp) (fm_txid m) = Some c"
    using puller_invD(7) [OF assms(1-3)] .
  moreover have "hm_contains (fp_calls fp) c"
    using assms(2) by (cases "hm_get (fp_calls fp) c") (auto simp: pull_of_def hm_contains_def)
  moreover from this have "c \<notin> set (fp_dead fp)"
    using puller_invD(4) [OF assms(1), of c] by (auto simp: hm_contains_def)
  ultimately show ?thesis
    using assms(4,5) by (simp add: deliver_stream_def Let_def)
qed

text \<open>
  C14. Streams reach the pull they belong to. In every interleaving of pulls, cancellations, replies and
  arriving streams: each stream that arrived is still held, or left the puller exactly once, to one pull or
  dropped; a pull returns at most once, and a stream only of the transaction it was told; a waiting pull
  without a stream goes on waiting, the error of a closed channel never happens; and a stream whose
  registered pull has none yet goes to that pull.
\<close>

theorem puller_routing:
  assumes "pull_run dbg ops fetch_puller_new = (tr, fp)"
  shows "streams_in tr = streams_out tr + streams_held fp \<and>
    (\<forall>c. returns_of c tr \<le> 1) \<and>
    (\<forall>c st m. Pull_Returned c (Inr (st, m)) \<in> set tr \<longrightarrow> fst st = fm_txid m) \<and>
    (\<forall>c m. hm_get (fp_calls fp) c = Some (Pull_Awaiting m) \<and> hm_get (fp_boxes fp) c = None \<longrightarrow> pull_receive c fp = ([], fp)) \<and>
    (\<forall>c m k. pull_of fp c = Some m \<and> hm_get (fp_boxes fp) c = None \<and> k < length (fp_spawned fp) \<and> fst (fp_spawned fp ! k) = fm_txid m \<longrightarrow>
      fst (deliver_stream k fp) = [] \<and> hm_get (fp_boxes (snd (deliver_stream k fp))) c = Some (fp_spawned fp ! k))"
proof -
  have good: "puller_good tr fp"
    using pull_run_good [OF assms] .
  have "returns_of c tr \<le> 1" for c
  proof -
    have "returns_of c tr + of_bool (hm_contains (fp_calls fp) c) \<le> (of_bool (c < fp_next fp) :: nat)"
      using good by (simp add: puller_good_def)
    then show ?thesis
      by (cases "c < fp_next fp") simp_all
  qed
  then show ?thesis
    using good awaiting_waits delivered_to by (auto simp: puller_good_def)
qed

definition sample_meta :: fetch_ready_meta where
  "sample_meta = \<lparr>fm_txid = 7, fm_sha256 = ''aa'', fm_size_bytes = 3, fm_mime = ''m''\<rparr>"

text \<open>One pull that got its stream, then a second pull of the same transaction.\<close>

definition latecomer_schedule :: "pull_op list" where
  "latecomer_schedule =
    [U_Pull ''u'', U_Fetched 0 (Inr sample_meta), U_Begun 0 (Inr acknowledge), U_Stream (7, 0), U_Deliver 0, U_Receive 0,
     U_Pull ''u'', U_Fetched 1 (Inr sample_meta), U_Begun 1 (Inr acknowledge)]"

lemma latecomer_run:
  "\<exists>fp. pull_run dbg latecomer_schedule fetch_puller_new =
      ([Stream_Arrived (7, 0), Pull_Returned 0 (Inr ((7, 0), sample_meta))], fp) \<and>
    hm_get (fp_calls fp) 1 = Some (Pull_Awaiting sample_meta) \<and> fp_boxes fp = [] \<and> fp_spawned fp = []"
  by (simp add: latecomer_schedule_def fetch_puller_new_def start_pull_def pull_fetched_def pull_begun_def dispatch_stream_def
      deliver_stream_def pull_receive_def end_pull_def hm_get_def hm_put_def hm_del_def hm_contains_def sample_meta_def acknowledge_def Let_def)

theorem puller_routing_witness:
  "\<exists>tr fp. pull_run (\<lambda>_. []) latecomer_schedule fetch_puller_new = (tr, fp) \<and>
    Pull_Returned 0 (Inr ((7, 0), sample_meta)) \<in> set tr \<and> returns_of 0 tr \<le> 1 \<and> pull_receive 1 fp = ([], fp)"
proof -
  obtain tr fp where r: "pull_run (\<lambda>_. []) latecomer_schedule fetch_puller_new = (tr, fp)"
      "tr = [Stream_Arrived (7, 0), Pull_Returned 0 (Inr ((7, 0), sample_meta))]"
      "hm_get (fp_calls fp) 1 = Some (Pull_Awaiting sample_meta)" "fp_boxes fp = []"
    using latecomer_run [of "\<lambda>_. []"] by blast
  show ?thesis
    using puller_routing [OF r(1)] r by auto
qed

definition starved :: "nat \<Rightarrow> fetch_ready_meta \<Rightarrow> fetch_puller \<Rightarrow> bool" where
  "starved c m fp \<longleftrightarrow>
    puller_inv fp \<and> hm_get (fp_calls fp) c = Some (Pull_Awaiting m) \<and> hm_get (fp_boxes fp) c = None \<and>
    (\<forall>st \<in> set (fp_spawned fp). fst st \<noteq> fm_txid m)"

lemma starved_step:
  assumes "starved c m fp" "op \<noteq> U_Drop c" "\<And>k. op \<noteq> U_Stream (fm_txid m, k)" "pull_step dbg op fp = (eff, fp')"
  shows "starved c m fp' \<and> (\<forall>r. Pull_Returned c r \<notin> set eff)"
proof -
  note st = assms(1) [unfolded starved_def]
  have inv: "puller_inv fp'"
    using pull_step_inv [of fp dbg op] st assms(4) by simp
  have mine: "tx = fm_txid m" if "hm_get (fp_pending fp) tx = Some c" for tx
    using puller_invD(4) [of fp c] puller_invD(6) [of fp tx c] st that by (auto simp: pull_of_def)
  have fewer: "\<forall>st \<in> set (take k (fp_spawned fp) @ drop (Suc k) (fp_spawned fp)). fst st \<noteq> fm_txid m" for k
    using st by (auto dest: in_set_takeD in_set_dropD)
  have foreign: "d \<noteq> c" if "k < length (fp_spawned fp)" "hm_get (fp_pending fp) (fst (fp_spawned fp ! k)) = Some d" for k d
    using st that mine [of "fst (fp_spawned fp ! k)"] nth_mem [OF that(1)] by auto
  have old: "c < fp_next fp"
    using puller_invD(5) [of fp c] st by blast
  show ?thesis
  proof (cases op)
    case (U_Receive d)
    then show ?thesis
      using assms(1,4) st inv awaiting_waits [of fp c m]
      by (cases "d = c")
        (auto simp: starved_def pull_receive_def fail_pull_def end_pull_def split: option.splits pull_phase.splits if_splits)
  next
    case (U_Deliver k)
    then show ?thesis
      using assms(1,4) st inv fewer [of k] foreign [of k]
      by (simp add: starved_def deliver_stream_def Let_def split: option.splits if_splits) auto
  next
    case (U_Stream x)
    then have "fst x \<noteq> fm_txid m"
      using assms(3) [of "snd x"] by (cases x) auto
    then show ?thesis
      using U_Stream assms(1,4) inv by (auto simp: starved_def dispatch_stream_def)
  qed (use assms(2,4) st inv old in
      \<open>auto simp: starved_def start_pull_def pull_fetched_def pull_begun_def drop_pull_def
        fail_pull_def end_pull_def Let_def split: option.splits pull_phase.splits sum.splits if_splits\<close>)
qed

lemma starved_run:
  assumes "starved c m fp" "U_Drop c \<notin> set ops" "\<And>k. U_Stream (fm_txid m, k) \<notin> set ops" "pull_run dbg ops fp = (tr, fp')"
  shows "starved c m fp' \<and> (\<forall>r. Pull_Returned c r \<notin> set tr)"
  using assms
proof (induction ops arbitrary: fp tr fp')
  case (Cons op ops)
  obtain e1 f1 where e1: "pull_step dbg op fp = (e1, f1)"
    by fastforce
  obtain e2 f2 where e2: "pull_run dbg ops f1 = (e2, f2)"
    by fastforce
  have "starved c m f1 \<and> (\<forall>r. Pull_Returned c r \<notin> set e1)"
    using starved_step [OF Cons.prems(1) _ _ e1] Cons.prems(2,3) by auto
  moreover from this have "starved c m f2 \<and> (\<forall>r. Pull_Returned c r \<notin> set e2)"
    using Cons.IH [OF _ _ _ e2] Cons.prems(2,3) by auto
  ultimately show ?case
    using Cons.prems(4) e1 e2 by auto
qed auto

text \<open>
  A latecomer is not always refused. A pull of a transaction whose stream another pull has already
  taken is not a duplicate for the table: it is registered, its begin is acknowledged, and unless a
  second stream of that transaction arrives it never returns, whatever else happens, until its caller
  drops it.
\<close>

theorem latecomer_starves:
  "\<exists>tr fp. pull_run dbg latecomer_schedule fetch_puller_new = (tr, fp) \<and>
    Pull_Returned 0 (Inr ((7, 0), sample_meta)) \<in> set tr \<and> hm_get (fp_calls fp) 1 = Some (Pull_Awaiting sample_meta) \<and>
    (\<forall>ops tr' fp' r. U_Drop 1 \<notin> set ops \<longrightarrow> (\<forall>k. U_Stream (7, k) \<notin> set ops) \<longrightarrow> pull_run dbg ops fp = (tr', fp') \<longrightarrow>
      Pull_Returned 1 r \<notin> set tr')"
proof -
  obtain tr fp where r: "pull_run dbg latecomer_schedule fetch_puller_new = (tr, fp)"
      "Pull_Returned 0 (Inr ((7, 0), sample_meta)) \<in> set tr"
      "hm_get (fp_calls fp) 1 = Some (Pull_Awaiting sample_meta)" "fp_boxes fp = []" "fp_spawned fp = []"
    using latecomer_run [of dbg] by fastforce
  have "starved 1 sample_meta fp"
    using pull_run_good [OF r(1)] r(3-5) by (simp add: starved_def puller_good_def)
  then show ?thesis
    using r starved_run [of 1 sample_meta fp] by (auto simp: sample_meta_def)
qed

theorem latecomer_starves_witness:
  "\<exists>tr fp. pull_run (\<lambda>_. []) latecomer_schedule fetch_puller_new = (tr, fp) \<and>
    (\<forall>r. Pull_Returned 1 r \<notin> set (fst (pull_run (\<lambda>_. []) [U_Receive 1, U_Stream (8, 0), U_Deliver 0, U_Receive 1] fp)))"
proof -
  obtain tr fp where r: "pull_run (\<lambda>_. []) latecomer_schedule fetch_puller_new = (tr, fp)"
      "\<And>ops tr' fp' r. U_Drop 1 \<notin> set ops \<Longrightarrow> (\<forall>k. U_Stream (7, k) \<notin> set ops) \<Longrightarrow> pull_run (\<lambda>_. []) ops fp = (tr', fp') \<Longrightarrow>
        Pull_Returned 1 r \<notin> set tr'"
    using latecomer_starves [of "\<lambda>_. []"] by auto
  show ?thesis
    by (intro exI [of _ tr] exI [of _ fp] conjI allI r(1) r(2) [OF _ _ prod.collapse [symmetric]]) auto
qed

end
