(* ===== verification/Fetch_Provider.thy ===== *)
theory Fetch_Provider
  imports Fetch_Service
begin

text \<open>
  The canned providers of the fetch extension, \<open>src/src/ext/fetch.rs\<close>: \<open>bytes\<close> and \<open>file\<close>.

  \<open>sha\<close> is the hexadecimal SHA-256 digest of the sha2 crate; hashing chunk after chunk is hashing what they
  add up to. The sink is a state \<open>'s\<close> with its \<open>write\<close>; the file system answers an open and then each
  read, with bytes or the text of an error, no bytes at the end of the file. A loop that is still reading is \<open>None\<close>.
\<close>

section \<open>Bytes\<close>

definition CANNED_CHUNK :: nat where
  "CANNED_CHUNK = 64 * 1024"

type_synonym 's sink_writer = "byte list \<Rightarrow> 's \<Rightarrow> (xacpp_error + unit) \<times> 's"

record bytes_provider =
  bp_data :: "byte list"
  bp_mime :: string

definition bytes_resolve :: "(byte list \<Rightarrow> string) \<Rightarrow> bytes_provider \<Rightarrow> xacpp_error + resolved_resource" where
  "bytes_resolve sha p =
    Inr \<lparr>rs_size_bytes = length (bp_data p), rs_sha256 = sha (bp_data p), rs_mime = bp_mime p\<rparr>"

text \<open>\<open>slice::chunks\<close>: full chunks and then the rest, if any.\<close>

function slice_chunks :: "nat \<Rightarrow> 'a list \<Rightarrow> 'a list list" where
  "slice_chunks n xs = (if xs = [] \<or> n = 0 then [] else take n xs # slice_chunks n (drop n xs))"
  by pat_completeness auto
termination
  by (relation "measure (\<lambda>(n, xs). length xs)") auto

declare slice_chunks.simps [simp del]

fun write_chunks :: "'s sink_writer \<Rightarrow> byte list list \<Rightarrow> 's \<Rightarrow> (xacpp_error + unit) \<times> 's" where
  "write_chunks write [] s = (Inr (), s)"
| "write_chunks write (c # cs) s =
    (case write c s of (Inl e, s') \<Rightarrow> (Inl e, s') | (Inr _, s') \<Rightarrow> write_chunks write cs s')"

definition bytes_serve :: "'s sink_writer \<Rightarrow> bytes_provider \<Rightarrow> 's \<Rightarrow> (xacpp_error + unit) \<times> 's" where
  "bytes_serve write p s = write_chunks write (slice_chunks CANNED_CHUNK (bp_data p)) s"

section \<open>Files\<close>

type_synonym file_read = "string + byte list"

definition file_open_error :: "string \<Rightarrow> xacpp_error" where
  "file_open_error e = Internal (''fetch file open failed: '' @ e)"

definition file_read_error :: "string \<Rightarrow> xacpp_error" where
  "file_read_error e = Internal (''fetch file read failed: '' @ e)"

fun prescan_loop :: "file_read list \<Rightarrow> byte list \<Rightarrow> nat \<Rightarrow> (xacpp_error + byte list \<times> nat) option" where
  "prescan_loop [] hashed n = None"
| "prescan_loop (Inl e # rs) hashed n = Some (Inl (file_read_error e))"
| "prescan_loop (Inr bs # rs) hashed n =
    (if bs = [] then Some (Inr (hashed, n)) else prescan_loop rs (hashed @ bs) (n + length bs))"

definition prescan_file :: "(byte list \<Rightarrow> string) \<Rightarrow> string + file_read list \<Rightarrow> (xacpp_error + string \<times> nat) option" where
  "prescan_file sha opened =
    (case opened of
       Inl e \<Rightarrow> Some (Inl (file_open_error e))
     | Inr rs \<Rightarrow> map_option (map_sum id (\<lambda>(hashed, n). (sha hashed, n))) (prescan_loop rs [] 0))"

definition file_resolve ::
  "(byte list \<Rightarrow> string) \<Rightarrow> string \<Rightarrow> string + file_read list \<Rightarrow> (xacpp_error + resolved_resource) option" where
  "file_resolve sha mime opened =
    map_option (map_sum id (\<lambda>(h, n). \<lparr>rs_size_bytes = n, rs_sha256 = h, rs_mime = mime\<rparr>)) (prescan_file sha opened)"

fun file_serve_loop :: "'s sink_writer \<Rightarrow> file_read list \<Rightarrow> 's \<Rightarrow> ((xacpp_error + unit) \<times> 's) option" where
  "file_serve_loop write [] s = None"
| "file_serve_loop write (Inl e # rs) s = Some (Inl (file_read_error e), s)"
| "file_serve_loop write (Inr bs # rs) s =
    (if bs = [] then Some (Inr (), s)
     else case write bs s of (Inl e, s') \<Rightarrow> Some (Inl e, s') | (Inr _, s') \<Rightarrow> file_serve_loop write rs s')"

definition file_serve :: "'s sink_writer \<Rightarrow> string + file_read list \<Rightarrow> 's \<Rightarrow> ((xacpp_error + unit) \<times> 's) option" where
  "file_serve write opened s =
    (case opened of Inl e \<Rightarrow> Some (Inl (file_open_error e), s) | Inr rs \<Rightarrow> file_serve_loop write rs s)"

section \<open>What they serve is what they resolved\<close>

text \<open>Reads that go through a file of the given content: non-empty pieces of it, then the end.\<close>

fun reads_file :: "byte list \<Rightarrow> file_read list \<Rightarrow> bool" where
  "reads_file content [] = False"
| "reads_file content (Inl e # rs) = False"
| "reads_file content (Inr bs # rs) =
    (if bs = [] then content = [] else take (length bs) content = bs \<and> reads_file (drop (length bs) content) rs)"

text \<open>A sink that records what it accepts.\<close>

definition record_write :: "byte list sink_writer" where
  "record_write bs s = (Inr (), s @ bs)"

lemma slice_chunks_props:
  assumes "0 < n"
  shows "concat (slice_chunks n xs) = xs \<and> (\<forall>c \<in> set (slice_chunks n xs). c \<noteq> [] \<and> length c \<le> n)"
  using assms
proof (induction n xs rule: slice_chunks.induct)
  case (1 n xs)
  then show ?case
    by (cases "xs = []") (auto simp: slice_chunks.simps [of n xs] slice_chunks.simps [of n "[]"])
qed

lemma write_chunks_record: "write_chunks record_write cs s = (Inr (), s @ concat cs)"
  by (induction cs arbitrary: s) (simp_all add: record_write_def)

lemma taken_prefix: "take (length bs) xs = bs \<Longrightarrow> bs @ drop (length bs) xs = xs"
  by (metis append_take_drop_id)

lemma prescan_reads:
  "reads_file content rs \<Longrightarrow> prescan_loop rs hashed n = Some (Inr (hashed @ content, n + length content))"
proof (induction content rs arbitrary: hashed n rule: reads_file.induct)
  case (3 content bs rs)
  show ?case
  proof (cases "bs = []")
    case False
    then have t: "take (length bs) content = bs" "reads_file (drop (length bs) content) rs"
      using 3(2) by auto
    from t(1) have "length bs \<le> length content"
      by (metis length_take min.cobounded1)
    then show ?thesis
      using 3(1) [OF False t(2), of "hashed @ bs" "n + length bs"] False taken_prefix [OF t(1)] by simp
  qed (use 3(2) in simp)
qed simp_all

lemma serve_reads: "reads_file content rs \<Longrightarrow> file_serve_loop record_write rs s = Some (Inr (), s @ content)"
proof (induction content rs arbitrary: s rule: reads_file.induct)
  case (3 content bs rs)
  then show ?case
    using taken_prefix [of bs content] by (cases "bs = []") (auto simp: record_write_def)
qed simp_all

text \<open>
  A canned provider serves what it resolved. The bytes provider writes its data in pieces of at most
  64 KiB, and the size and digest it announced are those of what it writes. The file provider does the
  same for any file that has the same content in both passes, however the reads are cut; the pre-scan ends
  after finitely many reads of a file.
\<close>

theorem canned_provider_consistent:
  assumes "reads_file content rs" "reads_file content rs'"
  shows "file_resolve sha mime (Inr rs) =
      Some (Inr \<lparr>rs_size_bytes = length content, rs_sha256 = sha content, rs_mime = mime\<rparr>) \<and>
    file_serve record_write (Inr rs') [] = Some (Inr (), content) \<and>
    bytes_resolve sha \<lparr>bp_data = content, bp_mime = mime\<rparr> =
      Inr \<lparr>rs_size_bytes = length content, rs_sha256 = sha content, rs_mime = mime\<rparr> \<and>
    bytes_serve record_write \<lparr>bp_data = content, bp_mime = mime\<rparr> [] = (Inr (), content) \<and>
    (\<forall>c \<in> set (slice_chunks CANNED_CHUNK content). c \<noteq> [] \<and> length c \<le> 65536)"
  using slice_chunks_props [of CANNED_CHUNK content] prescan_reads [OF assms(1), of "[]" 0] serve_reads [OF assms(2), of "[]"]
  by (simp add: file_resolve_def prescan_file_def file_serve_def bytes_resolve_def bytes_serve_def write_chunks_record CANNED_CHUNK_def)

theorem canned_provider_consistent_witness:
  "file_resolve (\<lambda>bs. ''h'') ''m'' (Inr [Inr [1, 2], Inr [3], Inr []]) = Some (Inr \<lparr>rs_size_bytes = 3, rs_sha256 = ''h'', rs_mime = ''m''\<rparr>) \<and>
   file_serve record_write (Inr [Inr [1, 2, 3], Inr []]) [] = Some (Inr (), [1, 2, 3])"
  using canned_provider_consistent [of "[1, 2, 3]" "[Inr [1, 2], Inr [3], Inr []]" "[Inr [1, 2, 3], Inr []]" "\<lambda>bs. ''h''" "''m''"]
  by simp

end
