(* ===== verification/End_To_End.thy ===== *)
theory End_To_End
  imports Transfer_Session
begin

text \<open>
  Two sessions connected by a byte stream: what one writes is concatenated, cut anywhere into reads,
  decoded by the other's frame decoder and dispatched frame by frame.
\<close>

section \<open>The byte stream between two sessions\<close>

text \<open>The bytes the writes of an operation put on the wire.\<close>

fun write_bytes :: "crc_fn \<Rightarrow> effect \<Rightarrow> byte list" where
  "write_bytes crc (WriteControl w) = w"
| "write_bytes crc (WriteData f) = (case frame_encode crc f of Inr w \<Rightarrow> w | Inl _ \<Rightarrow> [])"
| "write_bytes crc _ = []"

definition written :: "crc_fn \<Rightarrow> effect list \<Rightarrow> byte list" where
  "written crc eff = concat (map (write_bytes crc) eff)"

text \<open>Frames that arrive, whatever the cuts, and leave the decoder in sync.\<close>

definition arrives :: "crc_fn \<Rightarrow> effect list \<Rightarrow> frame list \<Rightarrow> bool" where
  "arrives crc eff fs \<longleftrightarrow>
    (\<forall>cs. concat cs = written crc eff \<longrightarrow> feed_chunks crc decoder_new cs = (Inr fs, decoder_new))"

text \<open>One side's writes reach the other side, which dispatches the frames.\<close>

definition exchange ::
  "env \<Rightarrow> link \<Rightarrow> nat \<Rightarrow> effect list \<Rightarrow> session_core \<Rightarrow> effect list \<Rightarrow> session_core \<Rightarrow> bool" where
  "exchange ev lk now eff co eff' co' \<longleftrightarrow>
    (\<exists>fs. arrives (env_crc ev) eff fs \<and> inbound_all ev lk now fs co = (eff', co'))"

lemma exchange_one:
  "arrives (env_crc ev) eff [f] \<Longrightarrow> handle_inbound ev lk now f co = (eff', co') \<Longrightarrow> exchange ev lk now eff co eff' co'"
  unfolding exchange_def by (intro exI [of _ "[f]"]) simp

lemma arrives_data:
  assumes "\<And>f. f \<in> set fs \<Longrightarrow> \<exists>m. max_frame_len (f_type f) = Some m \<and> length (f_payload f) \<le> m"
  shows "arrives crc (map WriteData fs) fs"
proof -
  have "\<exists>w. encodes_to crc f w" if "f \<in> set fs" for f
    using assms [OF that] encode_fits by blast
  then have e: "encodes_to crc f (write_bytes crc (WriteData f))" if "f \<in> set fs" for f
    using that by (fastforce simp: encodes_to_def)
  have "list_all2 (encodes_to crc) fs (map (\<lambda>f. write_bytes crc (WriteData f)) fs)"
    using e by (auto simp: list_all2_conv_all_nth simp del: write_bytes.simps)
  from feed_loop_carries [OF carries_encoded_list [OF this, of "[]"], of "[]"] show ?thesis
    by (simp add: arrives_def written_def comp_def feed_chunks_new feed_loop_empty del: write_bytes.simps)
qed

lemma arrives_control:
  assumes "decode_write crc w = [f]" "written crc eff = w"
  shows "arrives crc eff [f]"
proof -
  have "feed_chunks crc decoder_new cs = feed crc decoder_new (concat cs)" for cs
    by (simp only: feed_chunks_new feed_new)
  then show ?thesis
    using assms decode_write_single by (simp add: arrives_def)
qed

lemma written_simps [simp]:
  "written crc [] = []" "written crc (e # eff) = write_bytes crc e @ written crc eff"
  by (simp_all add: written_def)

section \<open>The sender's side\<close>

abbreviation completed_announcement :: "txid \<Rightarrow> frame" where
  "completed_announcement tx \<equiv> frame_new TransactionCompleted 0 0 0 (txid_to_bytes tx)"

lemma mk_frames_pieces:
  "tot = of_nat (length (concat ps)) \<Longrightarrow> k \<le> length ps \<Longrightarrow>
   mk_frames tx tot k (drop k ps) = map (piece_frame tx ps) [k..<length ps]"
  by (rule nth_equalityI) (simp_all add: nth_mk_frames piece_frame_def)

text \<open>A transaction whose frames are all out, waiting to be acknowledged.\<close>

definition in_flight :: "txid \<Rightarrow> byte list list \<Rightarrow> nat \<Rightarrow> transaction_sender \<Rightarrow> bool" where
  "in_flight tx ps k s \<longleftrightarrow>
    sender_inv s \<and>
    (\<exists>t. get_txn s tx = Some t \<and> is_fully_sent t \<and> pt_total_len t = of_nat (length (concat ps)) \<and>
      txn_inv (sc_frame_size (ts_config s)) tx ps k t)"

lemma transferable_pieces:
  assumes "0 < n" "payload \<noteq> []" "length payload < 2 ^ 32"
  shows "transferable (pieces n payload)"
  using assms concat_pieces [OF assms(1), of payload] pieces_bounds [OF assms(1)]
  by (auto simp: transferable_def)

lemma fully_sent_len:
  assumes "txn_inv fsz tx ps k t" "is_fully_sent t"
  shows "pt_total_len t = of_nat (length (concat ps))"
proof -
  have "unat (pt_total_len t) = length (concat ps)"
    using assms by (auto simp: txn_inv_def is_fully_sent_def)
  then show ?thesis
    by (metis of_nat_unat ucast_id)
qed

lemma send_binary_ok:
  assumes "session_inv (co_state co)" "\<not> contains_transaction (ss_sender (co_state co)) tx"
    and "payload \<noteq> []" "length payload < 2 ^ 32"
    and "unacked_bytes (ss_sender (co_state co)) + length payload
      \<le> sc_backpressure_cap_bytes (ts_config (ss_sender (co_state co)))"
    and "ps = pieces (sc_frame_size (ts_config (ss_sender (co_state co)))) payload"
  obtains s where
    "send_binary co link_up tx payload (Some cb) now =
      (Inr tx, map WriteData (map (piece_frame tx ps) [0..<length ps] @ [completed_announcement tx]),
       co\<lparr>co_state := (co_state co)\<lparr>ss_sender := s, ss_completions := hm_put tx cb (ss_completions (co_state co))\<rparr>\<rparr>)"
    "in_flight tx ps 0 s"
proof -
  let ?s = "ss_sender (co_state co)"
  have n: "concat ps = payload"
    using session_inv_senderD [OF assms(1)] concat_pieces assms(6) by (simp add: sender_inv_def)
  obtain s1 s2 s3 fs gs t where st: "open_transaction ?s tx (of_nat (length payload)) now = (Inr (), s1)"
    "append_all s1 tx [(now, payload)] = (Inr fs, s2)" "finish_transaction s2 tx now = (Inr gs, s3)"
    "fs @ gs = mk_frames tx (of_nat (length payload)) 0 ps" "sender_inv s3" "get_txn s3 tx = Some t"
    "is_fully_sent t" "txn_inv (sc_frame_size (ts_config ?s)) tx ps 0 t"
    by (rule streamed_frames [OF session_inv_senderD [OF assms(1)] assms(2-5), of "[(now, payload)]", where now = now and now' = now])
      (auto simp: assms(6))
  have a: "append_chunk s1 tx payload now = (Inr fs, s2)"
    using st(2) by (auto split: prod.splits sum.splits)
  have cfg: "ts_config s1 = ts_config ?s" "ts_config s2 = ts_config s1" "ts_config s3 = ts_config s2"
    using st(1,3) a by (auto simp: open_transaction_def append_chunk_def finish_transaction_def Let_def
        split: if_splits option.splits prod.splits)
  have "\<not> is_paused ?s"
    using assms(3,5) by (cases payload) (auto simp: is_paused_def)
  then have "send_binary co link_up tx payload (Some cb) now =
      (Inr tx, map WriteData ((fs @ gs) @ [completed_announcement tx]),
       co\<lparr>co_state := (co_state co)\<lparr>ss_sender := s3, ss_completions := hm_put tx cb (ss_completions (co_state co))\<rparr>\<rparr>)"
    using st(1,3) a by (simp add: send_binary_def admit_payload_def Let_def txid_control_frames link_up_def)
  moreover have "fs @ gs = map (piece_frame tx ps) [0..<length ps]"
    using st(4) mk_frames_pieces [of "of_nat (length payload)" ps 0 tx] n by simp
  moreover have "in_flight tx ps 0 s3"
    using st(5-8) cfg fully_sent_len [OF st(8,7)] by (auto simp: in_flight_def)
  ultimately show ?thesis
    using that by metis
qed

lemma final_ack_settles:
  assumes "in_flight tx ps k (ss_sender (co_state co))" "transferable ps" "ack_frame [final_ack tx ps] f"
    and "hm_get (ss_completions (co_state co)) tx = Some cb"
  obtains co' where "handle_inbound ev lk now f co = ([Completion cb \<lparr>br_txid = tx, br_confirmed = True\<rparr>], co')"
    "\<not> contains_transaction (ss_sender (co_state co')) tx" "hm_get (ss_completions (co_state co')) tx = None"
proof -
  let ?s = "ss_sender (co_state co)" and ?e = "final_ack tx ps"
  obtain t where t: "get_txn ?s tx = Some t" "is_fully_sent t" "txn_inv (sc_frame_size (ts_config ?s)) tx ps k t"
    using assms(1) by (auto simp: in_flight_def)
  have n: "unat (ae_highest_contiguous_seq ?e) = length ps - 1" "unat (ae_received_frames ?e) = length ps"
    using transferable_simps [OF assms(2)] assms(2)
    by (auto simp: final_ack_def transferable_def intro!: unat_of_nat_u32)
  have "length ps \<le> unat (best_contiguous ?e t) + 1" "length ps \<le> unat (max (pt_acked_received t) (ae_received_frames ?e))"
    using n by (auto simp: best_contiguous_def max_def word_le_nat_alt split: option.split)
  then have "handle_ack ?s ?e now = (True, ?s\<lparr>ts_pending := hm_del tx (ts_pending ?s)\<rparr>)" for now
    using t fully_acked_iff [OF t(3), of ?e now] by (simp add: handle_ack_def final_ack_def)
  then have "handle_inbound ev lk now f co = ([Completion cb \<lparr>br_txid = tx, br_confirmed = True\<rparr>],
      wake_writers (co\<lparr>co_state := (co_state co)\<lparr>ss_last_peer_activity_ms := now,
        ss_sender := ?s\<lparr>ts_pending := hm_del tx (ts_pending ?s)\<rparr>,
        ss_completions := hm_del tx (ss_completions (co_state co))\<rparr>\<rparr>))"
    using assms(3,4)
    by (simp add: handle_inbound_def dispatch_def on_ack_frame_def ack_frame_def Let_def split_beta
        fire_completion_def no_out_def final_ack_def)
  then show ?thesis
    using that by (simp add: contains_transaction_def)
qed

section \<open>The receiver's side\<close>

lemma slotless_piece:
  assumes "\<not> slot_exists (ss_reassembler (co_state co)) tx" "transferable ps" "0 < i" "i < length ps"
  shows "handle_inbound ev lk now (piece_frame tx ps i) co = ([], on_activity co now)"
proof -
  have "(of_nat i :: u32) \<noteq> 0"
    using transferable_simps(4) [OF assms(2,4)] assms(3) by (metis less_irrefl unat_0)
  then have "receive_frame (ss_reassembler (co_state co)) tx (of_nat i) (of_nat (length (concat ps))) (length (ps ! i))
      (ps ! i) now b = (Inr SlotlessDropped, ss_reassembler (co_state co))" for b
    using assms(1) transferable_simps(2) [OF assms(2)] by (simp add: receive_frame_def slot_exists_def word_neq_0_conv)
  then show ?thesis
    by (simp add: handle_inbound_def dispatch_def on_data_frame_def Let_def no_out_def on_activity_def)
qed

lemma slotless_pieces:
  assumes "\<not> slot_exists (ss_reassembler (co_state co)) tx" "transferable ps" "set js \<subseteq> {0<..<length ps}"
  shows "\<exists>co'. inbound_all ev lk now (map (piece_frame tx ps) js) co = ([], co') \<and>
    \<not> slot_exists (ss_reassembler (co_state co')) tx \<and> ss_reassembler (co_state co') = ss_reassembler (co_state co)"
  using assms
proof (induction js arbitrary: co)
  case (Cons j js)
  then show ?case
    using Cons.IH [of "on_activity co now"] slotless_piece [OF Cons.prems(1,2), of j ev lk now]
    by (auto simp: on_activity_def)
qed simp

lemma slotless_announcement:
  assumes "\<not> slot_exists (ss_reassembler (co_state co)) tx"
  shows "handle_inbound ev lk now (completed_announcement tx) co = ([], on_activity co now)"
  using assms by (simp add: handle_inbound_def dispatch_def on_transaction_completed_frame_def Let_def no_out_def
      on_activity_def)

section \<open>Reconnection\<close>

lemma in_flight_declared:
  assumes "in_flight tx ps k s" "\<not> is_transaction_paused s tx"
  shows "in_flight tx ps k (snd (declare_pending s now))" "\<not> is_transaction_paused (snd (declare_pending s now)) tx"
    "hm_keys (ts_pending (snd (declare_pending s now))) = hm_keys (ts_pending s)"
  using assms declare_inv [of s now]
  by (auto simp: in_flight_def declared_gate is_transaction_paused_def is_fully_sent_def)
    (simp_all add: declare_pending_def hm_keys_def comp_def split_beta)

text \<open>The holder's declaration, as the peer reads it.\<close>

lemma declaration_written:
  assumes "hm_keys (ts_pending s) = [tx]" "ss_sender (co_state co) = s" "co_wiring co \<noteq> None"
  obtains e bs w where "resume_request_encode \<lparr>rr_entries = [e]\<rparr> = Inr bs" "ae_txid e = tx"
    "fst (declare_pending_sends crc now co) = [WriteControl w]" "decode_write crc w = [frame_new Resume 0 0 0 bs]"
    "snd (declare_pending_sends crc now co) = set_sender (snd (declare_pending s now)) co"
proof -
  have "map ae_txid (fst (declare_pending s now)) = [tx]"
    using assms(1) declared_ids [of s now] by simp
  then obtain e where e: "fst (declare_pending s now) = [e]" "ae_txid e = tx"
    by (auto simp: map_eq_Cons_conv)
  obtain bs where bs: "resume_request_encode \<lparr>rr_entries = [e]\<rparr> = Inr bs"
    by (auto simp: resume_request_encode_def entries_encode_def CONTROL_PAYLOAD_CAP_def ACK_ENTRY_LEN_def frame_consts)
  obtain w where w: "send_control crc Resume (Inr bs) = [WriteControl w]" "decode_write crc w = [frame_new Resume 0 0 0 bs]"
    using send_control_read [of Resume bs crc] resume_request_codec.enc_cap [OF bs] by auto
  have "fst (declare_pending_sends crc now co) = [WriteControl w]"
    "snd (declare_pending_sends crc now co) = set_sender (snd (declare_pending s now)) co"
    using assms(2,3) e(1) bs w(1)
    by (auto simp: declare_pending_sends_def send_resume_declaration_def send_resume_frame_def split_beta)
  then show ?thesis
    using that [OF bs e(2)] w(2) by simp
qed

text \<open>The receiver answers that it goes on, and keeps what it has.\<close>

lemma get_slot_abandon:
  "tx \<notin> set txs \<Longrightarrow> get_slot (ss_reassembler (fold abandon txs st)) tx = get_slot (ss_reassembler st) tx"
  by (induction txs arbitrary: st) (auto simp: abandon_def discard_def)

lemma stream_owned_abandon:
  "\<not> hm_contains (ss_stream_owned st) tx \<Longrightarrow> \<not> hm_contains (ss_stream_owned (fold abandon txs st)) tx"
  by (induction txs arbitrary: st) (auto simp: abandon_def)

lemma receiver_resumes:
  assumes "gathering tx ps I (co_state b)" "transferable ps" "get_slot (ss_reassembler (co_state b)) tx \<noteq> None"
    and "I \<noteq> {..<length ps}" "resume_request_encode \<lparr>rr_entries = [e]\<rparr> = Inr bs" "ae_txid e = tx"
  obtains w b' answer where
    "handle_inbound ev lk now (frame_new Resume 0 0 0 bs) b = ([WriteControl w], b')" "gathering tx ps I (co_state b')"
    "get_slot (ss_reassembler (co_state b')) tx \<noteq> None"
    "co_binary_handler b' = co_binary_handler b" "co_stream_handler b' = co_stream_handler b"
    "decode_write (env_crc ev) w = [frame_new ResumeResponse 0 0 0 answer]"
    "resume_response_decode answer = Inr \<lparr>rp_entries = [\<lparr>rs_txid = tx, rs_status = Resumed\<rparr>]\<rparr>"
proof -
  let ?st = "(co_state b)\<lparr>ss_last_peer_activity_ms := now\<rparr>"
  let ?r = "ss_reassembler ?st" and ?f = "frame_new Resume 0 0 0 bs"
  let ?st' = "fold abandon (abandoned ?r [e]) ?st"
  obtain w answer where h: "on_resume_request_frame (env_crc ev) ?f ?st = (?st', no_out\<lparr>io_writes := [WriteControl w]\<rparr>)"
    "decode_write (env_crc ev) w = [frame_new ResumeResponse 0 0 0 answer]"
    "resume_response_decode answer = Inr \<lparr>rp_entries = map (resume_verdict ?r) [e]\<rparr>"
    by (rule resume_request_handled [OF assms(5), of ?f "env_crc ev" ?st]) auto
  have hb: "handle_inbound ev lk now ?f b = ([WriteControl w], b\<lparr>co_state := ?st'\<rparr>)"
    using h(1) by (simp add: handle_inbound_def dispatch_def no_out_def Let_def)
  obtain sl where sl: "get_slot ?r tx = Some sl" "honest ps I sl"
    using assms(1,3) by (auto simp: gathering_def)
  have "resume_verdict ?r e = \<lparr>rs_txid = tx, rs_status = Resumed\<rparr>"
    using sl honest_complete_iff [OF sl(2) assms(2)] assms(4,6)
    by (simp add: resume_verdict_def slot_exists_def hm_contains_def is_complete_def)
  moreover have tx: "get_slot (ss_reassembler ?st') tx = get_slot (ss_reassembler (co_state b)) tx"
    using assms(6) get_slot_abandon [of tx "abandoned ?r [e]" ?st] by (simp add: abandoned_def)
  moreover have "session_inv ?st'"
    using handle_inbound_inv [of b ev lk now ?f] assms(1) hb by (simp add: gathering_def)
  moreover have "\<not> hm_contains (ss_stream_owned ?st') tx"
    using assms(1) by (intro stream_owned_abandon) (simp add: gathering_def)
  ultimately show ?thesis
    using that [OF hb] sl h(2,3) assms(1) by (simp add: gathering_def)
qed

text \<open>The holder retransmits what is not confirmed.\<close>

lemma holder_retransmits:
  assumes "in_flight tx ps k (ss_sender (co_state a))" "\<not> is_transaction_paused (ss_sender (co_state a)) tx"
    and "resume_response_decode answer = Inr \<lparr>rp_entries = [\<lparr>rs_txid = tx, rs_status = Resumed\<rparr>]\<rparr>"
  obtains a' where "handle_inbound ev link_up now (frame_new ResumeResponse 0 0 0 answer) a =
      (map WriteData (map (piece_frame tx ps) [k..<length ps]), a')"
    "in_flight tx ps k (ss_sender (co_state a'))" "ss_completions (co_state a') = ss_completions (co_state a)"
proof -
  let ?s = "ss_sender (co_state a)"
  obtain t where t: "get_txn ?s tx = Some t" "is_fully_sent t" "pt_total_len t = of_nat (length (concat ps))"
      "txn_inv (sc_frame_size (ts_config ?s)) tx ps k t" "\<not> pt_paused t"
    using assms(1,2) by (auto simp: in_flight_def is_transaction_paused_def)
  let ?t = "t\<lparr>pt_awaiting_resume := False, pt_declared_ms := None, pt_last_progress_ms := now\<rparr>"
  obtain sts fs where r: "resend_frames now (pt_states t) (pt_frames t) = (sts, fs)"
    by (metis surj_pair)
  have fs: "fs = map (piece_frame tx ps) [k..<length ps]"
    using resend_retained [OF t(4), of now] r t(3,4) mk_frames_pieces [OF t(3), of k tx] by (simp add: txn_inv_def)
  let ?s' = "put_txn tx (?t\<lparr>pt_states := sts\<rparr>) ?s"
  have v: "apply_resume_verdicts ?s [\<lparr>rs_txid = tx, rs_status = Resumed\<rparr>] now =
      (\<lparr>rv_retransmit = fs, rv_confirmed = [], rv_failed = []\<rparr>, ?s')"
    using t(1,5) r by (simp add: apply_resume_verdicts_def apply_verdict_def Let_def)
  have "map st_confirmed sts = map st_confirmed (pt_states t)"
    using resend_frames_confirmed [of now "pt_states t" "pt_frames t"] r by simp
  then have "txn_inv (sc_frame_size (ts_config ?s)) tx ps k (?t\<lparr>pt_states := sts\<rparr>)"
    using t(4) by (simp add: txn_inv_def)
  then have "in_flight tx ps k ?s'"
    using verdicts_inv [of ?s "[\<lparr>rs_txid = tx, rs_status = Resumed\<rparr>]" now] v t assms(1)
    by (auto simp: in_flight_def is_fully_sent_def)
  then show ?thesis
    using that v fs assms(3)
    by (simp add: handle_inbound_def dispatch_def on_resume_response_frame_def Let_def no_out_def)
qed

text \<open>Retransmission from a confirmed prefix completes the payload; what comes after the last missing
  piece finds no slot and is dropped.\<close>

lemma retransmission_completes:
  assumes "transferable ps" "gathering tx ps I (co_state b)" "get_slot (ss_reassembler (co_state b)) tx \<noteq> None"
    and "co_binary_handler b" "\<not> co_stream_handler b" "{..<k} \<subseteq> I" "I \<noteq> {..<length ps}"
    and "send_ack_entries (env_crc ev) [final_ack tx ps] = [WriteControl w]"
  shows "\<exists>b'. inbound_all ev lk now (map (piece_frame tx ps) [k..<length ps]) b = ([WriteControl w, Deliver tx (concat ps)], b') \<and>
    \<not> slot_exists (ss_reassembler (co_state b')) tx"
proof -
  have I: "I \<subseteq> {..<length ps}"
    using assms(2) by (simp add: gathering_def honest_def)
  let ?M = "{..<length ps} - I"
  define m where "m = Max ?M"
  have "m \<in> ?M"
    unfolding m_def by (rule Max_in) (use I assms(7) in auto)
  then have m: "m < length ps" "m \<notin> I" "k \<le> m"
    using assms(6) by (auto simp: not_less [symmetric])
  have above: "i \<in> I" if "m < i" "i < length ps" for i
    using that Max_ge [of ?M i] unfolding m_def [symmetric] by auto
  have "[k..<length ps] = [k..<m] @ [m..<length ps]" "[m..<length ps] = m # [Suc m..<length ps]"
    using m upt_add_eq_append [of k m "length ps - m"] by (simp_all add: upt_conv_Cons)
  then have js: "[k..<length ps] = ([k..<m] @ [m]) @ [Suc m..<length ps]"
    by simp
  have all: "I \<union> set ([k..<m] @ [m]) = {..<length ps}"
  proof (intro equalityI subsetI)
    fix i
    assume "i \<in> {..<length ps}"
    then show "i \<in> I \<union> set ([k..<m] @ [m])"
      using above [of i] assms(6) by (cases "m < i"; cases "i < k") auto
  qed (use I m in auto)
  obtain b1 where b1: "inbound_all ev lk now (map (piece_frame tx ps) ([k..<m] @ [m])) b =
        ([WriteControl w, Deliver tx (concat ps)], b1)" "\<not> slot_exists (ss_reassembler (co_state b1)) tx"
    using gathering_delivers [OF assms(1,2,4,5) _ all _ _ assms(8), of lk now] m assms(3) by auto
  have late: "set [Suc m..<length ps] \<subseteq> {0<..<length ps}"
    by auto
  obtain b2 where "inbound_all ev lk now (map (piece_frame tx ps) [Suc m..<length ps]) b1 = ([], b2)"
      "\<not> slot_exists (ss_reassembler (co_state b2)) tx"
    using slotless_pieces [OF b1(2) assms(1) late, of ev lk now] by blast
  then show ?thesis
    using b1(1) unfolding js by (subst map_append, subst inbound_all_append) simp
qed

section \<open>Properties\<close>

text \<open>The frames of a transfer and what their dispatch does on both sides.\<close>

lemma transfer_frames:
  assumes "session_inv (co_state a)" "\<not> contains_transaction (ss_sender (co_state a)) tx"
    and "payload \<noteq> []" "length payload < 2 ^ 32"
    and "unacked_bytes (ss_sender (co_state a)) + length payload
      \<le> sc_backpressure_cap_bytes (ts_config (ss_sender (co_state a)))"
    and "sc_frame_size (ts_config (ss_sender (co_state a))) \<le> MAX_DATA_BINARY_FRAME_LEN"
    and "session_inv (co_state b)" "co_binary_handler b" "\<not> co_stream_handler b"
    and "\<not> slot_exists (ss_reassembler (co_state b)) tx"
    and "send_binary a link_up tx payload (Some cb) t0 = (r, eff_a, a')"
  obtains fs w b' f a'' where "r = Inr tx" "eff_a = map WriteData fs"
    "\<forall>g \<in> set fs. f_type g \<noteq> DataJson \<and> (\<exists>m. max_frame_len (f_type g) = Some m \<and> length (f_payload g) \<le> m)"
    "inbound_all ev lk t1 fs b = ([WriteControl w, Deliver tx payload], b')" "\<not> slot_exists (ss_reassembler (co_state b')) tx"
    "decode_write (env_crc ev) w = [f]" "f_type f \<noteq> DataJson"
    "handle_inbound ev lk' t2 f a' = ([Completion cb \<lparr>br_txid = tx, br_confirmed = True\<rparr>], a'')"
    "\<not> contains_transaction (ss_sender (co_state a'')) tx"
proof -
  define ps where "ps = pieces (sc_frame_size (ts_config (ss_sender (co_state a)))) payload"
  let ?fs = "map (piece_frame tx ps) [0..<length ps] @ [completed_announcement tx]"
  have n: "0 < sc_frame_size (ts_config (ss_sender (co_state a)))"
    using session_inv_senderD [OF assms(1)] by (simp add: sender_inv_def)
  have ps: "transferable ps" "concat ps = payload"
    using transferable_pieces [OF n assms(3,4)] concat_pieces [OF n] by (simp_all add: ps_def)
  obtain s where s: "send_binary a link_up tx payload (Some cb) t0 = (Inr tx, map WriteData ?fs,
       a\<lparr>co_state := (co_state a)\<lparr>ss_sender := s, ss_completions := hm_put tx cb (ss_completions (co_state a))\<rparr>\<rparr>)"
      "in_flight tx ps 0 s"
    by (rule send_binary_ok [OF assms(1-5) ps_def])
  have "length (ps ! i) \<le> MAX_DATA_BINARY_FRAME_LEN" if "i < length ps" for i
    using pieces_bounds [OF n, of "ps ! i" payload] nth_mem [OF that] assms(6) by (simp add: ps_def)
  then have fits: "\<forall>g \<in> set ?fs. f_type g \<noteq> DataJson \<and> (\<exists>m. max_frame_len (f_type g) = Some m \<and> length (f_payload g) \<le> m)"
    by (auto simp: frame_consts txid_to_bytes_def)
  obtain w f where w: "send_ack_entries (env_crc ev) [final_ack tx ps] = [WriteControl w]"
      "decode_write (env_crc ev) w = [f]" "ack_frame [final_ack tx ps] f"
    using send_single_ack by blast
  have js: "[0..<length ps] \<noteq> []" "{} \<union> set [0..<length ps] = {..<length ps}"
      "last [0..<length ps] \<notin> {} \<union> set (butlast [0..<length ps])"
    using ps(1) by (cases "length ps"; auto simp: transferable_def)+
  obtain b1 where b1: "inbound_all ev lk t1 (map (piece_frame tx ps) [0..<length ps]) b =
        ([WriteControl w, Deliver tx (concat ps)], b1)" "\<not> slot_exists (ss_reassembler (co_state b1)) tx"
    using gathering_delivers [OF ps(1) gathering_fresh [OF assms(7) ps(1) assms(10)] assms(8,9) js _ w(1), of lk t1] js(1)
    by auto
  have b': "inbound_all ev lk t1 ?fs b = ([WriteControl w, Deliver tx payload], on_activity b1 t1)"
      "\<not> slot_exists (ss_reassembler (co_state (on_activity b1 t1))) tx"
    using b1 slotless_announcement [OF b1(2), of ev lk t1] ps(2)
    by (simp_all add: inbound_all_append on_activity_def)
  have a': "a' = a\<lparr>co_state := (co_state a)\<lparr>ss_sender := s, ss_completions := hm_put tx cb (ss_completions (co_state a))\<rparr>\<rparr>"
    "r = Inr tx" "eff_a = map WriteData ?fs"
    using assms(11) s(1) by auto
  obtain a'' where a'': "handle_inbound ev lk' t2 f a' = ([Completion cb \<lparr>br_txid = tx, br_confirmed = True\<rparr>], a'')"
      "\<not> contains_transaction (ss_sender (co_state a'')) tx"
    by (rule final_ack_settles [OF _ ps(1) w(3), of 0 a' cb ev lk' t2]) (use s(2) in \<open>auto simp: a'\<close>)
  have "f_type f \<noteq> DataJson"
    using w(3) by (simp add: ack_frame_def)
  with that [OF a'(2,3) fits b' w(2)] a'' show ?thesis
    by blast
qed

text \<open>
  C1. A payload sent over a working connection is delivered and confirmed. Let a session send a payload
  under a new transaction id, within the backpressure cap, to a session with a binary handler. The bytes
  written arrive, under any segmentation, as a list of frames; dispatching these at the receiver
  delivers exactly the payload, once; the bytes the receiver wrote meanwhile arrive, under any
  segmentation, as frames whose dispatch at the sender fires the completion callback as confirmed, once,
  and releases the retained copy.
\<close>

theorem transfer_end_to_end:
  assumes "session_inv (co_state a)" "\<not> contains_transaction (ss_sender (co_state a)) tx"
    and "payload \<noteq> []" "length payload < 2 ^ 32"
    and "unacked_bytes (ss_sender (co_state a)) + length payload
      \<le> sc_backpressure_cap_bytes (ts_config (ss_sender (co_state a)))"
    and "sc_frame_size (ts_config (ss_sender (co_state a))) \<le> MAX_DATA_BINARY_FRAME_LEN"
    and "session_inv (co_state b)" "co_binary_handler b" "\<not> co_stream_handler b"
    and "\<not> slot_exists (ss_reassembler (co_state b)) tx"
    and "send_binary a link_up tx payload (Some cb) t0 = (r, eff_a, a')"
  shows "r = Inr tx \<and>
    (\<exists>w eff_b b' a''. eff_b = [WriteControl w, Deliver tx payload] \<and>
      exchange ev lk t1 eff_a b eff_b b' \<and> \<not> slot_exists (ss_reassembler (co_state b')) tx \<and>
      exchange ev lk' t2 eff_b a' [Completion cb \<lparr>br_txid = tx, br_confirmed = True\<rparr>] a'' \<and>
      \<not> contains_transaction (ss_sender (co_state a'')) tx)"
proof -
  obtain fs w b' f a'' where t: "r = Inr tx" "eff_a = map WriteData fs"
    "\<forall>g \<in> set fs. f_type g \<noteq> DataJson \<and> (\<exists>m. max_frame_len (f_type g) = Some m \<and> length (f_payload g) \<le> m)"
    "inbound_all ev lk t1 fs b = ([WriteControl w, Deliver tx payload], b')" "\<not> slot_exists (ss_reassembler (co_state b')) tx"
    "decode_write (env_crc ev) w = [f]" "f_type f \<noteq> DataJson"
    "handle_inbound ev lk' t2 f a' = ([Completion cb \<lparr>br_txid = tx, br_confirmed = True\<rparr>], a'')"
    "\<not> contains_transaction (ss_sender (co_state a'')) tx"
    by (rule transfer_frames [OF assms, of ev lk t1 lk' t2])
  have "arrives (env_crc ev) eff_a fs"
    unfolding t(2) by (rule arrives_data) (use t(3) in blast)
  with t(4) have x1: "exchange ev lk t1 eff_a b [WriteControl w, Deliver tx payload] b'"
    unfolding exchange_def by blast
  have "arrives (env_crc ev) [WriteControl w, Deliver tx payload] [f]"
    using t(6) by (intro arrives_control) simp_all
  from exchange_one [OF this t(8)] show ?thesis
    using t(1,5,9) x1 by blast
qed

theorem transfer_end_to_end_witness:
  "\<exists>eff_a a' w b' a''. send_binary (session_new sample_transfer_config 0) link_up 5 sample_payload (Some 77) 0 = (Inr 5, eff_a, a') \<and>
    exchange sample_env link_up 1 eff_a (on_binary sample_receiver) [WriteControl w, Deliver 5 sample_payload] b' \<and>
    exchange sample_env link_up 2 [WriteControl w, Deliver 5 sample_payload] a'
      [Completion 77 \<lparr>br_txid = 5, br_confirmed = True\<rparr>] a''"
proof -
  let ?a = "session_new sample_transfer_config 0"
  obtain r eff_a a' where h: "send_binary ?a link_up 5 sample_payload (Some 77) 0 = (r, eff_a, a')"
    by (metis surj_pair)
  have s: "ss_sender (co_state ?a) = sample_sender"
    by (simp add: session_new_def sample_transfer_config_def sample_sender_def)
  have "r = Inr 5 \<and> (\<exists>w eff_b b' a''. eff_b = [WriteControl w, Deliver 5 sample_payload] \<and>
      exchange sample_env link_up 1 eff_a (on_binary sample_receiver) eff_b b' \<and> \<not> slot_exists (ss_reassembler (co_state b')) 5 \<and>
      exchange sample_env link_up 2 eff_b a' [Completion 77 \<lparr>br_txid = 5, br_confirmed = True\<rparr>] a'' \<and>
      \<not> contains_transaction (ss_sender (co_state a'')) 5)"
    by (rule transfer_end_to_end [OF _ _ _ _ _ _ _ _ _ _ h])
      (use sample_receiver_fresh in \<open>simp_all add: s on_binary_def frame_consts\<close>)
  then show ?thesis
    using h by blast
qed

text \<open>The messages of a recovery and what each side does with them.\<close>

lemma recovery_frames:
  assumes "in_flight tx ps k (ss_sender (co_state a))" "transferable ps" "{..<k} \<subseteq> I" "I \<noteq> {..<length ps}"
    and "\<not> is_transaction_paused (ss_sender (co_state a)) tx" "hm_keys (ts_pending (ss_sender (co_state a))) = [tx]"
    and "hm_get (ss_completions (co_state a)) tx = Some cb" "\<not> is_wired a"
    and "sc_frame_size (ts_config (ss_sender (co_state a))) \<le> MAX_DATA_BINARY_FRAME_LEN"
    and "gathering tx ps I (co_state b)" "get_slot (ss_reassembler (co_state b)) tx \<noteq> None"
    and "co_binary_handler b" "\<not> co_stream_handler b"
    and "wire a transport t0 t0' = (r, eff0, a0)" "declare_pending_sends (env_crc ev) t1 a0 = (eff1, a1)"
  obtains w1 f1 w2 b1 f2 fs a2 w b2 f a3 where "eff1 = [WriteControl w1]" "decode_write (env_crc ev) w1 = [f1]" "f_type f1 = Resume"
    "handle_inbound ev lk t2 f1 b = ([WriteControl w2], b1)" "decode_write (env_crc ev) w2 = [f2]" "f_type f2 = ResumeResponse"
    "handle_inbound ev link_up t3 f2 a1 = (map WriteData fs, a2)"
    "\<forall>g \<in> set fs. f_type g \<noteq> DataJson \<and> (\<exists>m. max_frame_len (f_type g) = Some m \<and> length (f_payload g) \<le> m)"
    "inbound_all ev lk t4 fs b1 = ([WriteControl w, Deliver tx (concat ps)], b2)" "\<not> slot_exists (ss_reassembler (co_state b2)) tx"
    "decode_write (env_crc ev) w = [f]" "f_type f = Ack"
    "handle_inbound ev link_up t5 f a2 = ([Completion cb \<lparr>br_txid = tx, br_confirmed = True\<rparr>], a3)"
    "\<not> contains_transaction (ss_sender (co_state a3)) tx"
proof -
  let ?s0 = "snd (declare_pending (ss_sender (co_state a)) t0')"
  have a0: "ss_sender (co_state a0) = ?s0" "co_wiring a0 \<noteq> None" "ss_completions (co_state a0) = ss_completions (co_state a)"
    using assms(8,14) by (auto simp: wire_def is_wired_def Let_def wake_writers_def)
  note d0 = in_flight_declared [OF assms(1,5), of t0']
  obtain e bs w1 where e: "resume_request_encode \<lparr>rr_entries = [e]\<rparr> = Inr bs" "ae_txid e = tx"
      "eff1 = [WriteControl w1]" "decode_write (env_crc ev) w1 = [frame_new Resume 0 0 0 bs]" "a1 = set_sender (snd (declare_pending ?s0 t1)) a0"
    using declaration_written [of ?s0 tx a0 "env_crc ev" t1] d0(3) assms(6,15) a0 by (metis fst_conv snd_conv)
  note d1 = in_flight_declared [OF d0(1,2), of t1]
  obtain w2 b1 answer where b1: "handle_inbound ev lk t2 (frame_new Resume 0 0 0 bs) b = ([WriteControl w2], b1)"
      "gathering tx ps I (co_state b1)" "get_slot (ss_reassembler (co_state b1)) tx \<noteq> None"
      "co_binary_handler b1 = co_binary_handler b" "co_stream_handler b1 = co_stream_handler b"
      "decode_write (env_crc ev) w2 = [frame_new ResumeResponse 0 0 0 answer]"
      "resume_response_decode answer = Inr \<lparr>rp_entries = [\<lparr>rs_txid = tx, rs_status = Resumed\<rparr>]\<rparr>"
    by (rule receiver_resumes [OF assms(10,2,11,4) e(1,2)])
  let ?fs = "map (piece_frame tx ps) [k..<length ps]"
  obtain a2 where a2: "handle_inbound ev link_up t3 (frame_new ResumeResponse 0 0 0 answer) a1 = (map WriteData ?fs, a2)"
      "in_flight tx ps k (ss_sender (co_state a2))" "ss_completions (co_state a2) = ss_completions (co_state a1)"
    by (rule holder_retransmits [OF _ _ b1(7), of ps k a1]) (use d1 e(5) in auto)
  have "length (ps ! i) \<le> MAX_DATA_BINARY_FRAME_LEN" if "i < length ps" for i
    using assms(1,9) nth_mem [OF that] by (fastforce simp: in_flight_def txn_inv_def)
  then have fits: "\<forall>g \<in> set ?fs. f_type g \<noteq> DataJson \<and> (\<exists>m. max_frame_len (f_type g) = Some m \<and> length (f_payload g) \<le> m)"
    by (auto simp: frame_consts)
  obtain w f where w: "send_ack_entries (env_crc ev) [final_ack tx ps] = [WriteControl w]"
      "decode_write (env_crc ev) w = [f]" "ack_frame [final_ack tx ps] f"
    using send_single_ack by blast
  obtain b2 where b2: "inbound_all ev lk t4 ?fs b1 = ([WriteControl w, Deliver tx (concat ps)], b2)"
      "\<not> slot_exists (ss_reassembler (co_state b2)) tx"
    using retransmission_completes [OF assms(2) b1(2,3) _ _ assms(3,4) w(1), of lk t4] b1(4,5) assms(12,13) by auto
  have cb: "hm_get (ss_completions (co_state a2)) tx = Some cb"
    using a2(3) e(5) a0(3) assms(7) by simp
  obtain a3 where a3: "handle_inbound ev link_up t5 f a2 = ([Completion cb \<lparr>br_txid = tx, br_confirmed = True\<rparr>], a3)"
      "\<not> contains_transaction (ss_sender (co_state a3)) tx"
    by (rule final_ack_settles [OF a2(2) assms(2) w(3) cb])
  show ?thesis
    by (rule that [OF e(3,4) _ b1(1,6) _ a2(1) fits b2 w(2) _ a3]) (use w(3) in \<open>simp_all add: ack_frame_def\<close>)
qed

text \<open>
  C2. An interrupted transfer recovers. The holder has framed the whole payload and holds it
  unconfirmed from piece \<open>k\<close> on; the connection was lost; the receiver has an arbitrary incomplete
  subset of the pieces that contains the confirmed ones. After the holder is wired again and declares
  its pending sends, the exchange RESUME, RESUME\_RESPONSE, retransmission, final ACK (each message
  over the byte stream, any segmentation) delivers exactly the payload at the receiver, once, and
  fires the holder's callback as confirmed, once.
\<close>

theorem recovery_end_to_end:
  assumes "in_flight tx ps k (ss_sender (co_state a))" "transferable ps" "{..<k} \<subseteq> I" "I \<noteq> {..<length ps}"
    and "\<not> is_transaction_paused (ss_sender (co_state a)) tx" "hm_keys (ts_pending (ss_sender (co_state a))) = [tx]"
    and "hm_get (ss_completions (co_state a)) tx = Some cb" "\<not> is_wired a"
    and "sc_frame_size (ts_config (ss_sender (co_state a))) \<le> MAX_DATA_BINARY_FRAME_LEN"
    and "gathering tx ps I (co_state b)" "get_slot (ss_reassembler (co_state b)) tx \<noteq> None"
    and "co_binary_handler b" "\<not> co_stream_handler b"
    and "wire a transport t0 t0' = (r, eff0, a0)" "declare_pending_sends (env_crc ev) t1 a0 = (eff1, a1)"
  shows "\<exists>eff2 b1 eff3 a2 w b2 a3.
    exchange ev lk t2 eff1 b eff2 b1 \<and> exchange ev link_up t3 eff2 a1 eff3 a2 \<and>
    exchange ev lk t4 eff3 b1 [WriteControl w, Deliver tx (concat ps)] b2 \<and>
    exchange ev link_up t5 [WriteControl w, Deliver tx (concat ps)] a2
      [Completion cb \<lparr>br_txid = tx, br_confirmed = True\<rparr>] a3 \<and>
    \<not> contains_transaction (ss_sender (co_state a3)) tx \<and> \<not> slot_exists (ss_reassembler (co_state b2)) tx"
proof -
  obtain w1 f1 w2 b1 f2 fs a2 w b2 f a3 where m: "eff1 = [WriteControl w1]" "decode_write (env_crc ev) w1 = [f1]"
    "handle_inbound ev lk t2 f1 b = ([WriteControl w2], b1)" "decode_write (env_crc ev) w2 = [f2]"
    "handle_inbound ev link_up t3 f2 a1 = (map WriteData fs, a2)"
    "\<forall>g \<in> set fs. f_type g \<noteq> DataJson \<and> (\<exists>m. max_frame_len (f_type g) = Some m \<and> length (f_payload g) \<le> m)"
    "inbound_all ev lk t4 fs b1 = ([WriteControl w, Deliver tx (concat ps)], b2)" "\<not> slot_exists (ss_reassembler (co_state b2)) tx"
    "decode_write (env_crc ev) w = [f]"
    "handle_inbound ev link_up t5 f a2 = ([Completion cb \<lparr>br_txid = tx, br_confirmed = True\<rparr>], a3)"
    "\<not> contains_transaction (ss_sender (co_state a3)) tx"
    by (rule recovery_frames [OF assms, of lk t2 t3 t4 t5])
  have arr: "arrives (env_crc ev) eff1 [f1]" "arrives (env_crc ev) [WriteControl w2] [f2]"
      "arrives (env_crc ev) [WriteControl w, Deliver tx (concat ps)] [f]"
    using m(1,2,4,9) by (simp_all add: arrives_control)
  have "arrives (env_crc ev) (map WriteData fs) fs"
    by (rule arrives_data) (use m(6) in blast)
  then have "exchange ev lk t4 (map WriteData fs) b1 [WriteControl w, Deliver tx (concat ps)] b2"
    using m(7) unfolding exchange_def by blast
  then show ?thesis
    using exchange_one [OF arr(1) m(3)] exchange_one [OF arr(2) m(5)] exchange_one [OF arr(3) m(10)] m(8,11) by blast
qed

text \<open>A ten byte payload in three pieces; only the first arrived before the connection was lost.\<close>

lemma sample_interruption:
  obtains eff_a a b where "send_binary (session_new sample_transfer_config 0) link_up 5 sample_payload (Some 77) 0 = (Inr 5, eff_a, a)"
    "inbound_all sample_env link_up 1 [piece_frame 5 (pieces 4 sample_payload) 0] (on_binary sample_receiver) = ([], b)"
    "in_flight 5 (pieces 4 sample_payload) 0 (ss_sender (co_state a))" "transferable (pieces 4 sample_payload)"
    "{0} \<noteq> {..<length (pieces 4 sample_payload)}"
    "\<not> is_transaction_paused (ss_sender (co_state a)) 5" "hm_keys (ts_pending (ss_sender (co_state a))) = [5]"
    "hm_get (ss_completions (co_state a)) 5 = Some 77" "\<not> is_wired a"
    "sc_frame_size (ts_config (ss_sender (co_state a))) \<le> MAX_DATA_BINARY_FRAME_LEN"
    "gathering 5 (pieces 4 sample_payload) {0} (co_state b)" "get_slot (ss_reassembler (co_state b)) 5 \<noteq> None"
    "co_binary_handler b" "\<not> co_stream_handler b"
proof -
  let ?new = "session_new sample_transfer_config 0" and ?ps = "pieces 4 sample_payload"
  have s: "ss_sender (co_state ?new) = sample_sender"
    by (simp add: session_new_def sample_transfer_config_def sample_sender_def)
  have u: "co_wiring ?new = None"
    by (simp add: session_new_def)
  obtain eff_a a where sn: "send_binary ?new link_up 5 sample_payload (Some 77) 0 = (Inr 5, eff_a, a)"
      "in_flight 5 ?ps 0 (ss_sender (co_state a))" "hm_get (ss_completions (co_state a)) 5 = Some 77" "\<not> is_wired a"
    by (rule send_binary_ok [of ?new 5 sample_payload ?ps 77 0]) (simp_all add: s is_wired_def u)
  have "a = snd (admit_payload ?new 5 sample_payload (Some 77) 0)"
    using arg_cong [OF sn(1), of "\<lambda>x. snd (snd x)"] by (simp add: send_binary_core)
  then have keys: "hm_keys (ts_pending (ss_sender (co_state a))) = [5]" "\<not> is_transaction_paused (ss_sender (co_state a)) 5"
      "sc_frame_size (ts_config (ss_sender (co_state a))) = 4"
    by (simp_all only:) code_simp+
  have ps: "transferable ?ps" "length ?ps = 3"
    using transferable_pieces [of 4 sample_payload] by (simp_all add: pieces_def chunks_exact.simps sample_payload_def)
  have one: "{0} \<noteq> {..<length ?ps}" "{0} \<noteq> {..<3::nat}"
    using lessThan_is_zero [of "length ?ps"] lessThan_is_zero [of 3] ps(2) by simp_all
  obtain b where b: "inbound_all sample_env link_up 1 (map (piece_frame 5 ?ps) [0]) (on_binary sample_receiver) = ([], b)"
      "gathering 5 ?ps ({} \<union> set [0]) (co_state b)" "get_slot (ss_reassembler (co_state b)) 5 \<noteq> None"
    using gathering_all [OF ps(1), of 5 "{}" "on_binary sample_receiver" "[0]" sample_env link_up 1]
      gathering_fresh [OF _ ps(1), of "co_state sample_receiver" 5] sample_receiver_fresh ps(2) one(2)
    by (auto simp: on_binary_def)
  have h: "co_binary_handler b" "\<not> co_stream_handler b"
    using inbound_all_handlers [of sample_env link_up 1 "map (piece_frame 5 ?ps) [0]" "on_binary sample_receiver"] b(1)
      sample_receiver_fresh(4) by (simp_all add: on_binary_def)
  show ?thesis
    by (rule that [OF sn(1) _ sn(2) ps(1) one(1) keys(2,1) sn(3,4) _ _ b(3) h]) (use b keys(3) in \<open>simp_all add: frame_consts\<close>)
qed

lemma concat_sample_pieces [simp]: "concat (pieces 4 sample_payload) = sample_payload"
  by (rule concat_pieces) simp

theorem recovery_end_to_end_witness:
  "\<exists>eff_a a b eff1 a1 eff2 b1 eff3 a2 w b2 a3.
    send_binary (session_new sample_transfer_config 0) link_up 5 sample_payload (Some 77) 0 = (Inr 5, eff_a, a) \<and>
    inbound_all sample_env link_up 1 [piece_frame 5 (pieces 4 sample_payload) 0] (on_binary sample_receiver) = ([], b) \<and>
    declare_pending_sends (env_crc sample_env) 11 (snd (snd (wire a 1 10 10))) = (eff1, a1) \<and>
    exchange sample_env link_up 12 eff1 b eff2 b1 \<and> exchange sample_env link_up 13 eff2 a1 eff3 a2 \<and>
    exchange sample_env link_up 14 eff3 b1 [WriteControl w, Deliver 5 sample_payload] b2 \<and>
    exchange sample_env link_up 15 [WriteControl w, Deliver 5 sample_payload] a2
      [Completion 77 \<lparr>br_txid = 5, br_confirmed = True\<rparr>] a3"
proof (rule sample_interruption, goal_cases)
  case (1 eff_a a b)
  obtain r eff0 a0 where w: "wire a 1 10 10 = (r, eff0, a0)" by (metis surj_pair)
  obtain eff1 a1 where d: "declare_pending_sends (env_crc sample_env) 11 a0 = (eff1, a1)" by (metis surj_pair)
  show ?case
    using recovery_end_to_end [OF 1(3,4) _ 1(5-14) w d, of link_up 12 13 14 15] 1(1,2) w d by fastforce
qed

end
