(* ===== verification/Fetch_End_To_End.thy ===== *)
theory Fetch_End_To_End
  imports Fetch_Lifecycle Fetch_Puller Fetch_Provider End_To_End
begin

text \<open>
  A fetch over two sessions: the responder's service, the byte stream between the sessions and the
  requester's puller composed.
\<close>

section \<open>Reading a pulled stream\<close>

lemma read_all_eq:
  "read_all bs n si =
    (bs @ concat (map ch_bytes (si_chunks si)), n + length (concat (map ch_bytes (si_chunks si))),
     if si_sender_alive si then ReadPending else ReadEnd)"
proof (induction bs n si rule: read_all.induct)
  case (1 bs n si)
  show ?case
  proof (cases "si_chunks si")
    case Nil
    then show ?thesis
      by (simp add: read_all.simps [of bs n si] stream_read_def)
  next
    case (Cons c cs)
    then show ?thesis
      using 1 [of "ReadChunk c" "si\<lparr>si_chunks := cs\<rparr>" c] by (simp add: read_all.simps [of bs n si] stream_read_def)
  qed
qed

text \<open>
  C16. \<open>pull_to_vec\<close> on every stream. It waits as long as the stream may still get chunks. Then it returns the
  content exactly for a complete stream whose digest is the announced one; a digest that differs is an integrity
  error that names both digests and the length read; and a stream that ended in any other state is an
  incomplete transfer, never an integrity error.
\<close>

theorem pull_to_vec_outcomes:
  "let content = concat (map ch_bytes (si_chunks si)) in
    (pull_to_vec sha m si = None \<longleftrightarrow> si_sender_alive si) \<and>
    (pull_to_vec sha m si = Some (Inr (bs, m')) \<longleftrightarrow>
      \<not> si_sender_alive si \<and> stream_state_of si = Complete \<and> m' = m \<and> bs = content \<and> sha bs = fm_sha256 m) \<and>
    (pull_to_vec sha m si = Some (Inl (IntegrityMismatch e a n)) \<longleftrightarrow>
      \<not> si_sender_alive si \<and> stream_state_of si = Complete \<and> e = fm_sha256 m \<and> a = sha content \<and> a \<noteq> e \<and> n = length content) \<and>
    ((\<exists>r x. pull_to_vec sha m si = Some (Inl (Incomplete_Transfer r x))) \<longleftrightarrow>
      \<not> si_sender_alive si \<and> stream_state_of si \<noteq> Complete)"
  unfolding Let_def pull_to_vec_def read_all_eq
  by (auto simp: incomplete_detail_of_def verify_def split: if_splits)

section \<open>The responder serves a resource\<close>

text \<open>A fetch, its begin, the provider's writes and the end of the serving, in the order they happen without interference.\<close>

definition serving_schedule ::
  "string \<Rightarrow> resolved_resource \<Rightarrow> txid \<Rightarrow> (nat \<times> byte list) list \<Rightarrow> nat \<Rightarrow> nat \<Rightarrow> nat \<Rightarrow> fetch_op list" where
  "serving_schedule uri res tx cs cb t0 t1 =
    [F_Command 0 (Fetch uri), F_Run link_up 0, F_Run link_up 0, F_Resolved 0 (Inr res) tx t0, F_Run link_up 0, F_Run link_up 0,
     F_Run link_up 0, F_Command 1 (FetchBegin (format_transaction_id tx)), F_Run link_up 1, F_Run link_up 1, F_Run link_up 1] @
    map (\<lambda>c. F_Write link_up 0 (snd c) (fst c)) cs @ [F_Done 0 True, F_End link_up 0 cb t1, F_End link_up 0 cb t1]"

text \<open>What a run of the service did on its session, in order.\<close>

fun effects_of :: "fetch_effect \<Rightarrow> effect list" where
  "effects_of (Provider_Wrote i eff) = eff"
| "effects_of (Flow_Applied i eff) = eff"
| "effects_of (Sink_Finished i eff) = eff"
| "effects_of (Sink_Aborted i eff) = eff"
| "effects_of (Session_Did eff) = eff"
| "effects_of _ = []"

definition fetch_wire :: "fetch_effect list \<Rightarrow> effect list" where
  "fetch_wire tr = concat (map effects_of tr)"

fun is_answer :: "fetch_effect \<Rightarrow> bool" where
  "is_answer (Answer c r) = True"
| "is_answer _ = False"

lemma fetch_wire_simps [simp]:
  "fetch_wire [] = []" "fetch_wire (e # tr) = effects_of e @ fetch_wire tr" "fetch_wire (xs @ ys) = fetch_wire xs @ fetch_wire ys"
  by (simp_all add: fetch_wire_def)

lemma fetch_run_append:
  "fetch_run inner (ops @ ops') fs =
    (case fetch_run inner ops fs of (eff, fs1) \<Rightarrow> case fetch_run inner ops' fs1 of (eff', fs2) \<Rightarrow> (eff @ eff', fs2))"
  by (induction ops arbitrary: fs) (simp_all split: prod.split)

lemma set_transfer_simps [simp]:
  "set_transfer co' (set_transfer co fs) = set_transfer co' fs" "xs_transfer (fs_session (set_transfer co fs)) = co"
  "fs_servings (set_transfer co fs) = fs_servings fs" "fs_tasks (set_transfer co fs) = fs_tasks fs"
  "fs_calls (set_transfer co fs) = fs_calls fs" "fs_by_uri (set_transfer co fs) = fs_by_uri fs"
  "fs_by_txid (set_transfer co fs) = fs_by_txid fs" "fs_slots (set_transfer co fs) = fs_slots fs"
  "set_transfer (xs_transfer (fs_session fs)) fs = fs"
  by (simp_all add: set_transfer_def)

lemma serve_writes:
  assumes "hm_get (fs_tasks fs) 0 = Some Serving_Run" "sg_txid (fs_servings fs ! 0) = tx"
    and "sink_write_all (xs_transfer (fs_session fs)) link_up tx cs = (r, eff, co)"
  shows "\<exists>tr. fetch_run inner (map (\<lambda>c. F_Write link_up 0 (snd c) (fst c)) cs) fs = (tr, set_transfer co fs) \<and>
    fetch_wire tr = eff \<and> filter is_answer tr = []"
  using assms
proof (induction cs arbitrary: fs r eff co)
  case (Cons c cs)
  obtain p e1 co1 where w: "sink_write (xs_transfer (fs_session fs)) link_up tx (snd c) (fst c) = (p, e1, co1)"
    by (metis surj_pair)
  obtain ps e2 co2 where ws: "sink_write_all co1 link_up tx cs = (ps, e2, co2)"
    by (metis surj_pair)
  obtain tr where tr: "fetch_run inner (map (\<lambda>c. F_Write link_up 0 (snd c) (fst c)) cs) (set_transfer co1 fs) = (tr, set_transfer co2 fs)"
      "fetch_wire tr = e2" "filter is_answer tr = []"
    using Cons.IH [of "set_transfer co1 fs"] Cons.prems(1,2) ws by auto
  show ?case
    using Cons.prems w ws tr by (auto simp: serve_write_def)
qed (auto simp: set_transfer_def)

definition announced :: "txid \<Rightarrow> resolved_resource \<Rightarrow> fetch_ready_meta" where
  "announced tx res = \<lparr>fm_txid = tx, fm_sha256 = rs_sha256 res, fm_size_bytes = rs_size_bytes res, fm_mime = rs_mime res\<rparr>"

text \<open>The state between the answered begin and the provider's writes.\<close>

lemma served_prefix:
  assumes "rs_size_bytes res \<noteq> 0" "rs_size_bytes res \<le> 2 ^ 32 - 1"
    and "open_binary_sink (xs_transfer s) (of_nat (rs_size_bytes res)) (Some tx) tx t0 = (Inr tx, co)"
  obtains fs where "fetch_run inner (take 11 (serving_schedule uri res tx cs cb t0 t1)) (fetch_service_new s) =
      ([Resolve_Called uri, Published uri 0, Answer 0 (Inr (ready_response (announced tx res))), Serve_Started 0, Answer 1 (Inr acknowledge)], fs)"
    "xs_transfer (fs_session fs) = co" "fs_tasks fs = [(0, Serving_Run)]" "fs_calls fs = []" "length (fs_servings fs) = 1"
    "sg_txid (fs_servings fs ! 0) = tx" "sg_uri (fs_servings fs ! 0) = uri" "fs_by_uri fs = [(uri, Ready 0)]" "fs_by_txid fs = [(tx, 0)]"
proof -
  have "xs_open_binary_sink (of_nat (rs_size_bytes res)) None tx t0 s = (Inr tx, s\<lparr>xs_transfer := co\<rparr>)"
    using assms(3) by (simp add: xs_open_binary_sink_def open_binary_sink_def)
  moreover have "parse_transaction_id (format_transaction_id tx) = Inr tx"
    by (simp add: parse_transaction_id_iff)
  ultimately show ?thesis
    using that assms(1,2)
    by (simp add: serving_schedule_def schedule_defs outcome_response_def ready_response_def announced_def)
qed

lemma served_suffix:
  assumes "fs_tasks fs = [(0, Serving_Run)]" "fs_calls fs = []" "length (fs_servings fs) = 1"
    and "sg_txid (fs_servings fs ! 0) = tx" "sg_uri (fs_servings fs ! 0) = uri" "fs_by_uri fs = [(uri, Ready 0)]" "fs_by_txid fs = [(tx, 0)]"
    and "sink_finish (xs_transfer (fs_session fs)) link_up tx cb t1 = (r, eff, co)"
  shows "\<exists>fs'. fetch_run inner [F_Done 0 True, F_End link_up 0 cb t1, F_End link_up 0 cb t1] fs =
    ([Evicted uri 0, Sink_Finished 0 eff], fs') \<and> xs_transfer (fs_session fs') = co \<and> fs_by_uri fs' = [] \<and> fs_by_txid fs' = []"
  using assms by (simp add: serve_done_def serve_end_def evict_def set_task_def serving_alive_def set_transfer_def hm_get_def hm_put_def hm_del_def Let_def)

lemma serving_run:
  assumes "session_inv (co_state (xs_transfer s))" "is_wired (xs_transfer s)"
    and "\<not> contains_transaction (ss_sender (co_state (xs_transfer s))) tx" "data \<noteq> []" "length data < 2 ^ 32"
    and "concat (map snd cs) = data"
    and "unacked_bytes (ss_sender (co_state (xs_transfer s))) + length data
      \<le> sc_backpressure_cap_bytes (ts_config (ss_sender (co_state (xs_transfer s))))"
    and "rs_size_bytes res = length data" "ps = pieces (sc_frame_size (ts_config (ss_sender (co_state (xs_transfer s))))) data"
    and "fetch_run inner (serving_schedule uri res tx cs cb t0 t1) (fetch_service_new s) = (tr, fs)"
  shows "filter is_answer tr = [Answer 0 (Inr (ready_response (announced tx res))), Answer 1 (Inr acknowledge)] \<and>
    fetch_wire tr = map WriteData (map (piece_frame tx ps) [0..<length ps] @ [completed_announcement tx]) \<and>
    in_flight tx ps 0 (ss_sender (co_state (xs_transfer (fs_session fs)))) \<and>
    hm_get (ss_completions (co_state (xs_transfer (fs_session fs)))) tx = Some cb \<and> fs_by_uri fs = [] \<and> fs_by_txid fs = []"
proof -
  let ?n = "length data" and ?pre = "take 11 (serving_schedule uri res tx cs cb t0 t1)"
  obtain r1 co1 where o: "open_binary_sink (xs_transfer s) (of_nat ?n) (Some tx) tx t0 = (r1, co1)"
    by (metis surj_pair)
  obtain r2 eff2 co2 where w: "sink_write_all co1 link_up tx cs = (r2, eff2, co2)"
    by (metis surj_pair)
  obtain r3 eff3 co3 where f: "sink_finish co2 link_up tx cb t1 = (r3, eff3, co3)"
    by (metis surj_pair)
  note st = sink_streams [OF assms(1-7) o w f refl, folded assms(9)]
  have n: "0 < sc_frame_size (ts_config (ss_sender (co_state (xs_transfer s))))"
    using session_inv_senderD [OF assms(1)] by (simp add: sender_inv_def)
  have ps: "concat ps = data"
    using concat_pieces [OF n] by (simp add: assms(9))
  obtain fs1 where p: "fetch_run inner ?pre (fetch_service_new s) =
      ([Resolve_Called uri, Published uri 0, Answer 0 (Inr (ready_response (announced tx res))), Serve_Started 0, Answer 1 (Inr acknowledge)], fs1)"
    "xs_transfer (fs_session fs1) = co1" "fs_tasks fs1 = [(0, Serving_Run)]" "fs_calls fs1 = []" "length (fs_servings fs1) = 1"
    "sg_txid (fs_servings fs1 ! 0) = tx" "sg_uri (fs_servings fs1 ! 0) = uri" "fs_by_uri fs1 = [(uri, Ready 0)]" "fs_by_txid fs1 = [(tx, 0)]"
    by (rule served_prefix [of res s tx t0 co1 inner uri cs cb t1]) (use assms(4,5,8) st o in auto)
  obtain tr2 where t2: "fetch_run inner (map (\<lambda>c. F_Write link_up 0 (snd c) (fst c)) cs) fs1 = (tr2, set_transfer co2 fs1)"
      "fetch_wire tr2 = eff2" "filter is_answer tr2 = []"
    using serve_writes [of fs1 tx cs r2 eff2 co2 inner] p w by (auto simp: hm_get_def)
  obtain fs3 where t3: "fetch_run inner [F_Done 0 True, F_End link_up 0 cb t1, F_End link_up 0 cb t1] (set_transfer co2 fs1) =
      ([Evicted uri 0, Sink_Finished 0 eff3], fs3)" "xs_transfer (fs_session fs3) = co3" "fs_by_uri fs3 = []" "fs_by_txid fs3 = []"
    using served_suffix [of "set_transfer co2 fs1" tx uri cb t1 r3 eff3 co3 inner] p f by auto
  have "serving_schedule uri res tx cs cb t0 t1 = ?pre @ map (\<lambda>c. F_Write link_up 0 (snd c) (fst c)) cs @
      [F_Done 0 True, F_End link_up 0 cb t1, F_End link_up 0 cb t1]"
    by (simp add: serving_schedule_def)
  moreover have "fetch_run inner (?pre @ map (\<lambda>c. F_Write link_up 0 (snd c) (fst c)) cs @
      [F_Done 0 True, F_End link_up 0 cb t1, F_End link_up 0 cb t1]) (fetch_service_new s) =
    ([Resolve_Called uri, Published uri 0, Answer 0 (Inr (ready_response (announced tx res))), Serve_Started 0,
      Answer 1 (Inr acknowledge)] @ tr2 @ [Evicted uri 0, Sink_Finished 0 eff3], fs3)"
    by (simp add: fetch_run_append p(1) t2(1) t3(1) del: fetch_run.simps fetch_step.simps)
  ultimately have tr: "tr = [Resolve_Called uri, Published uri 0, Answer 0 (Inr (ready_response (announced tx res))), Serve_Started 0,
      Answer 1 (Inr acknowledge)] @ tr2 @ [Evicted uri 0, Sink_Finished 0 eff3]" "fs = fs3"
    using assms(10) by simp_all
  have "mk_frames tx (of_nat ?n) 0 ps = map (piece_frame tx ps) [0..<length ps]"
    using mk_frames_pieces [of "of_nat ?n" ps 0 tx] ps by simp
  moreover have "in_flight tx ps 0 (ss_sender (co_state co3))"
    using st fully_sent_len [of _ tx ps 0] by (auto simp: in_flight_def)
  ultimately show ?thesis
    using st t2 t3 tr by (simp add: p)
qed

section \<open>The requester gets it\<close>

definition pulling_schedule :: "(xacpp_response \<Rightarrow> string) \<Rightarrow> string \<Rightarrow> xacpp_response \<Rightarrow> txid \<Rightarrow> nat \<Rightarrow> pull_op list" where
  "pulling_schedule dbg uri resp tx k =
    [U_Pull uri, U_Fetched 0 (response_to_meta dbg resp), U_Begun 0 (Inr acknowledge), U_Stream (tx, k), U_Deliver 0, U_Receive 0]"

lemma ready_meta: "response_to_meta dbg (ready_response m) = Inr m"
  using parse_transaction_id_iff [of "format_transaction_id (fm_txid m)" "fm_txid m"] by (simp add: ready_response_def)

lemma pulling_run:
  "\<exists>fp. pull_run dbg (pulling_schedule dbg uri (ready_response m) (fm_txid m) k) fetch_puller_new =
    ([Stream_Arrived (fm_txid m, k), Pull_Returned 0 (Inr ((fm_txid m, k), m))], fp)"
  by (simp add: pulling_schedule_def ready_meta fetch_puller_new_def start_pull_def pull_fetched_def pull_begun_def dispatch_stream_def
      deliver_stream_def pull_receive_def end_pull_def hm_get_def hm_put_def hm_del_def hm_contains_def acknowledge_def Let_def)

lemma concat_pieces_read: "concat (map ch_bytes (map (\<lambda>i. \<lparr>ch_seq = of_nat i, ch_bytes = ps ! i\<rparr>) [0..<length ps])) = concat ps"
  by (simp add: comp_def map_nth)

text \<open>
  C5. A fetch, end to end. A responder with a wired session serves a resource under a fresh transaction
  while a requester pulls it. The responder answers the fetch with the metadata of the resource, which the
  requester reads back exactly, and acknowledges the begin; the bytes it then writes arrive, under any
  segmentation, as frames whose dispatch hands the requester's session one stream; the puller gives that
  stream to the pull, and reading it to the end gives exactly the bytes, verified; the requester's bytes,
  under any segmentation, settle the transaction at the responder as confirmed.
\<close>

theorem fetch_end_to_end:
  assumes "session_inv (co_state (xs_transfer s))" "is_wired (xs_transfer s)"
    and "\<not> contains_transaction (ss_sender (co_state (xs_transfer s))) tx" "data \<noteq> []" "length data < 2 ^ 32"
    and "concat (map snd cs) = data"
    and "unacked_bytes (ss_sender (co_state (xs_transfer s))) + length data
      \<le> sc_backpressure_cap_bytes (ts_config (ss_sender (co_state (xs_transfer s))))"
    and "sc_frame_size (ts_config (ss_sender (co_state (xs_transfer s)))) \<le> MAX_DATA_BINARY_FRAME_LEN"
    and "bytes_resolve sha \<lparr>bp_data = data, bp_mime = mime\<rparr> = Inr res"
    and "session_inv (co_state b)" "co_stream_handler b" "\<not> slot_exists (ss_reassembler (co_state b)) tx"
    and "fetch_run inner (serving_schedule uri res tx cs cb t0 t1) (fetch_service_new s) = (tr, fs)"
    and "k = length (ss_objects (co_state b))" "m = \<lparr>fm_txid = tx, fm_sha256 = sha data, fm_size_bytes = length data, fm_mime = mime\<rparr>"
  shows "filter is_answer tr = [Answer 0 (Inr (ready_response m)), Answer 1 (Inr acknowledge)] \<and>
    (\<exists>w eff_b b' fp a'. (eff_b = [StreamHandler k, WriteControl w] \<or> eff_b = [WriteControl w, StreamHandler k]) \<and>
      exchange ev lk t2 (fetch_wire tr) b eff_b b' \<and>
      pull_run dbg (pulling_schedule dbg uri (ready_response m) tx k) fetch_puller_new =
        ([Stream_Arrived (tx, k), Pull_Returned 0 (Inr ((tx, k), m))], fp) \<and>
      pull_to_vec sha m (ss_objects (co_state b') ! k) = Some (Inr (data, m)) \<and>
      exchange ev lk' t3 eff_b (xs_transfer (fs_session fs)) [Completion cb \<lparr>br_txid = tx, br_confirmed = True\<rparr>] a' \<and>
      \<not> contains_transaction (ss_sender (co_state a')) tx)"
proof -
  define ps where "ps = pieces (sc_frame_size (ts_config (ss_sender (co_state (xs_transfer s))))) data"
  let ?fs = "map (piece_frame tx ps) [0..<length ps]"
  have res: "rs_size_bytes res = length data" "announced tx res = m"
    using assms(9,15) by (auto simp: bytes_resolve_def announced_def)
  note run = serving_run [OF assms(1-7) res(1) ps_def assms(13), unfolded res(2)]
  have n: "0 < sc_frame_size (ts_config (ss_sender (co_state (xs_transfer s))))"
    using session_inv_senderD [OF assms(1)] by (simp add: sender_inv_def)
  have ps: "transferable ps" "concat ps = data"
    using transferable_pieces [OF n assms(4,5)] concat_pieces [OF n] by (simp_all add: ps_def)
  have "length (ps ! i) \<le> MAX_DATA_BINARY_FRAME_LEN" if "i < length ps" for i
    using pieces_bounds [OF n, of "ps ! i" data] nth_mem [OF that] assms(8) by (simp add: ps_def)
  then have arr: "arrives (env_crc ev) (fetch_wire tr) (?fs @ [completed_announcement tx])"
    using run by (auto simp: frame_consts txid_to_bytes_def intro!: arrives_data simp del: map_append)
  have "0 < length ps"
    using ps(1) by (simp add: transferable_def)
  then have js: "[0..<length ps] \<noteq> []" "hd [0..<length ps] = 0" "set [0..<length ps] = {..<length ps}"
      "last [0..<length ps] \<notin> set (butlast [0..<length ps])"
    by (simp, simp, simp add: atLeast0LessThan, cases "length ps", simp_all)
  obtain eff_b b1 where b1: "inbound_all ev lk t2 ?fs b = (eff_b, b1)"
    by (metis surj_pair)
  obtain w f where d: "eff_b = [StreamHandler k, WriteControl w] \<or> eff_b = [WriteControl w, StreamHandler k]"
      "decode_write (env_crc ev) w = [f]" "ack_frame [final_ack tx ps] f"
      "stream_state_of (ss_objects (co_state b1) ! k) = Complete"
      "drain (ss_objects (co_state b1) ! k) = (map (\<lambda>i. \<lparr>ch_seq = of_nat i, ch_bytes = ps ! i\<rparr>) [0..<length ps], ReadEnd)"
      "\<not> slot_exists (ss_reassembler (co_state b1)) tx"
    using streamed_delivery [OF assms(10,11) ps(1) assms(12) js b1 assms(14)] by blast
  have x: "exchange ev lk t2 (fetch_wire tr) b eff_b (on_activity b1 t2)"
    using arr b1 slotless_announcement [OF d(6), of ev lk t2] by (auto simp: exchange_def inbound_all_append)
  have chunks: "concat (map ch_bytes (si_chunks (ss_objects (co_state b1) ! k))) = data" "\<not> si_sender_alive (ss_objects (co_state b1) ! k)"
    using d(5) concat_pieces_read [of ps] ps(2) by (auto simp: drain_eq split: if_splits)
  then have v: "pull_to_vec sha m (ss_objects (co_state (on_activity b1 t2)) ! k) = Some (Inr (data, m))"
    using d(4) assms(15) by (simp add: pull_to_vec_def read_all_eq incomplete_detail_of_def verify_def on_activity_def)
  obtain a' where a': "handle_inbound ev lk' t3 f (xs_transfer (fs_session fs)) = ([Completion cb \<lparr>br_txid = tx, br_confirmed = True\<rparr>], a')"
      "\<not> contains_transaction (ss_sender (co_state a')) tx"
    by (rule final_ack_settles [OF _ ps(1) d(3), of 0 "xs_transfer (fs_session fs)" cb ev lk' t3]) (use run in auto)
  have "arrives (env_crc ev) eff_b [f]"
    using d(1,2) by (intro arrives_control) auto
  from exchange_one [OF this a'(1)] show ?thesis
    using run x v a'(2) d(1) pulling_run [of dbg uri m k] assms(15) by auto
qed

text \<open>The ten byte payload, written in two chunks by the provider.\<close>

theorem fetch_end_to_end_witness:
  "\<exists>tr fs eff_b b'. let s = (xsession_new (Some sample_transfer_config) 0)\<lparr>xs_transfer := (session_new sample_transfer_config 0)\<lparr>co_wiring := Some 1\<rparr>\<rparr>;
      m = \<lparr>fm_txid = 5, fm_sha256 = ''h'', fm_size_bytes = 10, fm_mime = ''m''\<rparr> in
    fetch_run None (serving_schedule ''u'' \<lparr>rs_size_bytes = 10, rs_sha256 = ''h'', rs_mime = ''m''\<rparr> 5
      [(1, [1, 2, 3]), (2, [4, 5, 6, 7, 8, 9, 10])] 77 0 3) (fetch_service_new s) = (tr, fs) \<and>
    Answer 0 (Inr (ready_response m)) \<in> set tr \<and>
    exchange sample_env link_up 4 (fetch_wire tr) (on_binary_stream sample_receiver) eff_b b' \<and>
    pull_to_vec (\<lambda>bs. ''h'') m (ss_objects (co_state b') ! 0) = Some (Inr (sample_payload, m))"
proof -
  let ?co = "(session_new sample_transfer_config 0)\<lparr>co_wiring := Some 1\<rparr>"
  let ?s = "(xsession_new (Some sample_transfer_config) 0)\<lparr>xs_transfer := ?co\<rparr>"
  let ?m = "\<lparr>fm_txid = 5, fm_sha256 = ''h'', fm_size_bytes = 10, fm_mime = ''m''\<rparr>"
  let ?cs = "[(1, [1, 2, 3]), (2, [4, 5, 6, 7, 8, 9, 10])] :: (nat \<times> byte list) list"
  let ?res = "\<lparr>rs_size_bytes = 10, rs_sha256 = ''h'', rs_mime = ''m''\<rparr>"
  obtain tr fs where h: "fetch_run None (serving_schedule ''u'' ?res 5 ?cs 77 0 3) (fetch_service_new ?s) = (tr, fs)"
    by (metis surj_pair)
  have i: "session_inv (co_state (xs_transfer ?s))" "is_wired (xs_transfer ?s)"
    using session_inv_new [of sample_transfer_config 0] by (simp_all add: is_wired_def)
  have s: "ss_sender (co_state (xs_transfer ?s)) = sample_sender"
    by (simp add: session_new_def sample_transfer_config_def sample_sender_def)
  have b: "session_inv (co_state (on_binary_stream sample_receiver))" "co_stream_handler (on_binary_stream sample_receiver)"
      "\<not> slot_exists (ss_reassembler (co_state (on_binary_stream sample_receiver))) 5"
    using sample_receiver_fresh by (simp_all add: on_binary_stream_def)
  have z: "0 = length (ss_objects (co_state (on_binary_stream sample_receiver)))"
    using sample_receiver_fresh by (simp add: on_binary_stream_def)
  have "filter is_answer tr = [Answer 0 (Inr (ready_response ?m)), Answer 1 (Inr acknowledge)] \<and>
    (\<exists>w eff_b b' fp a'. (eff_b = [StreamHandler 0, WriteControl w] \<or> eff_b = [WriteControl w, StreamHandler 0]) \<and>
      exchange sample_env link_up 4 (fetch_wire tr) (on_binary_stream sample_receiver) eff_b b' \<and>
      pull_run (\<lambda>_. []) (pulling_schedule (\<lambda>_. []) ''u'' (ready_response ?m) 5 0) fetch_puller_new =
        ([Stream_Arrived (5, 0), Pull_Returned 0 (Inr ((5, 0), ?m))], fp) \<and>
      pull_to_vec (\<lambda>bs. ''h'') ?m (ss_objects (co_state b') ! 0) = Some (Inr (sample_payload, ?m)) \<and>
      exchange sample_env link_up 6 eff_b (xs_transfer (fs_session fs)) [Completion 77 \<lparr>br_txid = 5, br_confirmed = True\<rparr>] a' \<and>
      \<not> contains_transaction (ss_sender (co_state a')) 5)"
    by (rule fetch_end_to_end [OF i _ _ _ _ _ _ _ b h z])
      (simp_all only: s, simp_all add: sample_payload_def bytes_resolve_def frame_consts)
  note run = this
  then have "Answer 0 (Inr (ready_response ?m)) \<in> set (filter is_answer tr)"
    by simp
  then have "Answer 0 (Inr (ready_response ?m)) \<in> set tr"
    by simp
  moreover obtain eff_b b' where "exchange sample_env link_up 4 (fetch_wire tr) (on_binary_stream sample_receiver) eff_b b'"
      "pull_to_vec (\<lambda>bs. ''h'') ?m (ss_objects (co_state b') ! 0) = Some (Inr (sample_payload, ?m))"
    using run by blast
  ultimately show ?thesis
    unfolding Let_def using h by blast
qed

end
