(* ===== verification/Egress.thy ===== *)
theory Egress
  imports Wire_Message "HOL-Library.Sublist" "HOL-Library.Multiset"
begin

text \<open>
  The ordered egress, \<open>src/src/session/egress.rs\<close>: the handle's four operations and the drain task
  that owns the write half of one connection.

  The flags and the request table that an egress shares with the other parts of its transport are a
  record of their own. The drain task is a state machine whose steps are its suspension points: it
  picks an item (\<open>select!\<close>), it finishes a write, it finishes the shutdown; a handle operation may
  come between any two of them. What a step does to the outside is a list of effects: frames accepted
  by a queue, frames on the wire, one-shot receipts answered or dropped, request waiters dropped.
  A one-shot sender is a number; the number of a receipt is the count of those issued before it.
\<close>

section \<open>State\<close>

type_synonym bytes = "byte list"

datatype pending_slot = Respond nat | Drop_Slot

record conn_shared =
  sh_connected :: bool
  sh_closed :: bool
  sh_pending :: "(string, pending_slot) hash_map"

datatype egress_item = Frame_Item bytes "nat option" | Close_Item

datatype lane = Control_Lane | Data_Lane

datatype drain_phase =
    Draining
  | Writing lane bytes "nat option"
  | Shutting
  | Gone

record egress =
  eg_data :: "egress_item list"
  eg_control :: "egress_item list"
  eg_phase :: drain_phase
  eg_control_open :: bool
  eg_handles :: bool
  eg_next_receipt :: nat

datatype egress_effect =
    Queued lane bytes "nat option"
  | Wrote lane bytes
  | Receipt nat bool
  | Receipt_Dropped nat
  | Waiter_Dropped nat
  | Writer_Shutdown

type_synonym egress_state = "conn_shared \<times> egress"

definition spawn_egress :: egress where
  "spawn_egress =
    \<lparr>eg_data = [], eg_control = [], eg_phase = Draining, eg_control_open = True, eg_handles = True,
     eg_next_receipt = 0\<rparr>"

section \<open>Handle operations\<close>

text \<open>
  A queue accepts an item while the drain task, which owns the receiving ends, exists. The second part
  of \<open>send_acked\<close>, after the receipt arrives, is \<open>receipt_result\<close>.
\<close>

definition egress_send_acked :: "bytes \<Rightarrow> egress_state \<Rightarrow> (xacpp_error + nat) \<times> egress_effect list \<times> egress" where
  "egress_send_acked frame = (\<lambda>(sh, e).
    if \<not> sh_connected sh then (Inl NotConnected, [], e)
    else if eg_phase e = Gone then (Inl Closed, [], e)
    else (Inr (eg_next_receipt e), [Queued Data_Lane frame (Some (eg_next_receipt e))],
      e\<lparr>eg_data := eg_data e @ [Frame_Item frame (Some (eg_next_receipt e))],
        eg_next_receipt := Suc (eg_next_receipt e)\<rparr>))"

fun receipt_result :: "egress_effect \<Rightarrow> (nat \<times> (xacpp_error + unit)) option" where
  "receipt_result (Receipt r ok) = Some (r, if ok then Inr () else Inl Closed)"
| "receipt_result (Receipt_Dropped r) = Some (r, Inl Closed)"
| "receipt_result _ = None"

definition egress_send_faf :: "bytes \<Rightarrow> egress_state \<Rightarrow> (xacpp_error + unit) \<times> egress_effect list \<times> egress" where
  "egress_send_faf frame = (\<lambda>(sh, e).
    if \<not> sh_connected sh then (Inl NotConnected, [], e)
    else if eg_phase e = Gone then (Inl Closed, [], e)
    else (Inr (), [Queued Data_Lane frame None], e\<lparr>eg_data := eg_data e @ [Frame_Item frame None]\<rparr>))"

definition egress_send_control :: "bytes \<Rightarrow> egress_state \<Rightarrow> (xacpp_error + unit) \<times> egress_effect list \<times> egress" where
  "egress_send_control frame = (\<lambda>(sh, e).
    if \<not> sh_connected sh then (Inl NotConnected, [], e)
    else if eg_phase e = Gone then (Inl Closed, [], e)
    else (Inr (), [Queued Control_Lane frame None], e\<lparr>eg_control := eg_control e @ [Frame_Item frame None]\<rparr>))"

definition mark_closed :: "conn_shared \<Rightarrow> conn_shared" where
  "mark_closed sh = sh\<lparr>sh_closed := True\<rparr>"

definition egress_close :: "egress_state \<Rightarrow> egress_state" where
  "egress_close = (\<lambda>(sh, e).
    (mark_closed (sh\<lparr>sh_connected := False\<rparr>),
     if eg_phase e = Gone then e else e\<lparr>eg_data := eg_data e @ [Close_Item]\<rparr>))"

section \<open>The drain task\<close>

text \<open>Clearing the request table drops the senders in it.\<close>

fun slot_waiter :: "pending_slot \<Rightarrow> nat option" where
  "slot_waiter (Respond w) = Some w"
| "slot_waiter Drop_Slot = None"

definition pending_waiters :: "(string, pending_slot) hash_map \<Rightarrow> nat list" where
  "pending_waiters m = List.map_filter (slot_waiter \<circ> snd) m"

definition pending_clear :: "conn_shared \<Rightarrow> egress_effect list \<times> conn_shared" where
  "pending_clear sh = (map Waiter_Dropped (pending_waiters (sh_pending sh)), sh\<lparr>sh_pending := []\<rparr>)"

definition connection_dead :: "conn_shared \<Rightarrow> egress_effect list \<times> conn_shared" where
  "connection_dead sh = pending_clear (sh\<lparr>sh_connected := False, sh_closed := True\<rparr>)"

fun item_receipt :: "egress_item \<Rightarrow> nat option" where
  "item_receipt (Frame_Item _ r) = r"
| "item_receipt Close_Item = None"

definition queued_receipts :: "egress_item list \<Rightarrow> nat list" where
  "queued_receipts q = List.map_filter item_receipt q"

text \<open>One turn of the biased \<open>select!\<close>; with nothing to take and handles alive the task waits.\<close>

definition drain_select :: "egress \<Rightarrow> egress" where
  "drain_select e =
    (case eg_phase e of
       Draining \<Rightarrow>
         (case (if eg_control_open e then eg_control e else []) of
            Frame_Item f _ # q \<Rightarrow> e\<lparr>eg_control := q, eg_phase := Writing Control_Lane f None\<rparr>
          | Close_Item # q \<Rightarrow> e\<lparr>eg_control := q\<rparr>
          | [] \<Rightarrow>
            (if eg_control_open e \<and> \<not> eg_handles e then e\<lparr>eg_control_open := False\<rparr>
             else case eg_data e of
                 Frame_Item f r # q \<Rightarrow> e\<lparr>eg_data := q, eg_phase := Writing Data_Lane f r\<rparr>
               | Close_Item # q \<Rightarrow> e\<lparr>eg_data := q, eg_phase := Shutting\<rparr>
               | [] \<Rightarrow> (if eg_handles e then e else e\<lparr>eg_phase := Shutting\<rparr>)))
     | _ \<Rightarrow> e)"

text \<open>
  The end of \<open>write_frame\<close>. A failed write ends the loop; on the data lane it also empties the data
  queue, answering the receipts in it.
\<close>

definition drain_wrote :: "bool \<Rightarrow> egress_state \<Rightarrow> egress_effect list \<times> egress_state" where
  "drain_wrote ok = (\<lambda>(sh, e).
    case eg_phase e of
      Writing lane f r \<Rightarrow>
        (let acks = (case r of Some n \<Rightarrow> [Receipt n ok] | None \<Rightarrow> []);
             (dropped, sh') = connection_dead sh
         in if ok then ([Wrote lane f] @ acks, sh, e\<lparr>eg_phase := Draining\<rparr>)
            else if lane = Control_Lane then (dropped, sh', e\<lparr>eg_phase := Shutting\<rparr>)
            else (acks @ dropped @ map (\<lambda>n. Receipt n False) (queued_receipts (eg_data e)), sh',
              e\<lparr>eg_data := [], eg_phase := Shutting\<rparr>))
    | _ \<Rightarrow> ([], sh, e))"

text \<open>The end of \<open>writer.shutdown()\<close>: the task returns and the queues are dropped.\<close>

definition drain_exit :: "egress \<Rightarrow> egress_effect list \<times> egress" where
  "drain_exit e =
    (if eg_phase e = Shutting
     then (Writer_Shutdown # map Receipt_Dropped (queued_receipts (eg_data e)),
       e\<lparr>eg_data := [], eg_control := [], eg_phase := Gone\<rparr>)
     else ([], e))"

section \<open>Runs\<close>

text \<open>
  The shared flags and the request table belong to the whole transport, so a run may change them in
  any way between two steps (\<open>Interfere\<close>). Without a handle no handle operation is possible.
\<close>

datatype egress_op =
    Send_Acked bytes
  | Send_Faf bytes
  | Send_Control bytes
  | Close_Op
  | Drop_Handles
  | Select
  | Write_Done bool
  | Shutdown_Done
  | Interfere conn_shared

fun egress_step :: "egress_op \<Rightarrow> egress_state \<Rightarrow> egress_effect list \<times> egress_state" where
  "egress_step (Send_Acked f) (sh, e) =
    (if eg_handles e then (case egress_send_acked f (sh, e) of (_, eff, e') \<Rightarrow> (eff, sh, e')) else ([], sh, e))"
| "egress_step (Send_Faf f) (sh, e) =
    (if eg_handles e then (case egress_send_faf f (sh, e) of (_, eff, e') \<Rightarrow> (eff, sh, e')) else ([], sh, e))"
| "egress_step (Send_Control f) (sh, e) =
    (if eg_handles e then (case egress_send_control f (sh, e) of (_, eff, e') \<Rightarrow> (eff, sh, e')) else ([], sh, e))"
| "egress_step Close_Op (sh, e) = (if eg_handles e then ([], egress_close (sh, e)) else ([], sh, e))"
| "egress_step Drop_Handles (sh, e) = ([], sh, e\<lparr>eg_handles := False\<rparr>)"
| "egress_step Select (sh, e) = ([], sh, drain_select e)"
| "egress_step (Write_Done ok) (sh, e) = drain_wrote ok (sh, e)"
| "egress_step Shutdown_Done (sh, e) = (case drain_exit e of (eff, e') \<Rightarrow> (eff, sh, e'))"
| "egress_step (Interfere sh') (sh, e) = ([], sh', e)"

fun egress_run :: "egress_op list \<Rightarrow> egress_state \<Rightarrow> egress_effect list \<times> egress_state" where
  "egress_run [] st = ([], st)"
| "egress_run (op # ops) st =
    (case egress_step op st of (eff, st') \<Rightarrow> case egress_run ops st' of (eff', st'') \<Rightarrow> (eff @ eff', st''))"

section \<open>What a trace says\<close>

fun queued_on :: "lane \<Rightarrow> egress_effect \<Rightarrow> bytes option" where
  "queued_on l (Queued l' f _) = (if l = l' then Some f else None)"
| "queued_on l _ = None"

fun wrote_on :: "lane \<Rightarrow> egress_effect \<Rightarrow> bytes option" where
  "wrote_on l (Wrote l' f) = (if l = l' then Some f else None)"
| "wrote_on l _ = None"

fun issued_receipt :: "egress_effect \<Rightarrow> nat option" where
  "issued_receipt (Queued _ _ r) = r"
| "issued_receipt _ = None"

fun answered_receipt :: "egress_effect \<Rightarrow> nat option" where
  "answered_receipt (Receipt r _) = Some r"
| "answered_receipt (Receipt_Dropped r) = Some r"
| "answered_receipt _ = None"

fun item_frame :: "egress_item \<Rightarrow> bytes option" where
  "item_frame (Frame_Item f _) = Some f"
| "item_frame Close_Item = None"

abbreviation pick :: "('a \<Rightarrow> 'b option) \<Rightarrow> 'a list \<Rightarrow> 'b list" where
  "pick \<equiv> List.map_filter"

fun in_hand :: "lane \<Rightarrow> drain_phase \<Rightarrow> bytes list" where
  "in_hand l (Writing l' f _) = (if l = l' then [f] else [])"
| "in_hand l _ = []"

fun hand_receipt :: "drain_phase \<Rightarrow> nat list" where
  "hand_receipt (Writing _ _ (Some r)) = [r]"
| "hand_receipt _ = []"

fun lane_queue :: "lane \<Rightarrow> egress \<Rightarrow> egress_item list" where
  "lane_queue Control_Lane e = eg_control e"
| "lane_queue Data_Lane e = eg_data e"

definition looping :: "egress \<Rightarrow> bool" where
  "looping e \<longleftrightarrow> (case eg_phase e of Draining \<Rightarrow> True | Writing _ _ _ \<Rightarrow> True | _ \<Rightarrow> False)"

definition waiting :: "lane \<Rightarrow> egress \<Rightarrow> bytes list" where
  "waiting l e = in_hand l (eg_phase e) @ pick item_frame (lane_queue l e)"

definition outstanding :: "egress \<Rightarrow> nat list" where
  "outstanding e = hand_receipt (eg_phase e) @ queued_receipts (eg_data e)"

lemma pick_simps [simp]:
  "pick g [] = []"
  "pick g (x # xs) = (case g x of Some y \<Rightarrow> y # pick g xs | None \<Rightarrow> pick g xs)"
  by (simp_all add: List.map_filter_simps)

lemma pick_append [simp]: "pick g (xs @ ys) = pick g xs @ pick g ys"
  by (induction xs) (simp_all split: option.split)

lemma pick_none [simp]: "(\<And>x. x \<in> set xs \<Longrightarrow> g x = None) \<Longrightarrow> pick g xs = []"
  by (induction xs) simp_all

lemma pick_map: "pick g (map h xs) = pick (g \<circ> h) xs"
  by (induction xs) (simp_all split: option.split)

lemma pick_Some [simp]: "pick (\<lambda>x. Some x) xs = xs"
  by (induction xs) simp_all

section \<open>The trace invariant\<close>

definition lanes_fifo :: "egress_effect list \<Rightarrow> egress \<Rightarrow> bool" where
  "lanes_fifo tr e \<longleftrightarrow>
    (\<forall>l. prefix (pick (wrote_on l) tr) (pick (queued_on l) tr)) \<and>
    (looping e \<longrightarrow> (\<forall>l. pick (queued_on l) tr = pick (wrote_on l) tr @ waiting l e))"

definition receipts_once :: "egress_effect list \<Rightarrow> egress \<Rightarrow> bool" where
  "receipts_once tr e \<longleftrightarrow>
    pick issued_receipt tr = [0..<eg_next_receipt e] \<and>
    mset (pick issued_receipt tr) = mset (pick answered_receipt tr) + mset (outstanding e)"

definition lanes_typed :: "egress_effect list \<Rightarrow> egress \<Rightarrow> bool" where
  "lanes_typed tr e \<longleftrightarrow>
    (\<forall>i \<in> set (eg_control e). \<exists>f. i = Frame_Item f None) \<and>
    (\<forall>f r. eg_phase e = Writing Control_Lane f r \<longrightarrow> r = None) \<and>
    (eg_phase e = Gone \<longrightarrow> eg_data e = [] \<and> eg_control e = []) \<and>
    (\<forall>f r. Frame_Item f (Some r) \<in> set (eg_data e) \<or> eg_phase e = Writing Data_Lane f (Some r) \<longrightarrow>
      Queued Data_Lane f (Some r) \<in> set tr)"

definition receipts_truthful :: "egress_effect list \<Rightarrow> bool" where
  "receipts_truthful tr \<longleftrightarrow>
    (\<forall>r. Receipt r True \<in> set tr \<longrightarrow>
      (\<exists>xs f ys. tr = xs @ [Wrote Data_Lane f, Receipt r True] @ ys \<and> Queued Data_Lane f (Some r) \<in> set xs))"

fun egress_inv :: "egress_effect list \<Rightarrow> egress_state \<Rightarrow> bool" where
  "egress_inv tr (sh, e) \<longleftrightarrow> lanes_fifo tr e \<and> receipts_once tr e \<and> lanes_typed tr e \<and> receipts_truthful tr"

lemma queued_receipts_simps [simp]:
  "queued_receipts [] = []"
  "queued_receipts (q @ q') = queued_receipts q @ queued_receipts q'"
  "queued_receipts (Frame_Item f (Some r) # q) = r # queued_receipts q"
  "queued_receipts (Frame_Item f None # q) = queued_receipts q"
  "queued_receipts (Close_Item # q) = queued_receipts q"
  by (simp_all add: queued_receipts_def)

lemma all_lanes: "(\<forall>l. P l) \<longleftrightarrow> P Control_Lane \<and> P Data_Lane"
  by (metis lane.exhaust)

lemmas egress_op_defs =
  egress_send_acked_def egress_send_faf_def egress_send_control_def egress_close_def drain_select_def drain_wrote_def drain_exit_def
  connection_dead_def pending_clear_def

lemmas trace_defs = looping_def waiting_def outstanding_def all_lanes

lemma truthful_append:
  assumes "receipts_truthful tr" "\<forall>r. Receipt r True \<notin> set eff"
  shows "receipts_truthful (tr @ eff)"
  unfolding receipts_truthful_def
proof (intro allI impI)
  fix r assume "Receipt r True \<in> set (tr @ eff)"
  then obtain xs f ys where "tr = xs @ [Wrote Data_Lane f, Receipt r True] @ ys" "Queued Data_Lane f (Some r) \<in> set xs"
    using assms unfolding receipts_truthful_def by (metis Un_iff set_append)
  then show "\<exists>xs f ys. tr @ eff = xs @ [Wrote Data_Lane f, Receipt r True] @ ys \<and> Queued Data_Lane f (Some r) \<in> set xs"
    by (intro exI [of _ xs] exI [of _ f] exI [of _ "ys @ eff"]) simp
qed

lemma truthful_write:
  assumes "receipts_truthful tr" "Queued Data_Lane f (Some r) \<in> set tr"
  shows "receipts_truthful (tr @ [Wrote Data_Lane f, Receipt r True])"
  unfolding receipts_truthful_def
proof (intro allI impI)
  fix r' assume "Receipt r' True \<in> set (tr @ [Wrote Data_Lane f, Receipt r True])"
  then consider "r' = r" | "Receipt r' True \<in> set tr"
    by auto
  then show "\<exists>xs f' ys. tr @ [Wrote Data_Lane f, Receipt r True] = xs @ [Wrote Data_Lane f', Receipt r' True] @ ys \<and>
      Queued Data_Lane f' (Some r') \<in> set xs"
  proof cases
    case 1
    with assms(2) show ?thesis
      by (intro exI [of _ tr] exI [of _ f] exI [of _ "[]"]) simp
  next
    case 2
    then obtain xs f' ys where "tr = xs @ [Wrote Data_Lane f', Receipt r' True] @ ys" "Queued Data_Lane f' (Some r') \<in> set xs"
      using assms(1) unfolding receipts_truthful_def by blast
    then show ?thesis
      by (intro exI [of _ xs] exI [of _ f'] exI [of _ "ys @ [Wrote Data_Lane f, Receipt r True]"]) simp
  qed
qed

lemma not_control_lane [simp]: "l \<noteq> Control_Lane \<longleftrightarrow> l = Data_Lane"
  by (cases l) simp_all

lemma receipts_of_hand [simp]: "queued_receipts (Frame_Item f r # q) = hand_receipt (Writing Data_Lane f r) @ queued_receipts q"
  by (cases r) simp_all

lemma select_fifo: "looping (drain_select e) \<Longrightarrow> looping e \<and> waiting l (drain_select e) = waiting l e"
  by (cases l) (auto simp: drain_select_def trace_defs
      split: if_splits drain_phase.splits egress_item.splits list.splits)

lemma fifo_queue:
  assumes "lanes_fifo tr e" "looping e' \<Longrightarrow> looping e \<and> (\<forall>l. waiting l e' = waiting l e @ pick (queued_on l) eff)"
    and "\<forall>l. pick (wrote_on l) eff = []"
  shows "lanes_fifo (tr @ eff) e'"
  using assms unfolding lanes_fifo_def by (simp add: prefix_prefix)

lemma step_fifo:
  assumes "lanes_fifo tr e" "egress_step op (sh, e) = (eff, sh', e')"
  shows "lanes_fifo (tr @ eff) e'"
proof -
  consider "op = Select" | ok where "op = Write_Done ok" | "op \<noteq> Select" "\<And>ok. op \<noteq> Write_Done ok"
    by blast
  then show ?thesis
  proof cases
    case 1
    then show ?thesis
      using assms(2) by (intro fifo_queue [OF assms(1)]) (auto simp: select_fifo)
  next
    case 2
    then show ?thesis
      using assms
      by (auto simp: lanes_fifo_def egress_op_defs trace_defs pick_map comp_def Let_def
          split: if_splits drain_phase.splits option.splits)
  next
    case 3
    then show ?thesis
      using assms(2)
      by (intro fifo_queue [OF assms(1)]; cases op)
        (auto simp: egress_op_defs trace_defs pick_map comp_def split: if_splits)
  qed
qed

lemma step_once:
  assumes "receipts_once tr e" "lanes_typed tr e" "egress_step op (sh, e) = (eff, sh', e')"
  shows "receipts_once (tr @ eff) e'"
  using assms
  by (cases op) (auto simp: receipts_once_def lanes_typed_def egress_op_defs trace_defs Let_def pick_map comp_def
      split: if_splits drain_phase.splits egress_item.splits list.splits option.splits prod.splits)

lemma step_typed:
  assumes "lanes_typed tr e" "egress_step op (sh, e) = (eff, sh', e')"
  shows "lanes_typed (tr @ eff) e'"
  using assms
  by (cases op) (auto simp: lanes_typed_def egress_op_defs Let_def
      split: if_splits drain_phase.splits egress_item.splits list.splits option.splits prod.splits)

lemma step_truthful:
  assumes "receipts_truthful tr" "lanes_typed tr e" "egress_step op (sh, e) = (eff, sh', e')"
  shows "receipts_truthful (tr @ eff)"
proof (cases "\<exists>r. Receipt r True \<in> set eff")
  case False
  then show ?thesis
    using truthful_append [OF assms(1)] by blast
next
  case True
  then obtain f r where "eff = [Wrote Data_Lane f, Receipt r True]" "eg_phase e = Writing Data_Lane f (Some r)"
    using assms(2,3) by (cases op) (auto simp: lanes_typed_def egress_op_defs Let_def
      split: if_splits drain_phase.splits egress_item.splits list.splits option.splits prod.splits lane.splits)
  then show ?thesis
    using truthful_write [OF assms(1)] assms(2) by (auto simp: lanes_typed_def)
qed

interpretation egress_machine: traced_machine egress_step egress_inv
proof
  fix tr op and eff :: "egress_effect list" and s s' :: egress_state
  assume "egress_inv tr s" "egress_step op s = (eff, s')"
  then show "egress_inv (tr @ eff) s'"
    by (cases s, cases s') (auto intro: step_fifo step_once step_typed step_truthful)
qed

lemma egress_run_trace: "egress_run ops st = egress_machine.trace_run ops st"
  by (induction ops arbitrary: st) (simp_all split: prod.split)

lemma egress_inv_spawn: "egress_inv [] (sh, spawn_egress)"
  by (simp add: spawn_egress_def lanes_fifo_def receipts_once_def lanes_typed_def receipts_truthful_def trace_defs)

lemma egress_run_inv: "egress_run ops (sh, spawn_egress) = (tr, sh', e) \<Longrightarrow> egress_inv tr (sh', e)"
  using egress_machine.trace_run_good [OF egress_inv_spawn, of ops sh tr "(sh', e)"] by (simp add: egress_run_trace)

section \<open>Flushing\<close>

fun data_effects :: "egress_item \<Rightarrow> egress_effect list" where
  "data_effects (Frame_Item f (Some r)) = [Wrote Data_Lane f, Receipt r True]"
| "data_effects (Frame_Item f None) = [Wrote Data_Lane f]"
| "data_effects Close_Item = []"

definition drain_turns :: "nat \<Rightarrow> egress_op list" where
  "drain_turns n = concat (replicate n [Select, Write_Done True])"

lemma drain_turns_simps [simp]:
  "drain_turns 0 = []" "drain_turns (Suc n) = Select # Write_Done True # drain_turns n"
  by (simp_all add: drain_turns_def)

lemma egress_run_append:
  "egress_run (ops @ ops') st = (case egress_run ops st of (eff, st') \<Rightarrow> case egress_run ops' st' of (eff', st'') \<Rightarrow> (eff @ eff', st''))"
  by (induction ops arbitrary: st) (simp_all split: prod.split)

lemma idle_turns: "eg_phase e = Shutting \<Longrightarrow> egress_run (drain_turns n) (sh, e) = ([], sh, e)"
  by (induction n) (simp_all add: drain_select_def drain_wrote_def)

lemma flush_data:
  assumes "eg_phase e = Draining" "eg_handles e" "eg_control e = []" "eg_data e = q @ [Close_Item]" "Close_Item \<notin> set q" "length q < n"
  shows "egress_run (drain_turns n) (sh, e) = (concat (map data_effects q), sh, e\<lparr>eg_data := [], eg_phase := Shutting\<rparr>)"
  using assms
proof (induction q arbitrary: e n)
  case Nil
  then show ?case
    by (cases n) (simp_all add: drain_select_def drain_wrote_def idle_turns)
next
  case (Cons i q)
  obtain f r where i: "i = Frame_Item f r"
    using Cons.prems by (cases i) auto
  obtain m where n: "n = Suc m" "length q < m"
    using Cons.prems by (cases n) auto
  show ?case
    using Cons.IH [of "e\<lparr>eg_data := q @ [Close_Item], eg_phase := Draining\<rparr>" m] Cons.prems i n
    by (cases r) (simp_all add: drain_select_def drain_wrote_def)
qed

lemma flush_all:
  assumes "eg_phase e = Draining" "eg_handles e" "eg_control_open e" "\<forall>i \<in> set c. \<exists>f. i = Frame_Item f None"
    and "eg_control e = c" "eg_data e = q @ [Close_Item]" "Close_Item \<notin> set q" "length c + length q < n"
  shows "egress_run (drain_turns n) (sh, e) =
    (map (Wrote Control_Lane) (pick item_frame c) @ concat (map data_effects q), sh,
     e\<lparr>eg_control := [], eg_data := [], eg_phase := Shutting\<rparr>)"
  using assms
proof (induction c arbitrary: e n)
  case Nil
  then show ?case
    using flush_data [of e q n sh] by (cases e) simp
next
  case (Cons i c)
  obtain f where i: "i = Frame_Item f None"
    using Cons.prems by auto
  obtain m where n: "n = Suc m" "length c + length q < m"
    using Cons.prems by (cases n) auto
  show ?case
    using Cons.IH [of "e\<lparr>eg_control := c, eg_phase := Draining\<rparr>" m] Cons.prems i n
    by (simp add: drain_select_def drain_wrote_def)
qed

lemma run_disconnected:
  assumes "\<forall>sh. Interfere sh \<notin> set ops" "egress_run ops (sh, e) = (tr, sh', e')" "\<not> sh_connected sh"
  shows "\<not> sh_connected sh'"
  using assms
proof (induction ops arbitrary: sh e tr)
  case (Cons op ops)
  obtain x sh1 e1 where s: "egress_step op (sh, e) = (x, sh1, e1)"
    by (metis prod_cases3)
  have "\<not> sh_connected sh1"
    using s Cons.prems by (cases op) (auto simp: egress_op_defs Let_def mark_closed_def split: if_splits drain_phase.splits)
  then show ?case
    using Cons s by (auto split: prod.splits)
qed simp

section \<open>Properties\<close>

text \<open>
  C34. The wire order of an egress. For every interleaving of handle operations, drain steps, write
  outcomes and changes of the shared flags, the frames written on a lane are the first of the frames
  accepted on that lane, in the order of acceptance; while the drain loop runs nothing is lost: the
  accepted frames are the written ones, the one in hand and the queue.
\<close>

theorem egress_lanes_fifo:
  assumes "egress_run ops (sh, spawn_egress) = (tr, sh', e)"
  shows "prefix (pick (wrote_on l) tr) (pick (queued_on l) tr) \<and>
    (looping e \<longrightarrow> pick (queued_on l) tr = pick (wrote_on l) tr @ waiting l e)"
  using egress_run_inv [OF assms] by (simp add: lanes_fifo_def)

text \<open>Two data frames and a control frame submitted while the first data frame is being written.\<close>

definition sample_egress_ops :: "egress_op list" where
  "sample_egress_ops = [Send_Acked [1], Select, Send_Faf [2], Send_Control [3], Write_Done True, Select]"

definition live_shared :: conn_shared where
  "live_shared = \<lparr>sh_connected = True, sh_closed = False, sh_pending = []\<rparr>"

theorem egress_lanes_fifo_witness:
  "\<exists>tr sh e. egress_run sample_egress_ops (live_shared, spawn_egress) = (tr, sh, e) \<and>
    pick (queued_on Data_Lane) tr = [[1], [2]] \<and> pick (wrote_on Data_Lane) tr = [[1]] \<and> waiting Data_Lane e = [[2]] \<and>
    eg_phase e = Writing Control_Lane [3] None"
proof -
  obtain tr sh e where r: "egress_run sample_egress_ops (live_shared, spawn_egress) = (tr, sh, e)"
    by (metis prod_cases3)
  have v: "pick (wrote_on Data_Lane) tr = [[1]]" "waiting Data_Lane e = [[2]]" "eg_phase e = Writing Control_Lane [3] None"
    using r by (auto simp: sample_egress_ops_def live_shared_def spawn_egress_def egress_op_defs waiting_def Let_def)
  then have "pick (queued_on Data_Lane) tr = [[1], [2]]"
    using egress_lanes_fifo [OF r, of Data_Lane] by (simp add: looping_def)
  with r v show ?thesis
    by blast
qed

text \<open>
  C39. Receipts. Every write receipt issued by \<open>send_acked\<close> is answered at most once, and an answer
  belongs to an issued receipt; once the drain task is gone all of them have been answered, so no
  caller waits for ever; and a positive answer follows the write of the very frame it was issued for.
\<close>

theorem egress_receipts_answered:
  assumes "egress_run ops (sh, spawn_egress) = (tr, sh', e)"
  shows "distinct (pick issued_receipt tr) \<and> distinct (pick answered_receipt tr) \<and>
    set (pick answered_receipt tr) \<subseteq> set (pick issued_receipt tr) \<and>
    (eg_phase e = Gone \<longrightarrow> set (pick answered_receipt tr) = set (pick issued_receipt tr)) \<and>
    receipts_truthful tr"
proof -
  note i = egress_run_inv [OF assms]
  have once: "pick issued_receipt tr = [0..<eg_next_receipt e]"
      "mset (pick issued_receipt tr) = mset (pick answered_receipt tr) + mset (outstanding e)"
    using i unfolding egress_inv.simps receipts_once_def by blast+
  have "distinct (pick answered_receipt tr @ outstanding e)"
    using once by (metis distinct_upt mset_append mset_eq_imp_distinct_iff)
  moreover have "set (pick issued_receipt tr) = set (pick answered_receipt tr) \<union> set (outstanding e)"
    using once(2) by (metis mset_append mset_eq_setD set_append)
  moreover have "outstanding e = []" if "eg_phase e = Gone"
    using i that by (simp add: lanes_typed_def outstanding_def)
  ultimately show ?thesis
    using i once(1) by auto
qed

theorem egress_receipts_answered_witness:
  "\<exists>tr sh e. egress_run [Send_Acked [1], Send_Acked [2], Select, Write_Done True, Select, Write_Done False, Shutdown_Done]
      (live_shared, spawn_egress) = (tr, sh, e) \<and>
    set (pick answered_receipt tr) = {0, 1} \<and> Receipt 0 True \<in> set tr \<and> Receipt 1 False \<in> set tr \<and> receipts_truthful tr"
proof -
  let ?ops = "[Send_Acked [1], Send_Acked [2], Select, Write_Done True, Select, Write_Done False, Shutdown_Done]"
  obtain tr sh e where r: "egress_run ?ops (live_shared, spawn_egress) = (tr, sh, e)"
    by (metis prod_cases3)
  have v: "eg_phase e = Gone" "pick issued_receipt tr = [0, 1]" "Receipt 0 True \<in> set tr" "Receipt 1 False \<in> set tr"
    using r by (auto simp: live_shared_def spawn_egress_def egress_op_defs pending_waiters_def Let_def)
  then show ?thesis
    using egress_receipts_answered [OF r] r by fastforce
qed

text \<open>
  C35. Graceful teardown. Closing an idle egress whose writes succeed drains it in one turn per queued
  frame and one more: first every control frame, then every data frame, each in order, each receipt
  answered positively after its frame; then the writer is shut down and the task is gone. The
  connection is marked disconnected and closed.
\<close>

theorem egress_close_flushes:
  assumes "eg_phase e = Draining" "eg_handles e" "eg_control_open e"
    and "\<forall>i \<in> set (eg_control e). \<exists>f. i = Frame_Item f None" "Close_Item \<notin> set (eg_data e)"
    and "length (eg_control e) + length (eg_data e) < n"
  shows "\<exists>e'. egress_run (Close_Op # drain_turns n @ [Shutdown_Done]) (sh, e) =
      (map (Wrote Control_Lane) (pick item_frame (eg_control e)) @ concat (map data_effects (eg_data e)) @ [Writer_Shutdown],
       sh\<lparr>sh_connected := False, sh_closed := True\<rparr>, e') \<and> eg_phase e' = Gone"
proof -
  have "egress_run (drain_turns n) (sh\<lparr>sh_connected := False, sh_closed := True\<rparr>, e\<lparr>eg_data := eg_data e @ [Close_Item]\<rparr>)
    = (map (Wrote Control_Lane) (pick item_frame (eg_control e)) @ concat (map data_effects (eg_data e)),
       sh\<lparr>sh_connected := False, sh_closed := True\<rparr>, e\<lparr>eg_control := [], eg_data := [], eg_phase := Shutting\<rparr>)"
    using flush_all [of "e\<lparr>eg_data := eg_data e @ [Close_Item]\<rparr>" "eg_control e" "eg_data e"] assms by (cases e) simp
  then show ?thesis
    using assms(1,2) by (simp add: egress_run_append egress_close_def mark_closed_def drain_exit_def)
qed

theorem egress_close_flushes_witness:
  "\<exists>e'. egress_run (Close_Op # drain_turns 4 @ [Shutdown_Done])
      (live_shared, spawn_egress\<lparr>eg_data := [Frame_Item [1] (Some 0), Frame_Item [2] None], eg_control := [Frame_Item [3] None]\<rparr>) =
    ([Wrote Control_Lane [3], Wrote Data_Lane [1], Receipt 0 True, Wrote Data_Lane [2], Writer_Shutdown],
     \<lparr>sh_connected = False, sh_closed = True, sh_pending = []\<rparr>, e') \<and> eg_phase e' = Gone"
  using egress_close_flushes [of "spawn_egress\<lparr>eg_data := [Frame_Item [1] (Some 0), Frame_Item [2] None], eg_control := [Frame_Item [3] None]\<rparr>"
      4 live_shared]
  by (simp add: spawn_egress_def live_shared_def)

text \<open>
  A failed write kills the connection at once. It marks it disconnected and closed, drops every
  request waiter, and, as long as nobody reconnects, every later send is refused whatever else happens.
\<close>

theorem egress_failure_rejects:
  assumes "eg_phase e = Writing l f r" "drain_wrote False (sh, e) = (eff, sh1, e1)"
    and "\<forall>sh. Interfere sh \<notin> set ops" "egress_run ops (sh1, e1) = (tr, sh2, e2)"
  shows "sh_pending sh1 = [] \<and> sh_closed sh1 \<and> (\<forall>w \<in> set (pending_waiters (sh_pending sh)). Waiter_Dropped w \<in> set eff) \<and>
    fst (egress_send_acked g (sh2, e2)) = Inl NotConnected \<and> fst (egress_send_faf g (sh2, e2)) = Inl NotConnected \<and>
    fst (egress_send_control g (sh2, e2)) = Inl NotConnected"
proof -
  have dead: "\<not> sh_connected sh1 \<and> sh_pending sh1 = [] \<and> sh_closed sh1 \<and> map Waiter_Dropped (pending_waiters (sh_pending sh)) = filter (\<lambda>x. \<exists>w. x = Waiter_Dropped w) eff"
    using assms(1,2) by (auto simp: egress_op_defs Let_def filter_id_conv split: if_splits option.splits)
  then have "\<not> sh_connected sh2"
    using run_disconnected [OF assms(3,4)] by blast
  then show ?thesis
    using dead by (auto simp: egress_op_defs dest!: arg_cong [where f = set])
qed

theorem egress_failure_rejects_witness:
  "\<exists>eff sh e. drain_wrote False (live_shared\<lparr>sh_pending := [(''r1'', Respond 7)]\<rparr>, spawn_egress\<lparr>eg_phase := Writing Data_Lane [1] None\<rparr>) = (eff, sh, e) \<and>
    sh_pending sh = [] \<and> Waiter_Dropped 7 \<in> set eff \<and> fst (egress_send_acked [2] (sh, e)) = Inl NotConnected"
proof -
  let ?sh = "live_shared\<lparr>sh_pending := [(''r1'', Respond 7)]\<rparr>"
  let ?e = "spawn_egress\<lparr>eg_phase := Writing Data_Lane [1] None\<rparr>"
  obtain eff sh e where d: "drain_wrote False (?sh, ?e) = (eff, sh, e)"
    by (metis prod_cases3)
  show ?thesis
    using egress_failure_rejects [of ?e Data_Lane "[1]" None ?sh eff sh e "[]" "[]" sh e "[2]"] d
    by (simp add: pending_waiters_def)
qed

end
