(* ===== verification/Socket_Transport.thy ===== *)
theory Socket_Transport
  imports Egress
begin

text \<open>
  The socket transport, \<open>src/src/carrier/socket.rs\<close>, with \<open>encode_data_json_frame\<close> of
  \<open>src/src/carrier/mod.rs\<close>.

  A transport outlives its connections: the \<open>connected\<close> flag, the close broadcast, the request table,
  the request handler and the transfer hooks are shared by every connection it opens, while each
  connection has its own egress, frame reader and dispatch task. Tasks are state machines whose steps
  are their suspension points. The JSON text of envelopes, the checksum, the outcome of reads, writes
  and connection attempts and the fresh ids of \<open>Uuid::new_v4\<close> are parameters.
\<close>

section \<open>Envelopes on the wire\<close>

record socket_env =
  sv_crc :: crc_fn
  sv_to_vec :: "xacpp_envelope \<Rightarrow> string + bytes"
  sv_from_slice :: "bytes \<Rightarrow> xacpp_envelope option"

definition encode_data_json_frame :: "crc_fn \<Rightarrow> txid \<Rightarrow> bytes \<Rightarrow> xacpp_error + bytes" where
  "encode_data_json_frame crc uuid payload =
    map_err (\<lambda>e. Internal (frame_error_text e))
      (frame_encode crc (frame_new DataJson uuid (of_nat (length payload)) 0 payload))"

definition serialize_envelope :: "socket_env \<Rightarrow> txid \<Rightarrow> xacpp_envelope \<Rightarrow> xacpp_error + bytes" where
  "serialize_envelope ev uuid msg =
    (case sv_to_vec ev msg of
       Inl e \<Rightarrow> Inl (Internal e)
     | Inr json \<Rightarrow> encode_data_json_frame (sv_crc ev) uuid json)"

section \<open>State\<close>

datatype inbox_item = Payload bytes | Io_Error

record connection =
  cn_egress :: egress
  cn_reading :: bool
  cn_decoder :: frame_decoder
  cn_backlog :: "frame list"
  cn_sending :: "inbox_item option"
  cn_inbox :: "inbox_item list"
  cn_dispatching :: bool
  cn_awaiting :: "nat option"

text \<open>
  A request in progress: its id, the write receipt it still waits for (connection and number), and the
  reply or failure its one-shot channel holds.
\<close>

record call =
  ca_id :: string
  ca_receipt :: "(nat \<times> nat) option"
  ca_reply :: "(xacpp_error + xacpp_response) option"

record inflight =
  in_id :: string
  in_sid :: "string option"
  in_conn :: nat

record socket_transport =
  so_client :: bool
  so_parked_writer :: bool
  so_reader :: bool
  so_egress :: "nat option"
  so_shared :: conn_shared
  so_handler :: bool
  so_dispatch :: "nat option"
  so_inflight :: "inflight list"
  so_next_id :: nat
  so_hooks :: "nat option"
  so_connecting :: "nat option"
  so_conns :: "connection list"
  so_calls :: "(nat, call) hash_map"
  so_next_waiter :: nat

datatype socket_effect =
    On_Wire nat bytes
  | Hook_Activity nat
  | Hook_Frame nat frame
  | Handle_Request nat string "string option" xacpp_request
  | Returned nat "xacpp_error + xacpp_response"

definition INBOX_CAP :: nat where
  "INBOX_CAP = 256"

definition socket_new_impl :: "bool \<Rightarrow> bool \<Rightarrow> socket_transport" where
  "socket_new_impl parked addr =
    \<lparr>so_client = addr, so_parked_writer = parked, so_reader = parked, so_egress = None,
     so_shared = \<lparr>sh_connected = False, sh_closed = False, sh_pending = []\<rparr>,
     so_handler = False, so_dispatch = None, so_inflight = [], so_next_id = 1, so_hooks = None,
     so_connecting = None, so_conns = [], so_calls = [], so_next_waiter = 0\<rparr>"

definition socket_connect_to :: socket_transport where
  "socket_connect_to = socket_new_impl False True"

definition socket_new :: socket_transport where
  "socket_new = socket_new_impl True False"

text \<open>\<open>format!("r{}", ..)\<close> of a 64-bit counter, which wraps.\<close>

definition request_id :: "nat \<Rightarrow> string" where
  "request_id n = CHR ''r'' # show_nat n"

definition socket_next_id :: "socket_transport \<Rightarrow> string \<times> socket_transport" where
  "socket_next_id so = (request_id (so_next_id so mod 2 ^ 64), so\<lparr>so_next_id := so_next_id so + 1\<rparr>)"

definition update_conn :: "nat \<Rightarrow> (connection \<Rightarrow> connection) \<Rightarrow> socket_transport \<Rightarrow> socket_transport" where
  "update_conn c f so = (if c < length (so_conns so) then so\<lparr>so_conns := (so_conns so)[c := f (so_conns so ! c)]\<rparr> else so)"

definition set_pending :: "(string, pending_slot) hash_map \<Rightarrow> socket_transport \<Rightarrow> socket_transport" where
  "set_pending m so = so\<lparr>so_shared := (so_shared so)\<lparr>sh_pending := m\<rparr>\<rparr>"

section \<open>Requests in progress\<close>

text \<open>\<open>send\<close> returns once its frame is written and its one-shot channel resolved.\<close>

definition settle_call :: "nat \<Rightarrow> socket_transport \<Rightarrow> socket_effect list \<times> socket_transport" where
  "settle_call w so =
    (case hm_get (so_calls so) w of
       None \<Rightarrow> ([], so)
     | Some ca \<Rightarrow>
       (case (ca_receipt ca, ca_reply ca) of
          (None, Some r) \<Rightarrow> ([Returned w r], so\<lparr>so_calls := hm_del w (so_calls so)\<rparr>)
        | _ \<Rightarrow> ([], so)))"

definition reply_call :: "nat \<Rightarrow> xacpp_error + xacpp_response \<Rightarrow> socket_transport \<Rightarrow> socket_effect list \<times> socket_transport" where
  "reply_call w r so =
    (case hm_get (so_calls so) w of
       None \<Rightarrow> ([], so)
     | Some ca \<Rightarrow> settle_call w (so\<lparr>so_calls := hm_put w (ca\<lparr>ca_reply := Some r\<rparr>) (so_calls so)\<rparr>))"

definition receipt_call :: "nat \<Rightarrow> nat \<Rightarrow> bool \<Rightarrow> socket_transport \<Rightarrow> socket_effect list \<times> socket_transport" where
  "receipt_call c r ok so =
    (case find (\<lambda>(w, ca). ca_receipt ca = Some (c, r)) (so_calls so) of
       None \<Rightarrow> ([], so)
     | Some (w, ca) \<Rightarrow>
       if ok then settle_call w (so\<lparr>so_calls := hm_put w (ca\<lparr>ca_receipt := None\<rparr>) (so_calls so)\<rparr>)
       else ([Returned w (Inl Closed)],
         set_pending (hm_del (ca_id ca) (sh_pending (so_shared so))) (so\<lparr>so_calls := hm_del w (so_calls so)\<rparr>)))"

definition receipt_arrives :: "nat \<Rightarrow> nat \<Rightarrow> bool \<Rightarrow> socket_transport \<Rightarrow> socket_effect list \<times> socket_transport" where
  "receipt_arrives c r ok so =
    receipt_call c r ok
      (update_conn c (\<lambda>cn. if cn_awaiting cn = Some r then cn\<lparr>cn_awaiting := None\<rparr> else cn) so)"

fun absorb_one :: "nat \<Rightarrow> egress_effect \<Rightarrow> socket_transport \<Rightarrow> socket_effect list \<times> socket_transport" where
  "absorb_one c (Wrote _ f) so = ([On_Wire c f], so)"
| "absorb_one c (Receipt r ok) so = receipt_arrives c r ok so"
| "absorb_one c (Receipt_Dropped r) so = receipt_arrives c r False so"
| "absorb_one c (Waiter_Dropped w) so = reply_call w (Inl Closed) so"
| "absorb_one c _ so = ([], so)"

fun absorb :: "nat \<Rightarrow> egress_effect list \<Rightarrow> socket_transport \<Rightarrow> socket_effect list \<times> socket_transport" where
  "absorb c [] so = ([], so)"
| "absorb c (x # xs) so =
    (case absorb_one c x so of (eff, so') \<Rightarrow> case absorb c xs so' of (eff', so'') \<Rightarrow> (eff @ eff', so''))"

text \<open>An egress operation on connection \<open>c\<close>, with what it does to the rest of the transport.\<close>

definition with_egress :: "nat \<Rightarrow> egress_op \<Rightarrow> socket_transport \<Rightarrow> socket_effect list \<times> socket_transport" where
  "with_egress c op so =
    (if c < length (so_conns so) then
       case egress_step op (so_shared so, cn_egress (so_conns so ! c)) of
         (eff, sh, e) \<Rightarrow> absorb c eff (update_conn c (\<lambda>cn. cn\<lparr>cn_egress := e\<rparr>) (so\<lparr>so_shared := sh\<rparr>))
     else ([], so))"

definition clear_pending :: "socket_transport \<Rightarrow> socket_effect list \<times> socket_transport" where
  "clear_pending so = (case pending_clear (so_shared so) of (eff, sh) \<Rightarrow> absorb 0 eff (so\<lparr>so_shared := sh\<rparr>))"

section \<open>Connecting and disconnecting\<close>

definition new_connection :: connection where
  "new_connection =
    \<lparr>cn_egress = spawn_egress, cn_reading = True, cn_decoder = decoder_new, cn_backlog = [], cn_sending = None,
     cn_inbox = [], cn_dispatching = True, cn_awaiting = None\<rparr>"

text \<open>
  \<open>connect\<close> in two parts, because the tasks it spawns run before it publishes the connection: the
  first obtains the stream (\<open>tcp\<close> is the outcome of the attempt) and spawns them, the second stores
  \<open>connected\<close> and the dispatch task's handle. The connection lock is held in between.
\<close>

definition spawn_tasks :: "socket_transport \<Rightarrow> socket_transport" where
  "spawn_tasks so =
    so\<lparr>so_conns := so_conns so @ [new_connection], so_egress := Some (length (so_conns so)),
       so_connecting := Some (length (so_conns so))\<rparr>"

definition connect_open :: "xacpp_error + unit \<Rightarrow> socket_transport \<Rightarrow> (xacpp_error + unit) \<times> socket_transport" where
  "connect_open tcp so =
    (if sh_connected (so_shared so) then (Inl AlreadyConnected, so)
     else if so_client so then
       (case tcp of Inl e \<Rightarrow> (Inl e, so) | Inr _ \<Rightarrow> (Inr (), spawn_tasks so))
     else if \<not> so_parked_writer so then (Inl AlreadyConnected, so)
     else if \<not> so_reader so then (Inl AlreadyConnected, so\<lparr>so_parked_writer := False\<rparr>)
     else (Inr (), spawn_tasks (so\<lparr>so_parked_writer := False, so_reader := False\<rparr>)))"

definition connect_publish :: "socket_transport \<Rightarrow> socket_transport" where
  "connect_publish so =
    (case so_connecting so of
       None \<Rightarrow> so
     | Some c \<Rightarrow> so\<lparr>so_shared := (so_shared so)\<lparr>sh_connected := True\<rparr>, so_dispatch := Some c, so_connecting := None\<rparr>)"

definition stop_dispatch :: "nat \<Rightarrow> socket_transport \<Rightarrow> socket_transport" where
  "stop_dispatch c = update_conn c (\<lambda>cn. cn\<lparr>cn_dispatching := False, cn_inbox := [], cn_awaiting := None\<rparr>)"

definition socket_disconnect :: "socket_transport \<Rightarrow> socket_effect list \<times> socket_transport" where
  "socket_disconnect so =
    (let so1 = so\<lparr>so_hooks := None, so_shared := (so_shared so)\<lparr>sh_connected := False\<rparr>\<rparr>;
         (eff1, so2) = (case so_egress so1 of
                          None \<Rightarrow> ([], so1)
                        | Some c \<Rightarrow> with_egress c Close_Op (so1\<lparr>so_egress := None\<rparr>));
         so3 = (case so_dispatch so2 of
                  None \<Rightarrow> so2
                | Some c \<Rightarrow> stop_dispatch c (so2\<lparr>so_dispatch := None\<rparr>));
         (eff2, so4) = clear_pending (so3\<lparr>so_inflight := []\<rparr>)
     in (eff1 @ eff2, so4))"

definition socket_on_request :: "bool \<Rightarrow> socket_transport \<Rightarrow> (xacpp_error + unit) \<times> socket_transport" where
  "socket_on_request contended so =
    (if sh_connected (so_shared so) then (Inl AlreadyConnected, so)
     else if contended
       then (Inl (InvalidState ''on_request: request handler lock contention before connect''), so)
     else (Inr (), so\<lparr>so_handler := True\<rparr>))"

section \<open>Sending\<close>

text \<open>
  \<open>send\<close> up to the point where it waits; an accepted call is identified by its one-shot channel.
  \<open>settle_call\<close> and \<open>receipt_call\<close> above are its end.
\<close>

definition socket_send ::
  "socket_env \<Rightarrow> txid \<Rightarrow> string option \<Rightarrow> xacpp_request \<Rightarrow> socket_transport \<Rightarrow> (xacpp_error + nat) \<times> socket_transport" where
  "socket_send ev uuid sid payload so =
    (let (i, so1) = socket_next_id so in
     case serialize_envelope ev uuid (Request_Env i sid payload) of
       Inl e \<Rightarrow> (Inl e, so1)
     | Inr frame \<Rightarrow>
       let w = so_next_waiter so1;
           so2 = set_pending (hm_put i (Respond w) (sh_pending (so_shared so1))) (so1\<lparr>so_next_waiter := Suc w\<rparr>)
       in case so_egress so2 of
            None \<Rightarrow> (Inl NotConnected, so2)
          | Some c \<Rightarrow>
            (case egress_send_acked frame (so_shared so2, cn_egress (so_conns so2 ! c)) of
               (Inl e, _, _) \<Rightarrow> (Inl e, set_pending (hm_del i (sh_pending (so_shared so2))) so2)
             | (Inr r, _, e) \<Rightarrow>
               (Inr w, update_conn c (\<lambda>cn. cn\<lparr>cn_egress := e\<rparr>)
                 (so2\<lparr>so_calls := hm_put w \<lparr>ca_id = i, ca_receipt = Some (c, r), ca_reply = None\<rparr> (so_calls so2)\<rparr>))))"

definition socket_send_faf ::
  "socket_env \<Rightarrow> txid \<Rightarrow> string option \<Rightarrow> xacpp_request \<Rightarrow> socket_transport \<Rightarrow> (xacpp_error + unit) \<times> socket_transport" where
  "socket_send_faf ev uuid sid payload so =
    (let (i, so1) = socket_next_id so in
     case serialize_envelope ev uuid (Request_Env i sid payload) of
       Inl e \<Rightarrow> (Inl e, so1)
     | Inr frame \<Rightarrow>
       let so2 = set_pending (hm_put i Drop_Slot (sh_pending (so_shared so1))) so1
       in case so_egress so2 of
            None \<Rightarrow> (Inl NotConnected, so2)
          | Some c \<Rightarrow>
            (case egress_send_faf frame (so_shared so2, cn_egress (so_conns so2 ! c)) of
               (Inl e, _, _) \<Rightarrow> (Inl e, set_pending (hm_del i (sh_pending (so_shared so2))) so2)
             | (Inr _, _, e) \<Rightarrow> (Inr (), update_conn c (\<lambda>cn. cn\<lparr>cn_egress := e\<rparr>) so2)))"

definition socket_write_control_frame :: "bytes \<Rightarrow> socket_transport \<Rightarrow> (xacpp_error + unit) \<times> socket_transport" where
  "socket_write_control_frame bs so =
    (case so_egress so of
       None \<Rightarrow> (Inl NotConnected, so)
     | Some c \<Rightarrow>
       (case egress_send_control bs (so_shared so, cn_egress (so_conns so ! c)) of
          (r, _, e) \<Rightarrow> (r, update_conn c (\<lambda>cn. cn\<lparr>cn_egress := e\<rparr>) so)))"

definition socket_write_data_frame :: "crc_fn \<Rightarrow> frame \<Rightarrow> socket_transport \<Rightarrow> (xacpp_error + unit) \<times> socket_transport" where
  "socket_write_data_frame crc f so =
    (case so_egress so of
       None \<Rightarrow> (Inl NotConnected, so)
     | Some c \<Rightarrow>
       (case frame_encode crc f of
          Inl e \<Rightarrow> (Inl (Internal (frame_error_text e)), so)
        | Inr bs \<Rightarrow>
          (case egress_send_faf bs (so_shared so, cn_egress (so_conns so ! c)) of
             (r, _, e) \<Rightarrow> (r, update_conn c (\<lambda>cn. cn\<lparr>cn_egress := e\<rparr>) so))))"

definition socket_on_transfer_activity :: "nat option \<Rightarrow> socket_transport \<Rightarrow> socket_transport" where
  "socket_on_transfer_activity handlers so = so\<lparr>so_hooks := handlers\<rparr>"

section \<open>The frame reader\<close>

datatype read_result = Read_Eof | Read_Bytes bytes | Read_Error

definition detach_hooks :: "socket_transport \<Rightarrow> socket_transport" where
  "detach_hooks so = so\<lparr>so_hooks := None\<rparr>"

text \<open>One read of the stream; the next comes only when its frames are routed.\<close>

definition reader_read :: "crc_fn \<Rightarrow> nat \<Rightarrow> read_result \<Rightarrow> socket_transport \<Rightarrow> socket_transport" where
  "reader_read crc c input so =
    (let cn = so_conns so ! c in
     if \<not> cn_reading cn \<or> cn_backlog cn \<noteq> [] \<or> cn_sending cn \<noteq> None then so
     else case input of
         Read_Eof \<Rightarrow> detach_hooks (update_conn c (\<lambda>cn. cn\<lparr>cn_reading := False\<rparr>) so)
       | Read_Error \<Rightarrow> update_conn c (\<lambda>cn. cn\<lparr>cn_sending := Some Io_Error\<rparr>) so
       | Read_Bytes bs \<Rightarrow>
         (case feed crc (cn_decoder cn) bs of
            (Inr fs, d) \<Rightarrow> update_conn c (\<lambda>cn. cn\<lparr>cn_decoder := d, cn_backlog := fs\<rparr>) so
          | (Inl _, d) \<Rightarrow> update_conn c (\<lambda>cn. cn\<lparr>cn_decoder := d, cn_sending := Some Io_Error\<rparr>) so))"

definition reader_route :: "nat \<Rightarrow> socket_transport \<Rightarrow> socket_effect list \<times> socket_transport" where
  "reader_route c so =
    (let cn = so_conns so ! c in
     if \<not> cn_reading cn \<or> cn_sending cn \<noteq> None then ([], so)
     else case cn_backlog cn of
         [] \<Rightarrow> ([], so)
       | f # fs \<Rightarrow>
         (if f_type f = DataJson then
            (case so_hooks so of None \<Rightarrow> [] | Some h \<Rightarrow> [Hook_Activity h],
             update_conn c (\<lambda>cn. cn\<lparr>cn_backlog := fs, cn_sending := Some (Payload (f_payload f))\<rparr>) so)
          else
            (case so_hooks so of None \<Rightarrow> [] | Some h \<Rightarrow> [Hook_Frame h f],
             update_conn c (\<lambda>cn. cn\<lparr>cn_backlog := fs\<rparr>) so)))"

text \<open>
  The pending \<open>frame_tx.send\<close>: it waits while the channel is full and fails once the dispatch task
  is gone. The error item is the reader's last.
\<close>

definition reader_forward :: "nat \<Rightarrow> socket_transport \<Rightarrow> socket_transport" where
  "reader_forward c so =
    (let cn = so_conns so ! c in
     case cn_sending cn of
       None \<Rightarrow> so
     | Some i \<Rightarrow>
       if cn_dispatching cn \<and> length (cn_inbox cn) \<ge> INBOX_CAP then so
       else
         let so1 = update_conn c (\<lambda>cn. cn\<lparr>cn_sending := None,
                     cn_inbox := (if cn_dispatching cn then cn_inbox cn @ [i] else cn_inbox cn),
                     cn_reading := (cn_dispatching cn \<and> i \<noteq> Io_Error),
                     cn_backlog := (if cn_dispatching cn \<and> i \<noteq> Io_Error then cn_backlog cn else [])\<rparr>) so
         in if i = Io_Error then detach_hooks so1 else so1)"

section \<open>The dispatch task\<close>

definition response_frame :: "socket_env \<Rightarrow> txid \<Rightarrow> string \<Rightarrow> string option \<Rightarrow> xacpp_response \<Rightarrow> xacpp_error + bytes" where
  "response_frame ev uuid i sid payload = serialize_envelope ev uuid (Response_Env i sid payload)"

definition no_handler_response :: xacpp_response where
  "no_handler_response = Error_Resp ''no_handler'' ''no handler registered''"

definition dispatch_cleanup :: "nat \<Rightarrow> socket_transport \<Rightarrow> socket_effect list \<times> socket_transport" where
  "dispatch_cleanup c so =
    (let (eff1, so1) = clear_pending (so\<lparr>so_shared := (so_shared so)\<lparr>sh_connected := False\<rparr>\<rparr>);
         (eff2, so2) = with_egress c Close_Op so1
     in (eff1 @ eff2, stop_dispatch c so2))"

definition dispatch_envelope ::
  "socket_env \<Rightarrow> txid \<Rightarrow> nat \<Rightarrow> xacpp_envelope \<Rightarrow> socket_transport \<Rightarrow> socket_effect list \<times> socket_transport" where
  "dispatch_envelope ev uuid c msg so =
    (case msg of
       Request_Env i sid payload \<Rightarrow>
         if so_handler so then
           ([Handle_Request c i sid payload],
            so\<lparr>so_inflight := so_inflight so @ [\<lparr>in_id = i, in_sid = sid, in_conn = c\<rparr>]\<rparr>)
         else
           (case response_frame ev uuid i sid no_handler_response of
              Inl _ \<Rightarrow> ([], so)
            | Inr frame \<Rightarrow>
              (case egress_send_acked frame (so_shared so, cn_egress (so_conns so ! c)) of
                 (Inl _, _, _) \<Rightarrow> ([], so)
               | (Inr r, _, e) \<Rightarrow> ([], update_conn c (\<lambda>cn. cn\<lparr>cn_egress := e, cn_awaiting := Some r\<rparr>) so)))
     | Response_Env i _ payload \<Rightarrow>
         let so1 = set_pending (hm_del i (sh_pending (so_shared so))) so
         in case hm_get (sh_pending (so_shared so)) i of
              Some (Respond w) \<Rightarrow> reply_call w (Inr payload) so1
            | _ \<Rightarrow> ([], so1))"

definition dispatch_step :: "socket_env \<Rightarrow> txid \<Rightarrow> nat \<Rightarrow> socket_transport \<Rightarrow> socket_effect list \<times> socket_transport" where
  "dispatch_step ev uuid c so =
    (let cn = so_conns so ! c in
     if \<not> cn_dispatching cn \<or> cn_awaiting cn \<noteq> None then ([], so)
     else case cn_inbox cn of
         [] \<Rightarrow> (if cn_reading cn \<or> cn_sending cn \<noteq> None then ([], so) else dispatch_cleanup c so)
       | Io_Error # q \<Rightarrow> dispatch_cleanup c so
       | Payload d # q \<Rightarrow>
         let so1 = update_conn c (\<lambda>cn. cn\<lparr>cn_inbox := q\<rparr>) so
         in case sv_from_slice ev d of
              None \<Rightarrow> ([], so1)
            | Some msg \<Rightarrow> dispatch_envelope ev uuid c msg so1)"

text \<open>A handler task ends: its result becomes the response, queued on the connection it came from.\<close>

fun handler_response :: "xacpp_error + xacpp_response \<Rightarrow> xacpp_response" where
  "handler_response (Inr payload) = payload"
| "handler_response (Inl e) = Error_Resp (xacpp_error_code e) (xacpp_error_text e)"

definition handler_done ::
  "socket_env \<Rightarrow> txid \<Rightarrow> nat \<Rightarrow> xacpp_error + xacpp_response \<Rightarrow> socket_transport \<Rightarrow> socket_transport" where
  "handler_done ev uuid k result so =
    (if k < length (so_inflight so) then
       let t = so_inflight so ! k;
           so1 = so\<lparr>so_inflight := take k (so_inflight so) @ drop (Suc k) (so_inflight so)\<rparr>
       in case response_frame ev uuid (in_id t) (in_sid t) (handler_response result) of
            Inl _ \<Rightarrow> so1
          | Inr frame \<Rightarrow>
            (case egress_send_acked frame (so_shared so1, cn_egress (so_conns so1 ! in_conn t)) of
               (_, _, e) \<Rightarrow> update_conn (in_conn t) (\<lambda>cn. cn\<lparr>cn_egress := e\<rparr>) so1)
     else so)"

section \<open>Runs\<close>

datatype socket_op =
    Op_Connect "xacpp_error + unit"
  | Op_Publish
  | Op_Disconnect
  | Op_On_Request bool
  | Op_Hooks "nat option"
  | Op_Send txid "string option" xacpp_request
  | Op_Send_Faf txid "string option" xacpp_request
  | Op_Write_Control bytes
  | Op_Write_Data frame
  | Op_Read nat read_result
  | Op_Route nat
  | Op_Forward nat
  | Op_Dispatch txid nat
  | Op_Handler txid nat "xacpp_error + xacpp_response"
  | Op_Select nat
  | Op_Write_Done nat bool
  | Op_Shutdown_Done nat

text \<open>Tasks run for opened connections only; the connection lock excludes \<open>connect\<close> and \<open>disconnect\<close> while a connection is being opened.\<close>

definition at_conn ::
  "nat \<Rightarrow> (socket_transport \<Rightarrow> socket_effect list \<times> socket_transport) \<Rightarrow> socket_transport \<Rightarrow> socket_effect list \<times> socket_transport" where
  "at_conn c f so = (if c < length (so_conns so) then f so else ([], so))"

fun socket_step :: "socket_env \<Rightarrow> socket_op \<Rightarrow> socket_transport \<Rightarrow> socket_effect list \<times> socket_transport" where
  "socket_step ev (Op_Connect tcp) so = ([], if so_connecting so = None then snd (connect_open tcp so) else so)"
| "socket_step ev Op_Publish so = ([], connect_publish so)"
| "socket_step ev Op_Disconnect so = (if so_connecting so = None then socket_disconnect so else ([], so))"
| "socket_step ev (Op_On_Request contended) so = ([], snd (socket_on_request contended so))"
| "socket_step ev (Op_Hooks h) so = ([], socket_on_transfer_activity h so)"
| "socket_step ev (Op_Send uuid sid payload) so = ([], snd (socket_send ev uuid sid payload so))"
| "socket_step ev (Op_Send_Faf uuid sid payload) so = ([], snd (socket_send_faf ev uuid sid payload so))"
| "socket_step ev (Op_Write_Control bs) so = ([], snd (socket_write_control_frame bs so))"
| "socket_step ev (Op_Write_Data f) so = ([], snd (socket_write_data_frame (sv_crc ev) f so))"
| "socket_step ev (Op_Read c input) so = at_conn c (\<lambda>so. ([], reader_read (sv_crc ev) c input so)) so"
| "socket_step ev (Op_Route c) so = at_conn c (reader_route c) so"
| "socket_step ev (Op_Forward c) so = at_conn c (\<lambda>so. ([], reader_forward c so)) so"
| "socket_step ev (Op_Dispatch uuid c) so = at_conn c (dispatch_step ev uuid c) so"
| "socket_step ev (Op_Handler uuid k result) so = ([], handler_done ev uuid k result so)"
| "socket_step ev (Op_Select c) so = with_egress c Select so"
| "socket_step ev (Op_Write_Done c ok) so = with_egress c (Write_Done ok) so"
| "socket_step ev (Op_Shutdown_Done c) so = with_egress c Shutdown_Done so"

fun socket_run :: "socket_env \<Rightarrow> socket_op list \<Rightarrow> socket_transport \<Rightarrow> socket_effect list \<times> socket_transport" where
  "socket_run ev [] so = ([], so)"
| "socket_run ev (op # ops) so =
    (case socket_step ev op so of (eff, so') \<Rightarrow> case socket_run ev ops so' of (eff', so'') \<Rightarrow> (eff @ eff', so''))"

section \<open>Request ids\<close>

lemma digit_inj: "m < 10 \<Longrightarrow> n < 10 \<Longrightarrow> digit m = digit n \<Longrightarrow> m = n"
proof -
  assume "m < 10" and "n < 10" and eq: "digit m = digit n"
  have "(of_char (digit k) :: nat) = 48 + k" if "k < 10" for k
    using that by (simp add: of_char_digit)
  then have "48 + m = 48 + n"
    using \<open>m < 10\<close> \<open>n < 10\<close> eq by metis
  then show "m = n"
    by simp
qed

lemma show_small: "n < 10 \<Longrightarrow> show_base 10 n = [digit n]"
  by (subst show_base.simps) simp

lemma show_large: "\<not> n < 10 \<Longrightarrow> show_base 10 n = show_base 10 (n div 10) @ [digit (n mod 10)]"
  by (subst show_base.simps) simp

lemma show_nonempty: "show_base 10 n \<noteq> []"
  by (cases "n < 10") (simp_all add: show_small show_large)

lemma show_base_inj: "show_base 10 m = show_base 10 n \<Longrightarrow> m = n"
proof (induction m arbitrary: n rule: less_induct)
  case (less m)
  consider "m < 10" "n < 10" | "m < 10" "\<not> n < 10" | "\<not> m < 10" "n < 10" | "\<not> m < 10" "\<not> n < 10"
    by blast
  then show ?case
  proof cases
    case 1
    then show ?thesis
      using less.prems by (simp add: show_small digit_inj)
  next
    case 4
    then have "show_base 10 (m div 10) = show_base 10 (n div 10)" "digit (m mod 10) = digit (n mod 10)"
      using less.prems by (simp_all add: show_large)
    then have "m div 10 = n div 10" "m mod 10 = n mod 10"
      using less.IH [of "m div 10" "n div 10"] 4 digit_inj [of "m mod 10" "n mod 10"] by auto
    then show ?thesis
      by (metis div_mult_mod_eq)
  qed (use less.prems in \<open>simp_all add: show_small show_large show_nonempty show_nonempty [symmetric]\<close>)
qed

lemma request_id_eq [simp]: "request_id m = request_id n \<longleftrightarrow> m = n"
  using show_base_inj by (auto simp: request_id_def show_nat_def)

end
