(* ===== verification/Socket_Calls.thy ===== *)
theory Socket_Calls
  imports Socket_Transport
begin

text \<open>
  The life of a request on the socket transport: every accepted call returns at most once, keeps a slot
  in the request table while it waits for its response, and returns when the connection ends.
\<close>

section \<open>Egress receipts, locally\<close>

definition egress_ok :: "egress \<Rightarrow> bool" where
  "egress_ok e \<longleftrightarrow>
    (\<forall>i \<in> set (eg_control e). item_receipt i = None) \<and>
    (\<forall>f r. eg_phase e = Writing Control_Lane f r \<longrightarrow> r = None) \<and>
    (eg_phase e = Gone \<longrightarrow> eg_data e = []) \<and> eg_handles e \<and>
    (\<forall>r \<in> set (outstanding e). r < eg_next_receipt e)"

lemma hand_receipt_writing: "hand_receipt (Writing l f r) = (case r of Some n \<Rightarrow> [n] | None \<Rightarrow> [])"
  by (cases r) simp_all

lemmas egress_split = if_splits drain_phase.splits egress_item.splits list.splits option.splits prod.splits

text \<open>What a drain step keeps; an answered receipt is no longer outstanding, the others are.\<close>

definition egress_keeps :: "egress \<Rightarrow> egress_effect list \<Rightarrow> egress \<Rightarrow> bool" where
  "egress_keeps e eff e' \<longleftrightarrow>
    egress_ok e' \<and> set (outstanding e) \<subseteq> set (outstanding e') \<union> set (pick answered_receipt eff)"

lemma select_keeps: "egress_ok e \<Longrightarrow> egress_keeps e [] (drain_select e)"
  by (auto simp: egress_keeps_def egress_ok_def drain_select_def outstanding_def hand_receipt_writing
      split: drain_phase.splits if_splits list.splits egress_item.splits option.splits)

lemma wrote_keeps: "egress_ok e \<Longrightarrow> drain_wrote ok (sh, e) = (eff, sh', e') \<Longrightarrow> egress_keeps e eff e'"
  by (auto simp: egress_keeps_def egress_ok_def drain_wrote_def connection_dead_def pending_clear_def outstanding_def
      hand_receipt_writing pick_map comp_def Let_def split: drain_phase.splits if_splits option.splits)

lemma exit_keeps: "egress_ok e \<Longrightarrow> drain_exit e = (eff, e') \<Longrightarrow> egress_keeps e eff e'"
  by (auto simp: egress_keeps_def egress_ok_def drain_exit_def outstanding_def pick_map comp_def split: if_splits)

lemma close_keeps: "egress_ok e \<Longrightarrow> egress_close (sh, e) = (sh', e') \<Longrightarrow> egress_keeps e [] e'"
  by (auto simp: egress_keeps_def egress_ok_def egress_close_def outstanding_def split: if_splits)

lemma egress_drain_step:
  assumes "egress_ok e" "egress_step op (sh, e) = (eff, sh', e')"
    and "op \<in> {Close_Op, Select, Write_Done ok, Shutdown_Done}"
  shows "egress_keeps e eff e'"
proof -
  have "eg_handles e"
    using assms(1) by (simp add: egress_ok_def)
  then show ?thesis
    using assms by (auto simp: select_keeps close_keeps exit_keeps wrote_keeps split: prod.splits)
qed

lemma egress_pending_step:
  assumes "egress_step op (sh, e) = (eff, sh', e')" "op \<in> {Close_Op, Select, Write_Done ok, Shutdown_Done}"
  shows "sh_pending sh' = sh_pending sh \<or>
    sh_pending sh' = [] \<and> (\<forall>w \<in> set (pending_waiters (sh_pending sh)). Waiter_Dropped w \<in> set eff)"
  using assms by (auto simp: egress_op_defs mark_closed_def Let_def split: egress_split)

section \<open>The invariant of the calls\<close>

text \<open>
  While the effects of an egress step are absorbed, some receipts of one connection are answered and
  some waiters dropped but not yet processed: \<open>R\<close> and \<open>W\<close>.
\<close>

definition call_ok :: "nat \<Rightarrow> nat set \<Rightarrow> nat set \<Rightarrow> socket_transport \<Rightarrow> nat \<Rightarrow> call \<Rightarrow> bool" where
  "call_ok c R W so w ca \<longleftrightarrow>
    w < so_next_waiter so \<and> (\<exists>k < so_next_id so. ca_id ca = request_id k) \<and>
    (ca_receipt ca = None \<longrightarrow> ca_reply ca = None) \<and>
    (ca_reply ca = None \<longrightarrow> hm_get (sh_pending (so_shared so)) (ca_id ca) = Some (Respond w) \<or> w \<in> W) \<and>
    (\<forall>c' r. ca_receipt ca = Some (c', r) \<longrightarrow>
      c' < length (so_conns so) \<and> (r \<in> set (outstanding (cn_egress (so_conns so ! c'))) \<or> c' = c \<and> r \<in> R))"

definition calls_distinct :: "(nat, call) hash_map \<Rightarrow> bool" where
  "calls_distinct m \<longleftrightarrow>
    (\<forall>w w' ca ca'. hm_get m w = Some ca \<longrightarrow> hm_get m w' = Some ca' \<longrightarrow> w \<noteq> w' \<longrightarrow>
      ca_id ca \<noteq> ca_id ca' \<and> (ca_receipt ca = ca_receipt ca' \<longrightarrow> ca_receipt ca = None))"

text \<open>A slot leads to the call that registered it, if that call is still in progress.\<close>

definition slots_ok :: "(string, pending_slot) hash_map \<Rightarrow> (nat, call) hash_map \<Rightarrow> nat \<Rightarrow> bool" where
  "slots_ok p m n \<longleftrightarrow>
    (\<forall>i w. hm_get p i = Some (Respond w) \<longrightarrow> w < n \<and> (\<forall>ca. hm_get m w = Some ca \<longrightarrow> ca_id ca = i))"

lemma slots_ok_mono:
  assumes "slots_ok p m n" "\<And>i w. hm_get p' i = Some (Respond w) \<Longrightarrow> hm_get p i = Some (Respond w)"
    and "\<And>w ca'. hm_get m' w = Some ca' \<Longrightarrow> \<exists>ca. hm_get m w = Some ca \<and> ca_id ca' = ca_id ca" "n \<le> n'"
  shows "slots_ok p' m' n'"
  using assms unfolding slots_ok_def by (metis less_le_trans)

lemma slots_ok_reserve:
  assumes "slots_ok p m n" "hm_get m n = None" "\<And>i. i \<noteq> j \<Longrightarrow> hm_get p' i = hm_get p i" "\<And>w. hm_get p' j = Some (Respond w) \<Longrightarrow> w = n"
  shows "slots_ok p' m (Suc n)"
  using assms unfolding slots_ok_def by (metis less_Suc_eq option.distinct(1))

lemma slots_ok_add:
  assumes "slots_ok p m n" "\<And>i. hm_get p i = Some (Respond w) \<Longrightarrow> i = ca_id ca"
  shows "slots_ok p (hm_put w ca m) n"
  using assms unfolding slots_ok_def by auto

fun returned_waiter :: "socket_effect \<Rightarrow> nat option" where
  "returned_waiter (Returned w _) = Some w"
| "returned_waiter _ = None"

definition returned_once :: "socket_effect list \<Rightarrow> socket_transport \<Rightarrow> bool" where
  "returned_once tr so \<longleftrightarrow>
    distinct (pick returned_waiter tr) \<and>
    (\<forall>w \<in> set (pick returned_waiter tr). w < so_next_waiter so \<and> hm_get (so_calls so) w = None)"

definition calls_inv :: "nat \<Rightarrow> nat set \<Rightarrow> nat set \<Rightarrow> socket_effect list \<Rightarrow> socket_transport \<Rightarrow> bool" where
  "calls_inv c R W tr so \<longleftrightarrow>
    hm_inv (so_calls so) \<and> calls_distinct (so_calls so) \<and> returned_once tr so \<and>
    slots_ok (sh_pending (so_shared so)) (so_calls so) (so_next_waiter so) \<and>
    (\<forall>w ca. hm_get (so_calls so) w = Some ca \<longrightarrow> call_ok c R W so w ca) \<and>
    (\<forall>cn \<in> set (so_conns so). egress_ok (cn_egress cn)) \<and>
    (\<forall>c. so_egress so = Some c \<or> so_connecting so = Some c \<or> so_dispatch so = Some c \<longrightarrow> c < length (so_conns so)) \<and>
    (\<forall>t \<in> set (so_inflight so). in_conn t < length (so_conns so))"

lemma distinct_del: "calls_distinct m \<Longrightarrow> calls_distinct (hm_del w m)"
  by (auto simp: calls_distinct_def split: if_splits)

lemma distinct_put_same:
  assumes "calls_distinct m" "hm_get m w = Some ca" "ca_id ca' = ca_id ca" "ca_receipt ca' = ca_receipt ca \<or> ca_receipt ca' = None"
  shows "calls_distinct (hm_put w ca' m)"
  using assms by (fastforce simp: calls_distinct_def split: if_splits)

text \<open>A call ends: it is removed and reported; the table may lose its slot.\<close>

lemma calls_inv_return:
  assumes "calls_inv c R W tr so" "hm_get (so_calls so) w = Some ca"
    and "\<And>i. hm_get m i = (if i = ca_id ca \<and> b then None else hm_get (sh_pending (so_shared so)) i)"
  shows "calls_inv c R W (tr @ [Returned w r]) (set_pending m (so\<lparr>so_calls := hm_del w (so_calls so)\<rparr>))"
proof -
  have "slots_ok (sh_pending (so_shared so)) (so_calls so) (so_next_waiter so)"
    using assms(1) by (simp add: calls_inv_def)
  then have "slots_ok m (hm_del w (so_calls so)) (so_next_waiter so)"
    by (rule slots_ok_mono) (auto simp: assms(3) split: if_splits)
  then show ?thesis
    using assms unfolding calls_inv_def
    by (auto simp: distinct_del returned_once_def call_ok_def set_pending_def calls_distinct_def split: if_splits)
qed

text \<open>A call's record changes without ending it.\<close>

lemma calls_inv_update:
  assumes "calls_inv c R W tr so" "hm_get (so_calls so) w = Some ca" "call_ok c R' W' so w ca'"
    and "ca_id ca' = ca_id ca" "ca_receipt ca' = ca_receipt ca \<or> ca_receipt ca' = None"
    and "\<And>w' ca''. w' \<noteq> w \<Longrightarrow> hm_get (so_calls so) w' = Some ca'' \<Longrightarrow> call_ok c R W so w' ca'' \<Longrightarrow> call_ok c R' W' so w' ca''"
  shows "calls_inv c R' W' tr (so\<lparr>so_calls := hm_put w ca' (so_calls so)\<rparr>)"
proof -
  have "slots_ok (sh_pending (so_shared so)) (so_calls so) (so_next_waiter so)"
    using assms(1) by (simp add: calls_inv_def)
  then have "slots_ok (sh_pending (so_shared so)) (hm_put w ca' (so_calls so)) (so_next_waiter so)"
    by (rule slots_ok_mono) (use assms(2,4) in \<open>auto split: if_splits\<close>)
  then show ?thesis
    using assms unfolding calls_inv_def
    by (auto simp: distinct_put_same returned_once_def call_ok_def split: if_splits)
qed

section \<open>Absorbing egress effects\<close>

lemma hm_del_put [simp]: "hm_del w (hm_put w x m) = hm_del w m"
  unfolding hm_del_def hm_put_def by (induction m) (auto simp: AList.delete_eq)

lemma calls_inv_skip:
  assumes "calls_inv c R W tr so"
    and "\<And>w ca. hm_get (so_calls so) w = Some ca \<Longrightarrow> call_ok c R W so w ca \<Longrightarrow> call_ok c R' W' so w ca"
  shows "calls_inv c R' W' tr so"
  using assms by (auto simp: calls_inv_def)

lemma set_pending_id [simp]: "set_pending (sh_pending (so_shared so)) so = so"
  by (simp add: set_pending_def)

lemma reply_call_inv:
  assumes i: "calls_inv c R (insert w W) tr so" and "reply_call w r so = (eff, so')"
  shows "calls_inv c R W (tr @ eff) so'"
proof (cases "hm_get (so_calls so) w")
  case None
  then have "calls_inv c R W tr so"
    by (intro calls_inv_skip [OF i]) (auto simp: call_ok_def)
  then show ?thesis
    using assms(2) None by (simp add: reply_call_def)
next
  case (Some ca)
  have ok: "call_ok c R (insert w W) so w ca"
    using i Some by (simp add: calls_inv_def)
  show ?thesis
  proof (cases "ca_receipt ca")
    case None
    then have "calls_inv c R (insert w W) (tr @ eff) so'"
      using assms Some calls_inv_return [OF i Some, of "sh_pending (so_shared so)" False r]
      by (auto simp: reply_call_def settle_call_def set_pending_def)
    moreover have "hm_get (so_calls so') w = None"
      using assms(2) Some None by (auto simp: reply_call_def settle_call_def)
    ultimately show ?thesis
      by (auto simp: call_ok_def elim!: calls_inv_skip)
  next
    case (Some cr)
    then have "calls_inv c R W tr (so\<lparr>so_calls := hm_put w (ca\<lparr>ca_reply := Some r\<rparr>) (so_calls so)\<rparr>)"
      using ok by (intro calls_inv_update [OF i \<open>hm_get (so_calls so) w = Some ca\<close>]) (auto simp: call_ok_def)
    then show ?thesis
      using assms(2) Some \<open>hm_get (so_calls so) w = Some ca\<close> by (auto simp: reply_call_def settle_call_def)
  qed
qed

lemma find_call:
  assumes "hm_inv m"
  shows "find (\<lambda>(w, ca). ca_receipt ca = Some cr) m = Some (w, ca) \<Longrightarrow> hm_get m w = Some ca \<and> ca_receipt ca = Some cr"
    and "find (\<lambda>(w, ca). ca_receipt ca = Some cr) m = None \<Longrightarrow> hm_get m w = Some ca \<Longrightarrow> ca_receipt ca \<noteq> Some cr"
  using assms by (auto simp: find_Some_iff find_None_iff hm_in_set [symmetric]) (metis nth_mem)

lemma call_ok_answered:
  "call_ok c (insert r R) W so w ca \<Longrightarrow> ca_receipt ca \<noteq> Some (c, r) \<Longrightarrow> call_ok c R W so w ca"
  by (auto simp: call_ok_def)

lemma receipt_call_inv:
  assumes i: "calls_inv c (insert r R) W tr so" and "receipt_call c r ok so = (eff, so')"
  shows "calls_inv c R W (tr @ eff) so'"
proof (cases "find (\<lambda>(w, ca). ca_receipt ca = Some (c, r)) (so_calls so)")
  case None
  have "ca_receipt ca \<noteq> Some (c, r)" if "hm_get (so_calls so) w = Some ca" for w ca
    using find_call(2) [OF _ None that] i by (simp add: calls_inv_def)
  then have "calls_inv c R W tr so"
    by (blast intro: calls_inv_skip [OF i] call_ok_answered)
  then show ?thesis
    using assms(2) None by (simp add: receipt_call_def)
next
  case (Some wca)
  obtain w ca where wca: "wca = (w, ca)"
    by (cases wca)
  have ca: "hm_get (so_calls so) w = Some ca" "ca_receipt ca = Some (c, r)"
    using find_call(1) [OF _ Some [unfolded wca]] i by (simp_all add: calls_inv_def)
  have ok: "call_ok c (insert r R) W so w ca"
    using i ca by (simp add: calls_inv_def)
  have others: "ca_receipt ca' \<noteq> Some (c, r)" if "w' \<noteq> w" "hm_get (so_calls so) w' = Some ca'" for w' ca'
    using i that ca unfolding calls_inv_def calls_distinct_def by (metis option.distinct(1))
  show ?thesis
  proof (cases "ok \<and> ca_reply ca = None")
    case True
    then have "calls_inv c R W tr (so\<lparr>so_calls := hm_put w (ca\<lparr>ca_receipt := None\<rparr>) (so_calls so)\<rparr>)"
      using ok others True by (intro calls_inv_update [OF i ca(1)]) (auto simp: call_ok_def)
    then show ?thesis
      using assms(2) Some wca True by (auto simp: receipt_call_def settle_call_def)
  next
    case False
    obtain m x b where m: "so' = set_pending m (so\<lparr>so_calls := hm_del w (so_calls so)\<rparr>)" "eff = [Returned w x]"
      "\<And>j. hm_get m j = (if j = ca_id ca \<and> b then None else hm_get (sh_pending (so_shared so)) j)"
    proof (cases ok)
      case True
      then show ?thesis
        using assms(2) Some wca False that [of "sh_pending (so_shared so)" _ False]
        by (auto simp: receipt_call_def settle_call_def set_pending_def)
    next
      case False
      then show ?thesis
        using assms(2) Some wca that [of "hm_del (ca_id ca) (sh_pending (so_shared so))" _ True]
        by (auto simp: receipt_call_def set_pending_def)
    qed
    have x: "calls_inv c (insert r R) W (tr @ eff) so'"
      using calls_inv_return [OF i ca(1) m(3)] m by simp
    show ?thesis
    proof (rule calls_inv_skip [OF x])
      fix w' ca'
      assume get: "hm_get (so_calls so') w' = Some ca'" and "call_ok c (insert r R) W so' w' ca'"
      moreover have "ca_receipt ca' \<noteq> Some (c, r)"
        using get m(1) others [of w' ca'] by (auto simp: set_pending_def split: if_splits)
      ultimately show "call_ok c R W so' w' ca'"
        by (blast intro: call_ok_answered)
    qed
  qed
qed

text \<open>Changes of a connection outside its egress, and of other fields, do not matter.\<close>

lemma conns_update: "(xs[c := y]) ! j = (if j = c \<and> c < length xs then y else xs ! j)"
  by (cases "c < length xs") (simp_all add: nth_list_update list_update_beyond)

lemma update_conn_inv:
  assumes "calls_inv c R W tr so" "\<And>cn. cn_egress (f cn) = cn_egress cn"
  shows "calls_inv c R W tr (update_conn c' f so)"
proof (cases "c' < length (so_conns so)")
  case True
  have "egress_ok (cn_egress cn)" if "cn \<in> set ((so_conns so)[c' := f (so_conns so ! c')])" for cn
    using assms that True set_update_subset_insert [of "so_conns so" c' "f (so_conns so ! c')"] nth_mem [OF True]
    by (auto simp: calls_inv_def)
  moreover have "cn_egress ((so_conns so)[c' := f (so_conns so ! c')] ! j) = cn_egress (so_conns so ! j)" for j
    using assms(2) by (simp add: conns_update)
  ultimately show ?thesis
    using assms(1) True by (simp add: update_conn_def calls_inv_def call_ok_def returned_once_def)
qed (use assms in \<open>simp add: update_conn_def\<close>)

lemma receipt_arrives_inv:
  assumes "calls_inv c (insert r R) W tr so" "receipt_arrives c r ok so = (eff, so')"
  shows "calls_inv c R W (tr @ eff) so'"
  using assms(2) unfolding receipt_arrives_def
  by (intro receipt_call_inv [OF update_conn_inv [OF assms(1)]]) auto

fun dropped_waiter :: "egress_effect \<Rightarrow> nat option" where
  "dropped_waiter (Waiter_Dropped w) = Some w"
| "dropped_waiter _ = None"

lemma calls_inv_trace:
  "pick returned_waiter eff = [] \<Longrightarrow> calls_inv c R W tr so \<Longrightarrow> calls_inv c R W (tr @ eff) so"
  by (simp add: calls_inv_def returned_once_def)

lemma absorb_one_inv:
  assumes "calls_inv c (set (pick answered_receipt [x]) \<union> R) (set (pick dropped_waiter [x]) \<union> W) tr so"
    and "absorb_one c x so = (eff, so')"
  shows "calls_inv c R W (tr @ eff) so'"
proof (cases x)
  case (Wrote l f)
  then show ?thesis
    using assms calls_inv_trace [of "[On_Wire c f]"] by auto
qed (use assms in \<open>auto intro: receipt_arrives_inv reply_call_inv\<close>)

lemma absorb_inv:
  "calls_inv c (set (pick answered_receipt xs) \<union> R) (set (pick dropped_waiter xs) \<union> W) tr so \<Longrightarrow>
   absorb c xs so = (eff, so') \<Longrightarrow> calls_inv c R W (tr @ eff) so'"
proof (induction xs arbitrary: tr so eff)
  case (Cons x xs)
  obtain e1 so1 where one: "absorb_one c x so = (e1, so1)"
    by (cases "absorb_one c x so")
  obtain e2 where rest: "absorb c xs so1 = (e2, so')" "eff = e1 @ e2"
    using Cons.prems(2) one by (auto split: prod.splits)
  have "pick g (x # xs) = pick g [x] @ pick g xs" for g :: "egress_effect \<Rightarrow> nat option"
    using pick_append [of g "[x]" xs] by (simp only: append_Cons append_Nil)
  then have "calls_inv c (set (pick answered_receipt [x]) \<union> (set (pick answered_receipt xs) \<union> R))
      (set (pick dropped_waiter [x]) \<union> (set (pick dropped_waiter xs) \<union> W)) tr so"
    using Cons.prems(1) by (simp only: set_append Un_assoc)
  from Cons.IH [OF absorb_one_inv [OF this one] rest(1)] show ?case
    by (simp add: rest(2))
qed simp

section \<open>Operations\<close>

lemma calls_inv_any: "calls_inv c {} W tr so \<Longrightarrow> calls_inv c' {} W tr so"
  by (simp add: calls_inv_def call_ok_def)

text \<open>A new egress state for one connection, with the receipts it answers still to be processed.\<close>

lemma set_egress_inv:
  assumes "calls_inv c {} W tr so" "egress_ok e"
    and "set (outstanding (cn_egress (so_conns so ! c))) \<subseteq> set (outstanding e) \<union> R"
    and "\<And>cn. cn_egress (f cn) = e"
  shows "calls_inv c R W tr (update_conn c f so)"
proof (cases "c < length (so_conns so)")
  case True
  have "egress_ok (cn_egress cn)" if "cn \<in> set ((so_conns so)[c := f (so_conns so ! c)])" for cn
    using assms that set_update_subset_insert [of "so_conns so" c "f (so_conns so ! c)"]
    by (auto simp: calls_inv_def)
  moreover have "call_ok c R W (update_conn c f so) w ca" if "call_ok c {} W so w ca" for w ca
    using that assms(3,4) True by (auto simp: call_ok_def update_conn_def conns_update)
  ultimately show ?thesis
    using assms(1) True by (auto simp: update_conn_def calls_inv_def returned_once_def)
next
  case False
  then show ?thesis
    using assms(1) by (auto simp: update_conn_def calls_inv_def call_ok_def)
qed

text \<open>A new request table that keeps the slots the calls rely on, up to dropped waiters.\<close>

lemma set_shared_inv:
  assumes "calls_inv c R W tr so"
    and "\<And>w ca. hm_get (so_calls so) w = Some ca \<Longrightarrow> ca_reply ca = None \<Longrightarrow>
      hm_get (sh_pending (so_shared so)) (ca_id ca) = Some (Respond w) \<Longrightarrow>
      hm_get (sh_pending sh) (ca_id ca) = Some (Respond w) \<or> w \<in> W'"
    and "slots_ok (sh_pending sh) (so_calls so) (so_next_waiter so)"
    and "W \<subseteq> W'"
  shows "calls_inv c R W' tr (so\<lparr>so_shared := sh\<rparr>)"
  using assms by (fastforce simp: calls_inv_def call_ok_def returned_once_def)

lemma slots_inv:
  assumes "calls_inv c R W tr so" "\<And>i w. hm_get p i = Some (Respond w) \<Longrightarrow> hm_get (sh_pending (so_shared so)) i = Some (Respond w)"
  shows "slots_ok p (so_calls so) (so_next_waiter so)"
  using assms unfolding calls_inv_def by (elim conjE) (erule slots_ok_mono; auto)

lemma pending_waiters_get: "hm_get m i = Some (Respond w) \<Longrightarrow> w \<in> set (pending_waiters m)"
  by (induction m) (auto simp: pending_waiters_def hm_get_def split: if_splits option.splits)

lemma pick_dropped: "Waiter_Dropped w \<in> set eff \<Longrightarrow> w \<in> set (pick dropped_waiter eff)"
  by (induction eff) (auto split: option.splits)

lemma with_egress_inv:
  assumes i: "calls_inv c {} {} tr so" and w: "with_egress c op so = (eff, so')"
    and op: "op \<in> {Close_Op, Select, Write_Done ok, Shutdown_Done}"
  shows "calls_inv c {} {} (tr @ eff) so'"
proof (cases "c < length (so_conns so)")
  case True
  let ?e = "cn_egress (so_conns so ! c)"
  obtain xs sh e where s: "egress_step op (so_shared so, ?e) = (xs, sh, e)"
    by (metis prod_cases3)
  have ok: "egress_ok ?e"
    using i nth_mem [OF True] by (simp add: calls_inv_def)
  note k = egress_drain_step [OF ok s op]
  have "calls_inv c {} (set (pick dropped_waiter xs)) tr (so\<lparr>so_shared := sh\<rparr>)"
    using egress_pending_step [OF s op]
    by (intro set_shared_inv [OF i] slots_inv [OF i]) (auto dest: pending_waiters_get intro: pick_dropped)
  then have "calls_inv c (set (pick answered_receipt xs)) (set (pick dropped_waiter xs)) tr
      (update_conn c (\<lambda>cn. cn\<lparr>cn_egress := e\<rparr>) (so\<lparr>so_shared := sh\<rparr>))"
    using k by (intro set_egress_inv [where e = e]) (simp_all add: egress_keeps_def)
  then show ?thesis
    using absorb_inv [of c xs "{}" "{}" tr] w s True by (simp add: with_egress_def)
next
  case False
  then show ?thesis
    using i w by (simp add: with_egress_def)
qed

lemma clear_pending_inv:
  assumes "calls_inv c {} {} tr so" "clear_pending so = (eff, so')"
  shows "calls_inv c {} {} (tr @ eff) so'"
proof -
  let ?xs = "map Waiter_Dropped (pending_waiters (sh_pending (so_shared so)))"
  have "calls_inv 0 {} (set (pick dropped_waiter ?xs)) tr (so\<lparr>so_shared := (so_shared so)\<lparr>sh_pending := []\<rparr>\<rparr>)"
    by (intro set_shared_inv [OF calls_inv_any [OF assms(1)]] slots_inv [OF assms(1)])
      (auto dest: pending_waiters_get simp: pick_map comp_def)
  then have "calls_inv 0 {} {} (tr @ eff) so'"
    using absorb_inv [of 0 ?xs "{}" "{}"] assms(2)
    by (simp add: clear_pending_def pending_clear_def pick_map comp_def)
  then show ?thesis
    by (rule calls_inv_any)
qed

lemma calls_inv_cong:
  assumes "calls_inv c R W tr so" "so_calls so' = so_calls so" "sh_pending (so_shared so') = sh_pending (so_shared so)"
    and "so_conns so' = so_conns so" "so_next_waiter so' = so_next_waiter so" "so_next_id so \<le> so_next_id so'"
    and "\<And>c. so_egress so' = Some c \<or> so_connecting so' = Some c \<or> so_dispatch so' = Some c \<Longrightarrow> c < length (so_conns so)"
    and "set (so_inflight so') \<subseteq> set (so_inflight so)"
  shows "calls_inv c R W tr so'"
  using assms unfolding calls_inv_def call_ok_def returned_once_def by (simp, meson less_le_trans subsetD)

text \<open>Enqueueing.\<close>

lemma acked_keeps:
  assumes "egress_ok e" "egress_send_acked f (sh, e) = (res, x, e')"
  shows "egress_ok e'" "set (outstanding e) \<subseteq> set (outstanding e')"
    and "res = Inr r \<Longrightarrow> r \<in> set (outstanding e') \<and> r \<notin> set (outstanding e)"
  using assms by (auto simp: egress_send_acked_def egress_ok_def outstanding_def less_Suc_eq split: if_splits)

lemma faf_keeps:
  assumes "egress_ok e" "egress_send_faf f (sh, e) = (res, x, e') \<or> egress_send_control f (sh, e) = (res, x, e')"
  shows "egress_ok e'" "set (outstanding e) \<subseteq> set (outstanding e')"
  using assms by (auto simp: egress_send_faf_def egress_send_control_def egress_ok_def outstanding_def split: if_splits)

lemma egress_of_conn: "calls_inv c R W tr so \<Longrightarrow> so_egress so = Some c' \<Longrightarrow> egress_ok (cn_egress (so_conns so ! c')) \<and> c' < length (so_conns so)"
  by (simp add: calls_inv_def)

lemma enqueue_inv:
  assumes "calls_inv c {} {} tr so" "egress_ok e" "set (outstanding (cn_egress (so_conns so ! c'))) \<subseteq> set (outstanding e)"
    and "\<And>cn. cn_egress (f cn) = e"
  shows "calls_inv c {} {} tr (update_conn c' f so)"
  using set_egress_inv [OF calls_inv_any [OF assms(1)], of e c' "{}" f] assms(2-) by (auto intro: calls_inv_any)

lemma reserve_inv:
  assumes i: "calls_inv c {} {} tr so" and "so_next_id so < 2 ^ 64" "socket_next_id so = (j, so1)"
  shows "calls_inv c {} {} tr so1"
    and "\<And>p. (\<And>k. k \<noteq> j \<Longrightarrow> hm_get p k = hm_get (sh_pending (so_shared so1)) k) \<Longrightarrow> (\<And>w. hm_get p j \<noteq> Some (Respond w)) \<Longrightarrow>
      calls_inv c {} {} tr (set_pending p so1)"
    and "\<And>p. (\<And>k. k \<noteq> j \<Longrightarrow> hm_get p k = hm_get (sh_pending (so_shared so1)) k) \<Longrightarrow>
      (\<And>w. hm_get p j = Some (Respond w) \<Longrightarrow> w = so_next_waiter so1) \<Longrightarrow>
      calls_inv c {} {} tr (set_pending p (so1\<lparr>so_next_waiter := Suc (so_next_waiter so1)\<rparr>))"
    and "hm_get (so_calls so) (so_next_waiter so1) = None \<and> so_next_waiter so1 \<notin> set (pick returned_waiter tr)"
    and "\<And>w ca. hm_get (so_calls so) w = Some ca \<Longrightarrow> ca_id ca \<noteq> j"
    and "j = request_id (so_next_id so)" "so_next_id so < so_next_id so1"
proof -
  show j: "j = request_id (so_next_id so)" "so_next_id so < so_next_id so1"
    using assms(2,3) by (auto simp: socket_next_id_def)
  show i1: "calls_inv c {} {} tr so1"
    using assms(3) by (intro calls_inv_cong [OF i]) (use i in \<open>auto simp: socket_next_id_def calls_inv_def\<close>)
  show fresh: "ca_id ca \<noteq> j" if "hm_get (so_calls so) w = Some ca" for w ca
    using i that j(1) unfolding calls_inv_def call_ok_def by force
  then have fresh1: "ca_id ca \<noteq> j" if "hm_get (so_calls so1) w = Some ca" for w ca
    using that assms(3) by (auto simp: socket_next_id_def)
  show w: "hm_get (so_calls so) (so_next_waiter so1) = None \<and> so_next_waiter so1 \<notin> set (pick returned_waiter tr)"
    using i assms(3) unfolding calls_inv_def call_ok_def returned_once_def socket_next_id_def
    by (cases "hm_get (so_calls so) (so_next_waiter so)") force+
  fix p
  assume p: "\<And>k. k \<noteq> j \<Longrightarrow> hm_get p k = hm_get (sh_pending (so_shared so1)) k"
  { assume "\<And>w. hm_get p j \<noteq> Some (Respond w)"
    then have "slots_ok p (so_calls so1) (so_next_waiter so1)"
      using p by (intro slots_inv [OF i1]) metis
    then show "calls_inv c {} {} tr (set_pending p so1)"
      unfolding set_pending_def using p fresh1 by (intro set_shared_inv [OF i1]) auto }
  { assume q: "\<And>w. hm_get p j = Some (Respond w) \<Longrightarrow> w = so_next_waiter so1"
    have s1: "slots_ok (sh_pending (so_shared so1)) (so_calls so1) (so_next_waiter so1)"
      using i1 by (simp add: calls_inv_def)
    have c1: "so_calls so1 = so_calls so"
      using assms(3) by (auto simp: socket_next_id_def)
    have "calls_inv c {} {} tr (so1\<lparr>so_next_waiter := Suc (so_next_waiter so1)\<rparr>)"
      using i1 slots_ok_mono [OF s1] by (auto simp: calls_inv_def call_ok_def returned_once_def less_Suc_eq)
    then show "calls_inv c {} {} tr (set_pending p (so1\<lparr>so_next_waiter := Suc (so_next_waiter so1)\<rparr>))"
      unfolding set_pending_def using p q fresh1 w c1 slots_ok_reserve [OF s1, of j p]
      by (intro set_shared_inv) auto }
qed

lemma add_call_inv:
  assumes i: "calls_inv c {} {} tr so" and "w < so_next_waiter so" "hm_get (so_calls so) w = None" "w \<notin> set (pick returned_waiter tr)"
    and "\<And>j. hm_get (sh_pending (so_shared so)) j = Some (Respond w) \<Longrightarrow> j = ca_id ca"
    and "call_ok c {} {} so w ca" "\<And>w' ca'. hm_get (so_calls so) w' = Some ca' \<Longrightarrow> ca_id ca' \<noteq> ca_id ca \<and> ca_receipt ca' \<noteq> ca_receipt ca"
  shows "calls_inv c {} {} tr (so\<lparr>so_calls := hm_put w ca (so_calls so)\<rparr>)"
proof -
  have "calls_distinct (hm_put w ca (so_calls so))"
    using i assms(7) by (fastforce simp: calls_inv_def calls_distinct_def split: if_splits)
  moreover have "slots_ok (sh_pending (so_shared so)) (hm_put w ca (so_calls so)) (so_next_waiter so)"
    using i assms(5) by (intro slots_ok_add) (auto simp: calls_inv_def)
  ultimately show ?thesis
    using assms(1-4,6) by (auto simp: calls_inv_def returned_once_def call_ok_def split: if_splits)
qed

lemma set_pending_simps [simp]:
  "so_calls (set_pending m so) = so_calls so" "so_egress (set_pending m so) = so_egress so"
  "so_conns (set_pending m so) = so_conns so" "so_next_id (set_pending m so) = so_next_id so"
  "so_next_waiter (set_pending m so) = so_next_waiter so" "sh_pending (so_shared (set_pending m so)) = m"
  by (simp_all add: set_pending_def)

lemma update_conn_simps [simp]:
  "so_calls (update_conn c f so) = so_calls so" "so_egress (update_conn c f so) = so_egress so"
  "so_next_id (update_conn c f so) = so_next_id so" "so_next_waiter (update_conn c f so) = so_next_waiter so"
  "so_shared (update_conn c f so) = so_shared so" "length (so_conns (update_conn c f so)) = length (so_conns so)"
  by (simp_all add: update_conn_def)

lemma update_conn_calls: "update_conn c f (so\<lparr>so_calls := m\<rparr>) = (update_conn c f so)\<lparr>so_calls := m\<rparr>"
  by (simp add: update_conn_def)

text \<open>The pending slot of a new request.\<close>

abbreviation reserve_slot :: "string \<Rightarrow> socket_transport \<Rightarrow> socket_transport" where
  "reserve_slot j so \<equiv> set_pending (hm_put j (Respond (so_next_waiter so)) (sh_pending (so_shared so))) (so\<lparr>so_next_waiter := Suc (so_next_waiter so)\<rparr>)"

lemma accepted_send_inv:
  assumes i: "calls_inv c {} {} tr so" and n: "so_next_id so < 2 ^ 64" and so1: "socket_next_id so = (j, so1)" "so_egress so1 = Some c'"
    and a: "egress_send_acked frame (so_shared (reserve_slot j so1), cn_egress (so_conns so1 ! c')) = (Inr rc, x, e)"
  shows "calls_inv c {} {} tr ((update_conn c' (\<lambda>cn. cn\<lparr>cn_egress := e\<rparr>) (reserve_slot j so1))
    \<lparr>so_calls := hm_put (so_next_waiter so1) \<lparr>ca_id = j, ca_receipt = Some (c', rc), ca_reply = None\<rparr> (so_calls so1)\<rparr>)"
proof -
  let ?w = "so_next_waiter so1" and ?so2 = "reserve_slot j so1"
  let ?so3 = "update_conn c' (\<lambda>cn. cn\<lparr>cn_egress := e\<rparr>) ?so2"
  note r = reserve_inv [OF i n so1(1)]
  have n2: "so_next_waiter so1 = so_next_waiter so" "so_calls so1 = so_calls so"
    using so1 by (auto simp: socket_next_id_def)
  have i2: "calls_inv c {} {} tr ?so2"
    by (rule r(3)) simp_all
  have slot: "k = j" if "hm_get (sh_pending (so_shared ?so2)) k = Some (Respond ?w)" for k
    using that r(1) by (auto simp: calls_inv_def slots_ok_def split: if_splits)
  note ok = egress_of_conn [OF r(1) so1(2)]
  note k = acked_keeps [OF conjunct1 [OF ok] a]
  have i4: "calls_inv c {} {} tr ?so3"
    using k(1,2) by (intro enqueue_inv [OF i2, where e = e]) simp_all
  have rc: "ca_receipt ca \<noteq> Some (c', rc)" if "hm_get (so_calls so) w = Some ca" for w ca
    using r(1) that k(3) [OF refl] n2 unfolding calls_inv_def call_ok_def by fastforce
  have "calls_inv c {} {} tr (?so3\<lparr>so_calls := hm_put ?w \<lparr>ca_id = j, ca_receipt = Some (c', rc), ca_reply = None\<rparr> (so_calls ?so3)\<rparr>)"
  proof (rule add_call_inv [OF i4])
    show "call_ok c {} {} ?so3 ?w \<lparr>ca_id = j, ca_receipt = Some (c', rc), ca_reply = None\<rparr>"
      using k(3) [OF refl] ok r(6,7) by (auto simp: call_ok_def update_conn_def)
    show "k = ca_id \<lparr>ca_id = j, ca_receipt = Some (c', rc), ca_reply = None\<rparr>"
      if "hm_get (sh_pending (so_shared ?so3)) k = Some (Respond ?w)" for k
      using slot [OF that [unfolded update_conn_simps]] by (simp only: call.simps)
  qed (use r(4,5) n2 rc in simp_all)
  then show ?thesis
    by (simp add: update_conn_calls)
qed

lemma send_inv:
  assumes i: "calls_inv c {} {} tr so" and n: "so_next_id so < 2 ^ 64"
  shows "calls_inv c {} {} tr (snd (socket_send ev uuid sid payload so))"
proof -
  obtain j so1 where so1: "socket_next_id so = (j, so1)"
    by (cases "socket_next_id so")
  note r = reserve_inv [OF i n so1]
  have i2: "calls_inv c {} {} tr (reserve_slot j so1)"
    by (rule r(3)) simp_all
  have "calls_inv c {} {} tr (set_pending (hm_del j (sh_pending (so_shared (reserve_slot j so1)))) (so1\<lparr>so_next_waiter := Suc (so_next_waiter so1)\<rparr>))"
    by (rule r(3)) simp_all
  then have i3: "calls_inv c {} {} tr (set_pending (hm_del j (sh_pending (so_shared (reserve_slot j so1)))) (reserve_slot j so1))"
    by (simp add: set_pending_def)
  show ?thesis
    using so1 r(1) i2 i3 accepted_send_inv [OF i n so1]
    by (auto simp: socket_send_def Let_def update_conn_calls split: sum.split option.split prod.split)
qed

lemma send_faf_inv:
  assumes i: "calls_inv c {} {} tr so" and n: "so_next_id so < 2 ^ 64"
  shows "calls_inv c {} {} tr (snd (socket_send_faf ev uuid sid payload so))"
proof -
  obtain j so1 where so1: "socket_next_id so = (j, so1)"
    by (cases "socket_next_id so")
  note r = reserve_inv [OF i n so1]
  have "calls_inv c {} {} tr (update_conn c' (\<lambda>cn. cn\<lparr>cn_egress := e\<rparr>) (set_pending (hm_put j Drop_Slot (sh_pending (so_shared so1))) so1))"
    if "so_egress so1 = Some c'" "egress_send_faf f (sh, cn_egress (so_conns so1 ! c')) = (res, x, e)" for c' f sh res x e
    using faf_keeps [OF conjunct1 [OF egress_of_conn [OF r(1) that(1)]] disjI1 [OF that(2)]]
    by (intro enqueue_inv [OF r(2), where e = e]) simp_all
  moreover have "calls_inv c {} {} tr (set_pending (hm_put j Drop_Slot (sh_pending (so_shared so1))) so1)"
      "calls_inv c {} {} tr (set_pending (hm_del j (hm_put j Drop_Slot (sh_pending (so_shared so1)))) so1)"
    by (rule r(2); simp)+
  ultimately show ?thesis
    using so1 r(1) by (auto simp: socket_send_faf_def Let_def set_pending_def split: sum.splits option.splits prod.splits)
qed

lemma queue_inv:
  assumes "calls_inv c {} {} tr so" "so_egress so = Some c'"
    and "egress_send_faf f (sh, cn_egress (so_conns so ! c')) = (res, x, e) \<or> egress_send_control f (sh, cn_egress (so_conns so ! c')) = (res, x, e)"
  shows "calls_inv c {} {} tr (update_conn c' (\<lambda>cn. cn\<lparr>cn_egress := e\<rparr>) so)"
  using faf_keeps [OF conjunct1 [OF egress_of_conn [OF assms(1,2)]] assms(3)]
  by (intro enqueue_inv [OF assms(1), where e = e]) simp_all

lemma write_control_inv: "calls_inv c {} {} tr so \<Longrightarrow> calls_inv c {} {} tr (snd (socket_write_control_frame bs so))"
  by (auto simp: socket_write_control_frame_def intro: queue_inv split: option.split prod.split)

lemma write_data_inv: "calls_inv c {} {} tr so \<Longrightarrow> calls_inv c {} {} tr (snd (socket_write_data_frame crc f so))"
  by (auto simp: socket_write_data_frame_def intro: queue_inv split: option.split prod.split sum.split)

lemma stop_dispatch_inv: "calls_inv c R W tr so \<Longrightarrow> calls_inv c R W tr (stop_dispatch c' so)"
  unfolding stop_dispatch_def by (rule update_conn_inv) simp_all

lemma connect_inv:
  assumes "calls_inv c {} {} tr so"
  shows "calls_inv c {} {} tr (snd (connect_open tcp so))"
proof -
  have "egress_ok (cn_egress new_connection)"
    by (simp add: new_connection_def spawn_egress_def egress_ok_def outstanding_def)
  then have "calls_inv c {} {} tr (spawn_tasks s)" if "calls_inv c {} {} tr s" for s
    using that by (fastforce simp: spawn_tasks_def calls_inv_def call_ok_def returned_once_def nth_append)
  moreover have "calls_inv c {} {} tr (so\<lparr>so_parked_writer := x\<rparr>)" "calls_inv c {} {} tr (so\<lparr>so_parked_writer := x, so_reader := y\<rparr>)" for x y
    using assms by (simp_all add: calls_inv_def call_ok_def returned_once_def)
  ultimately show ?thesis
    using assms by (simp add: connect_open_def split: sum.split)
qed

lemma publish_inv: "calls_inv c {} {} tr so \<Longrightarrow> calls_inv c {} {} tr (connect_publish so)"
  by (cases "so_connecting so") (auto simp: connect_publish_def calls_inv_def call_ok_def returned_once_def)

lemma disconnect_inv:
  assumes "calls_inv c {} {} tr so" "socket_disconnect so = (eff, so')"
  shows "calls_inv c {} {} (tr @ eff) so'"
proof -
  let ?so1 = "so\<lparr>so_hooks := None, so_shared := (so_shared so)\<lparr>sh_connected := False\<rparr>\<rparr>"
  obtain eff1 so2 where s2: "(case so_egress ?so1 of None \<Rightarrow> ([], ?so1) | Some c \<Rightarrow> with_egress c Close_Op (?so1\<lparr>so_egress := None\<rparr>)) = (eff1, so2)"
    by (metis surj_pair)
  have "calls_inv c {} {} tr ?so1" "calls_inv c' {} {} tr (?so1\<lparr>so_egress := None\<rparr>)" for c'
    using assms(1) by (simp_all add: calls_inv_def call_ok_def returned_once_def)
  then have i2: "calls_inv c {} {} (tr @ eff1) so2"
    using s2 with_egress_inv [of _ tr "?so1\<lparr>so_egress := None\<rparr>" Close_Op eff1 so2 True]
    by (cases "so_egress so") (auto intro: calls_inv_any)
  let ?so3 = "case so_dispatch so2 of None \<Rightarrow> so2 | Some c \<Rightarrow> stop_dispatch c (so2\<lparr>so_dispatch := None\<rparr>)"
  obtain eff2 where s4: "clear_pending (?so3\<lparr>so_inflight := []\<rparr>) = (eff2, so')" "eff = eff1 @ eff2"
    using assms(2) s2 by (auto simp: socket_disconnect_def Let_def split: prod.splits)
  have "calls_inv c {} {} (tr @ eff1) (so2\<lparr>so_dispatch := None\<rparr>)"
    using i2 by (simp add: calls_inv_def call_ok_def returned_once_def)
  then have "calls_inv c {} {} (tr @ eff1) ?so3"
    using i2 by (simp add: stop_dispatch_inv split: option.split)
  then have "calls_inv c {} {} (tr @ eff1) (?so3\<lparr>so_inflight := []\<rparr>)"
    by (simp add: calls_inv_def call_ok_def returned_once_def)
  from clear_pending_inv [OF this s4(1)] show ?thesis
    by (simp add: s4(2))
qed

lemma cleanup_inv:
  assumes "calls_inv c {} {} tr so" "dispatch_cleanup c' so = (eff, so')"
  shows "calls_inv c {} {} (tr @ eff) so'"
proof -
  obtain e1 so1 where s1: "clear_pending (so\<lparr>so_shared := (so_shared so)\<lparr>sh_connected := False\<rparr>\<rparr>) = (e1, so1)"
    by (metis surj_pair)
  obtain e2 so2 where s2: "with_egress c' Close_Op so1 = (e2, so2)"
    by (metis surj_pair)
  have "calls_inv c {} {} tr (so\<lparr>so_shared := (so_shared so)\<lparr>sh_connected := False\<rparr>\<rparr>)"
    using assms(1) by (simp add: calls_inv_def call_ok_def returned_once_def)
  from with_egress_inv [OF calls_inv_any [OF clear_pending_inv [OF this s1]] s2, of True]
  have "calls_inv c {} {} (tr @ e1 @ e2) so2"
    by (simp add: calls_inv_any [of c'])
  then show ?thesis
    using assms(2) s1 s2 by (auto simp: dispatch_cleanup_def intro: stop_dispatch_inv)
qed

lemma envelope_inv:
  assumes i: "calls_inv c {} {} tr so" and "dispatch_envelope ev uuid c' msg so = (eff, so')" "c' < length (so_conns so)"
  shows "calls_inv c {} {} (tr @ eff) so'"
proof (cases msg)
  case (Request_Env j sid payload)
  have "egress_ok (cn_egress (so_conns so ! c'))"
    using i assms(3) by (simp add: calls_inv_def)
  then have "calls_inv c {} {} tr (update_conn c' (\<lambda>cn. cn\<lparr>cn_egress := e, cn_awaiting := Some r\<rparr>) so)"
    if "egress_send_acked f (sh, cn_egress (so_conns so ! c')) = (res, x, e)" for f sh res x e r
    using acked_keeps [OF _ that] by (intro enqueue_inv [OF i, where e = e]) simp_all
  moreover have "calls_inv c {} {} (tr @ [Handle_Request c' j sid payload])
      (so\<lparr>so_inflight := so_inflight so @ [\<lparr>in_id = j, in_sid = sid, in_conn = c'\<rparr>]\<rparr>)"
    using i assms(3) by (auto simp: calls_inv_def call_ok_def returned_once_def)
  ultimately show ?thesis
    using assms Request_Env by (auto simp: dispatch_envelope_def split: if_splits sum.splits prod.splits)
next
  case (Response_Env j sid payload)
  let ?p = "sh_pending (so_shared so)"
  have "calls_inv c {} (case hm_get ?p j of Some (Respond w) \<Rightarrow> {w} | _ \<Rightarrow> {}) tr (set_pending (hm_del j ?p) so)"
    unfolding set_pending_def by (intro set_shared_inv [OF i] slots_inv [OF i]) (auto split: if_splits)
  then show ?thesis
    using assms(2) Response_Env reply_call_inv [of c "{}" _ "{}" tr "set_pending (hm_del j ?p) so"]
    by (auto simp: dispatch_envelope_def Let_def split: option.splits pending_slot.splits)
qed

lemma dispatch_step_inv:
  assumes i: "calls_inv c {} {} tr so" and "dispatch_step ev uuid c' so = (eff, so')" "c' < length (so_conns so)"
  shows "calls_inv c {} {} (tr @ eff) so'"
proof -
  have u: "calls_inv c {} {} tr (update_conn c' (\<lambda>cn. cn\<lparr>cn_inbox := q\<rparr>) so)" for q
    by (rule update_conn_inv [OF i]) simp
  have "calls_inv c {} {} (tr @ eff) so'"
    if "dispatch_envelope ev uuid c' msg (update_conn c' (\<lambda>cn. cn\<lparr>cn_inbox := q\<rparr>) so) = (eff, so')" for msg q
    using envelope_inv [OF u that] assms(3) by simp
  then show ?thesis
    using assms u cleanup_inv [OF i]
    by (auto simp: dispatch_step_def Let_def split: if_splits list.splits inbox_item.splits option.splits)
qed

lemma handler_inv:
  assumes i: "calls_inv c {} {} tr so"
  shows "calls_inv c {} {} tr (handler_done ev uuid k result so)"
proof (cases "k < length (so_inflight so)")
  case True
  let ?t = "so_inflight so ! k"
  let ?so1 = "so\<lparr>so_inflight := take k (so_inflight so) @ drop (Suc k) (so_inflight so)\<rparr>"
  have i1: "calls_inv c {} {} tr ?so1"
    using i set_take_subset set_drop_subset by (fastforce simp: calls_inv_def call_ok_def returned_once_def)
  have "in_conn ?t < length (so_conns so)"
    using i nth_mem [OF True] by (simp add: calls_inv_def)
  then have ok: "egress_ok (cn_egress (so_conns so ! in_conn ?t))"
    using i by (simp add: calls_inv_def)
  have "calls_inv c {} {} tr (update_conn (in_conn ?t) (\<lambda>cn. cn\<lparr>cn_egress := e\<rparr>) ?so1)"
    if "egress_send_acked f (sh, cn_egress (so_conns so ! in_conn ?t)) = (res, x, e)" for f sh res x e
    using acked_keeps [OF ok that] by (intro enqueue_inv [OF i1, where e = e]) simp_all
  then show ?thesis
    using i1 True by (auto simp: handler_done_def Let_def split: sum.split prod.split)
qed (use i in \<open>simp add: handler_done_def\<close>)

lemma hooks_inv:
  "calls_inv c R W tr so \<Longrightarrow> calls_inv c R W tr (so\<lparr>so_hooks := h\<rparr>)"
  "calls_inv c R W tr so \<Longrightarrow> calls_inv c R W tr (so\<lparr>so_handler := x\<rparr>)"
  by (simp_all add: calls_inv_def call_ok_def returned_once_def)

lemma reader_inv:
  assumes "calls_inv c {} {} tr so"
  shows "calls_inv c {} {} tr (reader_read crc c' input so)" "calls_inv c {} {} tr (reader_forward c' so)"
    and "reader_route c' so = (eff, so') \<Longrightarrow> calls_inv c {} {} (tr @ eff) so'"
  using assms
  by (auto simp: reader_read_def reader_forward_def reader_route_def detach_hooks_def Let_def
      intro!: update_conn_inv hooks_inv calls_inv_trace
      split: if_splits read_result.split prod.split sum.split option.splits list.splits)

section \<open>Reachable transports\<close>

lemma absorb_next_id [simp]: "so_next_id (snd (absorb c xs so)) = so_next_id so"
proof (induction xs arbitrary: so)
  case (Cons x xs)
  have "so_next_id so1 = so_next_id so" if "absorb_one c x so = (e1, so1)" for e1 so1
    using that by (cases x) (auto simp: receipt_arrives_def receipt_call_def reply_call_def settle_call_def split: option.splits if_splits)
  then show ?case
    using Cons by (cases "absorb_one c x so") (auto simp: split_beta)
qed simp

lemma next_id_simps [simp]:
  "so_next_id (snd (with_egress c op so)) = so_next_id so"
  "so_next_id (snd (clear_pending so)) = so_next_id so"
  "so_next_id (stop_dispatch c so) = so_next_id so"
  by (auto simp: with_egress_def clear_pending_def stop_dispatch_def split: prod.split)

lemma next_id_dispatch: "so_next_id (snd (dispatch_step ev uuid c so)) = so_next_id so"
proof -
  have "so_next_id (snd (dispatch_cleanup c so)) = so_next_id so" for so
    using next_id_simps(1) [of c Close_Op "snd (clear_pending (so\<lparr>so_shared := (so_shared so)\<lparr>sh_connected := False\<rparr>\<rparr>))"]
    by (simp add: dispatch_cleanup_def split_beta del: next_id_simps(1))
  moreover have "so_next_id (snd (dispatch_envelope ev uuid c msg so)) = so_next_id so" for msg so
    by (auto simp: dispatch_envelope_def reply_call_def settle_call_def Let_def
        split: xacpp_envelope.split sum.split option.split pending_slot.split prod.split)
  ultimately show ?thesis
    by (auto simp: dispatch_step_def Let_def split: list.split inbox_item.split option.split)
qed

lemma next_id_step:
  "so_next_id so \<le> so_next_id (snd (socket_step ev op so)) \<and> so_next_id (snd (socket_step ev op so)) \<le> Suc (so_next_id so)"
proof (cases op)
  case Op_Disconnect
  have "so_next_id (snd (socket_disconnect so)) = so_next_id so"
    by (auto simp: socket_disconnect_def Let_def split_beta split: option.split)
  then show ?thesis
    by (simp add: Op_Disconnect)
qed (auto simp: at_conn_def next_id_dispatch connect_open_def spawn_tasks_def connect_publish_def socket_on_request_def
    socket_on_transfer_activity_def socket_send_def socket_send_faf_def socket_next_id_def socket_write_control_frame_def
    socket_write_data_frame_def reader_read_def reader_route_def reader_forward_def detach_hooks_def handler_done_def Let_def
    split: option.split sum.split prod.split read_result.split list.split)

definition socket_good :: "socket_effect list \<Rightarrow> socket_transport \<Rightarrow> bool" where
  "socket_good tr so \<longleftrightarrow> (so_next_id so \<le> 2 ^ 64 \<longrightarrow> calls_inv 0 {} {} tr so)"

lemma socket_step_inv:
  assumes i: "calls_inv 0 {} {} tr so" and s: "socket_step ev op so = (eff, so')"
    and n: "so_next_id so' \<le> 2 ^ 64"
  shows "calls_inv 0 {} {} (tr @ eff) so'"
proof (cases op)
  case (Op_Send uuid sid payload)
  show ?thesis
  proof (cases "so_next_id so < 2 ^ 64")
    case True
    then show ?thesis
      using s send_inv [OF i] Op_Send by auto
  next
    case False
    then show ?thesis
      using s n Op_Send by (auto simp: socket_send_def socket_next_id_def Let_def split: sum.splits option.splits prod.splits)
  qed
next
  case (Op_Send_Faf uuid sid payload)
  show ?thesis
  proof (cases "so_next_id so < 2 ^ 64")
    case True
    then show ?thesis
      using s send_faf_inv [OF i] Op_Send_Faf by auto
  next
    case False
    then show ?thesis
      using s n Op_Send_Faf by (auto simp: socket_send_faf_def socket_next_id_def Let_def split: sum.splits option.splits prod.splits)
  qed
next
  case (Op_On_Request contended)
  then show ?thesis
    using i s by (auto simp: socket_on_request_def intro: hooks_inv)
qed (use i s in \<open>auto simp: at_conn_def connect_inv publish_inv disconnect_inv hooks_inv socket_on_transfer_activity_def
      write_control_inv write_data_inv reader_inv handler_inv split: if_splits
      intro: reader_inv(3) dispatch_step_inv with_egress_inv [THEN calls_inv_any, OF calls_inv_any]\<close>)

interpretation socket_machine: traced_machine "socket_step ev" socket_good for ev
proof
  fix tr op and so so' :: socket_transport and eff :: "socket_effect list"
  assume "socket_good tr so" "socket_step ev op so = (eff, so')"
  then show "socket_good (tr @ eff) so'"
    using next_id_step [of so ev op] socket_step_inv [of tr so ev op eff so'] by (auto simp: socket_good_def)
qed

lemma socket_run_trace: "socket_run ev ops so = socket_machine.trace_run ev ops so"
  by (induction ops arbitrary: so) (simp_all split: prod.split)

lemma socket_run_next_id: "so_next_id (snd (socket_run ev ops so)) \<le> so_next_id so + length ops"
proof (induction ops arbitrary: so)
  case (Cons op ops)
  have "so_next_id (snd (socket_run ev ops (snd (socket_step ev op so)))) \<le> so_next_id so + length (op # ops)"
    using Cons [of "snd (socket_step ev op so)"] next_id_step [of so ev op] by simp
  then show ?case
    by (simp add: split_beta)
qed simp

lemma socket_new_inv: "calls_inv 0 {} {} [] (socket_new_impl parked addr)"
  by (simp add: socket_new_impl_def calls_inv_def calls_distinct_def slots_ok_def returned_once_def)

lemma socket_run_inv:
  assumes "socket_run ev ops (socket_new_impl parked addr) = (tr, so)" "length ops < 2 ^ 64"
  shows "calls_inv 0 {} {} tr so"
proof -
  have "socket_good tr so"
    using socket_machine.trace_run_good [of "[]" "socket_new_impl parked addr" ev ops tr so] assms(1)
    by (simp add: socket_run_trace socket_good_def socket_new_inv)
  moreover have "so_next_id so \<le> 2 ^ 64"
    using socket_run_next_id [of ev ops "socket_new_impl parked addr"] assms by (simp add: socket_new_impl_def)
  ultimately show ?thesis
    by (simp add: socket_good_def)
qed

section \<open>A call in progress stays or returns\<close>

definition calls_kept :: "socket_transport \<Rightarrow> socket_effect list \<Rightarrow> socket_transport \<Rightarrow> bool" where
  "calls_kept so eff so' \<longleftrightarrow>
    (\<forall>w. hm_contains (so_calls so) w \<longrightarrow> hm_contains (so_calls so') w \<or> w \<in> set (pick returned_waiter eff))"

lemma kept_same: "so_calls so' = so_calls so \<Longrightarrow> calls_kept so eff so'"
  by (simp add: calls_kept_def)

lemma kept_trans: "calls_kept so eff so1 \<Longrightarrow> calls_kept so1 eff' so' \<Longrightarrow> calls_kept so (eff @ eff') so'"
  by (auto simp: calls_kept_def)

lemma kept_reply: "reply_call w r so = (eff, so') \<Longrightarrow> calls_kept so eff so'"
  by (auto simp: reply_call_def settle_call_def calls_kept_def hm_contains_def split: option.splits)

lemma kept_receipt: "receipt_arrives c r ok so = (eff, so') \<Longrightarrow> calls_kept so eff so'"
  by (auto simp: receipt_arrives_def receipt_call_def settle_call_def calls_kept_def hm_contains_def split: option.splits if_splits)

lemma kept_absorb: "absorb c xs so = (eff, so') \<Longrightarrow> calls_kept so eff so'"
proof (induction xs arbitrary: so eff)
  case (Cons x xs)
  obtain e1 so1 where one: "absorb_one c x so = (e1, so1)"
    by (cases "absorb_one c x so")
  have "calls_kept so e1 so1"
    using one by (cases x) (auto intro: kept_same kept_reply kept_receipt)
  then show ?case
    using Cons one by (auto split: prod.splits intro: kept_trans)
qed (simp add: kept_same)

lemma kept_egress: "with_egress c op so = (eff, so') \<Longrightarrow> calls_kept so eff so'"
  by (auto simp: with_egress_def calls_kept_def split: if_splits prod.splits dest!: kept_absorb)

lemma kept_clear: "clear_pending so = (eff, so') \<Longrightarrow> calls_kept so eff so'"
  by (auto simp: clear_pending_def calls_kept_def split: prod.splits dest!: kept_absorb)

lemma kept_cleanup: "dispatch_cleanup c so = (eff, so') \<Longrightarrow> calls_kept so eff so'"
  by (fastforce simp: dispatch_cleanup_def stop_dispatch_def calls_kept_def split: prod.splits dest!: kept_clear kept_egress)

lemma kept_disconnect: "socket_disconnect so = (eff, so') \<Longrightarrow> calls_kept so eff so'"
  by (fastforce simp: socket_disconnect_def stop_dispatch_def calls_kept_def Let_def split: prod.splits option.splits
      dest!: kept_clear kept_egress)

lemma kept_dispatch: "dispatch_step ev uuid c so = (eff, so') \<Longrightarrow> calls_kept so eff so'"
proof -
  assume "dispatch_step ev uuid c so = (eff, so')"
  moreover have "calls_kept s x s'" if "dispatch_envelope ev uuid c msg s = (x, s')" for msg s x s'
    using that by (auto simp: dispatch_envelope_def calls_kept_def Let_def
        split: xacpp_envelope.splits if_splits sum.splits prod.splits option.splits pending_slot.splits dest!: kept_reply)
  ultimately show ?thesis
    by (auto simp: dispatch_step_def Let_def calls_kept_def split: if_splits list.splits inbox_item.splits option.splits
        dest!: kept_cleanup)
qed

lemma kept_step: "socket_step ev op so = (eff, so') \<Longrightarrow> calls_kept so eff so'"
  by (cases op) (auto simp: at_conn_def connect_open_def spawn_tasks_def connect_publish_def socket_on_request_def
      socket_on_transfer_activity_def socket_next_id_def socket_write_control_frame_def socket_write_data_frame_def
      reader_read_def reader_route_def reader_forward_def detach_hooks_def handler_done_def Let_def
      socket_send_def socket_send_faf_def calls_kept_def
      split: if_splits option.splits sum.splits prod.splits read_result.splits list.splits
      dest!: kept_dispatch kept_disconnect kept_egress)

lemma kept_run: "socket_run ev ops so = (eff, so') \<Longrightarrow> calls_kept so eff so'"
proof (induction ops arbitrary: so eff)
  case (Cons op ops)
  then show ?case
    by (auto split: prod.splits intro: kept_trans [OF kept_step])
qed (simp add: kept_same)

lemma socket_run_append:
  "socket_run ev (ops @ ops') so =
    (case socket_run ev ops so of (eff, so') \<Rightarrow> case socket_run ev ops' so' of (eff', so'') \<Rightarrow> (eff @ eff', so''))"
  by (induction ops arbitrary: so) (simp_all split: prod.split)

lemma pick_filter: "filter (\<lambda>x. returned_waiter x = Some w) tr = [] \<longleftrightarrow> w \<notin> set (pick returned_waiter tr)"
  by (induction tr) (auto split: option.split)

lemma returned_unique:
  "distinct (pick returned_waiter tr) \<Longrightarrow> w \<in> set (pick returned_waiter tr) \<Longrightarrow>
   \<exists>r. filter (\<lambda>x. returned_waiter x = Some w) tr = [Returned w r]"
proof (induction tr)
  case (Cons x tr)
  then show ?case
    using pick_filter [of w tr] by (cases x) auto
qed simp

text \<open>Without slots and with all drain tasks gone no call can be in progress.\<close>

lemma no_calls_left:
  assumes "calls_inv 0 {} {} tr so" "sh_pending (so_shared so) = []" "\<forall>cn \<in> set (so_conns so). eg_phase (cn_egress cn) = Gone"
  shows "hm_get (so_calls so) w = None"
proof (rule ccontr)
  assume "hm_get (so_calls so) w \<noteq> None"
  then obtain ca where ca: "hm_get (so_calls so) w = Some ca"
    by blast
  then have ok: "call_ok 0 {} {} so w ca"
    using assms(1) by (simp add: calls_inv_def)
  then obtain c r where "ca_receipt ca = Some (c, r)"
    using assms(2) by (cases "ca_receipt ca") (auto simp: call_ok_def)
  with ok have c: "c < length (so_conns so)" "r \<in> set (outstanding (cn_egress (so_conns so ! c)))"
    by (auto simp: call_ok_def)
  then have "eg_phase (cn_egress (so_conns so ! c)) = Gone" "egress_ok (cn_egress (so_conns so ! c))"
    using assms(1,3) by (auto simp: calls_inv_def)
  with c(2) show False
    by (simp add: egress_ok_def outstanding_def)
qed

lemma send_accepts:
  "socket_send ev uuid sid payload so = (Inr w, so') \<Longrightarrow> hm_contains (so_calls so') w"
  by (auto simp: socket_send_def Let_def hm_contains_def split: sum.splits option.splits prod.splits)

section \<open>Properties\<close>

text \<open>
  C10. Every request returns exactly once. After an accepted \<open>send\<close>, in any continuation of any run at
  whose end the request table is empty and every drain task gone (which \<open>disconnect\<close>, the end of the
  stream and a failed write all lead to), the trace contains exactly one return of that call, with a
  response or an error: no caller hangs and none is answered twice. The run is shorter than \<open>2^64\<close>
  steps, so that the request counter does not wrap.
\<close>

theorem socket_call_returns_once:
  assumes r0: "socket_run ev ops0 (socket_new_impl parked addr) = (tr0, so0)"
    and send: "socket_send ev uuid sid payload so0 = (Inr w, so1)"
    and r1: "socket_run ev ops so1 = (tr, so)" and len: "length ops0 + length ops < 2 ^ 64 - 1"
    and "sh_pending (so_shared so) = []" "\<forall>cn \<in> set (so_conns so). eg_phase (cn_egress cn) = Gone"
  shows "\<exists>r. filter (\<lambda>x. returned_waiter x = Some w) (tr0 @ tr) = [Returned w r]"
proof -
  have "socket_run ev (ops0 @ Op_Send uuid sid payload # ops) (socket_new_impl parked addr) = (tr0 @ tr, so)"
    using r0 send r1 by (simp add: socket_run_append)
  then have i: "calls_inv 0 {} {} (tr0 @ tr) so"
    by (rule socket_run_inv) (use len in simp)
  have "w \<in> set (pick returned_waiter tr)"
    using kept_run [OF r1] send_accepts [OF send] no_calls_left [OF i assms(5,6), of w]
    by (auto simp: calls_kept_def hm_contains_def)
  then show ?thesis
    using i by (intro returned_unique) (auto simp: calls_inv_def returned_once_def)
qed

text \<open>
  A client transport, connected; a JSON library that knows two texts. The request is queued, its write
  fails, the drain task ends.
\<close>

definition sample_request :: xacpp_request where
  "sample_request = Command (command_generic ''ping'' JNull)"

definition sample_socket_env :: socket_env where
  "sample_socket_env =
    \<lparr>sv_crc = sample_crc,
     sv_to_vec = (\<lambda>m. Inr (case m of Request_Env _ _ _ \<Rightarrow> [0] | Response_Env _ _ _ \<Rightarrow> [1])),
     sv_from_slice = (\<lambda>d. Some (if d = [0] then Request_Env (request_id 1) None sample_request
       else Response_Env (request_id 1) None acknowledge))\<rparr>"

definition sample_client :: socket_transport where
  "sample_client = (socket_new_impl False True)\<lparr>so_conns := [new_connection], so_egress := Some 0, so_dispatch := Some 0,
     so_shared := \<lparr>sh_connected = True, sh_closed = False, sh_pending = []\<rparr>\<rparr>"

lemma sample_client_run: "socket_run ev [Op_Connect (Inr ()), Op_Publish] (socket_new_impl False True) = ([], sample_client)"
  by (simp add: socket_new_impl_def sample_client_def connect_open_def spawn_tasks_def connect_publish_def)

lemma sample_serialize: "\<exists>bs. serialize_envelope sample_socket_env uuid msg = Inr bs"
  by (simp add: serialize_envelope_def sample_socket_env_def encode_data_json_frame_def frame_encode_def encode_max_def
      frame_new_def frame_consts Let_def split: xacpp_envelope.split)

definition sample_caller :: "bytes \<Rightarrow> socket_transport" where
  "sample_caller bs = sample_client\<lparr>so_conns := [new_connection\<lparr>cn_egress :=
       spawn_egress\<lparr>eg_data := [Frame_Item bs (Some 0)], eg_next_receipt := 1\<rparr>\<rparr>], so_next_id := 2, so_next_waiter := 1,
     so_calls := hm_put 0 \<lparr>ca_id = request_id 1, ca_receipt = Some (0, 0), ca_reply = None\<rparr> [],
     so_shared := \<lparr>sh_connected = True, sh_closed = False, sh_pending = hm_put (request_id 1) (Respond 0) []\<rparr>\<rparr>"

lemma sample_send:
  "\<exists>bs. socket_send sample_socket_env uuid None sample_request sample_client = (Inr 0, sample_caller bs)"
proof -
  obtain bs where "serialize_envelope sample_socket_env uuid (Request_Env (request_id 1) None sample_request) = Inr bs"
    using sample_serialize by blast
  then show ?thesis
    by (intro exI [of _ bs]) (simp add: socket_send_def socket_next_id_def sample_client_def sample_caller_def socket_new_impl_def
        new_connection_def spawn_egress_def egress_send_acked_def set_pending_def update_conn_def Let_def)
qed

lemma sample_call_fails:
  "\<exists>tr so. socket_run ev [Op_Select 0, Op_Write_Done 0 False, Op_Shutdown_Done 0] (sample_caller bs) = (tr, so) \<and>
    sh_pending (so_shared so) = [] \<and> (\<forall>cn \<in> set (so_conns so). eg_phase (cn_egress cn) = Gone)"
  by (simp add: sample_caller_def sample_client_def socket_new_impl_def with_egress_def new_connection_def spawn_egress_def
      drain_select_def drain_wrote_def drain_exit_def connection_dead_def pending_clear_def pending_waiters_def
      receipt_arrives_def receipt_call_def reply_call_def settle_call_def update_conn_def set_pending_def hm_put_def hm_get_def hm_del_def
      Let_def)

theorem socket_call_returns_once_witness:
  "\<exists>w so1 tr so r. socket_send sample_socket_env 5 None sample_request sample_client = (Inr w, so1) \<and>
    socket_run sample_socket_env [Op_Select 0, Op_Write_Done 0 False, Op_Shutdown_Done 0] so1 = (tr, so) \<and>
    filter (\<lambda>x. returned_waiter x = Some w) ([] @ tr) = [Returned w r]"
proof -
  obtain bs where s: "socket_send sample_socket_env 5 None sample_request sample_client = (Inr 0, sample_caller bs)"
    using sample_send by blast
  obtain tr so where r: "socket_run sample_socket_env [Op_Select 0, Op_Write_Done 0 False, Op_Shutdown_Done 0] (sample_caller bs) = (tr, so)"
      "sh_pending (so_shared so) = []" "\<forall>cn \<in> set (so_conns so). eg_phase (cn_egress cn) = Gone"
    using sample_call_fails by blast
  show ?thesis
    using socket_call_returns_once [OF sample_client_run s r(1) _ r(2,3)] s r(1) by auto
qed

text \<open>
  C11. Responses are correlated. In every reachable state, dispatching a response envelope returns only
  from the call whose request carried that id, and with exactly that payload; if that call's frame is
  written it returns at once. The slot is consumed, so a duplicate response reaches nobody.
\<close>

theorem socket_response_correlated:
  assumes "socket_run ev ops (socket_new_impl parked addr) = (tr, so)" "length ops < 2 ^ 64"
    and "dispatch_envelope ev uuid c (Response_Env i sid payload) so = (eff, so')"
  shows "(\<forall>x \<in> set eff. \<exists>w ca. x = Returned w (Inr payload) \<and> hm_get (so_calls so) w = Some ca \<and> ca_id ca = i) \<and>
    (\<forall>w ca. hm_get (so_calls so) w = Some ca \<and> ca_id ca = i \<and> ca_receipt ca = None \<longrightarrow> eff = [Returned w (Inr payload)]) \<and>
    hm_get (sh_pending (so_shared so')) i = None"
proof -
  note inv = socket_run_inv [OF assms(1,2)]
  show ?thesis
  proof (intro conjI allI impI)
    have "ca_id ca = i" if "hm_get (sh_pending (so_shared so)) i = Some (Respond w)" "hm_get (so_calls so) w = Some ca" for w ca
      using inv that by (auto simp: calls_inv_def slots_ok_def)
    then show "\<forall>x \<in> set eff. \<exists>w ca. x = Returned w (Inr payload) \<and> hm_get (so_calls so) w = Some ca \<and> ca_id ca = i"
      using assms(3) by (auto simp: dispatch_envelope_def reply_call_def settle_call_def set_pending_def Let_def
          split: option.splits pending_slot.splits)
    show "hm_get (sh_pending (so_shared so')) i = None"
      using assms(3) by (auto simp: dispatch_envelope_def reply_call_def settle_call_def set_pending_def Let_def
          split: option.splits pending_slot.splits)
    fix w ca
    assume ca: "hm_get (so_calls so) w = Some ca \<and> ca_id ca = i \<and> ca_receipt ca = None"
    then have "call_ok 0 {} {} so w ca"
      using inv by (simp add: calls_inv_def)
    with ca have "hm_get (sh_pending (so_shared so)) i = Some (Respond w)"
      by (auto simp: call_ok_def)
    then show "eff = [Returned w (Inr payload)]"
      using ca assms(3) by (auto simp: dispatch_envelope_def reply_call_def settle_call_def set_pending_def Let_def)
  qed
qed

theorem socket_response_correlated_witness:
  "\<exists>tr so eff so'. socket_run sample_socket_env [Op_Connect (Inr ()), Op_Publish, Op_Send 5 None sample_request, Op_Select 0, Op_Write_Done 0 True]
      (socket_new_impl False True) = (tr, so) \<and>
    dispatch_envelope sample_socket_env 6 0 (Response_Env (request_id 1) None acknowledge) so = (eff, so') \<and>
    eff = [Returned 0 (Inr acknowledge)]"
proof -
  let ?ops = "[Op_Connect (Inr ()), Op_Publish, Op_Send 5 None sample_request, Op_Select 0, Op_Write_Done 0 True]"
  obtain bs where s: "socket_send sample_socket_env 5 None sample_request sample_client = (Inr 0, sample_caller bs)"
    using sample_send by blast
  have c: "connect_publish (snd (connect_open (Inr ()) (socket_new_impl False True))) = sample_client" "so_connecting (socket_new_impl False True) = None"
    using sample_client_run [of sample_socket_env] by (simp_all add: socket_new_impl_def)
  obtain tr so where r: "socket_run sample_socket_env ?ops (socket_new_impl False True) = (tr, so)"
    by (metis surj_pair)
  obtain eff so' where d: "dispatch_envelope sample_socket_env 6 0 (Response_Env (request_id 1) None acknowledge) so = (eff, so')"
    by (metis surj_pair)
  have "hm_get (so_calls so) 0 = Some \<lparr>ca_id = request_id 1, ca_receipt = None, ca_reply = None\<rparr>"
    using r s c by (auto simp: sample_caller_def sample_client_def socket_new_impl_def with_egress_def new_connection_def spawn_egress_def
      drain_select_def drain_wrote_def connection_dead_def pending_clear_def
      receipt_arrives_def receipt_call_def settle_call_def update_conn_def hm_put_def hm_get_def Let_def)
  then show ?thesis
    using socket_response_correlated [OF r _ d] r d by fastforce
qed

text \<open>
  A stale drain task can end a new connection. The flags and the request table are shared by all
  connections of a transport, so when a write of an earlier connection fails late, the transport is
  marked disconnected and every request waiting on the current, healthy connection is dropped.
\<close>

theorem stale_drain_kills_reconnect:
  assumes "c \<noteq> c'" "c < length (so_conns so)" "eg_phase (cn_egress (so_conns so ! c)) = Writing l f r"
    and "with_egress c (Write_Done False) so = (eff, so')"
  shows "\<not> sh_connected (so_shared so') \<and> sh_pending (so_shared so') = [] \<and> so_egress so' = so_egress so \<and>
    cn_egress (so_conns so' ! c') = cn_egress (so_conns so ! c')"
proof -
  have a: "sh_connected (so_shared s') = sh_connected (so_shared s) \<and> (sh_pending (so_shared s) = [] \<longrightarrow> sh_pending (so_shared s') = []) \<and>
      so_egress s' = so_egress s \<and> cn_egress (so_conns s' ! j) = cn_egress (so_conns s ! j)"
    if "absorb c xs s = (x, s')" for xs s s' x j
    using that
  proof (induction xs arbitrary: s x)
    case (Cons y ys)
    obtain e1 s1 where one: "absorb_one c y s = (e1, s1)"
      by (cases "absorb_one c y s")
    have "sh_connected (so_shared s1) = sh_connected (so_shared s) \<and> (sh_pending (so_shared s) = [] \<longrightarrow> sh_pending (so_shared s1) = []) \<and>
        so_egress s1 = so_egress s \<and> cn_egress (so_conns s1 ! j) = cn_egress (so_conns s ! j)"
      using one by (cases y) (auto simp: receipt_arrives_def receipt_call_def reply_call_def settle_call_def update_conn_def
          set_pending_def hm_del_def conns_update split: option.splits if_splits)
    then show ?case
      using Cons one by (auto split: prod.splits)
  qed simp
  obtain xs sh e where s: "egress_step (Write_Done False) (so_shared so, cn_egress (so_conns so ! c)) = (xs, sh, e)"
    by (metis prod_cases3)
  have "\<not> sh_connected sh \<and> sh_pending sh = []"
    using s assms(3) by (auto simp: drain_wrote_def connection_dead_def pending_clear_def Let_def split: if_splits)
  then show ?thesis
    using a [of xs "update_conn c (\<lambda>cn. cn\<lparr>cn_egress := e\<rparr>) (so\<lparr>so_shared := sh\<rparr>)" eff so' c'] assms s
    by (simp add: with_egress_def update_conn_def)
qed

text \<open>Connected, writing, disconnected, connected again; then the first connection's write fails.\<close>

theorem stale_drain_kills_reconnect_witness:
  "\<exists>tr so eff so'. socket_run sample_socket_env [Op_Connect (Inr ()), Op_Publish, Op_Write_Control [1], Op_Select 0, Op_Disconnect,
      Op_Connect (Inr ()), Op_Publish] (socket_new_impl False True) = (tr, so) \<and> sh_connected (so_shared so) \<and> so_egress so = Some 1 \<and>
    with_egress 0 (Write_Done False) so = (eff, so') \<and> \<not> sh_connected (so_shared so') \<and> so_egress so' = Some 1"
proof -
  let ?ops = "[Op_Connect (Inr ()), Op_Publish, Op_Write_Control [1], Op_Select 0, Op_Disconnect, Op_Connect (Inr ()), Op_Publish]"
  obtain tr so where r: "socket_run sample_socket_env ?ops (socket_new_impl False True) = (tr, so)"
    by (metis surj_pair)
  have v: "sh_connected (so_shared so) \<and> so_egress so = Some 1 \<and> 0 < length (so_conns so) \<and>
      eg_phase (cn_egress (so_conns so ! 0)) = Writing Control_Lane [1] None"
    using r by (auto simp: socket_new_impl_def connect_open_def spawn_tasks_def connect_publish_def socket_write_control_frame_def
        egress_send_control_def new_connection_def spawn_egress_def update_conn_def with_egress_def drain_select_def
        socket_disconnect_def egress_close_def mark_closed_def stop_dispatch_def clear_pending_def pending_clear_def pending_waiters_def Let_def)
  obtain eff so' where d: "with_egress 0 (Write_Done False) so = (eff, so')"
    by (metis surj_pair)
  show ?thesis
    using stale_drain_kills_reconnect [of 0 1 so Control_Lane "[1]" None eff so'] r v d by auto
qed

end
