(* ===== verification/Socket_Rpc.thy ===== *)
theory Socket_Rpc
  imports Socket_Calls
begin

text \<open>
  The inbound path of the socket transport and a whole request: sent by one transport, handled by
  another, answered, and returned to the caller.
\<close>

section \<open>The reader\<close>

text \<open>Routing and forwarding, frame by frame, with room in the dispatch queue.\<close>

fun route_all :: "nat \<Rightarrow> nat \<Rightarrow> socket_transport \<Rightarrow> socket_effect list \<times> socket_transport" where
  "route_all 0 c so = ([], so)"
| "route_all (Suc n) c so =
    (case reader_route c so of (eff, so1) \<Rightarrow> case route_all n c (reader_forward c so1) of (eff', so2) \<Rightarrow> (eff @ eff', so2))"

fun pump :: "crc_fn \<Rightarrow> nat \<Rightarrow> bytes list \<Rightarrow> socket_transport \<Rightarrow> socket_effect list \<times> socket_transport" where
  "pump crc c [] so = ([], so)"
| "pump crc c (bs # cs) so =
    (let so1 = reader_read crc c (Read_Bytes bs) so
     in case route_all (length (cn_backlog (so_conns so1 ! c))) c so1 of
          (eff, so2) \<Rightarrow> case pump crc c cs so2 of (eff', so3) \<Rightarrow> (eff @ eff', so3))"

definition hook_effect :: "nat option \<Rightarrow> frame \<Rightarrow> socket_effect list" where
  "hook_effect h f =
    (case h of None \<Rightarrow> [] | Some s \<Rightarrow> [if f_type f = DataJson then Hook_Activity s else Hook_Frame s f])"

definition envelope_payloads :: "frame list \<Rightarrow> inbox_item list" where
  "envelope_payloads fs = map (\<lambda>f. Payload (f_payload f)) (filter (\<lambda>f. f_type f = DataJson) fs)"

definition reader_idle :: "connection \<Rightarrow> bool" where
  "reader_idle cn \<longleftrightarrow> cn_reading cn \<and> cn_backlog cn = [] \<and> cn_sending cn = None \<and> cn_dispatching cn"

lemma envelope_payloads_simps [simp]:
  "envelope_payloads [] = []"
  "envelope_payloads (f # fs) = (if f_type f = DataJson then [Payload (f_payload f)] else []) @ envelope_payloads fs"
  "envelope_payloads (fs @ gs) = envelope_payloads fs @ envelope_payloads gs"
  by (simp_all add: envelope_payloads_def)

lemma conn_at [simp]: "c < length (so_conns so) \<Longrightarrow> so_conns (update_conn c f so) ! c = f (so_conns so ! c)"
  by (simp add: update_conn_def)

lemma update_conn_twice [simp]: "update_conn c g (update_conn c f so) = update_conn c (g \<circ> f) so"
  by (simp add: update_conn_def)

lemma update_conn_cong:
  "f (so_conns so ! c) = g (so_conns so ! c) \<Longrightarrow> update_conn c f so = update_conn c g so"
  by (simp add: update_conn_def)

lemma update_conn_hooks [simp]: "so_hooks (update_conn c f so) = so_hooks so"
  by (simp add: update_conn_def)

lemma route_all_frames:
  assumes "c < length (so_conns so)" "cn_reading cn" "cn_sending cn = None" "cn_dispatching cn" "cn_backlog cn = fs"
    and "so_conns so ! c = cn" "length (cn_inbox cn) + length (envelope_payloads fs) \<le> INBOX_CAP"
  shows "route_all (length fs) c so =
    (concat (map (hook_effect (so_hooks so)) fs),
     update_conn c (\<lambda>cn. cn\<lparr>cn_backlog := [], cn_inbox := cn_inbox cn @ envelope_payloads fs\<rparr>) so)"
  using assms
proof (induction fs arbitrary: so cn)
  case Nil
  have "update_conn c (\<lambda>cn. cn\<lparr>cn_backlog := [], cn_inbox := cn_inbox cn @ []\<rparr>) so = update_conn c id so"
    by (rule update_conn_cong) (use Nil in simp)
  then show ?case
    by (simp add: update_conn_def)
next
  case (Cons f fs)
  let ?g = "\<lambda>cn. cn\<lparr>cn_backlog := fs, cn_inbox := cn_inbox cn @ envelope_payloads [f]\<rparr>"
  have r: "fst (reader_route c so) = hook_effect (so_hooks so) f"
    using Cons.prems by (auto simp: reader_route_def hook_effect_def Let_def split: option.split)
  have f: "reader_forward c (snd (reader_route c so)) = update_conn c ?g so"
    using Cons.prems by (auto simp: reader_route_def reader_forward_def Let_def intro!: update_conn_cong)
  have "route_all (length fs) c (update_conn c ?g so) =
    (concat (map (hook_effect (so_hooks (update_conn c ?g so))) fs),
     update_conn c (\<lambda>cn. cn\<lparr>cn_backlog := [], cn_inbox := cn_inbox cn @ envelope_payloads fs\<rparr>) (update_conn c ?g so))"
    by (rule Cons.IH) (use Cons.prems in auto)
  then show ?case
    using r f by (simp add: split_beta comp_def)
qed

lemma reader_read_bytes:
  assumes "c < length (so_conns so)" "reader_idle (so_conns so ! c)" "feed crc (cn_decoder (so_conns so ! c)) bs = (Inr fs, d)"
  shows "reader_read crc c (Read_Bytes bs) so = update_conn c (\<lambda>cn. cn\<lparr>cn_decoder := d, cn_backlog := fs\<rparr>) so"
  using assms by (simp add: reader_read_def reader_idle_def Let_def)

lemma pump_frames:
  assumes "c < length (so_conns so)" "reader_idle (so_conns so ! c)"
    and "feed_chunks crc (cn_decoder (so_conns so ! c)) cs = (Inr fs, d)"
    and "length (cn_inbox (so_conns so ! c)) + length (envelope_payloads fs) \<le> INBOX_CAP"
  shows "pump crc c cs so =
    (concat (map (hook_effect (so_hooks so)) fs),
     update_conn c (\<lambda>cn. cn\<lparr>cn_decoder := d, cn_inbox := cn_inbox cn @ envelope_payloads fs\<rparr>) so)"
  using assms
proof (induction cs arbitrary: so fs)
  case Nil
  have "update_conn c (\<lambda>cn. cn\<lparr>cn_decoder := d, cn_inbox := cn_inbox cn @ []\<rparr>) so = update_conn c id so"
    by (rule update_conn_cong) (use Nil in simp)
  then show ?case
    using Nil by (simp add: update_conn_def)
next
  case (Cons bs cs)
  obtain gs d1 hs where g: "feed crc (cn_decoder (so_conns so ! c)) bs = (Inr gs, d1)" "feed_chunks crc d1 cs = (Inr hs, d)" "fs = gs @ hs"
    using Cons.prems(3) by (auto simp: apfst_def map_prod_def split: prod.splits sum.splits) (metis map_sum.simps sum.exhaust sum.inject(2) sum.distinct(1))
  let ?g = "\<lambda>cn. cn\<lparr>cn_decoder := d1, cn_backlog := [], cn_inbox := cn_inbox cn @ envelope_payloads gs\<rparr>"
  have r: "route_all (length gs) c (update_conn c (\<lambda>cn. cn\<lparr>cn_decoder := d1, cn_backlog := gs\<rparr>) so) =
      (concat (map (hook_effect (so_hooks so)) gs), update_conn c ?g so)"
    using Cons.prems(1,2,4) g(3) by (subst route_all_frames) (auto simp: reader_idle_def comp_def)
  have "pump crc c cs (update_conn c ?g so) = (concat (map (hook_effect (so_hooks (update_conn c ?g so))) hs),
      update_conn c (\<lambda>cn. cn\<lparr>cn_decoder := d, cn_inbox := cn_inbox cn @ envelope_payloads hs\<rparr>) (update_conn c ?g so))"
    using Cons.prems(1,2,4) g by (intro Cons.IH) (auto simp: reader_idle_def)
  moreover have "update_conn c (\<lambda>cn. cn\<lparr>cn_backlog := [], cn_decoder := d, cn_inbox := cn_inbox cn @ envelope_payloads fs\<rparr>) so =
      update_conn c (\<lambda>cn. cn\<lparr>cn_decoder := d, cn_inbox := cn_inbox cn @ envelope_payloads fs\<rparr>) so"
    by (rule update_conn_cong) (use Cons.prems(2) in \<open>simp add: reader_idle_def\<close>)
  ultimately show ?case
    using r reader_read_bytes [OF Cons.prems(1,2) g(1)] Cons.prems(1) g(3) by (simp add: comp_def)
qed

section \<open>One envelope over an idle connection\<close>

definition json_frame :: "txid \<Rightarrow> bytes \<Rightarrow> frame" where
  "json_frame uuid json = frame_new DataJson uuid (of_nat (length json)) 0 json"

lemma json_frame_arrives:
  assumes "encode_data_json_frame crc uuid json = Inr bs" "concat cs = bs"
  shows "feed_chunks crc decoder_new cs = (Inr [json_frame uuid json], decoder_new)"
proof -
  have "encodes_to crc (json_frame uuid json) bs"
    using assms(1) by (simp add: encode_data_json_frame_def encodes_to_def json_frame_def canonical_type_def from_u16_def frame_new_def)
  then have "list_all2 (encodes_to crc) [json_frame uuid json] [bs]"
    by simp
  from feed_loop_carries [OF carries_encoded_list [OF this, of "[]"], of "[]"] assms(2) show ?thesis
    by (simp add: feed_chunks_new feed_loop_empty)
qed

lemma json_fits:
  assumes "length json \<le> MAX_DATA_JSON_FRAME_LEN"
  shows "\<exists>bs. encode_data_json_frame crc uuid json = Inr bs"
  using assms by (simp add: encode_data_json_frame_def frame_encode_def encode_max_def frame_new_def Let_def)

text \<open>A connected transport whose connection \<open>c\<close> has nothing queued in either direction.\<close>

definition egress_idle :: "egress \<Rightarrow> bool" where
  "egress_idle e \<longleftrightarrow> eg_phase e = Draining \<and> eg_data e = [] \<and> eg_control e = [] \<and> eg_handles e \<and> eg_control_open e"

definition link_idle :: "nat \<Rightarrow> socket_transport \<Rightarrow> bool" where
  "link_idle c so \<longleftrightarrow>
    c < length (so_conns so) \<and> reader_idle (so_conns so ! c) \<and> egress_idle (cn_egress (so_conns so ! c)) \<and>
    cn_decoder (so_conns so ! c) = decoder_new \<and> cn_inbox (so_conns so ! c) = [] \<and> cn_awaiting (so_conns so ! c) = None \<and>
    sh_connected (so_shared so) \<and> so_egress so = Some c"

text \<open>A frame queued on an idle egress is written by the next two drain steps.\<close>

lemma idle_drain:
  assumes "eg_phase e = Draining" "eg_data e = [Frame_Item f (Some r)]" "eg_control e = []" "eg_handles e" "eg_control_open e"
  shows "egress_step Select (sh, e) = ([], sh, e\<lparr>eg_data := [], eg_phase := Writing Data_Lane f (Some r)\<rparr>)"
    and "egress_step (Write_Done True) (sh, e\<lparr>eg_data := [], eg_phase := Writing Data_Lane f (Some r)\<rparr>)
      = ([Wrote Data_Lane f, Receipt r True], sh, e\<lparr>eg_data := [], eg_phase := Draining\<rparr>)"
  using assms by (simp_all add: drain_select_def drain_wrote_def split_beta)

lemma update_conn_shared [simp]: "(update_conn c f so)\<lparr>so_shared := so_shared so\<rparr> = update_conn c f so"
  by (simp add: update_conn_def)

lemma drain_one:
  assumes "c < length (so_conns so)" "eg_phase e = Draining" "eg_data e = [Frame_Item f (Some r)]"
    and "eg_control e = []" "eg_handles e" "eg_control_open e" "cn_egress (so_conns so ! c) = e"
  shows "socket_run ev [Op_Select c, Op_Write_Done c True] so =
    (case receipt_arrives c r True (update_conn c (\<lambda>cn. cn\<lparr>cn_egress := e\<lparr>eg_data := [], eg_phase := Draining\<rparr>\<rparr>) so) of
       (eff, so') \<Rightarrow> (On_Wire c f # eff, so'))"
proof -
  have "with_egress c Select so = ([], update_conn c (\<lambda>cn. cn\<lparr>cn_egress := e\<lparr>eg_data := [], eg_phase := Writing Data_Lane f (Some r)\<rparr>\<rparr>) so)"
    using assms(1,7) idle_drain(1) [OF assms(2-6), of "so_shared so"] by (simp add: with_egress_def)
  moreover have "with_egress c (Write_Done True) (update_conn c (\<lambda>cn. cn\<lparr>cn_egress := e\<lparr>eg_data := [], eg_phase := Writing Data_Lane f (Some r)\<rparr>\<rparr>) so)
    = (case receipt_arrives c r True (update_conn c (\<lambda>cn. cn\<lparr>cn_egress := e\<lparr>eg_data := [], eg_phase := Draining\<rparr>\<rparr>) so) of
       (eff, so') \<Rightarrow> (On_Wire c f # eff, so'))"
    using assms(1) idle_drain(2) [OF assms(2-6), of "so_shared so"]
    by (simp add: with_egress_def comp_def split: prod.split)
  ultimately show ?thesis
    by (simp split: prod.split)
qed

lemma receipt_call_ok:
  assumes i: "hm_inv (so_calls so)" "calls_distinct (so_calls so)"
    and "hm_get (so_calls so) w = Some ca" "ca_receipt ca = Some (c, r)" "ca_reply ca = None"
  shows "receipt_call c r True so = ([], so\<lparr>so_calls := hm_put w (ca\<lparr>ca_receipt := None\<rparr>) (so_calls so)\<rparr>)"
proof -
  obtain w' ca' where f: "find (\<lambda>(w, ca). ca_receipt ca = Some (c, r)) (so_calls so) = Some (w', ca')"
    using find_call(2) [OF i(1) _ assms(3), of "(c, r)"] assms(4)
    by (cases "find (\<lambda>(w, ca). ca_receipt ca = Some (c, r)) (so_calls so)") auto
  from find_call(1) [OF i(1) f] have "w' = w" "ca' = ca"
    using i(2) assms(3,4) unfolding calls_distinct_def by (metis option.distinct(1), metis option.inject option.distinct(1))
  then show ?thesis
    using f assms by (simp add: receipt_call_def settle_call_def)
qed

lemma receipt_call_none:
  assumes "hm_inv (so_calls so)" "\<And>w ca. hm_get (so_calls so) w = Some ca \<Longrightarrow> ca_receipt ca \<noteq> Some (c, r)"
  shows "receipt_call c r ok so = ([], so)"
proof -
  have "find (\<lambda>(w, ca). ca_receipt ca = Some (c, r)) (so_calls so) = None"
  proof (rule ccontr)
    assume "find (\<lambda>(w, ca). ca_receipt ca = Some (c, r)) (so_calls so) \<noteq> None"
    then show False
      using find_call(1) [OF assms(1)] assms(2) by (metis not_None_eq surj_pair)
  qed
  then show ?thesis
    by (simp add: receipt_call_def)
qed

text \<open>A call never waits for a receipt that has not been issued yet.\<close>

lemma fresh_receipt:
  assumes "calls_inv c' {} {} tr so" "c < length (so_conns so)" "hm_get (so_calls so) w = Some ca"
  shows "ca_receipt ca \<noteq> Some (c, eg_next_receipt (cn_egress (so_conns so ! c)))"
proof
  assume "ca_receipt ca = Some (c, eg_next_receipt (cn_egress (so_conns so ! c)))"
  then have "eg_next_receipt (cn_egress (so_conns so ! c)) \<in> set (outstanding (cn_egress (so_conns so ! c)))"
    using assms by (auto simp: calls_inv_def call_ok_def)
  moreover have "egress_ok (cn_egress (so_conns so ! c))"
    using assms(1,2) by (simp add: calls_inv_def)
  ultimately show False
    by (auto simp: egress_ok_def)
qed

lemma calls_invD: "calls_inv c R W tr so \<Longrightarrow> hm_inv (so_calls so) \<and> calls_distinct (so_calls so)"
  by (simp add: calls_inv_def)

text \<open>The state of the caller once its request is on the wire.\<close>

definition awaiting_reply :: "nat \<Rightarrow> string \<Rightarrow> nat \<Rightarrow> socket_transport \<Rightarrow> bool" where
  "awaiting_reply w i c so \<longleftrightarrow>
    link_idle c so \<and> hm_get (so_calls so) w = Some \<lparr>ca_id = i, ca_receipt = None, ca_reply = None\<rparr> \<and>
    hm_get (sh_pending (so_shared so)) i = Some (Respond w)"

lemma request_written:
  assumes i: "calls_inv 0 {} {} tr so" and n: "so_next_id so < 2 ^ 64" and idle: "link_idle c so"
    and ser: "serialize_envelope ev uuid (Request_Env (request_id (so_next_id so)) sid payload) = Inr bs"
  shows "\<exists>so'. socket_run ev [Op_Send uuid sid payload, Op_Select c, Op_Write_Done c True] so = ([On_Wire c bs], so') \<and>
    awaiting_reply (so_next_waiter so) (request_id (so_next_id so)) c so'"
proof -
  let ?i = "request_id (so_next_id so)" and ?w = "so_next_waiter so"
  let ?e = "cn_egress (so_conns so ! c)"
  let ?r = "eg_next_receipt ?e"
  let ?e1 = "?e\<lparr>eg_data := [Frame_Item bs (Some ?r)], eg_next_receipt := Suc ?r\<rparr>"
  let ?ca = "\<lparr>ca_id = ?i, ca_receipt = Some (c, ?r), ca_reply = None\<rparr>"
  obtain so1 where so1: "socket_send ev uuid sid payload so = (Inr ?w, so1)"
      "so_calls so1 = hm_put ?w ?ca (so_calls so)" "so_conns so1 = (so_conns so)[c := (so_conns so ! c)\<lparr>cn_egress := ?e1\<rparr>]"
      "sh_pending (so_shared so1) = hm_put ?i (Respond ?w) (sh_pending (so_shared so))"
      "sh_connected (so_shared so1)" "so_egress so1 = Some c" "c < length (so_conns so)"
    using idle ser n by (simp add: socket_send_def socket_next_id_def link_idle_def egress_idle_def egress_send_acked_def
        set_pending_def update_conn_def Let_def)
  have i1: "calls_inv 0 {} {} tr so1"
    using send_inv [OF i n, of ev uuid sid payload] so1(1) by simp
  let ?so2 = "update_conn c (\<lambda>cn. cn\<lparr>cn_egress := ?e1\<lparr>eg_data := [], eg_phase := Draining\<rparr>\<rparr>) so1"
  have d: "socket_run ev [Op_Select c, Op_Write_Done c True] so1 =
    (case receipt_arrives c ?r True ?so2 of (eff, so') \<Rightarrow> (On_Wire c bs # eff, so'))"
    using idle so1(3,7) by (intro drain_one) (simp_all add: link_idle_def egress_idle_def)
  let ?so3 = "update_conn c (\<lambda>cn. if cn_awaiting cn = Some ?r then cn\<lparr>cn_awaiting := None\<rparr> else cn) ?so2"
  have "receipt_call c ?r True ?so3 = ([], ?so3\<lparr>so_calls := hm_put ?w (?ca\<lparr>ca_receipt := None\<rparr>) (so_calls ?so3)\<rparr>)"
    using calls_invD [OF i1] so1(2) by (intro receipt_call_ok) simp_all
  then have "socket_run ev [Op_Send uuid sid payload, Op_Select c, Op_Write_Done c True] so =
      ([On_Wire c bs], ?so3\<lparr>so_calls := hm_put ?w (?ca\<lparr>ca_receipt := None\<rparr>) (so_calls ?so3)\<rparr>)"
    using d so1(1) by (simp add: receipt_arrives_def split_beta)
  then show ?thesis
    using idle so1 by (auto simp: awaiting_reply_def link_idle_def egress_idle_def reader_idle_def update_conn_def)
qed

text \<open>A response written by the serving side.\<close>

lemma response_written:
  assumes i: "calls_inv 0 {} {} tr so" and idle: "link_idle c so" and t: "so_inflight so ! k = \<lparr>in_id = j, in_sid = sid, in_conn = c\<rparr>"
    and k: "k < length (so_inflight so)"
    and ser: "serialize_envelope ev uuid (Response_Env j sid (handler_response result)) = Inr bs"
  shows "\<exists>so'. socket_run ev [Op_Handler uuid k result, Op_Select c, Op_Write_Done c True] so = ([On_Wire c bs], so')"
proof -
  let ?e = "cn_egress (so_conns so ! c)"
  let ?r = "eg_next_receipt ?e"
  let ?e1 = "?e\<lparr>eg_data := [Frame_Item bs (Some ?r)], eg_next_receipt := Suc ?r\<rparr>"
  obtain so1 where so1: "handler_done ev uuid k result so = so1" "so_calls so1 = so_calls so"
      "so_conns so1 = (so_conns so)[c := (so_conns so ! c)\<lparr>cn_egress := ?e1\<rparr>]" "c < length (so_conns so)"
    using idle ser t k by (simp add: handler_done_def response_frame_def link_idle_def egress_idle_def egress_send_acked_def update_conn_def Let_def)
  let ?so2 = "update_conn c (\<lambda>cn. cn\<lparr>cn_egress := ?e1\<lparr>eg_data := [], eg_phase := Draining\<rparr>\<rparr>) so1"
  have d: "socket_run ev [Op_Select c, Op_Write_Done c True] so1 =
    (case receipt_arrives c ?r True ?so2 of (eff, so') \<Rightarrow> (On_Wire c bs # eff, so'))"
    using idle so1(3,4) by (intro drain_one) (simp_all add: link_idle_def egress_idle_def)
  let ?so3 = "update_conn c (\<lambda>cn. if cn_awaiting cn = Some ?r then cn\<lparr>cn_awaiting := None\<rparr> else cn) ?so2"
  have "receipt_call c ?r True ?so3 = ([], ?so3)"
    using calls_invD [OF i] so1(2) fresh_receipt [OF i so1(4)] by (intro receipt_call_none) simp_all
  then show ?thesis
    using d so1(1) by (simp add: receipt_arrives_def split_beta)
qed

text \<open>An envelope that arrives at an idle transport is the next thing its dispatch task takes.\<close>

lemma envelope_arrives:
  assumes "link_idle c so" "encode_data_json_frame crc uuid json = Inr bs" "concat cs = bs"
  shows "pump crc c cs so =
    (hook_effect (so_hooks so) (json_frame uuid json), update_conn c (\<lambda>cn. cn\<lparr>cn_inbox := [Payload json]\<rparr>) so)"
proof -
  have "pump crc c cs so = (hook_effect (so_hooks so) (json_frame uuid json),
      update_conn c (\<lambda>cn. cn\<lparr>cn_decoder := decoder_new, cn_inbox := cn_inbox cn @ [Payload json]\<rparr>) so)"
    using pump_frames [of c so crc cs "[json_frame uuid json]" decoder_new] json_frame_arrives [OF assms(2,3)] assms(1)
    by (simp add: link_idle_def json_frame_def frame_new_def INBOX_CAP_def)
  moreover have "update_conn c (\<lambda>cn. cn\<lparr>cn_decoder := decoder_new, cn_inbox := cn_inbox cn @ [Payload json]\<rparr>) so
      = update_conn c (\<lambda>cn. cn\<lparr>cn_inbox := [Payload json]\<rparr>) so"
    by (rule update_conn_cong) (use assms(1) in \<open>simp add: link_idle_def\<close>)
  ultimately show ?thesis
    by simp
qed

lemma dispatch_taken:
  assumes "link_idle c so" "sv_from_slice ev json = Some msg"
  shows "socket_step ev (Op_Dispatch uuid c) (update_conn c (\<lambda>cn. cn\<lparr>cn_inbox := [Payload json]\<rparr>) so) = dispatch_envelope ev uuid c msg so"
proof -
  have "update_conn c (\<lambda>cn. cn\<lparr>cn_inbox := []\<rparr>) so = update_conn c id so"
    by (rule update_conn_cong) (use assms(1) in \<open>simp add: link_idle_def\<close>)
  then have "update_conn c (\<lambda>cn. cn\<lparr>cn_inbox := []\<rparr>) so = so"
    by (simp add: update_conn_def)
  then show ?thesis
    using assms by (simp add: at_conn_def dispatch_step_def link_idle_def reader_idle_def comp_def)
qed

text \<open>What the theorems assume of the JSON library: this envelope's text fits a frame and parses back.\<close>

definition codec_for :: "socket_env \<Rightarrow> xacpp_envelope \<Rightarrow> bool" where
  "codec_for ev msg \<longleftrightarrow>
    (\<exists>json. sv_to_vec ev msg = Inr json \<and> sv_from_slice ev json = Some msg \<and> length json \<le> MAX_DATA_JSON_FRAME_LEN)"

lemma codec_forE:
  assumes "codec_for ev msg"
  obtains json bs where "sv_from_slice ev json = Some msg" "encode_data_json_frame (sv_crc ev) uuid json = Inr bs"
    "serialize_envelope ev uuid msg = Inr bs"
proof -
  obtain json where j: "sv_to_vec ev msg = Inr json" "sv_from_slice ev json = Some msg" "length json \<le> MAX_DATA_JSON_FRAME_LEN"
    using assms by (auto simp: codec_for_def)
  obtain bs where "encode_data_json_frame (sv_crc ev) uuid json = Inr bs"
    using json_fits [OF j(3)] by blast
  with j that show thesis
    by (simp add: serialize_envelope_def)
qed

section \<open>Properties\<close>

text \<open>
  Inbound routing. Feed the reader of a connection any chunks that its decoder turns into the
  frames \<open>fs\<close>, with room in the dispatch queue. Then the envelope payloads, in order, join the dispatch
  queue, every other frame, in order, goes to the transfer hooks, and each envelope refreshes the
  peer's activity there; without hooks those frames are dropped. How the stream was cut does not matter.
\<close>

theorem reader_routes_frames:
  assumes "c < length (so_conns so)" "reader_idle (so_conns so ! c)"
    and "feed_chunks crc (cn_decoder (so_conns so ! c)) cs = (Inr fs, d)"
    and "length (cn_inbox (so_conns so ! c)) + length (envelope_payloads fs) \<le> INBOX_CAP"
  shows "pump crc c cs so =
    (concat (map (hook_effect (so_hooks so)) fs),
     update_conn c (\<lambda>cn. cn\<lparr>cn_decoder := d, cn_inbox := cn_inbox cn @ envelope_payloads fs\<rparr>) so)"
  by (rule pump_frames [OF assms])

theorem reader_routes_frames_witness:
  "pump sample_crc 0 [take 30 (sample_bytes sample_ack), drop 30 (sample_bytes sample_ack)] (sample_client\<lparr>so_hooks := Some 9\<rparr>)
    = ([Hook_Frame 9 sample_ack], update_conn 0 (\<lambda>cn. cn\<lparr>cn_decoder := decoder_new, cn_inbox := cn_inbox cn @ []\<rparr>) (sample_client\<lparr>so_hooks := Some 9\<rparr>))"
proof -
  have "list_all2 (encodes_to sample_crc) [sample_ack] [sample_bytes sample_ack]"
    by (simp add: sample_encodes)
  from feed_loop_carries [OF carries_encoded_list [OF this, of "[]"], of "[]"]
  have "feed_chunks sample_crc decoder_new [take 30 (sample_bytes sample_ack), drop 30 (sample_bytes sample_ack)] = (Inr [sample_ack], decoder_new)"
    by (simp add: feed_chunks_new feed_loop_empty del: feed_chunks.simps)
  moreover have "0 < length (so_conns (sample_client\<lparr>so_hooks := Some 9\<rparr>))" "reader_idle (so_conns (sample_client\<lparr>so_hooks := Some 9\<rparr>) ! 0)"
    "cn_decoder (so_conns (sample_client\<lparr>so_hooks := Some 9\<rparr>) ! 0) = decoder_new"
    "cn_inbox (so_conns (sample_client\<lparr>so_hooks := Some 9\<rparr>) ! 0) = []"
    by (simp_all add: sample_client_def new_connection_def reader_idle_def)
  moreover have "f_type sample_ack = Ack"
    by (simp add: sample_ack_def frame_new_def)
  ultimately show ?thesis
    using reader_routes_frames [of 0 "sample_client\<lparr>so_hooks := Some 9\<rparr>" sample_crc _ "[sample_ack]" decoder_new]
    by (simp add: hook_effect_def del: pump.simps feed_chunks.simps)
qed

text \<open>
  C9. A request, end to end. Two reachable transports with idle connections, the second with a request
  handler; the JSON text of the two envelopes fits a frame and parses back. Sending puts the request on
  the wire; under any segmentation it reaches the peer's handler with its session id and payload; the
  handler's result, or its error as an error response, is written back; under any segmentation it
  returns from the very call that sent the request.
\<close>

theorem request_end_to_end:
  assumes ra: "socket_run ev ops_a (socket_new_impl pa da) = (tr_a, a)" "length ops_a < 2 ^ 64 - 1"
    and rb: "socket_run ev ops_b (socket_new_impl pb db) = (tr_b, b)" "length ops_b < 2 ^ 64"
    and la: "link_idle ca a" and lb: "link_idle cb b" and hb: "so_handler b"
    and req: "codec_for ev (Request_Env (request_id (so_next_id a)) sid payload)"
    and resp: "codec_for ev (Response_Env (request_id (so_next_id a)) sid (handler_response result))"
  shows "\<exists>bs a1. socket_run ev [Op_Send u1 sid payload, Op_Select ca, Op_Write_Done ca True] a = ([On_Wire ca bs], a1) \<and>
    (\<forall>cs. concat cs = bs \<longrightarrow>
      (\<exists>h b1 b2 bs' b3. pump (sv_crc ev) cb cs b = (h, b1) \<and>
        socket_step ev (Op_Dispatch u2 cb) b1 = ([Handle_Request cb (request_id (so_next_id a)) sid payload], b2) \<and>
        socket_run ev [Op_Handler u3 (length (so_inflight b)) result, Op_Select cb, Op_Write_Done cb True] b2 = ([On_Wire cb bs'], b3) \<and>
        (\<forall>cs'. concat cs' = bs' \<longrightarrow>
          (\<exists>h' a2 a3. pump (sv_crc ev) ca cs' a1 = (h', a2) \<and>
            socket_step ev (Op_Dispatch u2 ca) a2 = ([Returned (so_next_waiter a) (Inr (handler_response result))], a3)))))"
proof -
  let ?i = "request_id (so_next_id a)" and ?w = "so_next_waiter a"
  have n: "so_next_id a < 2 ^ 64"
    using socket_run_next_id [of ev ops_a "socket_new_impl pa da"] ra by (simp add: socket_new_impl_def)
  have ia: "calls_inv 0 {} {} tr_a a" and ib: "calls_inv 0 {} {} tr_b b"
    using socket_run_inv [OF ra(1)] ra(2) socket_run_inv [OF rb] by simp_all
  obtain json bs where q: "sv_from_slice ev json = Some (Request_Env ?i sid payload)" "encode_data_json_frame (sv_crc ev) u1 json = Inr bs"
      "serialize_envelope ev u1 (Request_Env ?i sid payload) = Inr bs"
    by (rule codec_forE [OF req])
  obtain json' bs' where p: "sv_from_slice ev json' = Some (Response_Env ?i sid (handler_response result))"
      "encode_data_json_frame (sv_crc ev) u3 json' = Inr bs'" "serialize_envelope ev u3 (Response_Env ?i sid (handler_response result)) = Inr bs'"
    by (rule codec_forE [OF resp])
  obtain a1 where a1: "socket_run ev [Op_Send u1 sid payload, Op_Select ca, Op_Write_Done ca True] a = ([On_Wire ca bs], a1)"
      "awaiting_reply ?w ?i ca a1"
    using request_written [OF ia n la q(3)] by blast
  let ?b2 = "b\<lparr>so_inflight := so_inflight b @ [\<lparr>in_id = ?i, in_sid = sid, in_conn = cb\<rparr>]\<rparr>"
  have b2: "dispatch_envelope ev u2 cb (Request_Env ?i sid payload) b = ([Handle_Request cb ?i sid payload], ?b2)"
    using hb by (simp add: dispatch_envelope_def)
  have "calls_inv 0 {} {} (tr_b @ [Handle_Request cb ?i sid payload]) ?b2"
    using envelope_inv [OF ib b2] lb by (simp add: link_idle_def)
  then obtain b3 where b3: "socket_run ev [Op_Handler u3 (length (so_inflight b)) result, Op_Select cb, Op_Write_Done cb True] ?b2 = ([On_Wire cb bs'], b3)"
    using response_written [of _ ?b2 cb "length (so_inflight b)" ?i sid ev u3 result bs'] lb p(3)
    by (auto simp: link_idle_def)
  have a3: "\<exists>a3. dispatch_envelope ev u2 ca (Response_Env ?i sid (handler_response result)) a1 =
      ([Returned ?w (Inr (handler_response result))], a3)"
    using a1(2) by (simp add: awaiting_reply_def dispatch_envelope_def reply_call_def settle_call_def Let_def)
  have la1: "link_idle ca a1"
    using a1(2) by (simp add: awaiting_reply_def)
  show ?thesis
    using a1(1) envelope_arrives [OF lb q(2)] dispatch_taken [OF lb q(1), of u2] b2 b3
      envelope_arrives [OF la1 p(2)] dispatch_taken [OF la1 p(1), of u2] a3
    by metis
qed

definition sample_server :: socket_transport where
  "sample_server = sample_client\<lparr>so_handler := True\<rparr>"

lemma sample_server_run:
  "socket_run ev [Op_On_Request False, Op_Connect (Inr ()), Op_Publish] (socket_new_impl False True) = ([], sample_server)"
  by (simp add: socket_new_impl_def sample_server_def sample_client_def connect_open_def spawn_tasks_def connect_publish_def
      socket_on_request_def)

theorem request_end_to_end_witness:
  "\<exists>bs a1 h b1 b2 bs' b3 h' a2 a3.
    socket_run sample_socket_env [Op_Send 5 None sample_request, Op_Select 0, Op_Write_Done 0 True] sample_client = ([On_Wire 0 bs], a1) \<and>
    pump sample_crc 0 [take 7 bs, drop 7 bs] sample_server = (h, b1) \<and>
    socket_step sample_socket_env (Op_Dispatch 6 0) b1 = ([Handle_Request 0 (request_id 1) None sample_request], b2) \<and>
    socket_run sample_socket_env [Op_Handler 7 0 (Inr acknowledge), Op_Select 0, Op_Write_Done 0 True] b2 = ([On_Wire 0 bs'], b3) \<and>
    pump sample_crc 0 [bs'] a1 = (h', a2) \<and>
    socket_step sample_socket_env (Op_Dispatch 6 0) a2 = ([Returned 0 (Inr acknowledge)], a3)"
proof -
  have i: "so_next_id sample_client = 1" "so_next_waiter sample_client = 0" "so_inflight sample_server = []" "sv_crc sample_socket_env = sample_crc"
    by (simp_all add: sample_client_def sample_server_def socket_new_impl_def sample_socket_env_def)
  have l: "link_idle 0 sample_client" "link_idle 0 sample_server" "so_handler sample_server"
    by (simp_all add: link_idle_def sample_client_def sample_server_def reader_idle_def egress_idle_def new_connection_def spawn_egress_def)
  have c: "codec_for sample_socket_env (Request_Env (request_id (so_next_id sample_client)) None sample_request)"
    "codec_for sample_socket_env (Response_Env (request_id (so_next_id sample_client)) None (handler_response (Inr acknowledge)))"
    by (simp_all add: codec_for_def sample_socket_env_def i frame_consts)
  obtain bs a1 where a1: "socket_run sample_socket_env [Op_Send 5 None sample_request, Op_Select 0, Op_Write_Done 0 True] sample_client = ([On_Wire 0 bs], a1)"
    and b: "\<forall>cs. concat cs = bs \<longrightarrow> (\<exists>h b1 b2 bs' b3. pump sample_crc 0 cs sample_server = (h, b1) \<and>
        socket_step sample_socket_env (Op_Dispatch 6 0) b1 = ([Handle_Request 0 (request_id 1) None sample_request], b2) \<and>
        socket_run sample_socket_env [Op_Handler 7 0 (Inr acknowledge), Op_Select 0, Op_Write_Done 0 True] b2 = ([On_Wire 0 bs'], b3) \<and>
        (\<forall>cs'. concat cs' = bs' \<longrightarrow> (\<exists>h' a2 a3. pump sample_crc 0 cs' a1 = (h', a2) \<and>
          socket_step sample_socket_env (Op_Dispatch 6 0) a2 = ([Returned 0 (Inr acknowledge)], a3))))"
    using request_end_to_end [OF sample_client_run _ sample_server_run _ l c, of 5 6 7] by (auto simp: i)
  have "concat [take 7 bs, drop 7 bs] = bs" "concat [bs'] = bs'" for bs' :: bytes
    by simp_all
  then show ?thesis
    using a1 b by metis
qed

end
