(* ===== verification/Transfer_Carrier.thy ===== *)
theory Transfer_Carrier
  imports End_To_End Socket_Rpc
begin

text \<open>
  A transfer session on a socket transport: its writes go through the transport's wiring surface, its egress
  and its drain task onto the wire; the bytes go through the other transport's reader and transfer hooks
  into the other session (\<open>TransferWiring\<close> of \<open>src/src/transfer/core.rs\<close> as \<open>src/src/carrier/socket.rs\<close>
  implements it).
\<close>

section \<open>Out: the wiring surface and the drain task\<close>

text \<open>The transport calls that a session's effects make.\<close>

fun write_op :: "effect \<Rightarrow> socket_op list" where
  "write_op (WriteControl w) = [Op_Write_Control w]"
| "write_op (WriteData f) = [Op_Write_Data f]"
| "write_op _ = []"

definition write_ops :: "effect list \<Rightarrow> socket_op list" where
  "write_ops eff = concat (map write_op eff)"

definition socket_drain :: "nat \<Rightarrow> nat \<Rightarrow> socket_op list" where
  "socket_drain c n = concat (replicate n [Op_Select c, Op_Write_Done c True])"

definition egress_ready :: "nat \<Rightarrow> socket_transport \<Rightarrow> bool" where
  "egress_ready c so \<longleftrightarrow>
    c < length (so_conns so) \<and> egress_idle (cn_egress (so_conns so ! c)) \<and> sh_connected (so_shared so) \<and> so_egress so = Some c"

abbreviation put_egress :: "nat \<Rightarrow> egress \<Rightarrow> socket_transport \<Rightarrow> socket_transport" where
  "put_egress c e \<equiv> update_conn c (\<lambda>cn. cn\<lparr>cn_egress := e\<rparr>)"

definition queued :: "bytes list \<Rightarrow> egress \<Rightarrow> egress" where
  "queued ws e = e\<lparr>eg_data := map (\<lambda>w. Frame_Item w None) ws\<rparr>"

lemma write_ops_simps [simp]: "write_ops [] = []" "write_ops (x # xs) = write_op x @ write_ops xs"
  by (simp_all add: write_ops_def)

lemma socket_drain_simps [simp]: "socket_drain c 0 = []" "socket_drain c (Suc n) = Op_Select c # Op_Write_Done c True # socket_drain c n"
  by (simp_all add: socket_drain_def)

lemma put_same: "cn_egress (so_conns so ! c) = e \<Longrightarrow> put_egress c e so = so"
  by (auto simp: update_conn_def)

lemma decoder_same: "cn_decoder (so_conns so ! c) = d \<Longrightarrow> update_conn c (\<lambda>cn. cn\<lparr>cn_decoder := d\<rparr>) so = so"
  by (auto simp: update_conn_def)

lemma egress_update_twice [simp]: "cn_egress_update (\<lambda>_. e) \<circ> cn_egress_update (\<lambda>_. e') = cn_egress_update (\<lambda>_. e)"
  by (simp add: fun_eq_iff)

lemma draining_again [simp]:
  "eg_phase e = Draining \<Longrightarrow> e\<lparr>eg_data := q, eg_phase := Draining\<rparr> = e\<lparr>eg_data := q\<rparr>"
  "egress_idle e \<Longrightarrow> e\<lparr>eg_control := [], eg_phase := Draining\<rparr> = e"
  by (cases e, simp add: egress_idle_def)+

lemma data_queued:
  assumes "c < length (so_conns so)" "sh_connected (so_shared so)" "so_egress so = Some c" "eg_phase e = Draining"
    and "cn_egress (so_conns so ! c) = queued ws e" "list_all2 (\<lambda>f w. frame_encode (sv_crc ev) f = Inr w) fs vs"
  shows "socket_run ev (write_ops (map WriteData fs)) so = ([], put_egress c (queued (ws @ vs) e) so)"
  using assms(6,1-5)
proof (induction fs vs arbitrary: so ws rule: list_all2_induct)
  case Nil
  then show ?case
    by (simp add: put_same)
next
  case (Cons f fs v vs)
  let ?so = "put_egress c (queued (ws @ [v]) e) so"
  have "snd (socket_write_data_frame (sv_crc ev) f so) = ?so"
    using Cons.prems Cons.hyps(1) by (simp add: socket_write_data_frame_def egress_send_faf_def queued_def)
  moreover have "socket_run ev (write_ops (map WriteData fs)) ?so = ([], put_egress c (queued ((ws @ [v]) @ vs) e) ?so)"
    by (rule Cons.IH) (use Cons.prems in simp_all)
  ultimately show ?case
    by simp
qed

lemma data_drained:
  assumes "c < length (so_conns so)" "egress_idle e" "cn_egress (so_conns so ! c) = queued ws e"
  shows "socket_run ev (socket_drain c (length ws)) so = (map (On_Wire c) ws, put_egress c e so)"
  using assms
proof (induction ws arbitrary: so)
  case Nil
  then show ?case
    by (simp add: queued_def egress_idle_def put_same)
next
  case (Cons w ws)
  let ?so = "put_egress c (queued ws e) so"
  have "with_egress c Select so = ([], put_egress c ((queued ws e)\<lparr>eg_phase := Writing Data_Lane w None\<rparr>) so)"
    using Cons.prems by (simp add: with_egress_def drain_select_def queued_def egress_idle_def)
  moreover have "with_egress c (Write_Done True) (put_egress c ((queued ws e)\<lparr>eg_phase := Writing Data_Lane w None\<rparr>) so) = ([On_Wire c w], ?so)"
    using Cons.prems by (simp add: with_egress_def drain_wrote_def queued_def egress_idle_def connection_dead_def pending_clear_def Let_def)
  moreover have "socket_run ev (socket_drain c (length ws)) ?so = (map (On_Wire c) ws, put_egress c e ?so)"
    by (rule Cons.IH) (use Cons.prems in simp_all)
  ultimately show ?case
    by simp
qed

lemma data_written:
  assumes "egress_ready c so" "list_all2 (\<lambda>f w. frame_encode (sv_crc ev) f = Inr w) fs ws"
  shows "socket_run ev (write_ops (map WriteData fs) @ socket_drain c (length ws)) so = (map (On_Wire c) ws, so)"
proof -
  let ?e = "cn_egress (so_conns so ! c)"
  have idle: "c < length (so_conns so)" "egress_idle ?e" "queued [] ?e = ?e"
    using assms(1) by (auto simp: egress_ready_def egress_idle_def queued_def)
  have "socket_run ev (write_ops (map WriteData fs)) so = ([], put_egress c (queued ([] @ ws) ?e) so)"
    by (rule data_queued) (use assms idle in \<open>auto simp: egress_ready_def egress_idle_def\<close>)
  moreover have "socket_run ev (socket_drain c (length ws)) (put_egress c (queued ws ?e) so) = (map (On_Wire c) ws, put_egress c ?e (put_egress c (queued ws ?e) so))"
    by (rule data_drained) (use idle in simp_all)
  ultimately show ?thesis
    by (simp add: socket_run_append put_same)
qed

lemma control_written:
  assumes "egress_ready c so"
  shows "socket_run ev (Op_Write_Control w # socket_drain c 1) so = ([On_Wire c w], so)"
proof -
  let ?e = "cn_egress (so_conns so ! c)"
  have "snd (socket_write_control_frame w so) = put_egress c (?e\<lparr>eg_control := [Frame_Item w None]\<rparr>) so"
    using assms by (simp add: egress_ready_def egress_idle_def socket_write_control_frame_def egress_send_control_def)
  moreover have "with_egress c Select (put_egress c (?e\<lparr>eg_control := [Frame_Item w None]\<rparr>) so) =
      ([], put_egress c (?e\<lparr>eg_control := [], eg_phase := Writing Control_Lane w None\<rparr>) so)"
    using assms by (simp add: egress_ready_def egress_idle_def with_egress_def drain_select_def)
  moreover have "with_egress c (Write_Done True) (put_egress c (?e\<lparr>eg_control := [], eg_phase := Writing Control_Lane w None\<rparr>) so) =
      ([On_Wire c w], put_egress c ?e so)"
    using assms by (simp add: egress_ready_def egress_idle_def with_egress_def drain_wrote_def connection_dead_def pending_clear_def Let_def)
  ultimately show ?thesis
    by (simp add: put_same)
qed

section \<open>In: the reader and the hooks\<close>

lemma frames_hooked:
  assumes "link_idle c so" "so_hooks so = Some h" "feed_chunks crc decoder_new cs = (Inr fs, decoder_new)" "\<forall>f \<in> set fs. f_type f \<noteq> DataJson"
  shows "pump crc c cs so = (map (Hook_Frame h) fs, so)"
proof -
  have none: "envelope_payloads fs = []" "concat (map (hook_effect (Some h)) fs) = map (Hook_Frame h) fs"
    using assms(4) by (auto simp: envelope_payloads_def filter_empty_conv hook_effect_def comp_def intro: arg_cong [of _ _ concat])
      (induction fs, auto simp: hook_effect_def)
  have "update_conn c (\<lambda>cn. cn\<lparr>cn_decoder := decoder_new, cn_inbox := cn_inbox cn @ []\<rparr>) so = so"
    using decoder_same [of so c decoder_new] assms(1) by (simp add: link_idle_def)
  then show ?thesis
    using pump_frames [of c so crc cs fs decoder_new] assms(1-3) none by (simp add: link_idle_def INBOX_CAP_def)
qed

section \<open>From one session to the other\<close>

text \<open>
  The writes of a session on connection \<open>ca\<close> of the transport \<open>A\<close> reach, whatever the segmentation, the hooks
  \<open>hb\<close> of the transport \<open>B\<close> through its connection \<open>cb\<close> as the frames \<open>fs\<close>; both transports are idle again.
\<close>

definition carried :: "socket_env \<Rightarrow> nat \<Rightarrow> socket_transport \<Rightarrow> nat \<Rightarrow> socket_transport \<Rightarrow> nat \<Rightarrow> effect list \<Rightarrow> frame list \<Rightarrow> bool" where
  "carried ev ca A cb B hb eff fs \<longleftrightarrow>
    (\<exists>n ws. socket_run ev (write_ops eff @ socket_drain ca n) A = (map (On_Wire ca) ws, A) \<and>
      (\<forall>cs. concat cs = concat ws \<longrightarrow> pump (sv_crc ev) cb cs B = (map (Hook_Frame hb) fs, B)))"

text \<open>One side's writes go through both transports to the other side, which dispatches the frames it is handed.\<close>

definition socket_exchange ::
  "socket_env \<Rightarrow> nat \<Rightarrow> socket_transport \<Rightarrow> nat \<Rightarrow> socket_transport \<Rightarrow> nat \<Rightarrow>
    env \<Rightarrow> link \<Rightarrow> nat \<Rightarrow> effect list \<Rightarrow> session_core \<Rightarrow> effect list \<Rightarrow> session_core \<Rightarrow> bool" where
  "socket_exchange ev ca A cb B hb sev lk now eff co eff' co' \<longleftrightarrow>
    (\<exists>fs. carried ev ca A cb B hb eff fs \<and> inbound_all sev lk now fs co = (eff', co'))"

lemma link_idle_ready: "link_idle c so \<Longrightarrow> egress_ready c so"
  by (simp add: egress_ready_def link_idle_def)

lemma encodings:
  assumes "\<forall>f \<in> set fs. \<exists>m. max_frame_len (f_type f) = Some m \<and> length (f_payload f) \<le> m"
  shows "\<exists>ws. list_all2 (\<lambda>f w. frame_encode crc f = Inr w) fs ws \<and> concat ws = written crc (map WriteData fs)"
  using assms
proof (induction fs)
  case (Cons f fs)
  then obtain m where m: "max_frame_len (f_type f) = Some m" "length (f_payload f) \<le> m"
    by auto
  obtain w where w: "encodes_to crc f w"
    by (rule encode_fits [OF m])
  obtain ws where "list_all2 (\<lambda>f w. frame_encode crc f = Inr w) fs ws" "concat ws = written crc (map WriteData fs)"
    using Cons by auto
  with w show ?case
    by (intro exI [of _ "w # ws"]) (simp add: encodes_to_def written_def)
qed (simp add: written_def)

lemma data_carried:
  assumes "link_idle ca A" "link_idle cb B" "so_hooks B = Some hb"
    and "\<forall>f \<in> set fs. f_type f \<noteq> DataJson \<and> (\<exists>m. max_frame_len (f_type f) = Some m \<and> length (f_payload f) \<le> m)"
  shows "carried ev ca A cb B hb (map WriteData fs) fs"
proof -
  obtain ws where ws: "list_all2 (\<lambda>f w. frame_encode (sv_crc ev) f = Inr w) fs ws" "concat ws = written (sv_crc ev) (map WriteData fs)"
    using encodings [of fs "sv_crc ev"] assms(4) by blast
  have "pump (sv_crc ev) cb cs B = (map (Hook_Frame hb) fs, B)" if "concat cs = concat ws" for cs
    using frames_hooked [OF assms(2,3)] arrives_data [of fs "sv_crc ev"] assms(4) that ws(2) by (simp add: arrives_def)
  then show ?thesis
    using data_written [OF link_idle_ready [OF assms(1)] ws(1)] unfolding carried_def by blast
qed

text \<open>A control write is carried, whatever deliveries and callbacks come with it.\<close>

lemma control_carried:
  assumes "link_idle ca A" "link_idle cb B" "so_hooks B = Some hb"
    and "decode_write (sv_crc ev) w = [f]" "f_type f \<noteq> DataJson" "write_ops eff = [Op_Write_Control w]"
  shows "carried ev ca A cb B hb eff [f]"
proof -
  have "pump (sv_crc ev) cb cs B = ([Hook_Frame hb f], B)" if "concat cs = w" for cs
    using frames_hooked [OF assms(2,3), of "sv_crc ev" cs "[f]"] arrives_control [OF assms(4), of "[WriteControl w]"] assms(5) that
    by (simp add: arrives_def)
  then show ?thesis
    using control_written [OF link_idle_ready [OF assms(1)], of ev w] assms(6) unfolding carried_def
    by (intro exI [of _ 1] exI [of _ "[w]"]) simp
qed

lemma socket_exchange_one:
  "carried ev ca A cb B hb eff [f] \<Longrightarrow> handle_inbound sev lk now f co = (eff', co') \<Longrightarrow>
   socket_exchange ev ca A cb B hb sev lk now eff co eff' co'"
  unfolding socket_exchange_def by (intro exI [of _ "[f]"]) simp

section \<open>Properties\<close>

text \<open>
  C3. A transfer over two socket transports. Two sessions, each mounted on a transport with an idle
  connection. The sender's writes go through the egress and the drain task of its transport onto the wire and, under any
  segmentation, through the reader and the hooks of the other into its session, which delivers the
  payload, once; the acknowledgement goes back the same way, and the sending session completes the transfer
  as confirmed, once.
\<close>

theorem transfer_over_sockets:
  assumes "session_inv (co_state a)" "\<not> contains_transaction (ss_sender (co_state a)) tx"
    and "payload \<noteq> []" "length payload < 2 ^ 32"
    and "unacked_bytes (ss_sender (co_state a)) + length payload
      \<le> sc_backpressure_cap_bytes (ts_config (ss_sender (co_state a)))"
    and "sc_frame_size (ts_config (ss_sender (co_state a))) \<le> MAX_DATA_BINARY_FRAME_LEN"
    and "session_inv (co_state b)" "co_binary_handler b" "\<not> co_stream_handler b"
    and "\<not> slot_exists (ss_reassembler (co_state b)) tx"
    and "send_binary a link_up tx payload (Some cb) t0 = (r, eff_a, a')"
    and link: "link_idle ka A" "so_hooks A = Some ha" "link_idle kb B" "so_hooks B = Some hb" "sv_crc ev = env_crc sev"
  shows "r = Inr tx \<and> (\<exists>w b' a''.
    socket_exchange ev ka A kb B hb sev lk t1 eff_a b [WriteControl w, Deliver tx payload] b' \<and>
    socket_exchange ev kb B ka A ha sev lk' t2 [WriteControl w, Deliver tx payload] a'
      [Completion cb \<lparr>br_txid = tx, br_confirmed = True\<rparr>] a'' \<and>
    \<not> contains_transaction (ss_sender (co_state a'')) tx)"
proof -
  obtain fs w b' f a'' where t: "r = Inr tx" "eff_a = map WriteData fs"
    "\<forall>g \<in> set fs. f_type g \<noteq> DataJson \<and> (\<exists>m. max_frame_len (f_type g) = Some m \<and> length (f_payload g) \<le> m)"
    "inbound_all sev lk t1 fs b = ([WriteControl w, Deliver tx payload], b')" "\<not> slot_exists (ss_reassembler (co_state b')) tx"
    "decode_write (env_crc sev) w = [f]" "f_type f \<noteq> DataJson"
    "handle_inbound sev lk' t2 f a' = ([Completion cb \<lparr>br_txid = tx, br_confirmed = True\<rparr>], a'')"
    "\<not> contains_transaction (ss_sender (co_state a'')) tx"
    by (rule transfer_frames [OF assms(1-11), of sev lk t1 lk' t2])
  have "socket_exchange ev ka A kb B hb sev lk t1 eff_a b [WriteControl w, Deliver tx payload] b'"
    using data_carried [OF link(1,3,4) t(3)] t(2,4) unfolding socket_exchange_def by blast
  moreover have "carried ev kb B ka A ha [WriteControl w, Deliver tx payload] [f]"
    using control_carried [OF link(3,1,2), of ev w f] t(6,7) link(5) by simp
  ultimately show ?thesis
    using socket_exchange_one [OF _ t(8)] t(1,9) by blast
qed

lemma sample_link:
  "link_idle 0 (sample_client\<lparr>so_hooks := Some h\<rparr>)" "so_hooks (sample_client\<lparr>so_hooks := Some h\<rparr>) = Some h"
  "sv_crc sample_socket_env = env_crc sample_env"
  by (simp_all add: link_idle_def sample_client_def new_connection_def reader_idle_def egress_idle_def spawn_egress_def
      socket_new_impl_def sample_socket_env_def sample_env_def)

theorem transfer_over_sockets_witness:
  "\<exists>eff_a a' w b' a'' A B. A = sample_client\<lparr>so_hooks := Some 1\<rparr> \<and> B = sample_client\<lparr>so_hooks := Some 2\<rparr> \<and>
    send_binary (session_new sample_transfer_config 0) link_up 5 sample_payload (Some 77) 0 = (Inr 5, eff_a, a') \<and>
    socket_exchange sample_socket_env 0 A 0 B 2 sample_env link_up 1 eff_a (on_binary sample_receiver)
      [WriteControl w, Deliver 5 sample_payload] b' \<and>
    socket_exchange sample_socket_env 0 B 0 A 1 sample_env link_up 2 [WriteControl w, Deliver 5 sample_payload] a'
      [Completion 77 \<lparr>br_txid = 5, br_confirmed = True\<rparr>] a''"
proof -
  let ?a = "session_new sample_transfer_config 0" and ?c = "\<lambda>h. sample_client\<lparr>so_hooks := Some h\<rparr>"
  obtain r eff_a a' where h: "send_binary ?a link_up 5 sample_payload (Some 77) 0 = (r, eff_a, a')"
    by (metis surj_pair)
  have s: "ss_sender (co_state ?a) = sample_sender"
    by (simp add: session_new_def sample_transfer_config_def sample_sender_def)
  have "r = Inr 5 \<and> (\<exists>w b' a''.
      socket_exchange sample_socket_env 0 (?c 1) 0 (?c 2) 2 sample_env link_up 1 eff_a (on_binary sample_receiver)
        [WriteControl w, Deliver 5 sample_payload] b' \<and>
      socket_exchange sample_socket_env 0 (?c 2) 0 (?c 1) 1 sample_env link_up 2 [WriteControl w, Deliver 5 sample_payload] a'
        [Completion 77 \<lparr>br_txid = 5, br_confirmed = True\<rparr>] a'' \<and>
      \<not> contains_transaction (ss_sender (co_state a'')) 5)"
    by (rule transfer_over_sockets [OF _ _ _ _ _ _ _ _ _ _ h sample_link(1,2) sample_link(1-3)])
      (use sample_receiver_fresh in \<open>simp_all add: s on_binary_def frame_consts\<close>)
  then show ?thesis
    using h by blast
qed

text \<open>
  C4. Recovery over new socket connections. The connection was lost in the middle of a transfer: the holder
  has everything from piece \<open>k\<close> on unconfirmed, the receiver an incomplete subset of the pieces that
  contains the confirmed ones. Over a new idle connection of either side's transport, the holder's declaration,
  the receiver's answer, the retransmission and the final acknowledgement each pass through both
  transports under any segmentation; the payload is delivered, once, and the holder's callback fires as
  confirmed, once.
\<close>

theorem recovery_over_sockets:
  assumes "in_flight tx ps k (ss_sender (co_state a))" "transferable ps" "{..<k} \<subseteq> I" "I \<noteq> {..<length ps}"
    and "\<not> is_transaction_paused (ss_sender (co_state a)) tx" "hm_keys (ts_pending (ss_sender (co_state a))) = [tx]"
    and "hm_get (ss_completions (co_state a)) tx = Some cb" "\<not> is_wired a"
    and "sc_frame_size (ts_config (ss_sender (co_state a))) \<le> MAX_DATA_BINARY_FRAME_LEN"
    and "gathering tx ps I (co_state b)" "get_slot (ss_reassembler (co_state b)) tx \<noteq> None"
    and "co_binary_handler b" "\<not> co_stream_handler b"
    and "wire a transport t0 t0' = (r, eff0, a0)" "declare_pending_sends (env_crc sev) t1 a0 = (eff1, a1)"
    and link: "link_idle ka A" "so_hooks A = Some ha" "link_idle kb B" "so_hooks B = Some hb" "sv_crc ev = env_crc sev"
  shows "\<exists>eff2 b1 eff3 a2 w b2 a3.
    socket_exchange ev ka A kb B hb sev lk t2 eff1 b eff2 b1 \<and> socket_exchange ev kb B ka A ha sev link_up t3 eff2 a1 eff3 a2 \<and>
    socket_exchange ev ka A kb B hb sev lk t4 eff3 b1 [WriteControl w, Deliver tx (concat ps)] b2 \<and>
    socket_exchange ev kb B ka A ha sev link_up t5 [WriteControl w, Deliver tx (concat ps)] a2
      [Completion cb \<lparr>br_txid = tx, br_confirmed = True\<rparr>] a3 \<and>
    \<not> contains_transaction (ss_sender (co_state a3)) tx \<and> \<not> slot_exists (ss_reassembler (co_state b2)) tx"
proof -
  obtain w1 f1 w2 b1 f2 fs a2 w b2 f a3 where m: "eff1 = [WriteControl w1]" "decode_write (env_crc sev) w1 = [f1]" "f_type f1 = Resume"
    "handle_inbound sev lk t2 f1 b = ([WriteControl w2], b1)" "decode_write (env_crc sev) w2 = [f2]" "f_type f2 = ResumeResponse"
    "handle_inbound sev link_up t3 f2 a1 = (map WriteData fs, a2)"
    "\<forall>g \<in> set fs. f_type g \<noteq> DataJson \<and> (\<exists>m. max_frame_len (f_type g) = Some m \<and> length (f_payload g) \<le> m)"
    "inbound_all sev lk t4 fs b1 = ([WriteControl w, Deliver tx (concat ps)], b2)" "\<not> slot_exists (ss_reassembler (co_state b2)) tx"
    "decode_write (env_crc sev) w = [f]" "f_type f = Ack"
    "handle_inbound sev link_up t5 f a2 = ([Completion cb \<lparr>br_txid = tx, br_confirmed = True\<rparr>], a3)"
    "\<not> contains_transaction (ss_sender (co_state a3)) tx"
    by (rule recovery_frames [OF assms(1-15), of lk t2 t3 t4 t5])
  have c: "carried ev ka A kb B hb eff1 [f1]" "carried ev kb B ka A ha [WriteControl w2] [f2]"
      "carried ev kb B ka A ha [WriteControl w, Deliver tx (concat ps)] [f]"
    using control_carried [OF link(1,3,4), of ev w1 f1] control_carried [OF link(3,1,2), of ev w2 f2]
      control_carried [OF link(3,1,2), of ev w f] m link(5) by simp_all
  have "socket_exchange ev ka A kb B hb sev lk t4 (map WriteData fs) b1 [WriteControl w, Deliver tx (concat ps)] b2"
    using data_carried [OF link(1,3,4) m(8)] m(9) unfolding socket_exchange_def by blast
  then show ?thesis
    using socket_exchange_one [OF c(1) m(4)] socket_exchange_one [OF c(2) m(7)] socket_exchange_one [OF c(3) m(13)] m(10,14) by blast
qed

theorem recovery_over_sockets_witness:
  "\<exists>eff_a a b eff1 a1 eff2 b1 eff3 a2 w b2 a3 A B. A = sample_client\<lparr>so_hooks := Some 1\<rparr> \<and> B = sample_client\<lparr>so_hooks := Some 2\<rparr> \<and>
    send_binary (session_new sample_transfer_config 0) link_up 5 sample_payload (Some 77) 0 = (Inr 5, eff_a, a) \<and>
    inbound_all sample_env link_up 1 [piece_frame 5 (pieces 4 sample_payload) 0] (on_binary sample_receiver) = ([], b) \<and>
    declare_pending_sends (env_crc sample_env) 11 (snd (snd (wire a 1 10 10))) = (eff1, a1) \<and>
    socket_exchange sample_socket_env 0 A 0 B 2 sample_env link_up 12 eff1 b eff2 b1 \<and>
    socket_exchange sample_socket_env 0 B 0 A 1 sample_env link_up 13 eff2 a1 eff3 a2 \<and>
    socket_exchange sample_socket_env 0 A 0 B 2 sample_env link_up 14 eff3 b1 [WriteControl w, Deliver 5 sample_payload] b2 \<and>
    socket_exchange sample_socket_env 0 B 0 A 1 sample_env link_up 15 [WriteControl w, Deliver 5 sample_payload] a2
      [Completion 77 \<lparr>br_txid = 5, br_confirmed = True\<rparr>] a3"
proof (rule sample_interruption, goal_cases)
  case (1 eff_a a b)
  obtain r eff0 a0 where w: "wire a 1 10 10 = (r, eff0, a0)" by (metis surj_pair)
  obtain eff1 a1 where d: "declare_pending_sends (env_crc sample_env) 11 a0 = (eff1, a1)" by (metis surj_pair)
  show ?case
    using recovery_over_sockets [OF 1(3,4) _ 1(5-14) w d sample_link(1,2) sample_link(1-3), of 1 2 link_up 12 13 14 15] 1(1,2) w d
    by fastforce
qed

end
