(* ===== verification/Stdio_Transport.thy ===== *)
theory Stdio_Transport
  imports Socket_Calls
begin

text \<open>
  The stdio transport, \<open>src/src/carrier/stdio.rs\<close>.

  It shares its shape with the socket transport: the egress, the request table, the frame reader, the
  request ids and the sending methods are the same code, so its state has a socket transport inside that
  was built from a parked stream. What differs: one connection for its whole life, one accept loop that
  runs the request handler itself and waits for the response to be written before it takes the next
  frame, and a \<open>disconnect\<close> that aborts the reader too.

  \<open>so_inflight\<close> of the inner state is the request the accept loop has in hand. The inner flag \<open>so_handler\<close>
  is always on, the registration is \<open>sd_request_handler\<close>.
\<close>

section \<open>State\<close>

text \<open>The accept loop waits for a frame, for the handler, or for the receipt of a response.\<close>

datatype accept_phase = Accept_Next | Accept_Handling | Accept_Writing nat

record stdio_transport =
  sd_base :: socket_transport
  sd_request_handler :: bool
  sd_accept :: accept_phase
  sd_reader :: bool

definition stdio_new :: stdio_transport where
  "stdio_new =
    \<lparr>sd_base = (socket_new_impl True False)\<lparr>so_handler := True\<rparr>, sd_request_handler = False, sd_accept = Accept_Next,
     sd_reader = False\<rparr>"

definition set_base :: "socket_transport \<Rightarrow> stdio_transport \<Rightarrow> stdio_transport" where
  "set_base so sd = sd\<lparr>sd_base := so\<rparr>"

section \<open>Connecting and disconnecting\<close>

definition stdio_connect_open :: "stdio_transport \<Rightarrow> (xacpp_error + unit) \<times> stdio_transport" where
  "stdio_connect_open sd =
    (let so = sd_base sd in
     if sh_connected (so_shared so) then (Inl AlreadyConnected, sd)
     else if \<not> so_parked_writer so then (Inl AlreadyConnected, sd)
     else if \<not> so_reader so then (Inl AlreadyConnected, set_base (so\<lparr>so_parked_writer := False\<rparr>) sd)
     else (Inr (), (set_base (spawn_tasks (so\<lparr>so_parked_writer := False, so_reader := False\<rparr>)) sd)\<lparr>sd_reader := True\<rparr>))"

definition stdio_connect_publish :: "stdio_transport \<Rightarrow> stdio_transport" where
  "stdio_connect_publish sd = set_base (connect_publish (sd_base sd)) sd"

text \<open>Hooks off, flag down, egress closed, both tasks aborted (a handler in progress goes with its task), table cleared.\<close>

definition stdio_disconnect :: "stdio_transport \<Rightarrow> socket_effect list \<times> stdio_transport" where
  "stdio_disconnect sd =
    (case socket_disconnect (sd_base sd) of
       (eff, so) \<Rightarrow> (eff, (set_base so sd)\<lparr>sd_accept := Accept_Next, sd_reader := False\<rparr>))"

definition stdio_on_request :: "bool \<Rightarrow> stdio_transport \<Rightarrow> (xacpp_error + unit) \<times> stdio_transport" where
  "stdio_on_request contended sd =
    (if sh_connected (so_shared (sd_base sd)) then (Inl AlreadyConnected, sd)
     else if contended
       then (Inl (InvalidState ''on_request: request handler lock contention before connect''), sd)
     else (Inr (), sd\<lparr>sd_request_handler := True\<rparr>))"

section \<open>Sending and the wiring surface\<close>

definition stdio_send ::
  "socket_env \<Rightarrow> txid \<Rightarrow> string option \<Rightarrow> xacpp_request \<Rightarrow> stdio_transport \<Rightarrow> (xacpp_error + nat) \<times> stdio_transport" where
  "stdio_send ev uuid sid payload sd = apsnd (\<lambda>so. set_base so sd) (socket_send ev uuid sid payload (sd_base sd))"

definition stdio_send_faf ::
  "socket_env \<Rightarrow> txid \<Rightarrow> string option \<Rightarrow> xacpp_request \<Rightarrow> stdio_transport \<Rightarrow> (xacpp_error + unit) \<times> stdio_transport" where
  "stdio_send_faf ev uuid sid payload sd = apsnd (\<lambda>so. set_base so sd) (socket_send_faf ev uuid sid payload (sd_base sd))"

definition stdio_write_control_frame :: "bytes \<Rightarrow> stdio_transport \<Rightarrow> (xacpp_error + unit) \<times> stdio_transport" where
  "stdio_write_control_frame bs sd = apsnd (\<lambda>so. set_base so sd) (socket_write_control_frame bs (sd_base sd))"

definition stdio_write_data_frame :: "crc_fn \<Rightarrow> frame \<Rightarrow> stdio_transport \<Rightarrow> (xacpp_error + unit) \<times> stdio_transport" where
  "stdio_write_data_frame crc f sd = apsnd (\<lambda>so. set_base so sd) (socket_write_data_frame crc f (sd_base sd))"

definition stdio_on_transfer_activity :: "nat option \<Rightarrow> stdio_transport \<Rightarrow> stdio_transport" where
  "stdio_on_transfer_activity handlers sd = set_base (socket_on_transfer_activity handlers (sd_base sd)) sd"

section \<open>The reader\<close>

text \<open>The reader task runs until it ends by itself or \<open>disconnect\<close> aborts it.\<close>

definition reader_step ::
  "(socket_transport \<Rightarrow> socket_effect list \<times> socket_transport) \<Rightarrow> stdio_transport \<Rightarrow> socket_effect list \<times> stdio_transport" where
  "reader_step f sd =
    (if sd_reader sd \<and> so_conns (sd_base sd) \<noteq> [] then apsnd (\<lambda>so. set_base so sd) (f (sd_base sd)) else ([], sd))"

section \<open>The accept loop\<close>

text \<open>
  The response to the request in hand; \<open>egress.send_acked\<close> waits for its receipt, which is out as long as
  the egress has not answered it.
\<close>

definition accept_respond :: "socket_env \<Rightarrow> txid \<Rightarrow> xacpp_error + xacpp_response \<Rightarrow> stdio_transport \<Rightarrow> stdio_transport" where
  "accept_respond ev uuid result sd =
    (case so_inflight (sd_base sd) of
       [] \<Rightarrow> sd
     | t # q \<Rightarrow>
       let so = (sd_base sd)\<lparr>so_inflight := q\<rparr>; sd1 = (set_base so sd)\<lparr>sd_accept := Accept_Next\<rparr>
       in case response_frame ev uuid (in_id t) (in_sid t) (handler_response result) of
            Inl _ \<Rightarrow> sd1
          | Inr frame \<Rightarrow>
            (case egress_send_acked frame (so_shared so, cn_egress (so_conns so ! in_conn t)) of
               (Inl _, _, _) \<Rightarrow> sd1
             | (Inr r, _, e) \<Rightarrow>
               (set_base (update_conn (in_conn t) (\<lambda>cn. cn\<lparr>cn_egress := e\<rparr>) so) sd1)\<lparr>sd_accept := Accept_Writing r\<rparr>))"

definition accept_envelope ::
  "socket_env \<Rightarrow> txid \<Rightarrow> xacpp_envelope \<Rightarrow> stdio_transport \<Rightarrow> socket_effect list \<times> stdio_transport" where
  "accept_envelope ev uuid msg sd =
    (let so = sd_base sd in
     case msg of
       Request_Env i sid payload \<Rightarrow>
         (let sd1 = set_base (so\<lparr>so_inflight := so_inflight so @ [\<lparr>in_id = i, in_sid = sid, in_conn = 0\<rparr>]\<rparr>) sd
          in if sd_request_handler sd then ([Handle_Request 0 i sid payload], sd1\<lparr>sd_accept := Accept_Handling\<rparr>)
             else ([], accept_respond ev uuid (Inl NoHandler) sd1))
     | Response_Env i _ payload \<Rightarrow>
         (let so1 = set_pending (hm_del i (sh_pending (so_shared so))) so
          in case hm_get (sh_pending (so_shared so)) i of
               Some (Respond w) \<Rightarrow> apsnd (\<lambda>so. set_base so sd) (reply_call w (Inr payload) so1)
             | _ \<Rightarrow> ([], set_base so1 sd)))"

definition accept_step :: "socket_env \<Rightarrow> txid \<Rightarrow> stdio_transport \<Rightarrow> socket_effect list \<times> stdio_transport" where
  "accept_step ev uuid sd =
    (let so = sd_base sd; cn = so_conns so ! 0 in
     if so_conns so = [] \<or> \<not> cn_dispatching cn then ([], sd)
     else case sd_accept sd of
         Accept_Handling \<Rightarrow> ([], sd)
       | Accept_Writing r \<Rightarrow> ([], if r \<in> set (outstanding (cn_egress cn)) then sd else sd\<lparr>sd_accept := Accept_Next\<rparr>)
       | Accept_Next \<Rightarrow>
         (case cn_inbox cn of
            [] \<Rightarrow> (if cn_reading cn \<or> cn_sending cn \<noteq> None then ([], sd) else apsnd (\<lambda>so. set_base so sd) (dispatch_cleanup 0 so))
          | Io_Error # q \<Rightarrow> apsnd (\<lambda>so. set_base so sd) (dispatch_cleanup 0 so)
          | Payload d # q \<Rightarrow>
            (let sd1 = set_base (update_conn 0 (\<lambda>cn. cn\<lparr>cn_inbox := q\<rparr>) so) sd
             in case sv_from_slice ev d of
                  None \<Rightarrow> ([], sd1)
                | Some msg \<Rightarrow> accept_envelope ev uuid msg sd1)))"

definition accept_handled :: "socket_env \<Rightarrow> txid \<Rightarrow> xacpp_error + xacpp_response \<Rightarrow> stdio_transport \<Rightarrow> stdio_transport" where
  "accept_handled ev uuid result sd = (if sd_accept sd = Accept_Handling then accept_respond ev uuid result sd else sd)"

section \<open>Runs\<close>

datatype stdio_op =
    D_Connect
  | D_Publish
  | D_Disconnect
  | D_On_Request bool
  | D_Hooks "nat option"
  | D_Send txid "string option" xacpp_request
  | D_Send_Faf txid "string option" xacpp_request
  | D_Write_Control bytes
  | D_Write_Data frame
  | D_Read read_result
  | D_Route
  | D_Forward
  | D_Accept txid
  | D_Handled txid "xacpp_error + xacpp_response"
  | D_Select
  | D_Write_Done bool
  | D_Shutdown_Done

definition egress_turn :: "egress_op \<Rightarrow> stdio_transport \<Rightarrow> socket_effect list \<times> stdio_transport" where
  "egress_turn op sd = apsnd (\<lambda>so. set_base so sd) (with_egress 0 op (sd_base sd))"

fun stdio_step :: "socket_env \<Rightarrow> stdio_op \<Rightarrow> stdio_transport \<Rightarrow> socket_effect list \<times> stdio_transport" where
  "stdio_step ev D_Connect sd = ([], if so_connecting (sd_base sd) = None then snd (stdio_connect_open sd) else sd)"
| "stdio_step ev D_Publish sd = ([], stdio_connect_publish sd)"
| "stdio_step ev D_Disconnect sd = (if so_connecting (sd_base sd) = None then stdio_disconnect sd else ([], sd))"
| "stdio_step ev (D_On_Request contended) sd = ([], snd (stdio_on_request contended sd))"
| "stdio_step ev (D_Hooks h) sd = ([], stdio_on_transfer_activity h sd)"
| "stdio_step ev (D_Send uuid sid payload) sd = ([], snd (stdio_send ev uuid sid payload sd))"
| "stdio_step ev (D_Send_Faf uuid sid payload) sd = ([], snd (stdio_send_faf ev uuid sid payload sd))"
| "stdio_step ev (D_Write_Control bs) sd = ([], snd (stdio_write_control_frame bs sd))"
| "stdio_step ev (D_Write_Data f) sd = ([], snd (stdio_write_data_frame (sv_crc ev) f sd))"
| "stdio_step ev (D_Read input) sd = reader_step (\<lambda>so. ([], reader_read (sv_crc ev) 0 input so)) sd"
| "stdio_step ev D_Route sd = reader_step (reader_route 0) sd"
| "stdio_step ev D_Forward sd = reader_step (\<lambda>so. ([], reader_forward 0 so)) sd"
| "stdio_step ev (D_Accept uuid) sd = accept_step ev uuid sd"
| "stdio_step ev (D_Handled uuid result) sd = ([], accept_handled ev uuid result sd)"
| "stdio_step ev D_Select sd = egress_turn Select sd"
| "stdio_step ev (D_Write_Done ok) sd = egress_turn (Write_Done ok) sd"
| "stdio_step ev D_Shutdown_Done sd = egress_turn Shutdown_Done sd"

fun stdio_run :: "socket_env \<Rightarrow> stdio_op list \<Rightarrow> stdio_transport \<Rightarrow> socket_effect list \<times> stdio_transport" where
  "stdio_run ev [] sd = ([], sd)"
| "stdio_run ev (op # ops) sd =
    (case stdio_step ev op sd of (eff, sd') \<Rightarrow> case stdio_run ev ops sd' of (eff', sd'') \<Rightarrow> (eff @ eff', sd''))"

section \<open>What the inner transport keeps\<close>

definition quiet :: "socket_transport \<Rightarrow> bool" where
  "quiet so \<longleftrightarrow> (\<forall>cn \<in> set (so_conns so). cn_awaiting cn = None)"

definition same_frame :: "socket_transport \<Rightarrow> socket_transport \<Rightarrow> bool" where
  "same_frame so so' \<longleftrightarrow>
    so_handler so' = so_handler so \<and> so_client so' = so_client so \<and> so_parked_writer so' = so_parked_writer so \<and>
    so_inflight so' = so_inflight so \<and> length (so_conns so') = length (so_conns so) \<and> (quiet so \<longrightarrow> quiet so')"

lemma same_frame_refl [simp]: "same_frame so so"
  by (simp add: same_frame_def)

lemma same_frame_trans: "same_frame a b \<Longrightarrow> same_frame b c \<Longrightarrow> same_frame a c"
  by (simp add: same_frame_def)

lemma same_frame_fields [simp]:
  "same_frame a (b\<lparr>so_shared := sh\<rparr>) = same_frame a b" "same_frame a (b\<lparr>so_calls := cs\<rparr>) = same_frame a b"
  "same_frame a (b\<lparr>so_egress := e\<rparr>) = same_frame a b" "same_frame a (b\<lparr>so_hooks := h\<rparr>) = same_frame a b"
  "same_frame a (b\<lparr>so_dispatch := d\<rparr>) = same_frame a b" "same_frame a (b\<lparr>so_connecting := n\<rparr>) = same_frame a b"
  "same_frame a (b\<lparr>so_next_id := i\<rparr>) = same_frame a b" "same_frame a (b\<lparr>so_next_waiter := w\<rparr>) = same_frame a b"
  "same_frame a (set_pending m b) = same_frame a b"
  by (simp_all add: same_frame_def quiet_def set_pending_def)

lemma same_frame_update:
  assumes "\<And>cn. cn_awaiting (f cn) = cn_awaiting cn \<or> cn_awaiting (f cn) = None"
  shows "same_frame so (update_conn c f so)"
proof -
  have "cn_awaiting x = None" if "quiet so" "c < length (so_conns so)" "x \<in> set ((so_conns so)[c := f (so_conns so ! c)])" for x
    using set_update_subset_insert [of "so_conns so" c "f (so_conns so ! c)"] that assms [of "so_conns so ! c"]
    by (fastforce simp: quiet_def)
  then show ?thesis
    by (auto simp: same_frame_def update_conn_def quiet_def)
qed

lemma same_frame_reply: "same_frame so (snd (reply_call w r so))"
  by (auto simp: reply_call_def settle_call_def split: option.split)

lemma same_frame_response: "same_frame so (snd (dispatch_envelope ev uuid c (Response_Env i sid payload) so))"
proof -
  have "same_frame so (snd (reply_call w r (set_pending m so)))" for w r m
    using same_frame_reply [of "set_pending m so" w r] by (simp add: same_frame_def quiet_def set_pending_def)
  then show ?thesis
    by (simp add: dispatch_envelope_def Let_def split: option.split pending_slot.split)
qed

lemma same_frame_receipt: "same_frame so (snd (receipt_arrives c r ok so))"
proof -
  let ?so = "update_conn c (\<lambda>cn. if cn_awaiting cn = Some r then cn\<lparr>cn_awaiting := None\<rparr> else cn) so"
  have "same_frame so ?so"
    by (rule same_frame_update) simp
  moreover have "same_frame ?so (snd (receipt_call c r ok ?so))"
    by (auto simp: receipt_call_def settle_call_def split: option.split)
  ultimately show ?thesis
    unfolding receipt_arrives_def by (rule same_frame_trans)
qed

lemma same_frame_absorb: "same_frame so (snd (absorb c xs so))"
proof (induction xs arbitrary: so)
  case (Cons x xs)
  have "same_frame so (snd (absorb_one c x so))"
    by (cases x) (simp_all add: same_frame_receipt same_frame_reply)
  then show ?case
    using Cons same_frame_trans by (auto simp: split_beta)
qed simp

lemma same_frame_egress: "same_frame so (snd (with_egress c op so))"
proof (cases "egress_step op (so_shared so, cn_egress (so_conns so ! c))")
  case (fields eff sh e)
  have "same_frame so (update_conn c (\<lambda>cn. cn\<lparr>cn_egress := e\<rparr>) (so\<lparr>so_shared := sh\<rparr>))"
    using same_frame_update [of "\<lambda>cn. cn\<lparr>cn_egress := e\<rparr>" "so\<lparr>so_shared := sh\<rparr>" c] by (simp add: same_frame_def quiet_def)
  then show ?thesis
    using fields same_frame_absorb same_frame_trans by (auto simp: with_egress_def)
qed

lemma same_frame_clear: "same_frame so (snd (clear_pending so))"
proof -
  obtain eff sh where "pending_clear (so_shared so) = (eff, sh)"
    by (metis surj_pair)
  then show ?thesis
    using same_frame_absorb [of "so\<lparr>so_shared := sh\<rparr>" 0 eff] by (simp add: clear_pending_def same_frame_def quiet_def)
qed

lemma same_frame_stop: "same_frame so (stop_dispatch c so)"
  unfolding stop_dispatch_def by (rule same_frame_update) simp

lemma same_frame_cleanup: "same_frame so (snd (dispatch_cleanup c so))"
proof -
  let ?so = "so\<lparr>so_shared := (so_shared so)\<lparr>sh_connected := False\<rparr>\<rparr>"
  have "same_frame so (snd (clear_pending ?so))"
    using same_frame_clear [of ?so] by (simp add: same_frame_def quiet_def)
  then show ?thesis
    by (simp add: dispatch_cleanup_def Let_def split_beta)
      (blast intro: same_frame_trans same_frame_egress same_frame_stop)
qed

lemma same_frame_disconnect: "same_frame (so\<lparr>so_inflight := []\<rparr>) (snd (socket_disconnect so))"
proof -
  define so1 where "so1 = so\<lparr>so_hooks := None, so_shared := (so_shared so)\<lparr>sh_connected := False\<rparr>\<rparr>"
  define so2 where "so2 = snd (case so_egress so1 of None \<Rightarrow> ([], so1) | Some c \<Rightarrow> with_egress c Close_Op (so1\<lparr>so_egress := None\<rparr>))"
  define so3 where "so3 = (case so_dispatch so2 of None \<Rightarrow> so2 | Some c \<Rightarrow> stop_dispatch c (so2\<lparr>so_dispatch := None\<rparr>))"
  have "same_frame so so1"
    by (simp add: so1_def)
  moreover have "same_frame so1 so2"
    using same_frame_egress [of "so1\<lparr>so_egress := None\<rparr>"] by (auto simp: so2_def same_frame_def quiet_def split: option.split)
  moreover have "same_frame so2 so3"
    using same_frame_stop [of "so2\<lparr>so_dispatch := None\<rparr>"] by (auto simp: so3_def same_frame_def quiet_def split: option.split)
  ultimately have "same_frame so so3"
    using same_frame_trans by blast
  then have "same_frame (so\<lparr>so_inflight := []\<rparr>) (so3\<lparr>so_inflight := []\<rparr>)"
    by (simp add: same_frame_def quiet_def)
  moreover have "snd (socket_disconnect so) = snd (clear_pending (so3\<lparr>so_inflight := []\<rparr>))"
    unfolding socket_disconnect_def so3_def so2_def so1_def Let_def split_beta snd_conv ..
  ultimately show ?thesis
    using same_frame_trans same_frame_clear by metis
qed

lemma same_frame_send:
  "same_frame so (snd (socket_send ev uuid sid payload so))" "same_frame so (snd (socket_send_faf ev uuid sid payload so))"
  "same_frame so (snd (socket_write_control_frame bs so))" "same_frame so (snd (socket_write_data_frame crc f so))"
proof -
  have u: "same_frame a b \<Longrightarrow> same_frame a (update_conn c (\<lambda>cn. cn\<lparr>cn_egress := e\<rparr>) b)" for a b c e
    using same_frame_trans [OF _ same_frame_update [of "\<lambda>cn. cn\<lparr>cn_egress := e\<rparr>" b c]] by simp
  show "same_frame so (snd (socket_send ev uuid sid payload so))" "same_frame so (snd (socket_send_faf ev uuid sid payload so))"
    "same_frame so (snd (socket_write_control_frame bs so))" "same_frame so (snd (socket_write_data_frame crc f so))"
    by (auto simp: socket_send_def socket_send_faf_def socket_write_control_frame_def socket_write_data_frame_def socket_next_id_def
        Let_def u split: sum.split option.split prod.split)
qed

lemma same_frame_reader:
  "same_frame so (reader_read crc c input so)" "same_frame so (snd (reader_route c so))" "same_frame so (reader_forward c so)"
  by (auto simp: reader_read_def reader_route_def reader_forward_def detach_hooks_def Let_def intro!: same_frame_update
      split: read_result.split prod.split sum.split list.split option.split)

section \<open>A stdio transport is a serial socket transport\<close>

text \<open>One connection at most, and the request in hand is the one the accept loop is handling.\<close>

definition stdio_inv :: "stdio_transport \<Rightarrow> bool" where
  "stdio_inv sd \<longleftrightarrow>
    (let so = sd_base sd in
     so_handler so \<and> \<not> so_client so \<and> length (so_conns so) \<le> 1 \<and> (so_parked_writer so \<longrightarrow> so_conns so = []) \<and> quiet so \<and>
     (case sd_accept sd of
        Accept_Handling \<Rightarrow> \<exists>t. so_inflight so = [t] \<and> in_conn t = 0 \<and> so_conns so \<noteq> []
      | _ \<Rightarrow> so_inflight so = []))"

lemma stdio_inv_frame:
  assumes "stdio_inv sd" "same_frame (sd_base sd) so"
  shows "stdio_inv (set_base so sd)"
  using assms by (auto simp: stdio_inv_def same_frame_def set_base_def Let_def split: accept_phase.splits)

text \<open>Effects other than the hand-over of a request to a handler.\<close>

fun is_request :: "socket_effect \<Rightarrow> bool" where
  "is_request (Handle_Request c i sid payload) = True"
| "is_request _ = False"

abbreviation outcome :: "socket_effect list \<Rightarrow> socket_effect list" where
  "outcome \<equiv> filter (\<lambda>x. \<not> is_request x)"

definition simulated :: "socket_env \<Rightarrow> stdio_transport \<Rightarrow> socket_effect list \<Rightarrow> stdio_transport \<Rightarrow> bool" where
  "simulated ev sd eff sd' \<longleftrightarrow>
    stdio_inv sd' \<and>
    (\<exists>sops eff'. length sops \<le> 2 \<and> socket_run ev sops (sd_base sd) = (eff', sd_base sd') \<and> outcome eff' = outcome eff)"

lemma simulatedI:
  assumes "stdio_inv sd'" "socket_step ev sop (sd_base sd) = (eff, sd_base sd')"
  shows "simulated ev sd eff sd'"
  unfolding simulated_def using assms by (intro conjI exI [of _ "[sop]"]) auto

lemma simulated_idle: "stdio_inv sd' \<Longrightarrow> sd_base sd' = sd_base sd \<Longrightarrow> simulated ev sd [] sd'"
  unfolding simulated_def by (intro conjI exI [of _ "[]"]) auto

lemma sd_base_set [simp]: "sd_base (set_base so sd) = so" "sd_accept (set_base so sd) = sd_accept sd"
  "sd_request_handler (set_base so sd) = sd_request_handler sd" "set_base (sd_base sd) sd = sd" "set_base so (set_base so' sd) = set_base so sd"
  by (simp_all add: set_base_def)

lemma base_simulated:
  assumes "stdio_inv sd" "same_frame (sd_base sd) so" "socket_step ev sop (sd_base sd) = (eff, so)"
  shows "simulated ev sd eff (set_base so sd)"
  using simulatedI [of "set_base so sd" ev sop sd eff] stdio_inv_frame [OF assms(1,2)] assms(3) by simp

lemma update_conn_same: "cn_egress (so_conns so ! c) = e \<Longrightarrow> update_conn c (\<lambda>cn. cn\<lparr>cn_egress := e\<rparr>) so = so"
  by (auto simp: update_conn_def)

text \<open>Answering the request in hand is the end of a handler task.\<close>

lemma respond_is_handler_done:
  assumes "so_inflight (sd_base sd) = [t]"
  shows "sd_base (accept_respond ev uuid result sd) = handler_done ev uuid 0 result (sd_base sd)"
proof -
  have "update_conn c (\<lambda>cn. cn\<lparr>cn_egress := e\<rparr>) so = so"
    if "egress_send_acked frame (sh, cn_egress (so_conns so ! c)) = (Inl x, y, e)" for frame sh so x y e c
    using that by (intro update_conn_same) (auto simp: egress_send_acked_def split: if_splits)
  from this [of _ _ "(sd_base sd)\<lparr>so_inflight := []\<rparr>" "in_conn t"] show ?thesis
    using assms by (auto simp: accept_respond_def handler_done_def Let_def split: sum.split prod.split)
qed

lemma respond_inv:
  assumes "so_inflight (sd_base sd) = [t]" "so_handler (sd_base sd)" "\<not> so_client (sd_base sd)" "length (so_conns (sd_base sd)) \<le> 1"
    and "so_parked_writer (sd_base sd) \<longrightarrow> so_conns (sd_base sd) = []" "quiet (sd_base sd)"
  shows "stdio_inv (accept_respond ev uuid result sd)"
proof -
  let ?so = "(sd_base sd)\<lparr>so_inflight := []\<rparr>"
  have base: "stdio_inv ((set_base ?so sd)\<lparr>sd_accept := Accept_Next\<rparr>)"
    using assms by (simp add: stdio_inv_def quiet_def set_base_def Let_def)
  have "stdio_inv ((set_base (update_conn c (\<lambda>cn. cn\<lparr>cn_egress := e\<rparr>) ?so) ((set_base ?so sd)\<lparr>sd_accept := Accept_Next\<rparr>))\<lparr>sd_accept := Accept_Writing r\<rparr>)" for c e r
    using stdio_inv_frame [OF base, of "update_conn c (\<lambda>cn. cn\<lparr>cn_egress := e\<rparr>) ?so"] same_frame_update [of "\<lambda>cn. cn\<lparr>cn_egress := e\<rparr>" ?so c]
    by (simp add: stdio_inv_def set_base_def Let_def)
  then show ?thesis
    using base assms(1) by (auto simp: accept_respond_def Let_def split: sum.split prod.split)
qed

lemma take_frame: "same_frame so (update_conn c (\<lambda>cn. cn\<lparr>cn_inbox := q\<rparr>) so)"
  by (rule same_frame_update) simp

lemma cleanup_simulated:
  assumes "stdio_inv sd" "socket_step ev (Op_Dispatch uuid 0) (sd_base sd) = dispatch_cleanup 0 (sd_base sd)"
    and "apsnd (\<lambda>so. set_base so sd) (dispatch_cleanup 0 (sd_base sd)) = (eff, sd')"
  shows "simulated ev sd eff sd'"
proof -
  obtain so where so: "dispatch_cleanup 0 (sd_base sd) = (eff, so)" "sd' = set_base so sd"
    using assms(3) by (metis (no_types, lifting) apsnd_conv prod.inject surj_pair)
  then show ?thesis
    using base_simulated [OF assms(1), of so ev "Op_Dispatch uuid 0" eff] same_frame_cleanup [of "sd_base sd" 0] assms(2) by simp
qed

lemma request_simulated:
  assumes inv: "stdio_inv sd" and sd: "sd_accept sd = Accept_Next" "so_conns (sd_base sd) \<noteq> []"
    and one: "socket_step ev (Op_Dispatch uuid 0) (sd_base sd0) =
        ([Handle_Request 0 i sid payload], (sd_base sd)\<lparr>so_inflight := so_inflight (sd_base sd) @ [\<lparr>in_id = i, in_sid = sid, in_conn = 0\<rparr>]\<rparr>)"
    and acc: "accept_envelope ev uuid (Request_Env i sid payload) sd = (eff, sd')"
  shows "simulated ev sd0 eff sd'"
proof -
  define t where "t = \<lparr>in_id = i, in_sid = sid, in_conn = 0\<rparr>"
  define so where "so = (sd_base sd)\<lparr>so_inflight := [t]\<rparr>"
  have idle: "so_inflight (sd_base sd) = []"
    using inv sd by (simp add: stdio_inv_def Let_def)
  have frame: "so_handler so" "\<not> so_client so" "length (so_conns so) \<le> 1" "so_parked_writer so \<longrightarrow> so_conns so = []" "quiet so"
    using inv by (simp_all add: stdio_inv_def so_def quiet_def Let_def)
  show ?thesis
  proof (cases "sd_request_handler sd")
    case True
    then have acc': "eff = [Handle_Request 0 i sid payload]" "sd' = (set_base so sd)\<lparr>sd_accept := Accept_Handling\<rparr>"
      using acc idle by (simp_all add: accept_envelope_def so_def t_def Let_def)
    show ?thesis
      by (rule simulatedI [of _ _ "Op_Dispatch uuid 0"])
        (use one idle sd(2) frame in \<open>simp_all add: acc' stdio_inv_def set_base_def so_def t_def Let_def\<close>)
  next
    case False
    then have acc': "eff = []" "sd' = accept_respond ev uuid (Inl NoHandler) (set_base so sd)"
      using acc idle by (simp_all add: accept_envelope_def so_def t_def Let_def)
    have "socket_run ev [Op_Dispatch uuid 0, Op_Handler uuid 0 (Inl NoHandler)] (sd_base sd0) = ([Handle_Request 0 i sid payload], sd_base sd')"
      using one idle respond_is_handler_done [of "set_base so sd" t ev uuid "Inl NoHandler"] by (simp add: acc' so_def t_def)
    moreover have "stdio_inv sd'"
      unfolding acc' by (rule respond_inv [of _ t]) (use frame in \<open>simp_all add: so_def\<close>)
    ultimately show ?thesis
      unfolding simulated_def acc'(1) by (metis filter.simps is_request.simps(1) length_Cons list.size(3) numeral_2_eq_2 order_refl)
  qed
qed

text \<open>What the dispatch task of a socket does with the same frame.\<close>

lemma dispatch_next:
  assumes "stdio_inv sd" "so_conns (sd_base sd) \<noteq> []" "cn_dispatching (so_conns (sd_base sd) ! 0)"
  shows "socket_step ev (Op_Dispatch uuid 0) (sd_base sd) =
    (case cn_inbox (so_conns (sd_base sd) ! 0) of
       [] \<Rightarrow> if cn_reading (so_conns (sd_base sd) ! 0) \<or> cn_sending (so_conns (sd_base sd) ! 0) \<noteq> None then ([], sd_base sd)
            else dispatch_cleanup 0 (sd_base sd)
     | Io_Error # q \<Rightarrow> dispatch_cleanup 0 (sd_base sd)
     | Payload d # q \<Rightarrow>
         (case sv_from_slice ev d of
            None \<Rightarrow> ([], update_conn 0 (\<lambda>cn. cn\<lparr>cn_inbox := q\<rparr>) (sd_base sd))
          | Some msg \<Rightarrow> dispatch_envelope ev uuid 0 msg (update_conn 0 (\<lambda>cn. cn\<lparr>cn_inbox := q\<rparr>) (sd_base sd))))"
proof -
  have "cn_awaiting (so_conns (sd_base sd) ! 0) = None"
    using assms(1,2) by (auto simp: stdio_inv_def quiet_def Let_def)
  then show ?thesis
    using assms(2,3) by (simp add: dispatch_step_def at_conn_def Let_def cong: list.case_cong inbox_item.case_cong)
qed

lemma response_simulated:
  assumes inv: "stdio_inv sd" and one: "socket_step ev (Op_Dispatch uuid 0) (sd_base sd0) = dispatch_envelope ev uuid 0 (Response_Env i sid payload) (sd_base sd)"
    and acc: "accept_envelope ev uuid (Response_Env i sid payload) sd = (eff, sd')"
  shows "simulated ev sd0 eff sd'"
proof -
  have "accept_envelope ev uuid (Response_Env i sid payload) sd =
      apsnd (\<lambda>so. set_base so sd) (dispatch_envelope ev uuid 0 (Response_Env i sid payload) (sd_base sd))"
    by (simp add: accept_envelope_def dispatch_envelope_def Let_def split: option.split pending_slot.split)
  then obtain so where so: "dispatch_envelope ev uuid 0 (Response_Env i sid payload) (sd_base sd) = (eff, so)" "sd' = set_base so sd"
    using acc by (metis (no_types, lifting) apsnd_conv prod.inject surj_pair)
  have "same_frame (sd_base sd) so"
    using same_frame_response [of "sd_base sd" ev uuid 0 i sid payload] so(1) by simp
  then show ?thesis
    using simulatedI [of sd' ev "Op_Dispatch uuid 0" sd0 eff] stdio_inv_frame [OF inv] one so by simp
qed

lemma payload_simulated:
  assumes inv: "stdio_inv sd" and sd: "so_conns (sd_base sd) \<noteq> []" "sd_accept sd = Accept_Next"
    and sd1: "sd1 = set_base (update_conn 0 (\<lambda>cn. cn\<lparr>cn_inbox := q\<rparr>) (sd_base sd)) sd"
    and one: "socket_step ev (Op_Dispatch uuid 0) (sd_base sd) =
      (case sv_from_slice ev d of None \<Rightarrow> ([], sd_base sd1) | Some msg \<Rightarrow> dispatch_envelope ev uuid 0 msg (sd_base sd1))"
    and acc: "(case sv_from_slice ev d of None \<Rightarrow> ([], sd1) | Some msg \<Rightarrow> accept_envelope ev uuid msg sd1) = (eff, sd')"
  shows "simulated ev sd eff sd'"
proof -
  have i1: "stdio_inv sd1"
    unfolding sd1 by (rule stdio_inv_frame [OF inv take_frame])
  have h: "so_handler (sd_base sd1)" "so_conns (sd_base sd1) \<noteq> []" "sd_accept sd1 = Accept_Next"
    using i1 sd by (simp_all add: stdio_inv_def sd1 Let_def) (simp add: update_conn_def)
  show ?thesis
  proof (cases "sv_from_slice ev d")
    case None
    then show ?thesis
      using acc one simulatedI [OF i1, of ev "Op_Dispatch uuid 0" sd "[]"] by auto
  next
    case (Some msg)
    show ?thesis
    proof (cases msg)
      case (Request_Env i sid payload)
      show ?thesis
        by (rule request_simulated [OF i1 h(3,2), of ev uuid sd i sid payload])
          (use acc one Some Request_Env h(1) in \<open>simp_all add: dispatch_envelope_def\<close>)
    next
      case (Response_Env i sid payload)
      show ?thesis
        by (rule response_simulated [OF i1, of ev uuid sd i sid payload]) (use acc one Some Response_Env in simp_all)
    qed
  qed
qed

lemma accept_simulated:
  assumes inv: "stdio_inv sd" and acc: "accept_step ev uuid sd = (eff, sd')"
  shows "simulated ev sd eff sd'"
proof (cases "so_conns (sd_base sd) \<noteq> [] \<and> cn_dispatching (so_conns (sd_base sd) ! 0) \<and> sd_accept sd = Accept_Next")
  case True
  note st = dispatch_next [OF inv, of ev uuid]
  show ?thesis
  proof (cases "cn_inbox (so_conns (sd_base sd) ! 0)")
    case Nil
    then show ?thesis
      using acc True st inv cleanup_simulated [OF inv, of ev uuid eff sd'] simulated_idle [OF inv, of sd ev]
      by (auto simp: accept_step_def Let_def split: if_splits)
  next
    case (Cons x q)
    show ?thesis
    proof (cases x)
      case Io_Error
      then show ?thesis
        using acc True st Cons cleanup_simulated [OF inv, of ev uuid eff sd'] by (simp add: accept_step_def Let_def)
    next
      case (Payload d)
      show ?thesis
        by (rule payload_simulated [OF inv _ _ refl, where q = q and d = d and uuid = uuid])
          (use acc True st Cons Payload in \<open>simp_all add: accept_step_def Let_def cong: option.case_cong\<close>)
    qed
  qed
next
  case False
  have "stdio_inv (sd\<lparr>sd_accept := Accept_Next\<rparr>)" if "sd_accept sd = Accept_Writing r" for r
    using inv that by (simp add: stdio_inv_def Let_def)
  then show ?thesis
    using False acc inv simulated_idle [of sd' sd ev]
    by (auto simp: accept_step_def Let_def split: accept_phase.splits if_splits)
qed

lemma disconnect_simulated:
  assumes inv: "stdio_inv sd" and idle: "so_connecting (sd_base sd) = None" and dis: "stdio_disconnect sd = (eff, sd')"
  shows "simulated ev sd eff sd'"
proof -
  obtain so where so: "socket_disconnect (sd_base sd) = (eff, so)" "sd' = (set_base so sd)\<lparr>sd_accept := Accept_Next, sd_reader := False\<rparr>"
    using dis by (auto simp: stdio_disconnect_def split: prod.splits)
  have "same_frame ((sd_base sd)\<lparr>so_inflight := []\<rparr>) so"
    using same_frame_disconnect [of "sd_base sd"] so(1) by simp
  then have "stdio_inv sd'"
    using inv so(2) by (auto simp: stdio_inv_def same_frame_def quiet_def set_base_def Let_def)
  then show ?thesis
    using simulatedI [of sd' ev Op_Disconnect sd eff] so idle by simp
qed

lemma egress_simulated:
  assumes "stdio_inv sd" "egress_turn eop sd = (eff, sd')" "\<And>so. socket_step ev sop so = with_egress 0 eop so"
  shows "simulated ev sd eff sd'"
  using base_simulated [OF assms(1), of "snd (with_egress 0 eop (sd_base sd))" ev sop] same_frame_egress [of "sd_base sd" 0 eop] assms(2,3)
  by (cases "with_egress 0 eop (sd_base sd)") (auto simp: egress_turn_def)

lemma connect_simulated:
  assumes inv: "stdio_inv sd" and step: "stdio_step ev D_Connect sd = (eff, sd')"
  shows "simulated ev sd eff sd'"
proof -
  have c: "snd (connect_open (Inr ()) (sd_base sd)) = sd_base (snd (stdio_connect_open sd))"
    using inv by (simp add: stdio_inv_def connect_open_def stdio_connect_open_def Let_def)
  have "stdio_inv (snd (stdio_connect_open sd))"
    using inv by (auto simp: stdio_inv_def stdio_connect_open_def spawn_tasks_def new_connection_def quiet_def set_base_def Let_def
        split: accept_phase.splits)
  then show ?thesis
    using step inv c simulatedI [of sd' ev "Op_Connect (Inr ())" sd eff] by (auto split: if_splits)
qed

lemma handled_simulated:
  assumes inv: "stdio_inv sd" and step: "stdio_step ev (D_Handled uuid result) sd = (eff, sd')"
  shows "simulated ev sd eff sd'"
proof (cases "sd_accept sd = Accept_Handling")
  case True
  then obtain t where t: "so_inflight (sd_base sd) = [t]"
    using inv by (auto simp: stdio_inv_def Let_def)
  have "stdio_inv (accept_respond ev uuid result sd)"
    by (rule respond_inv [OF t]) (use inv in \<open>auto simp: stdio_inv_def Let_def\<close>)
  then show ?thesis
    using step True respond_is_handler_done [OF t, of ev uuid result]
    by (intro simulatedI [of sd' ev "Op_Handler uuid 0 result"]) (auto simp: accept_handled_def)
qed (use step inv simulated_idle [OF inv] in \<open>auto simp: accept_handled_def\<close>)

text \<open>The reader's tasks and the calls that only enqueue leave what the accept task sees alone.\<close>

lemma reader_simulated:
  assumes inv: "stdio_inv sd" and step: "stdio_step ev op sd = (eff, sd')" and op: "op = D_Read input \<or> op = D_Route \<or> op = D_Forward"
  shows "simulated ev sd eff sd'"
  using op
proof (elim disjE)
  assume "op = D_Read input"
  then show ?thesis
    using step inv base_simulated [OF inv same_frame_reader(1), of ev "Op_Read 0 input" "[]"] simulated_idle [OF inv]
    by (auto simp: reader_step_def at_conn_def split: if_splits)
next
  assume "op = D_Route"
  then show ?thesis
    using step inv base_simulated [OF inv same_frame_reader(2), of ev "Op_Route 0" _ 0] simulated_idle [OF inv]
    by (cases "reader_route 0 (sd_base sd)") (auto simp: reader_step_def at_conn_def split: if_splits)
next
  assume "op = D_Forward"
  then show ?thesis
    using step inv base_simulated [OF inv same_frame_reader(3), of ev "Op_Forward 0" "[]"] simulated_idle [OF inv]
    by (auto simp: reader_step_def at_conn_def split: if_splits)
qed

lemma stdio_step_simulated:
  assumes inv: "stdio_inv sd" and step: "stdio_step ev op sd = (eff, sd')"
  shows "simulated ev sd eff sd'"
proof (cases op)
  case D_Connect
  then show ?thesis
    using step connect_simulated [OF inv] by simp
next
  case D_Publish
  have "same_frame (sd_base sd) (connect_publish (sd_base sd))"
    by (simp add: connect_publish_def split: option.split)
  then show ?thesis
    using D_Publish step simulatedI [of sd' ev Op_Publish sd eff] stdio_inv_frame [OF inv] by (auto simp: stdio_connect_publish_def)
next
  case D_Disconnect
  then show ?thesis
    using step inv disconnect_simulated [OF inv] simulated_idle [OF inv, of sd] by (auto split: if_splits)
next
  case (D_On_Request b)
  then show ?thesis
    using step inv by (auto simp: stdio_on_request_def stdio_inv_def Let_def intro!: simulated_idle split: if_splits)
next
  case (D_Hooks h)
  have "same_frame (sd_base sd) (socket_on_transfer_activity h (sd_base sd))"
    by (simp add: socket_on_transfer_activity_def)
  then show ?thesis
    using D_Hooks step simulatedI [of sd' ev "Op_Hooks h" sd eff] stdio_inv_frame [OF inv] by (auto simp: stdio_on_transfer_activity_def)
next
  case (D_Read input)
  then show ?thesis
    by (intro reader_simulated [OF inv step]) simp
next
  case D_Route
  then show ?thesis
    by (intro reader_simulated [OF inv step]) simp
next
  case D_Forward
  then show ?thesis
    by (intro reader_simulated [OF inv step]) simp
next
  case (D_Accept uuid)
  then show ?thesis
    using step accept_simulated [OF inv] by simp
next
  case (D_Handled uuid result)
  show ?thesis
    by (rule handled_simulated [OF inv step [unfolded D_Handled]])
next
  case (D_Send uuid sid payload)
  show ?thesis
    using step base_simulated [OF inv same_frame_send(1), of ev "Op_Send uuid sid payload" "[]"] by (auto simp: D_Send stdio_send_def)
next
  case (D_Send_Faf uuid sid payload)
  show ?thesis
    using step base_simulated [OF inv same_frame_send(2), of ev "Op_Send_Faf uuid sid payload" "[]"] by (auto simp: D_Send_Faf stdio_send_faf_def)
next
  case (D_Write_Control bs)
  show ?thesis
    using step base_simulated [OF inv same_frame_send(3), of ev "Op_Write_Control bs" "[]"] by (auto simp: D_Write_Control stdio_write_control_frame_def)
next
  case (D_Write_Data f)
  show ?thesis
    using step base_simulated [OF inv same_frame_send(4), of ev "Op_Write_Data f" "[]"] by (auto simp: D_Write_Data stdio_write_data_frame_def)
next
  case D_Select
  then show ?thesis
    using step by (intro egress_simulated [OF inv, where sop = "Op_Select 0"]) auto
next
  case (D_Write_Done ok)
  then show ?thesis
    using step by (intro egress_simulated [OF inv, where sop = "Op_Write_Done 0 ok"]) auto
next
  case D_Shutdown_Done
  then show ?thesis
    using step by (intro egress_simulated [OF inv, where sop = "Op_Shutdown_Done 0"]) auto
qed

lemma stdio_run_simulated:
  assumes "stdio_inv sd" "stdio_run ev ops sd = (tr, sd')"
  shows "stdio_inv sd' \<and>
    (\<exists>sops tr'. length sops \<le> 2 * length ops \<and> socket_run ev sops (sd_base sd) = (tr', sd_base sd') \<and> outcome tr' = outcome tr)"
  using assms
proof (induction ops arbitrary: sd tr)
  case (Cons op ops)
  obtain e1 sd1 e2 where st: "stdio_step ev op sd = (e1, sd1)" "stdio_run ev ops sd1 = (e2, sd')" "tr = e1 @ e2"
    using Cons.prems(2) by (auto split: prod.splits)
  obtain s1 f1 where s1: "stdio_inv sd1" "length s1 \<le> 2" "socket_run ev s1 (sd_base sd) = (f1, sd_base sd1)" "outcome f1 = outcome e1"
    using stdio_step_simulated [OF Cons.prems(1) st(1)] by (auto simp: simulated_def)
  obtain s2 f2 where s2: "stdio_inv sd'" "length s2 \<le> 2 * length ops" "socket_run ev s2 (sd_base sd1) = (f2, sd_base sd')" "outcome f2 = outcome e2"
    using Cons.IH [OF s1(1) st(2)] by auto
  have "socket_run ev (s1 @ s2) (sd_base sd) = (f1 @ f2, sd_base sd')"
    using s1(3) s2(3) by (simp add: socket_run_append)
  then show ?case
    using s1 s2 st(3) by (intro conjI exI [of _ "s1 @ s2"] exI [of _ "f1 @ f2"]) auto
qed auto

text \<open>
  C15. The stdio transport is a socket transport that serves one request at a time. Every run of it,
  from its construction, is a run of the socket transport: the same bytes on the wire, the same calls of
  the transfer hooks, the same returns of requests, in the same order, with the same request table, egress
  and flags at the end; only the hand-over of a request when no handler is registered differs. It
  has one connection at most, and at most one request in hand.
\<close>

theorem stdio_refines_socket:
  assumes "stdio_run ev ops stdio_new = (tr, sd)"
  shows "(\<exists>sops tr'. socket_run ev sops socket_new = (tr', sd_base sd) \<and>
      filter (\<lambda>x. \<not> is_request x) tr' = filter (\<lambda>x. \<not> is_request x) tr \<and> length sops \<le> 2 * length ops + 1) \<and>
    length (so_conns (sd_base sd)) \<le> 1 \<and> length (so_inflight (sd_base sd)) \<le> 1"
proof -
  have i: "stdio_inv stdio_new"
    by (simp add: stdio_inv_def stdio_new_def socket_new_impl_def quiet_def Let_def)
  obtain sops tr' where s: "stdio_inv sd" "length sops \<le> 2 * length ops"
      "socket_run ev sops (sd_base stdio_new) = (tr', sd_base sd)" "outcome tr' = outcome tr"
    using stdio_run_simulated [OF i assms] by blast
  have "socket_run ev (Op_On_Request False # sops) socket_new = (tr', sd_base sd)"
    using s(3) by (simp add: socket_new_def stdio_new_def socket_on_request_def socket_new_impl_def)
  moreover have "length (so_conns (sd_base sd)) \<le> 1" "length (so_inflight (sd_base sd)) \<le> 1"
    using s(1) by (auto simp: stdio_inv_def Let_def split: accept_phase.splits)
  ultimately show ?thesis
    using s(2,4) by (intro conjI exI [of _ "Op_On_Request False # sops"] exI [of _ tr']) auto
qed

section \<open>A handler blocks the replies\<close>

text \<open>The responses that calls already hold.\<close>

definition held_in :: "(nat \<times> xacpp_response) set \<Rightarrow> (nat, call) hash_map \<Rightarrow> bool" where
  "held_in S m \<longleftrightarrow> (\<forall>(w, ca) \<in> set m. \<forall>r. ca_reply ca = Some (Inr r) \<longrightarrow> (w, r) \<in> S)"

abbreviation replies_in :: "(nat \<times> xacpp_response) set \<Rightarrow> socket_transport \<Rightarrow> bool" where
  "replies_in S so \<equiv> held_in S (so_calls so)"

definition no_news :: "(nat \<times> xacpp_response) set \<Rightarrow> socket_effect list \<times> socket_transport \<Rightarrow> bool" where
  "no_news S = (\<lambda>(eff, so). replies_in S so \<and> (\<forall>w r. Returned w (Inr r) \<in> set eff \<longrightarrow> (w, r) \<in> S))"

lemma hm_get_set: "hm_get m k = Some v \<Longrightarrow> (k, v) \<in> set m"
  by (simp add: hm_get_def map_of_SomeD)

lemma held_put: "held_in S m \<Longrightarrow> (\<And>r. ca_reply ca = Some (Inr r) \<Longrightarrow> (w, r) \<in> S) \<Longrightarrow> held_in S (hm_put w ca m)"
  by (induction m) (auto simp: held_in_def hm_put_def)

lemma held_del: "held_in S m \<Longrightarrow> held_in S (hm_del w m)"
  by (auto simp: held_in_def hm_del_def AList.delete_eq)

lemma no_news_simps [simp]:
  "no_news S ([], so) = replies_in S so" "no_news S (x # xs, so) = ((\<forall>w r. x = Returned w (Inr r) \<longrightarrow> (w, r) \<in> S) \<and> no_news S (xs, so))"
  "no_news S (xs @ ys, so) = ((\<forall>w r. Returned w (Inr r) \<in> set xs \<longrightarrow> (w, r) \<in> S) \<and> no_news S (ys, so))"
  by (auto simp: no_news_def)

lemma no_news_settle:
  assumes "replies_in S so"
  shows "no_news S (settle_call w so)"
proof -
  have "(w, r) \<in> S" if "hm_get (so_calls so) w = Some ca" "ca_reply ca = Some (Inr r)" for ca r
    using assms hm_get_set [OF that(1)] that(2) by (auto simp: held_in_def)
  then show ?thesis
    using assms by (auto simp: settle_call_def held_del split: option.split)
qed

lemma no_news_closed: "replies_in S so \<Longrightarrow> no_news S (reply_call w (Inl e) so)"
  by (auto simp: reply_call_def intro!: no_news_settle held_put split: option.split)

lemma no_news_receipt:
  assumes "replies_in S so"
  shows "no_news S (receipt_arrives c r ok so)"
proof -
  have call: "no_news S (receipt_call c r ok so')" if "replies_in S so'" for so'
  proof (cases "find (\<lambda>(w, ca). ca_receipt ca = Some (c, r)) (so_calls so')")
    case (Some e)
    then have "e \<in> set (so_calls so')"
      by (metis find_Some_iff nth_mem)
    then have "(fst e, x) \<in> S" if "ca_reply (snd e) = Some (Inr x)" for x
      using \<open>replies_in S so'\<close> that by (auto simp: held_in_def)
    then show ?thesis
      using that Some by (cases e) (auto simp: receipt_call_def intro!: no_news_settle held_put held_del)
  qed (use that in \<open>simp add: receipt_call_def\<close>)
  then show ?thesis
    using assms by (simp add: receipt_arrives_def)
qed

lemma no_news_absorb: "replies_in S so \<Longrightarrow> no_news S (absorb c xs so)"
proof (induction xs arbitrary: so)
  case (Cons x xs)
  obtain e1 so1 where one: "absorb_one c x so = (e1, so1)"
    by (cases "absorb_one c x so")
  have "no_news S (e1, so1)"
    using Cons.prems one by (cases x) (auto simp: no_news_receipt no_news_closed simp flip: one)
  then show ?case
    using Cons.IH [of so1] one by (auto simp: no_news_def split: prod.split)
qed simp

lemma no_news_egress: "replies_in S so \<Longrightarrow> no_news S (with_egress c op so)"
  by (auto simp: with_egress_def no_news_absorb split: prod.split)

lemma replies_in_send:
  assumes "replies_in S so"
  shows "replies_in S (snd (socket_send ev uuid sid payload so))" "replies_in S (snd (socket_send_faf ev uuid sid payload so))"
    "replies_in S (snd (socket_write_control_frame bs so))" "replies_in S (snd (socket_write_data_frame crc f so))"
  using assms
  by (auto simp: socket_send_def socket_send_faf_def socket_write_control_frame_def socket_write_data_frame_def socket_next_id_def
      Let_def set_pending_def split: sum.split option.split prod.split intro!: held_put)

lemma no_news_reader:
  assumes "replies_in S so"
  shows "replies_in S (reader_read crc c input so)" "no_news S (reader_route c so)" "replies_in S (reader_forward c so)"
  using assms
  by (auto simp: reader_read_def reader_route_def reader_forward_def detach_hooks_def Let_def
      split: read_result.split prod.split sum.split list.split option.split)

lemma blocked_step:
  assumes "replies_in S (sd_base sd)" "sd_accept sd = Accept_Handling" "op \<noteq> D_Disconnect" "\<And>uuid result. op \<noteq> D_Handled uuid result"
    and "stdio_step ev op sd = (eff, sd')"
  shows "no_news S (eff, sd_base sd') \<and> sd_accept sd' = Accept_Handling"
proof -
  have on: "no_news S (x, sd_base sd2) \<and> sd_accept sd2 = Accept_Handling"
    if "apsnd (\<lambda>so. set_base so sd) p = (x, sd2)" "no_news S p" for p x sd2
    using that assms(2) by (cases p) auto
  show ?thesis
  proof (cases op)
    case D_Connect
    then show ?thesis
      using assms by (auto simp: stdio_connect_open_def spawn_tasks_def set_base_def Let_def)
  next
    case D_Publish
    then show ?thesis
      using assms by (auto simp: stdio_connect_publish_def connect_publish_def split: option.split)
  next
    case (D_Read input)
    then show ?thesis
      using assms no_news_reader(1) [OF assms(1)] by (auto simp: reader_step_def split: if_splits)
  next
    case D_Route
    then show ?thesis
      using assms on [of "reader_route 0 (sd_base sd)"] no_news_reader(2) [OF assms(1)] by (auto simp: reader_step_def split: if_splits)
  next
    case D_Forward
    then show ?thesis
      using assms no_news_reader(3) [OF assms(1)] by (auto simp: reader_step_def split: if_splits)
  next
    case (D_Send uuid sid payload)
    then show ?thesis
      using assms(2,5) replies_in_send(1) [OF assms(1)] by (auto simp: stdio_send_def)
  next
    case (D_Send_Faf uuid sid payload)
    then show ?thesis
      using assms(2,5) replies_in_send(2) [OF assms(1)] by (auto simp: stdio_send_faf_def)
  next
    case (D_Write_Control bs)
    then show ?thesis
      using assms(2,5) replies_in_send(3) [OF assms(1)] by (auto simp: stdio_write_control_frame_def)
  next
    case (D_Write_Data f)
    then show ?thesis
      using assms(2,5) replies_in_send(4) [OF assms(1)] by (auto simp: stdio_write_data_frame_def)
  next
    case D_Select
    then show ?thesis
      using assms(5) on [OF _ no_news_egress [OF assms(1), of 0 "Select"]] by (simp add: egress_turn_def)
  next
    case (D_Write_Done ok)
    then show ?thesis
      using assms(5) on [OF _ no_news_egress [OF assms(1), of 0 "Write_Done ok"]] by (simp add: egress_turn_def)
  next
    case D_Shutdown_Done
    then show ?thesis
      using assms(5) on [OF _ no_news_egress [OF assms(1), of 0 "Shutdown_Done"]] by (simp add: egress_turn_def)
  qed (use assms in \<open>auto simp: stdio_on_request_def stdio_on_transfer_activity_def socket_on_transfer_activity_def accept_step_def Let_def
      split: if_splits\<close>)
qed

lemma blocked_run:
  assumes "replies_in S (sd_base sd)" "sd_accept sd = Accept_Handling" "D_Disconnect \<notin> set ops" "\<And>uuid result. D_Handled uuid result \<notin> set ops"
    and "stdio_run ev ops sd = (tr, sd')"
  shows "no_news S (tr, sd_base sd') \<and> sd_accept sd' = Accept_Handling"
  using assms
proof (induction ops arbitrary: sd tr)
  case (Cons op ops)
  obtain e1 sd1 e2 where st: "stdio_step ev op sd = (e1, sd1)" "stdio_run ev ops sd1 = (e2, sd')" "tr = e1 @ e2"
    using Cons.prems(5) by (auto split: prod.splits)
  have one: "no_news S (e1, sd_base sd1)" "sd_accept sd1 = Accept_Handling"
    using blocked_step [OF Cons.prems(1,2) _ _ st(1)] Cons.prems(3,4) by auto
  have "no_news S (e2, sd_base sd') \<and> sd_accept sd' = Accept_Handling"
    by (rule Cons.IH [OF _ one(2) _ _ st(2)]) (use one Cons.prems(3,4) in \<open>auto simp: no_news_def\<close>)
  then show ?case
    using one(1) st(3) by (auto simp: no_news_def)
qed simp

text \<open>
  While the accept loop waits for a handler, no request of this side is answered. Until the handler
  returns or the transport is disconnected, whatever arrives and whatever else is done, a request whose one-shot
  channel did not hold the response when the handler was called does not return it: a handler that sends a
  request over its own transport and waits for the response never ends.
\<close>

theorem stdio_handler_blocks_replies:
  assumes "sd_accept sd0 = Accept_Handling" "D_Disconnect \<notin> set ops" "\<And>uuid result. D_Handled uuid result \<notin> set ops"
    and "stdio_run ev ops sd0 = (tr, sd)" "\<And>ca. (w, ca) \<in> set (so_calls (sd_base sd0)) \<Longrightarrow> ca_reply ca \<noteq> Some (Inr r)"
  shows "Returned w (Inr r) \<notin> set tr \<and> sd_accept sd = Accept_Handling"
proof -
  let ?S = "{(w, r). \<exists>ca. (w, ca) \<in> set (so_calls (sd_base sd0)) \<and> ca_reply ca = Some (Inr r)}"
  have "replies_in ?S (sd_base sd0)"
    by (auto simp: held_in_def)
  from blocked_run [OF this assms(1-4)] assms(5) show ?thesis
    by (auto simp: no_news_def)
qed

text \<open>A connected transport whose handler is in progress; the request it sends from there is written and never answered.\<close>

definition sample_handling :: stdio_transport where
  "sample_handling =
    \<lparr>sd_base = sample_client\<lparr>so_handler := True, so_client := False, so_inflight := [\<lparr>in_id = ''r9'', in_sid = None, in_conn = 0\<rparr>]\<rparr>,
     sd_request_handler = True, sd_accept = Accept_Handling, sd_reader = True\<rparr>"

theorem stdio_handler_blocks_replies_witness:
  "\<exists>tr sd. stdio_run sample_socket_env [D_Send 5 None sample_request, D_Select, D_Write_Done True, D_Accept 6] sample_handling = (tr, sd) \<and>
    Returned 0 (Inr acknowledge) \<notin> set tr \<and> sd_accept sd = Accept_Handling"
proof -
  obtain tr sd where r: "stdio_run sample_socket_env [D_Send 5 None sample_request, D_Select, D_Write_Done True, D_Accept 6] sample_handling = (tr, sd)"
    by (metis surj_pair)
  have "Returned 0 (Inr acknowledge) \<notin> set tr \<and> sd_accept sd = Accept_Handling"
    by (rule stdio_handler_blocks_replies [OF _ _ _ r]) (auto simp: sample_handling_def sample_client_def socket_new_impl_def)
  then show ?thesis
    using r by blast
qed

theorem stdio_refines_socket_witness:
  "\<exists>tr sd sops tr'. stdio_run sample_socket_env [D_On_Request False, D_Connect, D_Publish, D_Send 5 None sample_request] stdio_new = (tr, sd) \<and>
    socket_run sample_socket_env sops socket_new = (tr', sd_base sd) \<and> filter (\<lambda>x. \<not> is_request x) tr' = filter (\<lambda>x. \<not> is_request x) tr \<and>
    length (so_conns (sd_base sd)) \<le> 1"
proof -
  obtain tr sd where r: "stdio_run sample_socket_env [D_On_Request False, D_Connect, D_Publish, D_Send 5 None sample_request] stdio_new = (tr, sd)"
    by (metis surj_pair)
  show ?thesis
    using stdio_refines_socket [OF r] r by blast
qed

end
