(* ===== verification/Peer.thy ===== *)
theory Peer
  imports Xacpp_Session Socket_Transport
begin

text \<open>
  The protocol endpoint, \<open>src/src/session/peer.rs\<close> (with \<open>EstablishDecision\<close> of
  \<open>src/src/session/handler.rs\<close>): connection state, negotiation, establishment and the routing of
  inbound requests.

  The peer owns a transport through the operations of \<open>XacppTransport\<close> that it calls; the consumer's
  callbacks are parameters. \<open>negotiate\<close> and \<open>establish\<close> are split where they wait for a response: the
  first part yields the request, the later parts take the reply.
\<close>

section \<open>State\<close>

datatype peer_state = Disconnected | Connected | Negotiated

fun peer_state_debug :: "peer_state \<Rightarrow> string" where
  "peer_state_debug Disconnected = ''Disconnected''"
| "peer_state_debug Connected = ''Connected''"
| "peer_state_debug Negotiated = ''Negotiated''"

datatype establish_decision =
    ChallengeRequired string
  | Established_Decision string nat string

record 't transport_ops =
  top_on_request :: "'t \<Rightarrow> (xacpp_error + unit) \<times> 't"
  top_connect :: "'t \<Rightarrow> (xacpp_error + unit) \<times> 't"
  top_disconnect :: "'t \<Rightarrow> (xacpp_error + unit) \<times> 't"

record consumer =
  cs_on_negotiate :: "effective_capabilities \<Rightarrow> xacpp_error + unit"
  cs_on_establish :: "string option \<Rightarrow> xacpp_error + establish_decision"
  cs_on_establish_confirm :: "xacpp_error + string \<times> nat \<times> string"
  cs_is_fetch_responder :: "nat \<Rightarrow> bool"
  cs_on_command :: "nat \<Rightarrow> xacpp_command \<Rightarrow> xacpp_error + xacpp_response"
  cs_on_event :: "nat \<Rightarrow> xacpp_activity_event \<Rightarrow> xacpp_error + xacpp_response"

text \<open>
  \<open>pe_state\<close> to \<open>pe_fetch\<close> are \<open>PeerInner\<close>; \<open>pe_shared_emit\<close> and \<open>pe_shared_fetch\<close> the caches shared
  with the request closure. A session handler is a number.
\<close>

record 't peer =
  pe_transport :: 't
  pe_transport_id :: nat
  pe_session :: "xacpp_session option"
  pe_state :: peer_state
  pe_remote :: capabilities
  pe_emit :: "string list"
  pe_fetch :: bool
  pe_shared_emit :: "string list"
  pe_shared_fetch :: bool
  pe_sessions :: "(string, nat) hash_map"
  pe_local :: capabilities

definition peer_new :: "capabilities \<Rightarrow> 't \<Rightarrow> nat \<Rightarrow> xacpp_session option \<Rightarrow> 't peer" where
  "peer_new caps transport i session =
    \<lparr>pe_transport = transport, pe_transport_id = i, pe_session = session, pe_state = Disconnected,
     pe_remote = capabilities_default, pe_emit = [], pe_fetch = False, pe_shared_emit = [], pe_shared_fetch = False,
     pe_sessions = [], pe_local = caps\<rparr>"

section \<open>Negotiation\<close>

definition state_error :: "string \<Rightarrow> string \<Rightarrow> peer_state \<Rightarrow> xacpp_error" where
  "state_error what needed st =
    Internal (what @ '' requires '' @ needed @ '' state, current: '' @ peer_state_debug st)"

definition negotiate_request :: "'t peer \<Rightarrow> xacpp_error + xacpp_request" where
  "negotiate_request p =
    (if pe_state p \<noteq> Connected then Inl (state_error ''negotiate'' ''Connected'' (pe_state p))
     else Inr (Command (Negotiate_Cmd (pe_local p))))"

definition negotiate_reply ::
  "consumer \<Rightarrow> (xacpp_response \<Rightarrow> string) \<Rightarrow> xacpp_error + xacpp_response \<Rightarrow> 't peer \<Rightarrow> (xacpp_error + unit) \<times> 't peer" where
  "negotiate_reply cs dbg reply p =
    (case reply of
       Inl e \<Rightarrow> (Inl e, p)
     | Inr (Negotiated_Resp caps) \<Rightarrow>
       (let effective = from_capabilities (pe_local p) caps in
        case cs_on_negotiate cs effective of
          Inl e \<Rightarrow> (Inl e, p)
        | Inr _ \<Rightarrow>
          (Inr (), p\<lparr>pe_remote := caps, pe_emit := ef_emit_events effective, pe_fetch := ef_fetch_enabled effective,
             pe_state := Negotiated, pe_shared_fetch := ef_fetch_enabled effective\<rparr>))
     | Inr (Error_Resp code message) \<Rightarrow> (Inl (Application code message), p)
     | Inr other \<Rightarrow> (Inl (Internal (''unexpected response to negotiate: '' @ dbg other)), p))"

section \<open>Inbound requests\<close>

definition unknown_session :: "string \<Rightarrow> xacpp_error" where
  "unknown_session sid = Internal (''unknown session: '' @ sid)"

definition fetch_unavailable_response :: xacpp_response where
  "fetch_unavailable_response =
    Error_Resp FETCH_UNAVAILABLE
      ''fetch unavailable on this end (not enabled by negotiation, or no fetch responder loaded)''"

definition register_handler :: "string \<Rightarrow> nat \<Rightarrow> 't peer \<Rightarrow> 't peer" where
  "register_handler sid h p = p\<lparr>pe_sessions := hm_put sid h (pe_sessions p)\<rparr>"

fun peer_handle_request ::
  "consumer \<Rightarrow> string option \<Rightarrow> xacpp_request \<Rightarrow> 't peer \<Rightarrow> (xacpp_error + xacpp_response) \<times> 't peer" where
  "peer_handle_request cs None (Command (Negotiate_Cmd caps)) p =
    (let effective = from_capabilities (pe_local p) caps in
     case cs_on_negotiate cs effective of
       Inl e \<Rightarrow> (Inl e, p)
     | Inr _ \<Rightarrow>
       (Inr (Negotiated_Resp (pe_local p)),
        p\<lparr>pe_shared_emit := ef_emit_events effective, pe_shared_fetch := ef_fetch_enabled effective\<rparr>))"
| "peer_handle_request cs None (Command (Establish creds)) p =
    (case cs_on_establish cs creds of
       Inl e \<Rightarrow> (Inl e, p)
     | Inr (ChallengeRequired challenge) \<Rightarrow> (Inr (EstablishPrepare challenge), p)
     | Inr (Established_Decision sid h creds') \<Rightarrow> (Inr (Established sid creds'), register_handler sid h p))"
| "peer_handle_request cs None (Command EstablishConfirm) p =
    (case cs_on_establish_confirm cs of
       Inl e \<Rightarrow> (Inl e, p)
     | Inr (sid, h, creds) \<Rightarrow> (Inr (Established sid creds), register_handler sid h p))"
| "peer_handle_request cs None _ p = (Inl (InvalidRequest ''missing session_id''), p)"
| "peer_handle_request cs (Some sid) (Command cmd) p =
    (case hm_get (pe_sessions p) sid of
       Some h \<Rightarrow>
         (if is_fetch_family cmd \<and> (\<not> pe_shared_fetch p \<or> \<not> cs_is_fetch_responder cs h)
          then Inr fetch_unavailable_response else cs_on_command cs h cmd, p)
     | None \<Rightarrow> (Inl (unknown_session sid), p))"
| "peer_handle_request cs (Some sid) (Event evt) p =
    (case hm_get (pe_sessions p) sid of
       Some h \<Rightarrow> (cs_on_event cs h evt, p)
     | None \<Rightarrow> (Inl (unknown_session sid), p))"

section \<open>Connecting and disconnecting\<close>

definition peer_connect ::
  "'t transport_ops \<Rightarrow> nat \<Rightarrow> nat \<Rightarrow> 't peer \<Rightarrow> (xacpp_error + unit) \<times> effect list \<times> 't peer" where
  "peer_connect ops now1 now2 p =
    (case top_on_request ops (pe_transport p) of
       (Inl e, t) \<Rightarrow> (Inl e, [], p\<lparr>pe_transport := t\<rparr>)
     | (Inr _, t) \<Rightarrow>
       (case top_connect ops t of
          (Inl e, t') \<Rightarrow> (Inl e, [], p\<lparr>pe_transport := t'\<rparr>)
        | (Inr _, t') \<Rightarrow>
          (let p1 = p\<lparr>pe_transport := t'\<rparr>;
               (r, eff, p2) = (case pe_session p1 of
                   None \<Rightarrow> (Inr (), [], p1)
                 | Some s \<Rightarrow> (case wire_without_declaration (pe_transport_id p1) now1 now2 s of
                     (r, eff, s') \<Rightarrow> (r, eff, p1\<lparr>pe_session := Some s'\<rparr>)))
           in case r of
                Inl e \<Rightarrow> (Inl e, eff, p2)
              | Inr _ \<Rightarrow> (Inr (), eff, if pe_state p2 = Disconnected then p2\<lparr>pe_state := Connected\<rparr> else p2))))"

definition peer_disconnect :: "'t transport_ops \<Rightarrow> 't peer \<Rightarrow> (xacpp_error + unit) \<times> effect list \<times> 't peer" where
  "peer_disconnect ops p =
    (let (eff, p1) = (case pe_session p of
             None \<Rightarrow> ([], p)
           | Some s \<Rightarrow> (case xs_unwire s of (eff, s') \<Rightarrow> (eff, p\<lparr>pe_session := Some s'\<rparr>)))
     in case top_disconnect ops (pe_transport p1) of
          (Inl e, t) \<Rightarrow> (Inl e, eff, p1\<lparr>pe_transport := t\<rparr>)
        | (Inr _, t) \<Rightarrow>
          (Inr (), eff,
           p1\<lparr>pe_transport := t, pe_shared_fetch := False,
              pe_session := map_option (set_fetch_enabled False) (pe_session p1), pe_state := Disconnected,
              pe_remote := capabilities_default, pe_emit := [], pe_fetch := False, pe_sessions := []\<rparr>))"

section \<open>Establishment\<close>

definition no_initiator_session :: xacpp_error where
  "no_initiator_session = Internal ''establish requires an initiator-side session (pass Some at XacppPeer::new)''"

definition establish_request :: "string option \<Rightarrow> 't peer \<Rightarrow> xacpp_error + xacpp_request" where
  "establish_request creds p =
    (if pe_session p = None then Inl no_initiator_session
     else if pe_state p \<noteq> Negotiated then Inl (state_error ''establish'' ''Negotiated'' (pe_state p))
     else Inr (Command (Establish creds)))"

text \<open>The session to bind; the flag tells whether it is the held one.\<close>

definition session_for_establish ::
  "crc_fn \<Rightarrow> nat \<Rightarrow> nat \<Rightarrow> nat \<Rightarrow> string \<Rightarrow> 't peer \<Rightarrow> (xacpp_error + bool \<times> xacpp_session) \<times> effect list \<times> 't peer" where
  "session_for_establish crc now1 now2 now3 sid p =
    (let fresh = (\<lambda>eff p. case xs_wire crc (pe_transport_id p) now1 now2 now3 (xsession_new None now1) of
           (Inl e, eff', _) \<Rightarrow> (Inl e, eff @ eff', p)
         | (Inr _, eff', s) \<Rightarrow> (Inr (False, s), eff @ eff', p))
     in case pe_session p of
          None \<Rightarrow> fresh [] p
        | Some held \<Rightarrow>
          (if xs_session_id held = [] \<or> xs_session_id held = sid then
             (case attach_transfer (pe_transport_id p) now1 now2 held of
                (Inl e, eff, s) \<Rightarrow> (Inl e, eff, p\<lparr>pe_session := Some s\<rparr>)
              | (Inr _, eff, s) \<Rightarrow> (Inr (True, s), eff, p\<lparr>pe_session := Some s\<rparr>))
           else (case detach_transfer held of (eff, s) \<Rightarrow> fresh eff (p\<lparr>pe_session := Some s\<rparr>))))"

definition bind_session ::
  "crc_fn \<Rightarrow> nat \<Rightarrow> nat \<Rightarrow> nat \<Rightarrow> nat \<Rightarrow> string \<Rightarrow> string \<Rightarrow> 't peer \<Rightarrow> (xacpp_error + xacpp_session) \<times> effect list \<times> 't peer" where
  "bind_session crc now1 now2 now3 h sid creds p =
    (case session_for_establish crc now1 now2 now3 sid (register_handler sid h p) of
       (Inl e, eff, p1) \<Rightarrow> (Inl e, eff, p1)
     | (Inr (is_held, s), eff, p1) \<Rightarrow>
       (case xs_declare_pending_sends crc now3 (backfill sid creds (pe_emit p1) (pe_fetch p1) s) of
          (eff', s') \<Rightarrow> (Inr s', eff @ eff', if is_held then p1\<lparr>pe_session := Some s'\<rparr> else p1)))"

datatype establish_progress =
    Established_Now "xacpp_error + xacpp_session"
  | Send_Confirm xacpp_request

definition establish_reply ::
  "crc_fn \<Rightarrow> nat \<Rightarrow> nat \<Rightarrow> nat \<Rightarrow> (xacpp_response \<Rightarrow> string) \<Rightarrow> nat \<Rightarrow> (string \<Rightarrow> xacpp_error + unit)
    \<Rightarrow> xacpp_error + xacpp_response \<Rightarrow> 't peer \<Rightarrow> establish_progress \<times> effect list \<times> 't peer" where
  "establish_reply crc now1 now2 now3 dbg h verify reply p =
    (case reply of
       Inl e \<Rightarrow> (Established_Now (Inl e), [], p)
     | Inr (Established sid creds) \<Rightarrow> apfst Established_Now (bind_session crc now1 now2 now3 h sid creds p)
     | Inr (EstablishPrepare challenge) \<Rightarrow>
       (case verify challenge of
          Inl e \<Rightarrow> (Established_Now (Inl e), [], p)
        | Inr _ \<Rightarrow> (Send_Confirm (Command EstablishConfirm), [], p))
     | Inr (EstablishReject_Resp reason) \<Rightarrow> (Established_Now (Inl (EstablishReject reason)), [], p)
     | Inr (Error_Resp code message) \<Rightarrow> (Established_Now (Inl (Application code message)), [], p)
     | Inr other \<Rightarrow> (Established_Now (Inl (Internal (''unexpected response to establish: '' @ dbg other))), [], p))"

definition confirm_reply ::
  "crc_fn \<Rightarrow> nat \<Rightarrow> nat \<Rightarrow> nat \<Rightarrow> (xacpp_response \<Rightarrow> string) \<Rightarrow> nat
    \<Rightarrow> xacpp_error + xacpp_response \<Rightarrow> 't peer \<Rightarrow> (xacpp_error + xacpp_session) \<times> effect list \<times> 't peer" where
  "confirm_reply crc now1 now2 now3 dbg h reply p =
    (case reply of
       Inl e \<Rightarrow> (Inl e, [], p)
     | Inr (Established sid creds) \<Rightarrow> bind_session crc now1 now2 now3 h sid creds p
     | Inr (EstablishReject_Resp reason) \<Rightarrow> (Inl (EstablishReject reason), [], p)
     | Inr (Error_Resp code message) \<Rightarrow> (Inl (Application code message), [], p)
     | Inr other \<Rightarrow> (Inl (Internal (''unexpected response to establish_confirm: '' @ dbg other)), [], p))"

section \<open>The outcomes of connecting\<close>

lemma wire_never_refused: "\<exists>eff co. wire_without_declaration i now1 now2 s = (Inr (), eff, s\<lparr>xs_transfer := co, xs_transport := Some i\<rparr>)"
  by (simp add: wire_without_declaration_def xs_unwire_def unwire_def detach_connection_def wire_def stall_streams_def Let_def split_beta)
    (rule exI, rule refl)

lemma peer_connect_cases:
  assumes "peer_connect ops now1 now2 p = (r, eff, p')"
  obtains (refused) e t where "top_on_request ops (pe_transport p) = (Inl e, t)" "r = Inl e" "p' = p\<lparr>pe_transport := t\<rparr>"
  | (failed) e t t' where "top_on_request ops (pe_transport p) = (Inr (), t)" "top_connect ops t = (Inl e, t')"
      "r = Inl e" "p' = p\<lparr>pe_transport := t'\<rparr>"
  | (connected) t t' f where "top_on_request ops (pe_transport p) = (Inr (), t)" "top_connect ops t = (Inr (), t')" "r = Inr ()"
      "p' = p\<lparr>pe_transport := t', pe_session := map_option (\<lambda>s. s\<lparr>xs_transfer := f s, xs_transport := Some (pe_transport_id p)\<rparr>) (pe_session p),
        pe_state := (if pe_state p = Disconnected then Connected else pe_state p)\<rparr>"
      "\<forall>s. pe_session p = Some s \<longrightarrow>
        wire_without_declaration (pe_transport_id p) now1 now2 s = (Inr (), eff, s\<lparr>xs_transfer := f s, xs_transport := Some (pe_transport_id p)\<rparr>)"
proof -
  obtain r1 t where t: "top_on_request ops (pe_transport p) = (r1, t)"
    by (cases "top_on_request ops (pe_transport p)")
  obtain r2 t' where t': "top_connect ops t = (r2, t')"
    by (cases "top_connect ops t")
  show thesis
  proof (cases r1)
    case (Inl e)
    then show ?thesis
      using assms t by (intro refused) (auto simp: peer_connect_def)
  next
    case r1: (Inr u)
    show ?thesis
    proof (cases r2)
      case (Inl e)
      then show ?thesis
        using assms t t' r1 by (intro failed) (auto simp: peer_connect_def)
    next
      case r2: (Inr u')
      show ?thesis
      proof (cases "pe_session p")
        case None
        have "p\<lparr>pe_session := None\<rparr> = p"
          using None by (cases p) simp
        with None show ?thesis
          using assms t t' r1 r2 by (intro connected [of t t' "\<lambda>_. undefined"]) (auto simp: peer_connect_def Let_def)
      next
        case (Some s)
        obtain eff' co where w: "wire_without_declaration (pe_transport_id p) now1 now2 s = (Inr (), eff', s\<lparr>xs_transfer := co, xs_transport := Some (pe_transport_id p)\<rparr>)"
          using wire_never_refused by blast
        show ?thesis
          using assms t t' r1 r2 Some w by (intro connected [of t t' "\<lambda>_. co"]) (auto simp: peer_connect_def Let_def)
      qed
    qed
  qed
qed

section \<open>The transport contract\<close>

text \<open>
  What the peer relies on: a live transport refuses a new handler and a second connection, a
  successful \<open>connect\<close> makes it live, and \<open>disconnect\<close> always succeeds and ends it.
\<close>

locale transport_contract =
  fixes ops :: "'t transport_ops"
    and live :: "'t \<Rightarrow> bool"
  assumes on_request_law: "top_on_request ops t = (r, t') \<Longrightarrow> (r = Inr () \<longleftrightarrow> \<not> live t) \<and> live t' = live t"
    and connect_law: "top_connect ops t = (r, t') \<Longrightarrow> (r = Inr () \<longrightarrow> \<not> live t \<and> live t') \<and> (r \<noteq> Inr () \<longrightarrow> live t' = live t)"
    and disconnect_law: "top_disconnect ops t = (r, t') \<Longrightarrow> r = Inr () \<and> \<not> live t'"
begin

lemma connect_twice_refused:
  assumes "live (pe_transport p)" "peer_connect ops now1 now2 p = (r, eff, p')"
  shows "r \<noteq> Inr ()" "pe_state p' = pe_state p" "pe_session p' = pe_session p" "live (pe_transport p')"
proof -
  have "r \<noteq> Inr () \<and> pe_state p' = pe_state p \<and> pe_session p' = pe_session p \<and> live (pe_transport p')"
    using assms(2)
  proof (cases rule: peer_connect_cases)
    case (refused e t)
    then show ?thesis
      using on_request_law [OF refused(1)] assms(1) by simp
  qed (use assms(1) on_request_law in blast)+
  then show "r \<noteq> Inr ()" "pe_state p' = pe_state p" "pe_session p' = pe_session p" "live (pe_transport p')"
    by blast+
qed

lemma connect_makes_live:
  assumes "peer_connect ops now1 now2 p = (Inr (), eff, p')"
  shows "\<not> live (pe_transport p)" "live (pe_transport p')" "pe_state p' = Disconnected \<Longrightarrow> False"
proof -
  have "\<not> live (pe_transport p) \<and> live (pe_transport p') \<and> pe_state p' \<noteq> Disconnected"
    using assms
  proof (cases rule: peer_connect_cases)
    case (connected t t' f)
    then show ?thesis
      using on_request_law [OF connected(1)] connect_law [OF connected(2)] by simp
  qed simp_all
  then show "\<not> live (pe_transport p)" "live (pe_transport p')" "pe_state p' = Disconnected \<Longrightarrow> False"
    by blast+
qed

lemma disconnect_resets:
  assumes "peer_disconnect ops p = (r, eff, p')"
  shows "r = Inr ()" "\<not> live (pe_transport p')" "pe_state p' = Disconnected" "pe_sessions p' = []" "\<not> pe_shared_fetch p'"
proof -
  obtain t where t: "top_disconnect ops (pe_transport p) = (Inr (), t)" "\<not> live t"
    using disconnect_law by (metis surj_pair)
  show "r = Inr ()" "\<not> live (pe_transport p')" "pe_state p' = Disconnected" "pe_sessions p' = []" "\<not> pe_shared_fetch p'"
    using assms t by (auto simp: peer_disconnect_def Let_def split: prod.splits option.splits)
qed

text \<open>After a disconnect the only obstacle to connecting again is the transport's own attempt.\<close>

lemma reconnect_after_disconnect:
  assumes "peer_disconnect ops p = (r, eff, p1)" "peer_connect ops now1 now2 p1 = (r', eff', p2)"
    and "\<And>t. top_on_request ops (pe_transport p1) = (Inr (), t) \<Longrightarrow> fst (top_connect ops t) = Inr ()"
  shows "r' = Inr ()" "pe_state p2 = Connected" "live (pe_transport p2)"
proof -
  note d = disconnect_resets [OF assms(1)]
  have "r' = Inr () \<and> pe_state p2 = Connected"
    using assms(2)
  proof (cases rule: peer_connect_cases)
    case (refused e t)
    then show ?thesis
      using d(2) on_request_law [OF refused(1)] by simp
  next
    case (failed e t t')
    then show ?thesis
      using assms(3) [of t] by simp
  next
    case (connected t t' f)
    then show ?thesis
      using d(3) by simp
  qed
  then show "r' = Inr ()" "pe_state p2 = Connected" "live (pe_transport p2)"
    using connect_makes_live(2) assms(2) by auto
qed

end

text \<open>The socket transport keeps the contract, for every outcome of the connection attempt.\<close>

definition socket_ops :: "xacpp_error + unit \<Rightarrow> socket_transport transport_ops" where
  "socket_ops tcp =
    \<lparr>top_on_request = socket_on_request False,
     top_connect = (\<lambda>so. case connect_open tcp so of (Inl e, so') \<Rightarrow> (Inl e, so') | (Inr _, so') \<Rightarrow> (Inr (), connect_publish so')),
     top_disconnect = (\<lambda>so. (Inr (), snd (socket_disconnect so)))\<rparr>"

lemma absorb_connected: "sh_connected (so_shared (snd (absorb c xs so))) = sh_connected (so_shared so)"
proof (induction xs arbitrary: so)
  case (Cons x xs)
  have "sh_connected (so_shared so1) = sh_connected (so_shared so)" if "absorb_one c x so = (e1, so1)" for e1 so1
    using that by (cases x) (auto simp: receipt_arrives_def receipt_call_def reply_call_def settle_call_def update_conn_def set_pending_def
        split: option.splits if_splits)
  then show ?case
    using Cons by (cases "absorb_one c x so") (auto simp: split_beta)
qed simp

lemma disconnect_not_connected: "\<not> sh_connected (so_shared (snd (socket_disconnect so)))"
proof -
  have "\<not> sh_connected (so_shared (snd (with_egress c Close_Op s)))" if "\<not> sh_connected (so_shared s)" for c s
    using that absorb_connected by (auto simp: with_egress_def egress_close_def mark_closed_def update_conn_def split: prod.split)
  moreover have "\<not> sh_connected (so_shared (snd (clear_pending s)))" if "\<not> sh_connected (so_shared s)" for s
    using that absorb_connected by (auto simp: clear_pending_def pending_clear_def)
  moreover have "so_shared (stop_dispatch c s) = so_shared s" for c s
    by (simp add: stop_dispatch_def update_conn_def)
  ultimately show ?thesis
    by (auto simp: socket_disconnect_def Let_def split_beta split: option.split)
qed

interpretation socket: transport_contract "socket_ops tcp" "\<lambda>so. sh_connected (so_shared so)" for tcp
proof
  fix t t' :: socket_transport and r
  show "top_on_request (socket_ops tcp) t = (r, t') \<Longrightarrow>
      (r = Inr () \<longleftrightarrow> \<not> sh_connected (so_shared t)) \<and> sh_connected (so_shared t') = sh_connected (so_shared t)"
    by (auto simp: socket_ops_def socket_on_request_def split: if_splits)
  show "top_connect (socket_ops tcp) t = (r, t') \<Longrightarrow>
      (r = Inr () \<longrightarrow> \<not> sh_connected (so_shared t) \<and> sh_connected (so_shared t')) \<and>
      (r \<noteq> Inr () \<longrightarrow> sh_connected (so_shared t') = sh_connected (so_shared t))"
    by (auto simp: socket_ops_def connect_open_def connect_publish_def spawn_tasks_def split: if_splits sum.splits prod.splits)
  show "top_disconnect (socket_ops tcp) t = (r, t') \<Longrightarrow> r = Inr () \<and> \<not> sh_connected (so_shared t')"
    using disconnect_not_connected by (auto simp: socket_ops_def)
qed

section \<open>Runs of a peer\<close>

record peer_env =
  pv_crc :: crc_fn
  pv_consumer :: consumer
  pv_debug :: "xacpp_response \<Rightarrow> string"
  pv_verify :: "string \<Rightarrow> xacpp_error + unit"

text \<open>
  Replies may arrive in any state, the transport may change by itself (its tasks run), and the held
  session is used by its owner through the operations of the transfer session.
\<close>

datatype 't peer_op =
    P_Connect nat nat
  | P_Disconnect
  | P_Negotiate_Reply "xacpp_error + xacpp_response"
  | P_Inbound "string option" xacpp_request
  | P_Establish_Reply nat nat nat nat "xacpp_error + xacpp_response"
  | P_Confirm_Reply nat nat nat nat "xacpp_error + xacpp_response"
  | P_Carrier "'t \<Rightarrow> 't"
  | P_Transfer env session_op

fun peer_step :: "'t transport_ops \<Rightarrow> peer_env \<Rightarrow> 't peer_op \<Rightarrow> 't peer \<Rightarrow> 't peer" where
  "peer_step ops pv (P_Connect now1 now2) p = snd (snd (peer_connect ops now1 now2 p))"
| "peer_step ops pv P_Disconnect p = snd (snd (peer_disconnect ops p))"
| "peer_step ops pv (P_Negotiate_Reply reply) p = snd (negotiate_reply (pv_consumer pv) (pv_debug pv) reply p)"
| "peer_step ops pv (P_Inbound sid req) p = snd (peer_handle_request (pv_consumer pv) sid req p)"
| "peer_step ops pv (P_Establish_Reply now1 now2 now3 h reply) p =
    snd (snd (establish_reply (pv_crc pv) now1 now2 now3 (pv_debug pv) h (pv_verify pv) reply p))"
| "peer_step ops pv (P_Confirm_Reply now1 now2 now3 h reply) p =
    snd (snd (confirm_reply (pv_crc pv) now1 now2 now3 (pv_debug pv) h reply p))"
| "peer_step ops pv (P_Carrier f) p = p\<lparr>pe_transport := f (pe_transport p)\<rparr>"
| "peer_step ops pv (P_Transfer ev op) p =
    p\<lparr>pe_session := map_option (\<lambda>s. s\<lparr>xs_transfer := snd (session_step ev op (xs_transfer s))\<rparr>) (pe_session p)\<rparr>"

text \<open>The negotiated facts a peer holds are those of the capabilities it holds, and none otherwise.\<close>

definition facts_inv :: "'t peer \<Rightarrow> bool" where
  "facts_inv p \<longleftrightarrow>
    (if pe_state p = Negotiated
     then pe_emit p = ef_emit_events (from_capabilities (pe_local p) (pe_remote p)) \<and>
       pe_fetch p = ef_fetch_enabled (from_capabilities (pe_local p) (pe_remote p))
     else pe_remote p = capabilities_default \<and> pe_emit p = [] \<and> \<not> pe_fetch p)"

definition declares_fetch :: "capabilities \<Rightarrow> bool" where
  "declares_fetch caps \<longleftrightarrow> cap_fetch_ext caps = Some FETCH_EXT_VERSION"

definition held_inv :: "capabilities \<Rightarrow> xacpp_session \<Rightarrow> bool" where
  "held_inv caps s \<longleftrightarrow> session_inv (co_state (xs_transfer s)) \<and> (xs_fetch_enabled s \<longrightarrow> declares_fetch caps)"

definition peer_inv :: "'t peer \<Rightarrow> bool" where
  "peer_inv p \<longleftrightarrow>
    facts_inv p \<and> (pe_shared_fetch p \<longrightarrow> declares_fetch (pe_local p)) \<and>
    (\<forall>s. pe_session p = Some s \<longrightarrow> held_inv (pe_local p) s)"

lemma fetch_enabled_iff:
  "ef_fetch_enabled (from_capabilities local remote) \<longleftrightarrow> declares_fetch local \<and> declares_fetch remote"
  by (simp add: from_capabilities_def declares_fetch_def Let_def)

text \<open>The session operations a peer uses keep the transfer state well formed.\<close>

lemma held_inv_step: "held_inv caps s \<Longrightarrow> held_inv caps (s\<lparr>xs_transfer := snd (session_step ev op (xs_transfer s))\<rparr>)"
  by (simp add: held_inv_def session_step_inv)

lemma held_inv_unwire: "held_inv caps s \<Longrightarrow> xs_unwire s = (eff, s') \<Longrightarrow> held_inv caps s'"
  using unwire_inv [of "xs_transfer s"] by (auto simp: xs_unwire_def held_inv_def split: prod.splits)

lemma held_inv_wire: "held_inv caps s \<Longrightarrow> wire_without_declaration i now1 now2 s = (r, eff, s') \<Longrightarrow> held_inv caps s'"
  using held_inv_unwire [of caps s] wire_inv [of "xs_transfer (snd (xs_unwire s))" i now1 now2]
  by (auto simp: wire_without_declaration_def held_inv_def Let_def split: prod.splits sum.splits)

lemma held_inv_attach: "held_inv caps s \<Longrightarrow> attach_transfer i now1 now2 s = (r, eff, s') \<Longrightarrow> held_inv caps s'"
  using wire_inv [of "xs_transfer s" i now1 now2] by (auto simp: attach_transfer_def held_inv_def split: if_splits prod.splits)

lemma held_inv_detach: "held_inv caps s \<Longrightarrow> detach_transfer s = (eff, s') \<Longrightarrow> held_inv caps s'"
  using unwire_inv [of "xs_transfer s"] by (auto simp: detach_transfer_def held_inv_def split: prod.splits)

lemma held_inv_declare: "held_inv caps s \<Longrightarrow> xs_declare_pending_sends crc now s = (eff, s') \<Longrightarrow> held_inv caps s'"
  using declare_pending_sends_inv [of "xs_transfer s" crc now]
  by (auto simp: xs_declare_pending_sends_def held_inv_def split: prod.splits)

lemma peer_inv_session:
  "peer_inv p \<Longrightarrow> (\<And>s. so = Some s \<Longrightarrow> held_inv (pe_local p) s) \<Longrightarrow> peer_inv (p\<lparr>pe_session := so\<rparr>)"
  by (simp add: peer_inv_def facts_inv_def)

lemma peer_inv_transport: "peer_inv p \<Longrightarrow> peer_inv (p\<lparr>pe_transport := t\<rparr>)"
  by (simp add: peer_inv_def facts_inv_def)

lemma connect_peer_inv: "peer_inv p \<Longrightarrow> peer_connect ops now1 now2 p = (r, eff, p') \<Longrightarrow> peer_inv p'"
proof -
  assume i: "peer_inv p" and c: "peer_connect ops now1 now2 p = (r, eff, p')"
  from c show ?thesis
  proof (cases rule: peer_connect_cases)
    case (connected t t' f)
    have "held_inv (pe_local p) (s\<lparr>xs_transfer := f s, xs_transport := Some (pe_transport_id p)\<rparr>)" if "pe_session p = Some s" for s
      using i that connected(5) held_inv_wire by (fastforce simp: peer_inv_def)
    then show ?thesis
      using i connected(4) by (auto simp: peer_inv_def facts_inv_def split: if_splits)
  qed (use i in \<open>simp_all add: peer_inv_transport\<close>)
qed

lemma disconnect_peer_inv: "peer_inv p \<Longrightarrow> peer_disconnect ops p = (r, eff, p') \<Longrightarrow> peer_inv p'"
proof (cases "pe_session p")
  case None
  then show "peer_inv p \<Longrightarrow> peer_disconnect ops p = (r, eff, p') \<Longrightarrow> peer_inv p'"
    by (auto simp: peer_disconnect_def peer_inv_def facts_inv_def Let_def split: prod.splits sum.splits)
next
  case (Some s)
  assume i: "peer_inv p" and d: "peer_disconnect ops p = (r, eff, p')"
  obtain eff' s' where u: "xs_unwire s = (eff', s')"
    by (cases "xs_unwire s")
  have "held_inv (pe_local p) s'"
    using i Some held_inv_unwire [OF _ u] by (simp add: peer_inv_def)
  then show "peer_inv p'"
    using d i Some u
    by (auto simp: peer_disconnect_def peer_inv_def facts_inv_def held_inv_def set_fetch_enabled_def Let_def
        split: prod.splits sum.splits)
qed

lemma establish_session_inv:
  assumes "peer_inv p" "session_for_establish crc now1 now2 now3 sid p = (r, eff, p')"
  shows "peer_inv p'" "r = Inr (True, s) \<Longrightarrow> held_inv (pe_local p') s"
    and "pe_local p' = pe_local p" "pe_emit p' = pe_emit p" "pe_fetch p' = pe_fetch p"
proof -
  have "\<exists>so. p' = p\<lparr>pe_session := so\<rparr> \<and> (\<forall>s. so = Some s \<longrightarrow> held_inv (pe_local p) s) \<and> (\<forall>s. r = Inr (True, s) \<longrightarrow> so = Some s)"
  proof (cases "pe_session p")
    case None
    then have "p' = p\<lparr>pe_session := None\<rparr>" "r \<noteq> Inr (True, s)" for s
      using assms(2) by (cases p; auto simp: session_for_establish_def Let_def split: prod.splits sum.splits)+
    then show ?thesis
      by blast
  next
    case (Some held)
    then have held: "held_inv (pe_local p) held"
      using assms(1) by (simp add: peer_inv_def)
    obtain x y s1 where a: "attach_transfer (pe_transport_id p) now1 now2 held = (x, y, s1)"
      by (metis prod_cases3)
    obtain z s2 where d: "detach_transfer held = (z, s2)"
      by (metis surj_pair)
    have "p' = p\<lparr>pe_session := Some s1\<rparr> \<and> (\<forall>s. r = Inr (True, s) \<longrightarrow> s = s1) \<or> p' = p\<lparr>pe_session := Some s2\<rparr> \<and> (\<forall>s. r \<noteq> Inr (True, s))"
      using assms(2) Some a d by (auto simp: session_for_establish_def Let_def split: if_splits prod.splits sum.splits)
    then show ?thesis
      using held_inv_attach [OF held a] held_inv_detach [OF held d] by blast
  qed
  then show "peer_inv p'" "r = Inr (True, s) \<Longrightarrow> held_inv (pe_local p') s"
      "pe_local p' = pe_local p" "pe_emit p' = pe_emit p" "pe_fetch p' = pe_fetch p"
    using peer_inv_session [OF assms(1)] by auto
qed

lemma bind_peer_inv:
  assumes "peer_inv p" "bind_session crc now1 now2 now3 h sid creds p = (r, eff, p')"
  shows "peer_inv p'"
proof -
  obtain x eff' p1 where x: "session_for_establish crc now1 now2 now3 sid (register_handler sid h p) = (x, eff', p1)"
    by (metis prod_cases3)
  have "peer_inv (register_handler sid h p)"
    using assms(1) by (simp add: register_handler_def peer_inv_def facts_inv_def)
  note e = establish_session_inv [OF this x]
  have "pe_fetch p1 \<Longrightarrow> declares_fetch (pe_local p1)"
    using e(1) by (auto simp: peer_inv_def facts_inv_def fetch_enabled_iff split: if_splits)
  then have "held_inv (pe_local p1) (backfill sid creds (pe_emit p1) (pe_fetch p1) s)" if "x = Inr (True, s)" for s
    using e(2) [OF that] by (simp add: held_inv_def backfill_def)
  then have "held_inv (pe_local p1) s'"
    if "x = Inr (True, s)" "xs_declare_pending_sends crc now3 (backfill sid creds (pe_emit p1) (pe_fetch p1) s) = (y, s')" for s y s'
    using held_inv_declare that by blast
  then show ?thesis
    using assms(2) x e(1) by (auto simp: bind_session_def intro!: peer_inv_session split: sum.splits prod.splits if_splits)
qed

lemma peer_step_inv: "peer_inv p \<Longrightarrow> peer_inv (peer_step ops pv op p)"
proof (cases op)
  case (P_Connect now1 now2)
  then show "peer_inv p \<Longrightarrow> ?thesis"
    using connect_peer_inv by (metis peer_step.simps(1) prod.collapse)
next
  case P_Disconnect
  then show "peer_inv p \<Longrightarrow> ?thesis"
    using disconnect_peer_inv by (metis peer_step.simps(2) prod.collapse)
next
  case (P_Establish_Reply now1 now2 now3 h reply)
  have "peer_inv p \<Longrightarrow> peer_inv (snd (snd (bind_session crc now1 now2 now3 h sid creds p)))" for crc sid creds
    using bind_peer_inv by (metis prod.collapse)
  then show "peer_inv p \<Longrightarrow> ?thesis"
    using P_Establish_Reply by (auto simp: establish_reply_def split: sum.split xacpp_response.split)
next
  case (P_Confirm_Reply now1 now2 now3 h reply)
  have "peer_inv p \<Longrightarrow> peer_inv (snd (snd (bind_session crc now1 now2 now3 h sid creds p)))" for crc sid creds
    using bind_peer_inv by (metis prod.collapse)
  then show "peer_inv p \<Longrightarrow> ?thesis"
    using P_Confirm_Reply by (auto simp: confirm_reply_def split: sum.split xacpp_response.split)
next
  case (P_Inbound sid req)
  then show "peer_inv p \<Longrightarrow> ?thesis"
    by (cases "(pv_consumer pv, sid, req, p)" rule: peer_handle_request.cases)
      (auto simp: peer_inv_def facts_inv_def register_handler_def fetch_enabled_iff Let_def
        split: sum.split option.split establish_decision.split)
next
  case (P_Negotiate_Reply reply)
  then show "peer_inv p \<Longrightarrow> ?thesis"
    by (auto simp: negotiate_reply_def peer_inv_def facts_inv_def fetch_enabled_iff Let_def split: sum.split xacpp_response.split)
next
  case (P_Transfer ev op')
  then show "peer_inv p \<Longrightarrow> ?thesis"
    using held_inv_step by (auto simp: peer_inv_def facts_inv_def)
qed (simp add: peer_inv_transport)

interpretation peer_machine: invariant_machine "peer_step ops pv" peer_inv for ops pv
  by unfold_locales (rule peer_step_inv)

definition peer_run :: "'t transport_ops \<Rightarrow> peer_env \<Rightarrow> 't peer_op list \<Rightarrow> 't peer \<Rightarrow> 't peer" where
  "peer_run ops pv pops p = fold (peer_step ops pv) pops p"

lemma peer_run_inv: "peer_inv p \<Longrightarrow> peer_inv (peer_run ops pv pops p)"
  using peer_machine.run_good [of p ops pv pops] by (simp add: peer_run_def peer_machine.run_def)

lemma set_emit_events: "set (ef_emit_events (from_capabilities local remote)) =
    set (extract_names (cap_produce_events local)) \<inter> set (extract_names (cap_accept_events remote))"
  by (auto simp: from_capabilities_def Let_def)

text \<open>The transactions whose copies a session holds.\<close>

definition held_ids :: "session_state \<Rightarrow> txid list" where
  "held_ids st = hm_keys (ts_pending (ss_sender st))"

lemma wire_unwired:
  assumes "co_wiring co = None"
  shows "\<exists>co'. wire co i now1 now2 = (Inr (), [SetHooks i True], co') \<and> is_wired co' \<and>
    ss_reassembler (co_state co') = ss_reassembler (co_state co) \<and> ss_completions (co_state co') = ss_completions (co_state co) \<and>
    held_ids (co_state co') = held_ids (co_state co)"
  using assms by (simp add: wire_def is_wired_def wake_writers_def Let_def declare_pending_def hm_keys_def comp_def split_beta held_ids_def)

lemma declare_keeps:
  assumes "xs_declare_pending_sends crc now s = (eff, s')"
  shows "xs_session_id s' = xs_session_id s \<and> xs_credentials s' = xs_credentials s \<and> xs_emit_events s' = xs_emit_events s \<and>
    xs_fetch_enabled s' = xs_fetch_enabled s \<and> xs_transport s' = xs_transport s \<and> transfer_wired s' = transfer_wired s \<and>
    ss_reassembler (co_state (xs_transfer s')) = ss_reassembler (co_state (xs_transfer s)) \<and>
    ss_completions (co_state (xs_transfer s')) = ss_completions (co_state (xs_transfer s)) \<and>
    held_ids (co_state (xs_transfer s')) = held_ids (co_state (xs_transfer s))"
  using assms by (auto simp: xs_declare_pending_sends_def declare_pending_sends_def send_resume_declaration_def set_sender_def
      transfer_wired_def is_wired_def declare_pending_def Let_def hm_keys_def held_ids_def split: if_splits prod.splits)

lemma fresh_session_wired:
  assumes "xs_wire crc i now1 now2 now3 (xsession_new config now) = (Inr (), eff, s)"
  shows "transfer_wired s \<and> held_ids (co_state (xs_transfer s)) = [] \<and> xs_transport s = Some i"
proof -
  let ?co = "snd (unwire (xs_transfer (xsession_new config now)))"
  have "co_wiring ?co = None" "held_ids (co_state ?co) = []"
    by (simp_all add: unwire_def detach_connection_def stall_streams_def xsession_new_def session_new_def sender_new_def held_ids_def
        hm_keys_def split_beta split: option.split)
  then obtain co where w: "wire ?co i now1 now2 = (Inr (), [SetHooks i True], co)" "is_wired co" "held_ids (co_state co) = []"
    using wire_unwired [of ?co i now1 now2] by auto
  have "\<exists>e1. wire_without_declaration i now1 now2 (xsession_new config now) =
      (Inr (), e1, (xsession_new config now)\<lparr>xs_transfer := co, xs_transport := Some i\<rparr>)"
    using w(1) by (simp add: wire_without_declaration_def xs_unwire_def split_beta)
  then obtain e1 s1 where s1: "wire_without_declaration i now1 now2 (xsession_new config now) = (Inr (), e1, s1)"
      "transfer_wired s1" "held_ids (co_state (xs_transfer s1)) = []" "xs_transport s1 = Some i"
    using w(2,3) by (auto simp: transfer_wired_def)
  obtain e2 s2 where s2: "xs_declare_pending_sends crc now3 s1 = (e2, s2)"
    by (metis surj_pair)
  then show ?thesis
    using assms s1 declare_keeps [OF s2] by (simp add: xs_wire_def)
qed

lemma xs_wire_succeeds: "\<exists>eff s'. xs_wire crc i now1 now2 now3 s = (Inr (), eff, s')"
proof -
  obtain eff co where "wire_without_declaration i now1 now2 s = (Inr (), eff, s\<lparr>xs_transfer := co, xs_transport := Some i\<rparr>)"
    using wire_never_refused by blast
  then show ?thesis
    by (simp add: xs_wire_def split: prod.split)
qed

lemma session_for_establish_succeeds: "\<exists>x eff p'. session_for_establish crc now1 now2 now3 sid p = (Inr x, eff, p')"
proof -
  obtain eff s where w: "xs_wire crc (pe_transport_id p) now1 now2 now3 (xsession_new None now1) = (Inr (), eff, s)"
    using xs_wire_succeeds by blast
  have "\<exists>eff s'. attach_transfer i now1 now2 held = (Inr (), eff, s')" for i held
    using wire_unwired [of "xs_transfer held" i now1 now2] by (auto simp: attach_transfer_def transfer_wired_def is_wired_def)
  then obtain eff' s' where a: "attach_transfer (pe_transport_id p) now1 now2 held = (Inr (), eff' held, s' held)" for held
    by metis
  show ?thesis
    using w a by (auto simp: session_for_establish_def Let_def split: option.split prod.split)
qed

lemma bind_session_succeeds: "\<exists>s eff p'. bind_session crc now1 now2 now3 h sid creds p = (Inr s, eff, p')"
proof -
  obtain is_held s eff p1 where "session_for_establish crc now1 now2 now3 sid (register_handler sid h p) = (Inr (is_held, s), eff, p1)"
    using session_for_establish_succeeds by (metis surj_pair)
  then show ?thesis
    by (simp add: bind_session_def split: prod.split)
qed

lemma bind_session_shape:
  assumes "pe_session p = Some held" "bind_session crc now1 now2 now3 h sid creds p = (Inr s, eff, p')"
  shows "hm_get (pe_sessions p') sid = Some h \<and> xs_session_id s = sid \<and> xs_credentials s = creds \<and>
    xs_emit_events s = pe_emit p \<and> xs_fetch_enabled s = pe_fetch p \<and> transfer_wired s \<and>
    (if xs_session_id held = [] \<or> xs_session_id held = sid
     then pe_session p' = Some s \<and> held_ids (co_state (xs_transfer s)) = held_ids (co_state (xs_transfer held)) \<and>
       ss_reassembler (co_state (xs_transfer s)) = ss_reassembler (co_state (xs_transfer held)) \<and>
       ss_completions (co_state (xs_transfer s)) = ss_completions (co_state (xs_transfer held)) \<and> xs_transport s = xs_transport held
     else held_ids (co_state (xs_transfer s)) = [] \<and> xs_transport s = Some (pe_transport_id p) \<and>
       (\<exists>held'. pe_session p' = Some held' \<and> \<not> transfer_wired held' \<and> xs_session_id held' = xs_session_id held \<and>
         xs_transport held' = xs_transport held))"
proof -
  let ?p = "register_handler sid h p"
  obtain is_held s0 eff0 p1 where e: "session_for_establish crc now1 now2 now3 sid ?p = (Inr (is_held, s0), eff0, p1)"
    using assms(2) by (auto simp: bind_session_def split: prod.splits sum.splits)
  obtain eff1 where d: "xs_declare_pending_sends crc now3 (backfill sid creds (pe_emit p1) (pe_fetch p1) s0) = (eff1, s)"
      "p' = (if is_held then p1\<lparr>pe_session := Some s\<rparr> else p1)"
    using assms(2) e by (auto simp: bind_session_def split: prod.splits)
  note k = declare_keeps [OF d(1)]
  show ?thesis
  proof (cases "xs_session_id held = [] \<or> xs_session_id held = sid")
    case True
    have "is_held \<and> p1 = ?p\<lparr>pe_session := Some s0\<rparr> \<and> transfer_wired s0 \<and> held_ids (co_state (xs_transfer s0)) = held_ids (co_state (xs_transfer held)) \<and>
        ss_reassembler (co_state (xs_transfer s0)) = ss_reassembler (co_state (xs_transfer held)) \<and>
        ss_completions (co_state (xs_transfer s0)) = ss_completions (co_state (xs_transfer held)) \<and> xs_transport s0 = xs_transport held"
      using e assms(1) True wire_unwired [of "xs_transfer held" "pe_transport_id p" now1 now2]
      by (auto simp: session_for_establish_def register_handler_def attach_transfer_def transfer_wired_def is_wired_def Let_def
          split: prod.splits sum.splits if_splits)
    then show ?thesis
      using True k d(2) by (auto simp: backfill_def register_handler_def transfer_wired_def)
  next
    case False
    obtain eff' where w: "xs_wire crc (pe_transport_id p) now1 now2 now3 (xsession_new None now1) = (Inr (), eff', s0)"
      and h: "\<not> is_held" "p1 = ?p\<lparr>pe_session := Some (snd (detach_transfer held))\<rparr>"
      using e assms(1) False
      by (auto simp: session_for_establish_def register_handler_def Let_def split: prod.splits sum.splits if_splits)
    then have "transfer_wired s0 \<and> held_ids (co_state (xs_transfer s0)) = [] \<and> xs_transport s0 = Some (pe_transport_id p)"
      using fresh_session_wired by blast
    moreover have "\<not> transfer_wired (snd (detach_transfer held)) \<and> xs_session_id (snd (detach_transfer held)) = xs_session_id held \<and>
        xs_transport (snd (detach_transfer held)) = xs_transport held"
      by (simp add: detach_transfer_def transfer_wired_def is_wired_def unwire_def detach_connection_def stall_streams_def split_beta)
    ultimately show ?thesis
      using False k d(2) h by (auto simp: backfill_def register_handler_def transfer_wired_def)
  qed
qed

section \<open>Properties\<close>

text \<open>
  C36. The negotiated facts of a peer are always those of the capabilities it holds. In every state a peer can
  reach, whatever replies, inbound requests, transport events and uses of its session come in whatever
  order: in state Negotiated the emit list and the fetch flag are those computed from its own and the
  peer's capabilities, in any other state there are none; fetch is enabled, for inbound commands and
  for the held session, only if this side declared it; and the held session's transfer state is well
  formed.
\<close>

theorem peer_facts_reachable:
  assumes "\<forall>s. session = Some s \<longrightarrow> held_inv caps s"
  shows "peer_inv (peer_run ops pv pops (peer_new caps transport i session))"
  by (rule peer_run_inv) (use assms in \<open>simp add: peer_new_def peer_inv_def facts_inv_def\<close>)

definition sample_consumer :: consumer where
  "sample_consumer =
    \<lparr>cs_on_negotiate = (\<lambda>_. Inr ()), cs_on_establish = (\<lambda>_. Inr (Established_Decision ''s1'' 4 ''tok'')),
     cs_on_establish_confirm = Inr (''s1'', 4, ''tok''), cs_is_fetch_responder = (\<lambda>_. True),
     cs_on_command = (\<lambda>_ _. Inr acknowledge), cs_on_event = (\<lambda>_ _. Inr acknowledge)\<rparr>"

definition sample_peer_env :: peer_env where
  "sample_peer_env =
    \<lparr>pv_crc = sample_crc, pv_consumer = sample_consumer, pv_debug = (\<lambda>_. []), pv_verify = (\<lambda>_. Inr ())\<rparr>"

definition sample_caps :: capabilities where
  "sample_caps = capabilities_default\<lparr>cap_fetch_ext := Some FETCH_EXT_VERSION,
     cap_produce_events := [JObject [(''name'', JString ''think'')]], cap_accept_events := [JObject [(''name'', JString ''think'')]]\<rparr>"

theorem peer_facts_reachable_witness:
  "peer_inv (peer_run (socket_ops (Inr ())) sample_peer_env
      [P_Connect 1 2, P_Negotiate_Reply (Inr (Negotiated_Resp sample_caps)), P_Establish_Reply 3 4 5 9 (Inr (Established ''s1'' ''tok''))]
      (peer_new sample_caps socket_connect_to 7 (Some (xsession_new None 0))))"
  by (rule peer_facts_reachable) (simp add: held_inv_def xsession_new_def)

text \<open>
  Both sides of a negotiation agree. When the initiator's request is handled by the responder and
  the response reaches the initiator, and both consumers accept, the initiator is Negotiated with the
  responder's capabilities; both sides have enabled fetch or neither has, and exactly if both declared
  the supported version; each side may emit exactly the events it produces and the other accepts.
\<close>

theorem negotiation_agreement:
  assumes "pe_state a = Connected" "negotiate_request a = Inr req"
    and "peer_handle_request cs_b None req b = (Inr resp, b')" "negotiate_reply cs_a dbg (Inr resp) a = (Inr (), a')"
  shows "pe_state a' = Negotiated \<and> pe_remote a' = pe_local b \<and>
    pe_shared_fetch a' = pe_shared_fetch b' \<and> pe_fetch a' = pe_shared_fetch b' \<and>
    (pe_shared_fetch b' \<longleftrightarrow> declares_fetch (pe_local a) \<and> declares_fetch (pe_local b)) \<and>
    set (pe_emit a') = set (extract_names (cap_produce_events (pe_local a))) \<inter> set (extract_names (cap_accept_events (pe_local b))) \<and>
    set (pe_shared_emit b') = set (extract_names (cap_produce_events (pe_local b))) \<inter> set (extract_names (cap_accept_events (pe_local a)))"
proof -
  have req: "req = Command (Negotiate_Cmd (pe_local a))"
    using assms(1,2) by (simp add: negotiate_request_def)
  then have b: "resp = Negotiated_Resp (pe_local b)" "pe_shared_fetch b' = ef_fetch_enabled (from_capabilities (pe_local b) (pe_local a))"
      "pe_shared_emit b' = ef_emit_events (from_capabilities (pe_local b) (pe_local a))"
    using assms(3) by (auto simp: Let_def split: sum.splits)
  then have "a' = a\<lparr>pe_remote := pe_local b, pe_emit := ef_emit_events (from_capabilities (pe_local a) (pe_local b)),
      pe_fetch := ef_fetch_enabled (from_capabilities (pe_local a) (pe_local b)), pe_state := Negotiated,
      pe_shared_fetch := ef_fetch_enabled (from_capabilities (pe_local a) (pe_local b))\<rparr>"
    using assms(4) by (auto simp: negotiate_reply_def Let_def split: sum.splits)
  then show ?thesis
    using b by (auto simp: set_emit_events fetch_enabled_iff)
qed

theorem negotiation_agreement_witness:
  "\<exists>resp b' a'. peer_handle_request sample_consumer None (Command (Negotiate_Cmd sample_caps)) (peer_new sample_caps () 1 None) = (Inr resp, b') \<and>
    negotiate_reply sample_consumer (\<lambda>_. []) (Inr resp) ((peer_new sample_caps () 0 None)\<lparr>pe_state := Connected\<rparr>) = (Inr (), a') \<and>
    pe_fetch a' \<and> pe_shared_fetch b' \<and> set (pe_emit a') = {''think''}"
proof -
  let ?a = "(peer_new sample_caps () 0 None)\<lparr>pe_state := Connected\<rparr>" and ?b = "peer_new sample_caps () 1 None"
  obtain resp b' where b: "peer_handle_request sample_consumer None (Command (Negotiate_Cmd sample_caps)) ?b = (Inr resp, b')"
    by (simp add: sample_consumer_def Let_def)
  obtain a' where a: "negotiate_reply sample_consumer (\<lambda>_. []) (Inr resp) ?a = (Inr (), a')"
    using b by (auto simp: negotiate_reply_def sample_consumer_def Let_def)
  have r: "negotiate_request ?a = Inr (Command (Negotiate_Cmd sample_caps))"
    by (simp add: negotiate_request_def peer_new_def)
  show ?thesis
    using negotiation_agreement [OF _ r b a] a b
    by (auto simp: peer_new_def sample_caps_def declares_fetch_def extract_names_def List.map_filter_def)
qed

text \<open>
  C38. Which session an answer binds. Binding always succeeds. If the responder names the identity of the held session, or that
  session has none yet, the held session is bound and keeps its held copies, receive slots and callbacks; otherwise a new
  session is born and the held one loses its transfer mount but keeps identity and transport. Either
  way the bound session carries the issued identity and the negotiated facts, and its transfer mount is attached.
\<close>

theorem establish_binds_session:
  assumes "pe_session p = Some held"
  shows "\<exists>s eff p'. bind_session crc now1 now2 now3 h sid creds p = (Inr s, eff, p') \<and>
    hm_get (pe_sessions p') sid = Some h \<and> xs_session_id s = sid \<and> xs_credentials s = creds \<and>
    xs_emit_events s = pe_emit p \<and> xs_fetch_enabled s = pe_fetch p \<and> transfer_wired s \<and>
    (if xs_session_id held = [] \<or> xs_session_id held = sid
     then pe_session p' = Some s \<and> held_ids (co_state (xs_transfer s)) = held_ids (co_state (xs_transfer held)) \<and>
       ss_reassembler (co_state (xs_transfer s)) = ss_reassembler (co_state (xs_transfer held)) \<and>
       ss_completions (co_state (xs_transfer s)) = ss_completions (co_state (xs_transfer held)) \<and> xs_transport s = xs_transport held
     else held_ids (co_state (xs_transfer s)) = [] \<and> xs_transport s = Some (pe_transport_id p) \<and>
       (\<exists>held'. pe_session p' = Some held' \<and> \<not> transfer_wired held' \<and> xs_session_id held' = xs_session_id held \<and>
         xs_transport held' = xs_transport held))"
proof -
  obtain s eff p' where b: "bind_session crc now1 now2 now3 h sid creds p = (Inr s, eff, p')"
    using bind_session_succeeds by blast
  show ?thesis
    using b bind_session_shape [OF assms b] by blast
qed

theorem establish_binds_session_witness:
  "\<exists>s eff p'. bind_session sample_crc 1 2 3 4 ''s1'' ''tok'' (peer_new sample_caps () 0 (Some (xsession_new None 0))) = (Inr s, eff, p') \<and>
    xs_session_id s = ''s1'' \<and> transfer_wired s \<and> pe_session p' = Some s"
  using establish_binds_session [of "peer_new sample_caps () 0 (Some (xsession_new None 0))" "xsession_new None 0" sample_crc 1 2 3 4 "''s1''" "''tok''"]
  by (force simp: peer_new_def xsession_new_def)

text \<open>
  Reconnecting a negotiated peer. When the carrier died without \<open>disconnect\<close> and \<open>connect\<close> succeeds
  again, the peer is still Negotiated with the capabilities of the dead connection, and the negotiation
  of the new one is refused.
\<close>

theorem reconnect_keeps_negotiated:
  assumes "pe_state p = Negotiated" "peer_connect ops now1 now2 p = (Inr (), eff, p')"
  shows "pe_state p' = Negotiated \<and> pe_remote p' = pe_remote p \<and> pe_emit p' = pe_emit p \<and> pe_shared_fetch p' = pe_shared_fetch p \<and>
    negotiate_request p' = Inl (state_error ''negotiate'' ''Connected'' Negotiated)"
  using assms(2)
proof (cases rule: peer_connect_cases)
  case (connected t t' f)
  then show ?thesis
    using assms(1) by (simp add: negotiate_request_def)
qed simp_all

text \<open>A negotiated peer over a socket whose stream ended.\<close>

theorem reconnect_keeps_negotiated_witness:
  "\<exists>eff p'. peer_connect (socket_ops (Inr ())) 1 2
      ((peer_new sample_caps (socket_connect_to) 0 None)\<lparr>pe_state := Negotiated, pe_remote := sample_caps\<rparr>) = (Inr (), eff, p') \<and>
    pe_state p' = Negotiated \<and> sh_connected (so_shared (pe_transport p'))"
proof -
  let ?p = "(peer_new sample_caps (socket_connect_to) 0 None)\<lparr>pe_state := Negotiated, pe_remote := sample_caps\<rparr>"
  obtain eff p' where c: "peer_connect (socket_ops (Inr ())) 1 2 ?p = (Inr (), eff, p')"
    by (simp add: peer_connect_def peer_new_def socket_ops_def socket_on_request_def connect_open_def socket_connect_to_def
        socket_new_impl_def spawn_tasks_def connect_publish_def)
  show ?thesis
    using reconnect_keeps_negotiated [OF _ c] socket.connect_makes_live(2) [OF c] c by simp
qed

end
