(* ===== verification/Interaction.thy ===== *)
theory Interaction
  imports Peer
begin

text \<open>
  The payloads that hosts put into events, commands and responses (\<open>src/src/wire/events/\<close>:
  \<open>content.rs\<close>, \<open>upload.rs\<close>, \<open>payload.rs\<close>, \<open>interaction.rs\<close>, and \<open>src/src/wire/commands/lifecycle.rs\<close>), the
  builders of the interaction commands, and the way of such a command and of an event from a session to the consumer of the
  other endpoint.

  The JSON form of the payloads is made by the \<open>serde\<close> derives, \<open>serde_json::to_value\<close> is a parameter of the
  builders.
\<close>

type_synonym u64 = "64 word"

section \<open>Content parts\<close>

definition default_part_type :: string where
  "default_part_type = ''default''"

record file_ref =
  fr_remote_url :: string
  fr_local_uri :: string
  fr_remote_expires_at :: "string option"
  fr_mime_type :: string
  fr_require_organized :: bool
  fr_size_bytes :: u64
  fr_sha256 :: string

record text_part =
  tp_text :: string
  tp_part_id :: "string option"
  tp_part_type :: string

record image_part =
  ip_source :: file_ref
  ip_detail :: "string option"
  ip_width :: "u32 option"
  ip_height :: "u32 option"
  ip_part_id :: "string option"
  ip_part_type :: string

record audio_part =
  ap_source :: file_ref
  ap_sample_rate :: "u32 option"
  ap_channels :: "u16 option"
  ap_duration_ms :: "u64 option"
  ap_part_id :: "string option"
  ap_part_type :: string

record video_part =
  vp_source :: file_ref
  vp_duration_ms :: "u64 option"
  vp_fps :: "u32 option"
  vp_width :: "u32 option"
  vp_height :: "u32 option"
  vp_part_id :: "string option"
  vp_part_type :: string

record file_part =
  fp_source :: file_ref
  fp_part_id :: "string option"
  fp_part_type :: string

datatype content_part =
    Text_Part text_part
  | Image_Part image_part
  | Audio_Part audio_part
  | Video_Part video_part
  | File_Part file_part

section \<open>Uploads and token usage\<close>

datatype upload_event =
    Upload_Progress string u64 u64
  | Upload_Completed string file_ref
  | Upload_Error string string

record token_usage =
  tu_id :: string
  tu_message :: string
  tu_prompt_tokens :: u32
  tu_completion_tokens :: u32
  tu_total_tokens :: u32
  tu_cache_hit_tokens :: "u32 option"

definition token_usage_default :: token_usage where
  "token_usage_default =
    \<lparr>tu_id = [], tu_message = [], tu_prompt_tokens = 0, tu_completion_tokens = 0, tu_total_tokens = 0, tu_cache_hit_tokens = None\<rparr>"

section \<open>Event payloads\<close>

record content_part_event =
  cpe_round :: string
  cpe_pair :: string
  cpe_payload :: content_part

record content_delta_event =
  cde_round :: string
  cde_pair :: string
  cde_payload :: content_part

record traceable_event =
  te_title :: string
  te_content :: string

datatype alert_level = Alert_Info | Alert_Warn | Alert_Critical

definition alert_level_default :: alert_level where
  "alert_level_default = Alert_Info"

datatype activity_mode = Mode_Default | Mode_Auto

definition activity_mode_default :: activity_mode where
  "activity_mode_default = Mode_Default"

record tool_use_event =
  tue_request_id :: string
  tue_tool_name :: string
  tue_index :: u32
  tue_arguments :: string
  tue_intent :: string

datatype tool_result_status = Tool_Completed | Tool_Running | Tool_Cancelled | Tool_Error

record tool_result_event =
  tre_request_id :: string
  tre_tool_name :: string
  tre_index :: u32
  tre_parts :: "content_part list"
  tre_auto :: bool
  tre_status :: "tool_result_status option"
  tre_is_background :: "bool option"
  tre_is_error :: bool

record security_alert_event =
  sae_event_id :: string
  sae_tool_name :: string
  sae_alert_level :: alert_level
  sae_description :: string
  sae_threat_type :: "string option"
  sae_matched_pattern :: "string option"
  sae_context_snippet :: "string option"

record activity_start_event =
  ase_goal :: string
  ase_activity :: string
  ase_metadata :: "(string \<times> string) list option"

record activity_info =
  ai_activity :: string
  ai_agent :: string
  ai_title :: "string option"
  ai_description :: "string option"
  ai_updated_at :: "string option"
  ai_working_dir :: "string option"
  ai_mode :: activity_mode

datatype model_tier = Tier_Default | Tier_Lite | Tier_Expert

record pair_complete_event =
  pce_pair :: string
  pce_context_window :: u32
  pce_token_usage :: token_usage
  pce_tier :: "model_tier option"
  pce_model :: "string option"

record complete_event =
  ce_round :: string
  ce_assistant_reply :: "content_part list"
  ce_abort_reason :: "string option"
  ce_canceled :: bool

section \<open>Interaction payloads\<close>

datatype action_response = Approve | ApproveAlways | Reject_Action string

record action_request_payload =
  arp_tool_name :: string
  arp_arguments :: string
  arp_action_id :: string
  arp_description :: string
  arp_alert :: alert_level
  arp_intent :: string
  arp_origin :: "string list"
  arp_request_id :: string

record notify_payload =
  np_message :: string

datatype question_response = Answer string | Skip "string option"

record question_payload =
  qp_question :: string
  qp_options :: "string list"
  qp_origin :: "string list"
  qp_request_id :: string

datatype sensitive_info_type = Secret | EnvVar

record sensitive_info_item =
  si_id :: "string option"
  si_key :: string
  si_display_text :: string
  si_hint :: string
  si_si_type :: sensitive_info_type

datatype sensitive_info_operation = Collect_Op "sensitive_info_item list" | Delete_Op "sensitive_info_item list"

datatype sensitive_info_result =
    Provided string string
  | CollectSkipped string "string option"
  | Deleted string
  | DeleteRejected string "string option"

record sensitive_info_operation_response =
  sir_results :: "sensitive_info_result list"

record sensitive_info_operation_payload =
  sip_operation :: sensitive_info_operation
  sip_origin :: "string list"

section \<open>Lifecycle payloads\<close>

record new_activity_payload =
  nap_title :: "string option"

definition new_activity_payload_default :: new_activity_payload where
  "new_activity_payload_default = \<lparr>nap_title = None\<rparr>"

datatype last_activity_payload = LastActivityPayload

record switch_activity_payload =
  sap_activity :: string

record list_activity_payload =
  lap_query :: "string option"
  lap_page_num :: "u32 option"
  lap_page_size :: "u32 option"

definition list_activity_payload_default :: list_activity_payload where
  "list_activity_payload_default = \<lparr>lap_query = None, lap_page_num = None, lap_page_size = None\<rparr>"

record invoke_activity_payload =
  iap_activity :: string
  iap_messages :: "content_part list"

record cancel_activity_payload =
  cap_activity :: string
  cap_reason :: "string option"

record compact_activity_payload =
  kap_activity :: string

record archive_activity_payload =
  rap_activity :: string

record delete_activity_payload =
  dap_activity :: string

record set_activity_mode_payload =
  smp_activity :: string
  smp_mode :: activity_mode

record available_activities =
  aa_total :: u64
  aa_activities :: "activity_info list"

section \<open>Interaction commands\<close>

text \<open>\<open>serde_json::to_value(payload).unwrap_or(Value::Null)\<close>.\<close>

definition value_or_null :: "('p \<Rightarrow> json option) \<Rightarrow> 'p \<Rightarrow> json" where
  "value_or_null to_value payload = (case to_value payload of Some v \<Rightarrow> v | None \<Rightarrow> JNull)"

definition action_request_command ::
  "(action_request_payload \<Rightarrow> json option) \<Rightarrow> string \<Rightarrow> action_request_payload \<Rightarrow> xacpp_command" where
  "action_request_command to_value activity payload =
    command_generic_with_activity ''action_request'' (value_or_null to_value payload) (activity_ref_new activity)"

definition question_command :: "(question_payload \<Rightarrow> json option) \<Rightarrow> string \<Rightarrow> question_payload \<Rightarrow> xacpp_command" where
  "question_command to_value activity payload =
    command_generic_with_activity ''question'' (value_or_null to_value payload) (activity_ref_new activity)"

definition sensitive_info_command ::
  "(sensitive_info_operation_payload \<Rightarrow> json option) \<Rightarrow> string \<Rightarrow> sensitive_info_operation_payload \<Rightarrow> xacpp_command" where
  "sensitive_info_command to_value activity payload =
    command_generic_with_activity ''sensitive_info_operation'' (value_or_null to_value payload) (activity_ref_new activity)"

lemmas interaction_commands = action_request_command_def question_command_def sensitive_info_command_def

lemma interaction_not_fetch [simp]:
  "\<not> is_fetch_family (action_request_command av activity a)"
  "\<not> is_fetch_family (question_command qv activity q)"
  "\<not> is_fetch_family (sensitive_info_command sv activity i)"
  by (simp_all add: interaction_commands command_generic_with_activity_def)

section \<open>From a session to the other endpoint's consumer\<close>

text \<open>
  What a call over a working connection comes to: the request is handled at the other endpoint, and an
  error of its handler comes back as an error response. That a connection does this is shown in
  \<open>Socket_Rpc\<close>.
\<close>

definition peer_answer ::
  "consumer \<Rightarrow> string option \<Rightarrow> xacpp_request \<Rightarrow> 't peer \<Rightarrow> (xacpp_error + xacpp_response) \<times> 't peer" where
  "peer_answer cs sid request p = apfst (\<lambda>result. Inr (handler_response result)) (peer_handle_request cs sid request p)"

definition call_peer :: "consumer \<Rightarrow> 't peer \<Rightarrow> send_fn" where
  "call_peer cs p = (\<lambda>_ sid request. fst (peer_answer cs sid request p))"

text \<open>
  A command reaches the handler of its session, whatever was negotiated about fetch, unless it is one of the
  fetch family; such a one needs both ends to have fetch enabled and a handler that is a responder.
\<close>

lemma command_reaches_handler:
  assumes "xs_transport s = Some t" "hm_get (pe_sessions p) (xs_session_id s) = Some h"
  shows "request_command (call_peer cs p) s cmd =
    (if is_fetch_family cmd \<and> \<not> xs_fetch_enabled s then Inl fetch_not_negotiated
     else if is_fetch_family cmd \<and> \<not> (pe_shared_fetch p \<and> cs_is_fetch_responder cs h) then Inr fetch_unavailable_response
     else Inr (handler_response (cs_on_command cs h cmd)))"
  using assms by (auto simp: request_command_def session_transport_def call_peer_def peer_answer_def)

lemma interaction_reaches_handler:
  assumes "xs_transport s = Some t" "hm_get (pe_sessions p) (xs_session_id s) = Some h"
    and "cmd \<in> {action_request_command av activity a, question_command qv activity q, sensitive_info_command sv activity i}"
  shows "request_command (call_peer cs p) s cmd = Inr (handler_response (cs_on_command cs h cmd))"
  using command_reaches_handler [OF assms(1,2)] assms(3) by auto

text \<open>An event that its session may emit reaches the handler.\<close>

lemma event_reaches_handler:
  assumes "xs_transport s = Some t" "hm_get (pe_sessions p) (xs_session_id s) = Some h"
  shows "request_event (call_peer cs p) s e = and_then (validate_event s e) (\<lambda>_. Inr (handler_response (cs_on_event cs h e)))"
  using assms by (simp add: request_event_def session_transport_def call_peer_def peer_answer_def)

end
