(* ===== verification/Handshake.thy ===== *)
theory Handshake
  imports Interaction
begin

text \<open>
  The handshake of two endpoints: \<open>XacppPeer::negotiate\<close> and \<open>XacppPeer::establish\<close> of
  \<open>src/src/session/peer.rs\<close> as a whole, each request answered by the other endpoint, with and without the
  challenge, up to the first command and event of the new session.

  A call takes a request and the state of the other side, and gives the reply and its new state; a send of
  the transport that fails is a reply that is an error, with the other side reached or not.
\<close>

type_synonym 's call = "xacpp_request \<Rightarrow> 's \<Rightarrow> (xacpp_error + xacpp_response) \<times> 's"

section \<open>The two operations\<close>

definition negotiate ::
  "'s call \<Rightarrow> consumer \<Rightarrow> (xacpp_response \<Rightarrow> string) \<Rightarrow> 't peer \<Rightarrow> 's \<Rightarrow> (xacpp_error + unit) \<times> 't peer \<times> 's" where
  "negotiate call cs dbg p other =
    (case negotiate_request p of
       Inl e \<Rightarrow> (Inl e, p, other)
     | Inr request \<Rightarrow>
       (let (reply, other') = call request other; (r, p') = negotiate_reply cs dbg reply p in (r, p', other')))"

definition establish ::
  "'s call \<Rightarrow> crc_fn \<Rightarrow> nat \<Rightarrow> nat \<Rightarrow> nat \<Rightarrow> (xacpp_response \<Rightarrow> string) \<Rightarrow> string option \<Rightarrow> nat \<Rightarrow> (string \<Rightarrow> xacpp_error + unit)
    \<Rightarrow> 't peer \<Rightarrow> 's \<Rightarrow> (xacpp_error + xacpp_session) \<times> effect list \<times> 't peer \<times> 's" where
  "establish call crc now1 now2 now3 dbg creds h verify p other =
    (case establish_request creds p of
       Inl e \<Rightarrow> (Inl e, [], p, other)
     | Inr request \<Rightarrow>
       (let (reply, other1) = call request other in
        case establish_reply crc now1 now2 now3 dbg h verify reply p of
          (Established_Now r, eff, p1) \<Rightarrow> (r, eff, p1, other1)
        | (Send_Confirm confirm, eff, p1) \<Rightarrow>
          (let (reply', other2) = call confirm other1; (r, eff', p2) = confirm_reply crc now1 now2 now3 dbg h reply' p1
           in (r, eff @ eff', p2, other2))))"

section \<open>What the answers come to\<close>

text \<open>The consumer of the responder admits the credentials, at once or after a challenge that the initiator's verifier accepts.\<close>

definition admits :: "consumer \<Rightarrow> (string \<Rightarrow> xacpp_error + unit) \<Rightarrow> string option \<Rightarrow> string \<Rightarrow> nat \<Rightarrow> string \<Rightarrow> bool" where
  "admits cs verify creds sid h token \<longleftrightarrow>
    (case cs_on_establish cs creds of
       Inr (Established_Decision sid' h' token') \<Rightarrow> (sid', h', token') = (sid, h, token)
     | Inr (ChallengeRequired challenge) \<Rightarrow> verify challenge = Inr () \<and> cs_on_establish_confirm cs = Inr (sid, h, token)
     | Inl _ \<Rightarrow> False)"

lemma negotiate_succeeds:
  assumes "pe_state a = Connected" "cs_on_negotiate cs_b (from_capabilities (pe_local b) (pe_local a)) = Inr ()"
    and "cs_on_negotiate cs_a (from_capabilities (pe_local a) (pe_local b)) = Inr ()"
  shows "negotiate (peer_answer cs_b None) cs_a dbg a b =
    (Inr (),
     a\<lparr>pe_remote := pe_local b, pe_emit := ef_emit_events (from_capabilities (pe_local a) (pe_local b)),
       pe_fetch := ef_fetch_enabled (from_capabilities (pe_local a) (pe_local b)), pe_state := Negotiated,
       pe_shared_fetch := ef_fetch_enabled (from_capabilities (pe_local a) (pe_local b))\<rparr>,
     b\<lparr>pe_shared_emit := ef_emit_events (from_capabilities (pe_local b) (pe_local a)),
       pe_shared_fetch := ef_fetch_enabled (from_capabilities (pe_local b) (pe_local a))\<rparr>)"
  using assms by (simp add: negotiate_def negotiate_request_def negotiate_reply_def peer_answer_def Let_def)

lemma establish_admitted:
  assumes "pe_session p \<noteq> None" "pe_state p = Negotiated" "admits cs verify creds sid hb token"
  shows "establish (peer_answer cs None) crc now1 now2 now3 dbg creds ha verify p b =
    (case bind_session crc now1 now2 now3 ha sid token p of (r, eff, p') \<Rightarrow> (r, eff, p', register_handler sid hb b))"
  using assms by (auto simp: establish_def establish_request_def establish_reply_def confirm_reply_def admits_def peer_answer_def
      Let_def split: sum.splits establish_decision.splits prod.splits)

lemma admitted_at_once: "cs_on_establish cs creds = Inr (Established_Decision sid h token) \<Longrightarrow> admits cs verify creds sid h token"
  by (simp add: admits_def)

section \<open>Sends that fail\<close>

text \<open>
  What becomes of a send: it goes through, the request is lost, or the request arrives and is answered but the
  answer is lost. The other side of a faulty call is the endpoint with the fates of the sends to come.
\<close>

datatype send_fate = Goes_Through | Request_Lost xacpp_error | Reply_Lost xacpp_error

fun faulty_answer :: "consumer \<Rightarrow> (send_fate list \<times> 't peer) call" where
  "faulty_answer cs request ([], b) = (case peer_answer cs None request b of (reply, b') \<Rightarrow> (reply, [], b'))"
| "faulty_answer cs request (Goes_Through # fates, b) = (case peer_answer cs None request b of (reply, b') \<Rightarrow> (reply, fates, b'))"
| "faulty_answer cs request (Request_Lost e # fates, b) = (Inl e, fates, b)"
| "faulty_answer cs request (Reply_Lost e # fates, b) = (Inl e, fates, snd (peer_answer cs None request b))"

definition goes_through :: "send_fate list \<Rightarrow> nat \<Rightarrow> bool" where
  "goes_through fates n \<longleftrightarrow> n < length fates \<longrightarrow> fates ! n = Goes_Through"

text \<open>The send whose answer carries the identity: the second, if the responder asks for a challenge.\<close>

definition deciding_send :: "consumer \<Rightarrow> string option \<Rightarrow> nat" where
  "deciding_send cs creds = (case cs_on_establish cs creds of Inr (ChallengeRequired _) \<Rightarrow> 1 | _ \<Rightarrow> 0)"

lemma fate_cases:
  obtains (through) "goes_through fates 0" "\<And>request. faulty_answer cs request (fates, b) =
      (case peer_answer cs None request b of (reply, b') \<Rightarrow> (reply, tl fates, b'))"
  | (request) e where "\<not> goes_through fates 0" "fates ! 0 = Request_Lost e" "\<And>request. faulty_answer cs request (fates, b) = (Inl e, tl fates, b)"
  | (reply) e where "\<not> goes_through fates 0" "0 < length fates" "fates ! 0 = Reply_Lost e"
      "\<And>request. faulty_answer cs request (fates, b) = (Inl e, tl fates, snd (peer_answer cs None request b))"
proof (cases fates)
  case (Cons f fs)
  then show thesis
    using that by (cases f) (simp_all add: goes_through_def)
qed (use that in \<open>simp add: goes_through_def\<close>)

lemma goes_through_tl: "goes_through (tl fates) n \<longleftrightarrow> goes_through fates (Suc n)"
  by (cases fates) (simp_all add: goes_through_def)

lemma fates_tl: "n < length (tl fates) \<Longrightarrow> tl fates ! n = fates ! Suc n \<and> Suc n < length fates"
  by (cases fates) simp_all

text \<open>
  The bound session after a handshake: identity, mount, routes, and what the negotiated facts let through.
\<close>

definition handshaken :: "capabilities \<Rightarrow> capabilities \<Rightarrow> string \<Rightarrow> nat \<Rightarrow> nat \<Rightarrow> string \<Rightarrow> xacpp_session \<Rightarrow> 't peer \<Rightarrow> 'u peer \<Rightarrow> bool" where
  "handshaken caps_a caps_b sid ha hb token s a b \<longleftrightarrow>
    pe_session a = Some s \<and> xs_session_id s = sid \<and> xs_credentials s = token \<and> transfer_wired s \<and> xs_transport s \<noteq> None \<and>
    hm_get (pe_sessions a) sid = Some ha \<and> hm_get (pe_sessions b) sid = Some hb \<and>
    xs_fetch_enabled s = (declares_fetch caps_a \<and> declares_fetch caps_b) \<and> pe_shared_fetch b = xs_fetch_enabled s \<and>
    set (xs_emit_events s) = set (extract_names (cap_produce_events caps_a)) \<inter> set (extract_names (cap_accept_events caps_b))"

lemma handshake_shape:
  assumes "pe_state a = Connected" "pe_session a = Some held" "xs_session_id held = []" "xs_transport held = Some t"
    and "cs_on_negotiate cs_b (from_capabilities (pe_local b) (pe_local a)) = Inr ()"
    and "cs_on_negotiate cs_a (from_capabilities (pe_local a) (pe_local b)) = Inr ()"
    and "admits cs_b verify creds sid hb token"
  obtains a1 b1 s eff a2 b2 where
    "negotiate (peer_answer cs_b None) cs_a dbg a b = (Inr (), a1, b1)"
    "establish (peer_answer cs_b None) crc now1 now2 now3 dbg creds ha verify a1 b1 = (Inr s, eff, a2, b2)"
    "handshaken (pe_local a) (pe_local b) sid ha hb token s a2 b2"
proof -
  obtain a1 b1 where n: "negotiate (peer_answer cs_b None) cs_a dbg a b = (Inr (), a1, b1)"
    and a1: "pe_state a1 = Negotiated" "pe_session a1 = Some held" "pe_fetch a1 = (declares_fetch (pe_local a) \<and> declares_fetch (pe_local b))"
      "set (pe_emit a1) = set (extract_names (cap_produce_events (pe_local a))) \<inter> set (extract_names (cap_accept_events (pe_local b)))"
    and b1: "pe_shared_fetch b1 = pe_fetch a1" "pe_sessions b1 = pe_sessions b"
    using negotiate_succeeds [OF assms(1,5,6), of dbg] assms(2)
    by (auto simp: fetch_enabled_iff set_emit_events)
  obtain s eff a2 where s: "bind_session crc now1 now2 now3 ha sid token a1 = (Inr s, eff, a2)"
    using bind_session_succeeds by blast
  have e: "establish (peer_answer cs_b None) crc now1 now2 now3 dbg creds ha verify a1 b1 = (Inr s, eff, a2, register_handler sid hb b1)"
    using establish_admitted [OF _ a1(1) assms(7), of crc now1 now2 now3 dbg ha b1] a1(2) s by simp
  have "handshaken (pe_local a) (pe_local b) sid ha hb token s a2 (register_handler sid hb b1)"
    using bind_session_shape [OF a1(2) s] assms(3,4) a1(3,4) b1(1) by (auto simp: handshaken_def register_handler_def)
  then show thesis
    by (rule that [OF n e])
qed

lemma handshaken_command:
  assumes "handshaken caps_a caps_b sid ha hb token s a b"
  shows "request_command (call_peer cs_b b) s cmd =
    (if is_fetch_family cmd \<and> \<not> (declares_fetch caps_a \<and> declares_fetch caps_b) then Inl fetch_not_negotiated
     else if is_fetch_family cmd \<and> \<not> cs_is_fetch_responder cs_b hb then Inr fetch_unavailable_response
     else Inr (handler_response (cs_on_command cs_b hb cmd)))"
proof -
  obtain t where "xs_transport s = Some t" "hm_get (pe_sessions b) (xs_session_id s) = Some hb"
    using assms by (auto simp: handshaken_def)
  then show ?thesis
    using command_reaches_handler [of s t b hb cs_b cmd] assms by (auto simp: handshaken_def)
qed

lemma handshaken_event:
  assumes "handshaken caps_a caps_b sid ha hb token s a b"
    and "names = set (extract_names (cap_produce_events caps_a)) \<inter> set (extract_names (cap_accept_events caps_b))"
  shows "ev_name (ae_event e) \<in> names \<or> names = {} \<Longrightarrow> request_event (call_peer cs_b b) s e = Inr (handler_response (cs_on_event cs_b hb e))"
    and "ev_name (ae_event e) \<notin> names \<Longrightarrow> names \<noteq> {} \<Longrightarrow> \<exists>msg. request_event (call_peer cs_b b) s e = Inl (Internal msg)"
proof -
  obtain t where "xs_transport s = Some t" "hm_get (pe_sessions b) (xs_session_id s) = Some hb"
    using assms by (auto simp: handshaken_def)
  note ev = event_reaches_handler [OF this]
  have names: "set (xs_emit_events s) = names"
    using assms by (simp add: handshaken_def)
  show "ev_name (ae_event e) \<in> names \<or> names = {} \<Longrightarrow> request_event (call_peer cs_b b) s e = Inr (handler_response (cs_on_event cs_b hb e))"
    "ev_name (ae_event e) \<notin> names \<Longrightarrow> names \<noteq> {} \<Longrightarrow> \<exists>msg. request_event (call_peer cs_b b) s e = Inl (Internal msg)"
    using names ev by (auto simp: validate_event_def)
qed

section \<open>Properties\<close>

text \<open>
  C6. The handshake of two endpoints. A connected initiator that holds a session without identity negotiates and
  establishes; the consumers accept, and the responder's admits the credentials, at once or after a
  challenge. Then both operations succeed; the held session carries the issued identity and
  has its transfer mount; either endpoint routes that identity to its handler. A command of the session is
  answered by the responder's handler, except that a fetch command is refused, on the initiator's side if not both declared fetch,
  else by the responder if its handler serves no fetches. An event reaches the handler if
  its name is produced by the initiator and accepted by the responder, or if no name is both.
\<close>

theorem handshake_end_to_end:
  assumes "pe_state a = Connected" "pe_session a = Some held" "xs_session_id held = []" "xs_transport held = Some t"
    and "cs_on_negotiate cs_b (from_capabilities (pe_local b) (pe_local a)) = Inr ()"
    and "cs_on_negotiate cs_a (from_capabilities (pe_local a) (pe_local b)) = Inr ()"
    and "admits cs_b verify creds sid hb token"
  defines "fetch \<equiv> declares_fetch (pe_local a) \<and> declares_fetch (pe_local b)"
    and "names \<equiv> set (extract_names (cap_produce_events (pe_local a))) \<inter> set (extract_names (cap_accept_events (pe_local b)))"
  shows "\<exists>a1 b1 s eff a2 b2.
    negotiate (peer_answer cs_b None) cs_a dbg a b = (Inr (), a1, b1) \<and>
    establish (peer_answer cs_b None) crc now1 now2 now3 dbg creds ha verify a1 b1 = (Inr s, eff, a2, b2) \<and>
    pe_session a2 = Some s \<and> xs_session_id s = sid \<and> xs_credentials s = token \<and> transfer_wired s \<and>
    hm_get (pe_sessions a2) sid = Some ha \<and> hm_get (pe_sessions b2) sid = Some hb \<and>
    (\<forall>cmd. request_command (call_peer cs_b b2) s cmd =
      (if is_fetch_family cmd \<and> \<not> fetch then Inl fetch_not_negotiated
       else if is_fetch_family cmd \<and> \<not> cs_is_fetch_responder cs_b hb then Inr fetch_unavailable_response
       else Inr (handler_response (cs_on_command cs_b hb cmd)))) \<and>
    (\<forall>e. ev_name (ae_event e) \<in> names \<or> names = {} \<longrightarrow>
      request_event (call_peer cs_b b2) s e = Inr (handler_response (cs_on_event cs_b hb e))) \<and>
    (\<forall>e. ev_name (ae_event e) \<notin> names \<and> names \<noteq> {} \<longrightarrow>
      (\<exists>msg. request_event (call_peer cs_b b2) s e = Inl (Internal msg)))"
proof -
  obtain a1 b1 s eff a2 b2 where h: "negotiate (peer_answer cs_b None) cs_a dbg a b = (Inr (), a1, b1)"
    "establish (peer_answer cs_b None) crc now1 now2 now3 dbg creds ha verify a1 b1 = (Inr s, eff, a2, b2)"
    "handshaken (pe_local a) (pe_local b) sid ha hb token s a2 b2"
    by (rule handshake_shape [OF assms(1-7)])
  have r: "pe_session a2 = Some s" "xs_session_id s = sid" "xs_credentials s = token" "transfer_wired s"
      "hm_get (pe_sessions a2) sid = Some ha" "hm_get (pe_sessions b2) sid = Some hb"
    using h(3) by (simp_all add: handshaken_def)
  note cmd = handshaken_command [OF h(3), folded fetch_def]
  note ev = handshaken_event [OF h(3) names_def [THEN meta_eq_to_obj_eq]]
  show ?thesis
    by (intro exI [of _ a1] exI [of _ b1] exI [of _ s] exI [of _ eff] exI [of _ a2] exI [of _ b2] conjI allI impI h(1,2) r cmd ev(1))
      (auto intro: ev(2))
qed

text \<open>A responder that asks for a challenge; the session's first command is a question to the user.\<close>

definition challenging_consumer :: consumer where
  "challenging_consumer = sample_consumer\<lparr>cs_on_establish := (\<lambda>_. Inr (ChallengeRequired ''nonce''))\<rparr>"

definition sample_question :: question_payload where
  "sample_question = \<lparr>qp_question = ''go on'', qp_options = [''yes'', ''no''], qp_origin = [], qp_request_id = []\<rparr>"

definition sample_initiator :: "unit peer" where
  "sample_initiator = (peer_new sample_caps () 0 (Some ((xsession_new None 0)\<lparr>xs_transport := Some 0\<rparr>)))\<lparr>pe_state := Connected\<rparr>"

theorem handshake_end_to_end_witness:
  "\<exists>a1 b1 s eff a2 b2.
    negotiate (peer_answer challenging_consumer None) sample_consumer (\<lambda>_. []) sample_initiator (peer_new sample_caps () 1 None) = (Inr (), a1, b1) \<and>
    establish (peer_answer challenging_consumer None) sample_crc 1 2 3 (\<lambda>_. []) None 9 (\<lambda>_. Inr ()) a1 b1 = (Inr s, eff, a2, b2) \<and>
    xs_session_id s = ''s1'' \<and> request_command (call_peer challenging_consumer b2) s (question_command (\<lambda>_. None) ''act'' sample_question) = Inr acknowledge"
proof -
  let ?a = sample_initiator and ?b = "peer_new sample_caps () 1 None"
  have a: "pe_state ?a = Connected" "pe_session ?a = Some ((xsession_new None 0)\<lparr>xs_transport := Some 0\<rparr>)"
    by (simp_all add: sample_initiator_def peer_new_def)
  have h: "xs_session_id ((xsession_new None 0)\<lparr>xs_transport := Some 0\<rparr>) = []" "xs_transport ((xsession_new None 0)\<lparr>xs_transport := Some 0\<rparr>) = Some 0"
    by (simp_all add: xsession_new_def)
  have c: "cs_on_negotiate challenging_consumer ef = Inr ()" "cs_on_negotiate sample_consumer ef = Inr ()"
    "admits challenging_consumer (\<lambda>_. Inr ()) None ''s1'' 4 ''tok''" "cs_on_command challenging_consumer hb cmd = Inr acknowledge" for ef hb cmd
    by (simp_all add: challenging_consumer_def sample_consumer_def admits_def)
  show ?thesis
    using handshake_end_to_end [OF a h c(1) c(2) c(3), of "\<lambda>_. []" ?b sample_crc 1 2 3 9] c(4) interaction_not_fetch(2)
    by (metis handler_response.simps(1))
qed

text \<open>The endpoint after it answered a request of the handshake.\<close>

lemma answered:
  "snd (peer_answer cs None (Command (Establish creds)) b) =
    (case cs_on_establish cs creds of Inr (Established_Decision sid h token) \<Rightarrow> register_handler sid h b | _ \<Rightarrow> b)"
  "snd (peer_answer cs None (Command EstablishConfirm) b) =
    (case cs_on_establish_confirm cs of Inr (sid, h, token) \<Rightarrow> register_handler sid h b | Inl _ \<Rightarrow> b)"
  by (simp_all add: peer_answer_def split: sum.split establish_decision.split)

definition establish_outcome ::
  "consumer \<Rightarrow> (string \<Rightarrow> xacpp_error + unit) \<Rightarrow> string option \<Rightarrow> nat \<Rightarrow> send_fate list \<Rightarrow> 't peer \<Rightarrow> 'u peer
    \<Rightarrow> xacpp_error + xacpp_session \<Rightarrow> effect list \<Rightarrow> 't peer \<Rightarrow> 'u peer \<Rightarrow> bool" where
  "establish_outcome cs verify creds ha fates a b r eff a' b' \<longleftrightarrow>
    (case r of
       Inr s \<Rightarrow>
         hm_get (pe_sessions a') (xs_session_id s) = Some ha \<and>
         (\<exists>hb. admits cs verify creds (xs_session_id s) hb (xs_credentials s) \<and> b' = register_handler (xs_session_id s) hb b)
     | Inl e \<Rightarrow>
         a' = a \<and> eff = [] \<and>
         (b' = b \<or>
          (\<exists>sid h token. b' = register_handler sid h b \<and> admits cs verify creds sid h token \<and>
            deciding_send cs creds < length fates \<and> fates ! deciding_send cs creds = Reply_Lost e)))"

lemma bound_outcome:
  assumes "pe_session a \<noteq> None" "admits cs verify creds sid hb token"
  shows "\<exists>s eff a'. bind_session crc now1 now2 now3 ha sid token a = (Inr s, eff, a') \<and>
    establish_outcome cs verify creds ha fates a b (Inr s) eff a' (register_handler sid hb b)"
proof -
  obtain held where held: "pe_session a = Some held"
    using assms(1) by blast
  obtain s eff a' where s: "bind_session crc now1 now2 now3 ha sid token a = (Inr s, eff, a')"
    using bind_session_succeeds by blast
  then show ?thesis
    using bind_session_shape [OF held s] assms(2) by (auto simp: establish_outcome_def)
qed

lemma confirm_outcome:
  assumes "pe_session a \<noteq> None" "cs_on_establish cs creds = Inr (ChallengeRequired challenge)" "verify challenge = Inr ()" "goes_through fates 0"
    and "faulty_answer cs (Command EstablishConfirm) (tl fates, b) = (reply, fates', b')"
    and "confirm_reply crc now1 now2 now3 dbg ha reply a = (r, eff, a')"
  shows "establish_outcome cs verify creds ha fates a b r eff a' b'"
    "(\<exists>s. r = Inr s) \<longleftrightarrow> (\<exists>sid h token. admits cs verify creds sid h token) \<and> goes_through fates 1"
proof -
  have adm: "admits cs verify creds sid h token \<longleftrightarrow> cs_on_establish_confirm cs = Inr (sid, h, token)" for sid h token
    using assms(2,3) by (simp add: admits_def)
  have "establish_outcome cs verify creds ha fates a b r eff a' b' \<and>
    ((\<exists>s. r = Inr s) \<longleftrightarrow> (\<exists>sid h token. admits cs verify creds sid h token) \<and> goes_through fates 1)"
  proof (cases rule: fate_cases [of "tl fates" cs b])
    case through
    show ?thesis
    proof (cases "cs_on_establish_confirm cs")
      case (Inr x)
      then obtain sid h token where x: "cs_on_establish_confirm cs = Inr (sid, h, token)"
        by (cases x) auto
      show ?thesis
        using bound_outcome [OF assms(1), of cs verify creds sid h token crc now1 now2 now3 ha fates b] x adm assms(5,6) through
        by (auto simp: peer_answer_def confirm_reply_def goes_through_tl)
    qed (use assms(5,6) through adm in \<open>auto simp: peer_answer_def confirm_reply_def establish_outcome_def\<close>)
  next
    case (request e)
    then show ?thesis
      using assms(5,6) by (auto simp: confirm_reply_def establish_outcome_def goes_through_tl)
  next
    case (reply e)
    have lost: "deciding_send cs creds = 1" "1 < length fates" "fates ! 1 = Reply_Lost e" "\<not> goes_through fates 1"
      using assms(2) fates_tl [OF reply(2)] reply(1,3) by (simp_all add: deciding_send_def goes_through_tl)
    have "b' = b \<or> (\<exists>sid h token. b' = register_handler sid h b \<and> admits cs verify creds sid h token)"
      using assms(5) reply(4) by (auto simp: adm answered split: sum.splits)
    moreover have "r = Inl e" "eff = []" "a' = a"
      using assms(5,6) reply(4) by (auto simp: confirm_reply_def)
    ultimately show ?thesis
      using lost by (simp add: establish_outcome_def)
  qed
  then show "establish_outcome cs verify creds ha fates a b r eff a' b'"
    "(\<exists>s. r = Inr s) \<longleftrightarrow> (\<exists>sid h token. admits cs verify creds sid h token) \<and> goes_through fates 1"
    by blast+
qed

lemma establish_outcome_holds:
  assumes "pe_session a \<noteq> None" "pe_state a = Negotiated"
    and "establish (faulty_answer cs) crc now1 now2 now3 dbg creds ha verify a (fates, b) = (r, eff, a', fates', b')"
  shows "establish_outcome cs verify creds ha fates a b r eff a' b' \<and>
    ((\<exists>s. r = Inr s) \<longleftrightarrow> (\<exists>sid h token. admits cs verify creds sid h token) \<and> (\<forall>n \<le> deciding_send cs creds. goes_through fates n))"
proof (cases rule: fate_cases [of fates cs b])
  case through
  show ?thesis
  proof (cases "cs_on_establish cs creds")
    case (Inl e)
    then show ?thesis
      using assms through by (auto simp: establish_def establish_request_def establish_reply_def peer_answer_def establish_outcome_def admits_def)
  next
    case (Inr decision)
    show ?thesis
    proof (cases decision)
      case (Established_Decision sid h token)
      then show ?thesis
        using assms through Inr admitted_at_once [of cs creds sid h token verify]
          bound_outcome [OF assms(1), of cs verify creds sid h token crc now1 now2 now3 ha fates b]
        by (auto simp: establish_def establish_request_def establish_reply_def peer_answer_def deciding_send_def)
    next
      case (ChallengeRequired challenge)
      have send: "deciding_send cs creds = 1" "(\<forall>n \<le> 1. goes_through fates n) \<longleftrightarrow> goes_through fates 1"
        using Inr ChallengeRequired through(1) by (auto simp: deciding_send_def le_Suc_eq)
      show ?thesis
      proof (cases "verify challenge")
        case (Inl e)
        then show ?thesis
          using assms through Inr ChallengeRequired
          by (auto simp: establish_def establish_request_def establish_reply_def peer_answer_def establish_outcome_def admits_def)
      next
        case v: (Inr u)
        obtain reply fs2 b2 where c: "faulty_answer cs (Command EstablishConfirm) (tl fates, b) = (reply, fs2, b2)"
          by (metis surj_pair)
        obtain r' eff' p2 where k: "confirm_reply crc now1 now2 now3 dbg ha reply a = (r', eff', p2)"
          by (metis surj_pair)
        have "(r, eff, a', b') = (r', eff', p2, b2)"
          using assms through Inr ChallengeRequired v c k
          by (auto simp: establish_def establish_request_def establish_reply_def peer_answer_def)
        then show ?thesis
          using confirm_outcome [OF assms(1) Inr [unfolded ChallengeRequired] _ through(1) c k, of verify] v send by simp
      qed
    qed
  qed
next
  case (request e)
  then show ?thesis
    using assms by (auto simp: establish_def establish_request_def establish_reply_def establish_outcome_def)
next
  case (reply e)
  then show ?thesis
    using assms by (auto simp: establish_def establish_request_def establish_reply_def establish_outcome_def answered deciding_send_def admits_def
        split: sum.splits establish_decision.splits)
qed

text \<open>
  C37. Establishing over a transport whose sends may fail, with the request or with the answer lost.
  \<open>establish\<close> succeeds exactly if the initiator holds a session and has negotiated, the responder admits the
  credentials, and every send up to the one whose answer carries the identity goes through; then the initiator
  routes the new identity to its handler, and the responder has changed by the route of that identity
  and nothing else. If it fails, the initiator is what it was and has written no transfer frame, and the
  responder is what it was, except when it admitted the credentials and exactly that answer was lost:
  then it keeps the route of an identity the initiator never learns.
\<close>

theorem establish_failure_contained:
  assumes "establish (faulty_answer cs) crc now1 now2 now3 dbg creds ha verify a (fates, b) = (r, eff, a', fates', b')"
  shows "((\<exists>s. r = Inr s) \<longleftrightarrow>
      pe_session a \<noteq> None \<and> pe_state a = Negotiated \<and> (\<exists>sid h token. admits cs verify creds sid h token) \<and>
      (\<forall>n \<le> deciding_send cs creds. goes_through fates n)) \<and>
    (case r of
       Inr s \<Rightarrow>
         hm_get (pe_sessions a') (xs_session_id s) = Some ha \<and>
         (\<exists>hb. admits cs verify creds (xs_session_id s) hb (xs_credentials s) \<and> b' = register_handler (xs_session_id s) hb b)
     | Inl e \<Rightarrow>
         a' = a \<and> eff = [] \<and>
         (b' = b \<or>
          (\<exists>sid h token. b' = register_handler sid h b \<and> admits cs verify creds sid h token \<and>
            deciding_send cs creds < length fates \<and> fates ! deciding_send cs creds = Reply_Lost e)))"
proof (cases "pe_session a \<noteq> None \<and> pe_state a = Negotiated")
  case True
  then show ?thesis
    using establish_outcome_holds [OF _ _ assms] unfolding establish_outcome_def by blast
qed (use assms in \<open>auto simp: establish_def establish_request_def split: if_splits\<close>)

theorem establish_failure_contained_witness:
  "(\<exists>s eff a' fates' b'.
    establish (faulty_answer challenging_consumer) sample_crc 1 2 3 (\<lambda>_. []) None 9 (\<lambda>_. Inr ())
      (sample_initiator\<lparr>pe_state := Negotiated\<rparr>) ([Goes_Through, Goes_Through], peer_new sample_caps () 1 None) = (Inr s, eff, a', fates', b')) \<and>
   (\<exists>fates'. establish (faulty_answer challenging_consumer) sample_crc 1 2 3 (\<lambda>_. []) None 9 (\<lambda>_. Inr ())
      (sample_initiator\<lparr>pe_state := Negotiated\<rparr>) ([Goes_Through, Reply_Lost Closed], peer_new sample_caps () 1 None) =
    (Inl Closed, [], sample_initiator\<lparr>pe_state := Negotiated\<rparr>, fates', register_handler ''s1'' 4 (peer_new sample_caps () 1 None)))"
proof -
  let ?a = "sample_initiator\<lparr>pe_state := Negotiated\<rparr>" and ?b = "peer_new sample_caps () 1 None"
  let ?run = "\<lambda>fates. establish (faulty_answer challenging_consumer) sample_crc 1 2 3 (\<lambda>_. []) None 9 (\<lambda>_. Inr ()) ?a (fates, ?b)"
  have adm: "admits challenging_consumer (\<lambda>_. Inr ()) None ''s1'' 4 ''tok''"
    by (simp add: challenging_consumer_def sample_consumer_def admits_def)
  have a: "pe_session ?a \<noteq> None" "pe_state ?a = Negotiated"
    by (simp_all add: sample_initiator_def peer_new_def)
  obtain r eff a' fates' b' where e: "?run [Goes_Through, Goes_Through] = (r, eff, a', fates', b')"
    by (metis surj_pair)
  have "deciding_send challenging_consumer None = 1" "\<forall>n. goes_through [Goes_Through, Goes_Through] n"
    by (auto simp: deciding_send_def challenging_consumer_def goes_through_def less_Suc_eq)
  then have ok: "\<exists>s. r = Inr s"
    using establish_failure_contained [OF e] a adm by blast
  obtain r2 eff2 a2 fates2 b2 where e2: "?run [Goes_Through, Reply_Lost Closed] = (r2, eff2, a2, fates2, b2)"
    by (metis surj_pair)
  have "r2 = Inl Closed" "b2 = register_handler ''s1'' 4 ?b"
    using e2 by (auto simp: establish_def establish_request_def establish_reply_def confirm_reply_def peer_answer_def
        challenging_consumer_def sample_consumer_def sample_initiator_def peer_new_def)
  then show ?thesis
    using establish_failure_contained [OF e2] e e2 ok by auto
qed

end
