(* ===== verification/Interop_Peer.thy ===== *)
theory Interop_Peer
  imports Handshake
begin

text \<open>
  The interoperability peer, \<open>src/examples/interop_peer.rs\<close>: a program on top of the library that serves
  other implementations of the protocol. Its arguments, its echo service, and its two fetch modes as a
  consumer of a peer.

  The file system, SHA-256 and the \<open>Debug\<close> rendering of commands are parameters.
\<close>

section \<open>Arguments\<close>

definition SESSION_ID :: string where
  "SESSION_ID = ''interop''"

definition SESSION_CREDENTIALS :: string where
  "SESSION_CREDENTIALS = ''interop-creds''"

datatype mode = Echo | FetchServe string | FetchPull string

text \<open>\<open>str::parse::<u16>\<close>: an optional plus sign, then decimal digits whose value fits.\<close>

definition decimal_digit :: "char \<Rightarrow> nat option" where
  "decimal_digit c = (if 48 \<le> (of_char c :: nat) \<and> (of_char c :: nat) \<le> 57 then Some (of_char c - 48) else None)"

fun parse_digits :: "nat \<Rightarrow> string \<Rightarrow> nat option" where
  "parse_digits acc [] = Some acc"
| "parse_digits acc (c # cs) =
    (case decimal_digit c of
       None \<Rightarrow> None
     | Some d \<Rightarrow> (if acc * 10 + d < 2 ^ 16 then parse_digits (acc * 10 + d) cs else None))"

definition parse_u16 :: "string \<Rightarrow> u16 option" where
  "parse_u16 s =
    (let digits = (case s of [] \<Rightarrow> [] | c # cs \<Rightarrow> if c = CHR ''+'' then cs else s)
     in if digits = [] then None else map_option of_nat (parse_digits 0 digits))"

text \<open>The loop over the arguments; an error is the line printed before the exit with code 2.\<close>

fun parse_args_loop :: "mode \<Rightarrow> u16 option \<Rightarrow> string list \<Rightarrow> string + mode \<times> u16 option" where
  "parse_args_loop m port [] = Inr (m, port)"
| "parse_args_loop m port (arg # args) =
    (if arg = ''--fetch-serve'' then
       (case args of
          dir # rest \<Rightarrow> parse_args_loop (FetchServe dir) port rest
        | [] \<Rightarrow> Inl ''interop_peer: --fetch-serve requires a directory'')
     else if arg = ''--fetch-pull'' then
       (case args of
          uri # rest \<Rightarrow> parse_args_loop (FetchPull uri) port rest
        | [] \<Rightarrow> Inl ''interop_peer: --fetch-pull requires a uri'')
     else if arg = ''--port'' then
       (case args of
          v # rest \<Rightarrow> parse_args_loop m (parse_u16 v) rest
        | [] \<Rightarrow> parse_args_loop m None [])
     else Inl (''interop_peer: unknown argument '' @ arg))"

definition usage :: string where
  "usage = ''usage: interop_peer [--fetch-serve <dir> | --fetch-pull <uri>] --port <N>''"

definition parse_args :: "string list \<Rightarrow> string + mode \<times> u16" where
  "parse_args args =
    (case parse_args_loop Echo None args of
       Inl line \<Rightarrow> Inl line
     | Inr (m, None) \<Rightarrow> Inl usage
     | Inr (m, Some port) \<Rightarrow> Inr (m, port))"

section \<open>The echo service\<close>

text \<open>The counter of received events and the lines printed for them.\<close>

record echo_state =
  ec_event_seq :: u64
  ec_log :: "string list"

definition interop_established :: xacpp_response where
  "interop_established = Established SESSION_ID SESSION_CREDENTIALS"

fun echo_request :: "xacpp_request \<Rightarrow> echo_state \<Rightarrow> (xacpp_error + xacpp_response) \<times> echo_state" where
  "echo_request (Command (Negotiate_Cmd caps)) ec = (Inr (Negotiated_Resp caps), ec)"
| "echo_request (Command (Establish creds)) ec = (Inr interop_established, ec)"
| "echo_request (Command EstablishConfirm) ec = (Inr interop_established, ec)"
| "echo_request (Command (Generic_Cmd nm arguments _)) ec = (Inr (Generic_Resp nm arguments), ec)"
| "echo_request (Command cmd) ec = (Inr (response_error FETCH_REFUSED ''interop_peer echo mode does not serve fetch''), ec)"
| "echo_request (Event e) ec =
    (let n = ec_event_seq ec + 1
     in (Inr acknowledge, ec\<lparr>ec_event_seq := n, ec_log := ec_log ec @ [''EVENT name='' @ ev_name (ae_event e) @ '' n='' @ show_nat (unat n)]\<rparr>))"

text \<open>The binary echo: a delivered payload is sent back under a fresh id.\<close>

definition echo_binary :: "(nat \<Rightarrow> link) \<Rightarrow> txid \<Rightarrow> byte list \<Rightarrow> nat \<Rightarrow> xacpp_session \<Rightarrow> (xacpp_error + txid) \<times> effect list \<times> xacpp_session" where
  "echo_binary lk fresh payload now s = xs_send_binary lk fresh payload None now s"

section \<open>The fetch modes\<close>

record interop_env =
  ie_read_file :: "string \<Rightarrow> string \<Rightarrow> string + byte list"
  ie_sha256 :: "byte list \<Rightarrow> string"
  ie_debug :: "xacpp_command \<Rightarrow> string"

text \<open>The chunks of the streaming task, cut from an offset on.\<close>

definition SERVE_CHUNK :: nat where
  "SERVE_CHUNK = 64 * 1024"

function serve_chunks :: "nat \<Rightarrow> byte list \<Rightarrow> byte list list" where
  "serve_chunks offset data =
    (if offset < length data
     then let e = min (offset + SERVE_CHUNK) (length data) in take (e - offset) (drop offset data) # serve_chunks e data
     else [])"
  by pat_completeness auto

termination serve_chunks
  by (relation "measure (\<lambda>(offset, data). length data - offset)") (auto simp: SERVE_CHUNK_def)

declare serve_chunks.simps [simp del]

text \<open>
  Answering \<open>fetch\<close>: the response, the streaming task that is spawned (transaction and chunks), and the session
  with the sink opened in it. \<open>session\<close> is the weak reference, upgraded.
\<close>

definition interop_serve_fetch ::
  "interop_env \<Rightarrow> string option \<Rightarrow> txid \<Rightarrow> nat \<Rightarrow> string \<Rightarrow> xacpp_session option
    \<Rightarrow> (xacpp_error + xacpp_response) \<times> (txid \<times> byte list list) option \<times> xacpp_session option" where
  "interop_serve_fetch ie serve_dir fresh now uri session =
    (case serve_dir of
       None \<Rightarrow> (Inr (response_error FETCH_REFUSED ''not a fetch-serving peer''), None, session)
     | Some dir \<Rightarrow>
       (case session of
          None \<Rightarrow> (Inr (response_error FETCH_REFUSED ''responder session is gone''), None, session)
        | Some s \<Rightarrow>
          (case ie_read_file ie dir uri of
             Inl e \<Rightarrow> (Inr (response_error FETCH_NOT_FOUND (uri @ '': '' @ e)), None, session)
           | Inr data \<Rightarrow>
             (case xs_open_binary_sink (of_nat (length data)) (Some fresh) fresh now s of
                (Inl e, s') \<Rightarrow> (Inl (Internal (xacpp_error_text e)), None, Some s')
              | (Inr tx, s') \<Rightarrow>
                (Inr (FetchReady (format_transaction_id fresh) (ie_sha256 ie data) (length data) ''application/octet-stream''),
                 Some (tx, serve_chunks 0 data), Some s')))))"

fun interop_on_command ::
  "interop_env \<Rightarrow> string option \<Rightarrow> txid \<Rightarrow> nat \<Rightarrow> xacpp_command \<Rightarrow> xacpp_session option
    \<Rightarrow> (xacpp_error + xacpp_response) \<times> (txid \<times> byte list list) option \<times> xacpp_session option" where
  "interop_on_command ie serve_dir fresh now (Generic_Cmd nm arguments _) session = (Inr (Generic_Resp nm arguments), None, session)"
| "interop_on_command ie serve_dir fresh now (Fetch uri) session = interop_serve_fetch ie serve_dir fresh now uri session"
| "interop_on_command ie serve_dir fresh now cmd session =
    (Inl (Internal (''interop_peer fetch session does not handle '' @ ie_debug ie cmd)), None, session)"

text \<open>\<open>LogNegotiate\<close>, \<open>FetchEstablishHandler\<close> and \<open>FetchEchoHandler\<close> as the consumer of the peer, in one state of the session.\<close>

definition interop_consumer :: "interop_env \<Rightarrow> string option \<Rightarrow> txid \<Rightarrow> nat \<Rightarrow> xacpp_session option \<Rightarrow> consumer" where
  "interop_consumer ie serve_dir fresh now session =
    \<lparr>cs_on_negotiate = (\<lambda>effective. Inr ()),
     cs_on_establish = (\<lambda>credentials. Inr (Established_Decision SESSION_ID 0 SESSION_CREDENTIALS)),
     cs_on_establish_confirm = Inl (Internal ''challenge path not used by interop_peer''),
     cs_is_fetch_responder = (\<lambda>_. True),
     cs_on_command = (\<lambda>_ cmd. fst (interop_on_command ie serve_dir fresh now cmd session)),
     cs_on_event = (\<lambda>_ _. Inr acknowledge)\<rparr>"

definition interop_peer :: "'t \<Rightarrow> nat \<Rightarrow> 't peer" where
  "interop_peer transport i = peer_new capabilities_default transport i None"

text \<open>The session that \<open>on_establish\<close> makes and wires.\<close>

definition interop_session :: "crc_fn \<Rightarrow> nat \<Rightarrow> nat \<Rightarrow> nat \<Rightarrow> nat \<Rightarrow> (xacpp_error + unit) \<times> effect list \<times> xacpp_session" where
  "interop_session crc transport now1 now2 now3 =
    xs_wire crc transport now1 now2 now3 (with_identity SESSION_ID SESSION_CREDENTIALS (xsession_new (Some transfer_config_default) now1))"

section \<open>Pulling\<close>

definition report_stream :: "(byte list \<Rightarrow> string) \<Rightarrow> string \<Rightarrow> fetch_ready_meta \<Rightarrow> byte list \<Rightarrow> string" where
  "report_stream sha uri meta payload =
    (if length payload \<noteq> fm_size_bytes meta \<or> sha payload \<noteq> fm_sha256 meta
     then ''interop_peer: stream mismatch for '' @ uri @ '': '' @ show_nat (length payload) @ ''/'' @ show_nat (fm_size_bytes meta) @
       '' bytes, sha '' @ sha payload @ '' vs '' @ fm_sha256 meta
     else ''FETCHED uri='' @ uri @ '' sha256='' @ sha payload @ '' bytes='' @ show_nat (fm_size_bytes meta) @ '' mime='' @ fm_mime meta)"

definition ATTEMPTS :: nat where
  "ATTEMPTS = 5"

definition attempt_failed :: "nat \<Rightarrow> xacpp_error \<Rightarrow> string" where
  "attempt_failed attempt e =
    ''interop_peer: fetch attempt '' @ show_nat attempt @ ''/'' @ show_nat ATTEMPTS @ '' failed: '' @ xacpp_error_text e"

definition gave_up :: "string \<Rightarrow> string" where
  "gave_up uri = ''interop_peer: fetch of '' @ uri @ '' failed after '' @ show_nat ATTEMPTS @ '' attempts''"

text \<open>
  The attempts from a given one on: \<open>fetch\<close> gives the result of the kernel call of each attempt, \<open>claimed\<close> the
  payload of the stream with the announced id, if it completes before the deadline. The result are the
  lines printed.
\<close>

function pull_attempts ::
  "(nat \<Rightarrow> xacpp_error + fetch_ready_meta) \<Rightarrow> (txid \<Rightarrow> byte list option) \<Rightarrow> (byte list \<Rightarrow> string) \<Rightarrow> string \<Rightarrow> nat \<Rightarrow> string list" where
  "pull_attempts fetch claimed sha uri attempt =
    (if attempt \<le> ATTEMPTS then
       (case fetch attempt of
          Inr meta \<Rightarrow>
            (case claimed (fm_txid meta) of
               None \<Rightarrow> [''interop_peer: stream for the fetch never completed'']
             | Some payload \<Rightarrow> [report_stream sha uri meta payload])
        | Inl e \<Rightarrow> attempt_failed attempt e # pull_attempts fetch claimed sha uri (attempt + 1))
     else [gave_up uri])"
  by pat_completeness auto

termination pull_attempts
  by (relation "measure (\<lambda>(fetch, claimed, sha, uri, attempt). Suc ATTEMPTS - attempt)") auto

declare pull_attempts.simps [simp del]

definition pull_and_report ::
  "(xacpp_response \<Rightarrow> string) \<Rightarrow> (nat \<Rightarrow> send_fn) \<Rightarrow> (txid \<Rightarrow> byte list option) \<Rightarrow> (byte list \<Rightarrow> string) \<Rightarrow> xacpp_session \<Rightarrow> string \<Rightarrow> string list" where
  "pull_and_report dbg send claimed sha s uri =
    pull_attempts (\<lambda>attempt. xs_fetch dbg (send attempt) s uri) claimed sha uri 1"

section \<open>The arguments are read back\<close>

lemma parse_digits_append: "parse_digits acc (xs @ ys) = Option.bind (parse_digits acc xs) (\<lambda>a. parse_digits a ys)"
  by (induction xs arbitrary: acc) (auto split: option.split)

lemma decimal_digit_of: "d < 10 \<Longrightarrow> decimal_digit (digit d) = Some d"
  by (simp add: decimal_digit_def digit_def)

lemma parse_shown: "n < 2 ^ 16 \<Longrightarrow> parse_digits 0 (show_base 10 n) = Some n"
proof (induction n rule: less_induct)
  case (less n)
  show ?case
  proof (cases "n < 10")
    case True
    then show ?thesis
      using less.prems decimal_digit_of by (simp add: show_base.simps [of 10 n])
  next
    case False
    then have "parse_digits 0 (show_base 10 (n div 10)) = Some (n div 10)"
      using less by simp
    moreover have "n div 10 * 10 + n mod 10 = n"
      by simp
    ultimately show ?thesis
      using False less.prems decimal_digit_of [of "n mod 10"] by (simp add: show_base.simps [of 10 n] parse_digits_append)
  qed
qed

lemma show_nat_digits: "show_nat n \<noteq> []" "hd (show_nat n) \<noteq> CHR ''+''"
proof -
  have "show_base 10 n \<noteq> [] \<and> hd (show_base 10 n) \<noteq> CHR ''+''"
  proof (induction n rule: less_induct)
    case (less n)
    have "digit d \<noteq> CHR ''+''" if "d < 10" for d
      using decimal_digit_of [OF that] by (auto simp: decimal_digit_def)
    then show ?case
      using less [of "n div 10"] by (auto simp: show_base.simps [of 10 n])
  qed
  then show "show_nat n \<noteq> []" "hd (show_nat n) \<noteq> CHR ''+''"
    by (simp_all add: show_nat_def)
qed

lemma parse_port: "parse_u16 (show_nat (unat p)) = Some p"
proof -
  have "unat p < 2 ^ 16"
    using unsigned_less [of p, where ?'a = nat] by simp
  then show ?thesis
    using parse_shown [of "unat p"] show_nat_digits [of "unat p"]
    by (cases "show_nat (unat p)") (auto simp: parse_u16_def show_nat_def)
qed

text \<open>A way to write the arguments.\<close>

fun mode_args :: "mode \<Rightarrow> string list" where
  "mode_args Echo = []"
| "mode_args (FetchServe dir) = [''--fetch-serve'', dir]"
| "mode_args (FetchPull uri) = [''--fetch-pull'', uri]"

section \<open>The chunks of a file\<close>

lemma serve_chunk_drop:
  assumes "offset < length data" "e = min (offset + SERVE_CHUNK) (length data)"
  shows "take (e - offset) (drop offset data) @ drop e data = drop offset data" "offset < e" "e - offset \<le> SERVE_CHUNK" "e \<le> length data"
proof -
  show "offset < e" "e - offset \<le> SERVE_CHUNK" "e \<le> length data"
    using assms by (auto simp: SERVE_CHUNK_def)
  then have "drop e data = drop (e - offset) (drop offset data)"
    by simp
  then show "take (e - offset) (drop offset data) @ drop e data = drop offset data"
    by (metis append_take_drop_id)
qed

lemma concat_serve_chunks: "concat (serve_chunks offset data) = drop offset data"
proof (induction offset data rule: serve_chunks.induct)
  case (1 offset data)
  show ?case
  proof (cases "offset < length data")
    case True
    then show ?thesis
      using 1 [OF True refl] serve_chunk_drop(1) [OF True refl] by (subst serve_chunks.simps) (simp add: Let_def)
  qed (subst serve_chunks.simps, simp)
qed

lemma serve_chunks_bounds: "c \<in> set (serve_chunks offset data) \<Longrightarrow> c \<noteq> [] \<and> length c \<le> SERVE_CHUNK"
proof (induction offset data rule: serve_chunks.induct)
  case (1 offset data)
  define e where "e = min (offset + SERVE_CHUNK) (length data)"
  have o: "offset < length data"
    using "1.prems" by (subst (asm) serve_chunks.simps) (simp split: if_splits)
  then have "serve_chunks offset data = take (e - offset) (drop offset data) # serve_chunks e data"
    by (subst serve_chunks.simps) (simp add: e_def Let_def)
  then show ?case
    using "1.prems" "1.IH" [OF o e_def] serve_chunk_drop(2-4) [OF o e_def] by auto
qed

text \<open>
  A file that is served: the answer announces its digest, length and transaction, and the streaming task
  writes, through the sink opened under that transaction, the frames of one transfer of the file.
\<close>

lemma served_file_streams:
  assumes "interop_serve_fetch ie (Some dir) fresh now uri (Some s) = (Inr response, Some (tx, chunks), Some s')"
    and "ie_read_file ie dir uri = Inr data" "data \<noteq> []" "length data < 2 ^ 32" "map snd cs = chunks"
    and "session_inv (co_state (xs_transfer s))" "is_wired (xs_transfer s)" "\<not> contains_transaction (ss_sender (co_state (xs_transfer s))) fresh"
    and "unacked_bytes (ss_sender (co_state (xs_transfer s))) + length data
      \<le> sc_backpressure_cap_bytes (ts_config (ss_sender (co_state (xs_transfer s))))"
    and "sink_write_all (xs_transfer s') link_up tx cs = (r2, eff2, co2)" "sink_finish co2 link_up tx cb t1 = (r3, eff3, co3)"
    and "fsz = sc_frame_size (ts_config (ss_sender (co_state (xs_transfer s))))"
  shows "response = FetchReady (format_transaction_id tx) (ie_sha256 ie data) (length data) ''application/octet-stream'' \<and>
    eff2 @ eff3 = map WriteData (mk_frames tx (of_nat (length data)) 0 (pieces fsz data) @
      [frame_new TransactionCompleted 0 0 0 (txid_to_bytes tx)])"
proof -
  obtain co1 where o: "open_binary_sink (xs_transfer s) (of_nat (length data)) (Some fresh) fresh now = (Inr tx, co1)"
      "s' = s\<lparr>xs_transfer := co1\<rparr>" "chunks = serve_chunks 0 data"
      "response = FetchReady (format_transaction_id fresh) (ie_sha256 ie data) (length data) ''application/octet-stream''"
    using assms(1,2) by (auto simp: interop_serve_fetch_def xs_open_binary_sink_def split: prod.splits sum.splits)
  then have tx: "tx = fresh"
    by (auto simp: open_binary_sink_def Let_def split: prod.splits sum.splits)
  have "concat (map snd cs) = data"
    using concat_serve_chunks [of 0 data] assms(5) o(3) by simp
  then show ?thesis
    using sink_streams [OF assms(6,7) assms(8) assms(3,4) _ assms(9) o(1) _ _ assms(12), of cs r2 eff2 co2 cb t1 r3 eff3 co3]
      assms(10,11) o(2,4) tx by simp
qed

text \<open>The events of the echo service are numbered in the order of their arrival.\<close>

lemma echo_events_numbered:
  assumes "unat (ec_event_seq ec) + length es < 2 ^ 64" "ec' = fold (\<lambda>e ec. snd (echo_request (Event e) ec)) es ec"
  shows "unat (ec_event_seq ec') = unat (ec_event_seq ec) + length es \<and>
    ec_log ec' = ec_log ec @ map (\<lambda>i. ''EVENT name='' @ ev_name (ae_event (es ! i)) @ '' n='' @ show_nat (unat (ec_event_seq ec) + i + 1)) [0..<length es]"
  using assms
proof (induction es arbitrary: ec ec')
  case (Cons e es)
  have n: "unat (ec_event_seq ec + 1) = unat (ec_event_seq ec) + 1"
    using Cons.prems(1) by (simp add: unat_word_ariths)
  show ?case
    using Cons.IH [OF _ refl, of "snd (echo_request (Event e) ec)"] Cons.prems n
    by (simp add: Let_def upt_conv_Cons map_Suc_upt [symmetric] comp_def del: upt_Suc)
qed simp

text \<open>Attempts that all fail.\<close>

lemma pull_attempts_fail:
  "pull_attempts (\<lambda>_. Inl e) claimed sha uri attempt = map (\<lambda>k. attempt_failed k e) [attempt..<Suc ATTEMPTS] @ [gave_up uri]"
proof (induction "Suc ATTEMPTS - attempt" arbitrary: attempt)
  case 0
  then show ?case
    by (simp add: pull_attempts.simps)
next
  case (Suc n)
  then show ?case
    using Suc.hyps(1) [of "Suc attempt"] by (simp add: pull_attempts.simps [of _ _ _ _ attempt] upt_conv_Cons del: upt_Suc)
qed

text \<open>Wiring leaves the negotiated facts of a session alone.\<close>

lemma xs_wire_fetch:
  assumes "xs_wire crc i now1 now2 now3 s = (r, eff, s')"
  shows "xs_fetch_enabled s' = xs_fetch_enabled s"
proof -
  obtain eff' co where "wire_without_declaration i now1 now2 s = (Inr (), eff', s\<lparr>xs_transfer := co, xs_transport := Some i\<rparr>)"
    using wire_never_refused by blast
  then show ?thesis
    using assms by (auto simp: xs_wire_def xs_declare_pending_sends_def split: prod.splits)
qed

section \<open>Properties\<close>

text \<open>
  The arguments. Every mode and port can be given, in either order, and is read back; without a port, or
  with one that is no 16 bit number, the program stops with its usage line.
\<close>

lemma parse_args_reads:
  "parse_args (mode_args m @ [''--port'', show_nat (unat p)]) = Inr (m, p)"
  "parse_args ([''--port'', show_nat (unat p)] @ mode_args m) = Inr (m, p)"
  "parse_args (mode_args m) = Inl usage"
  "parse_u16 v = None \<Longrightarrow> parse_args (mode_args m @ [''--port'', v]) = Inl usage"
  by (cases m; simp add: parse_args_def parse_port)+

text \<open>
  A session with the echo service. A connected initiator that holds a session without identity negotiates with the
  echo service, which returns its own capabilities to it, and establishes under the fixed identity. A generic
  command is answered with its name and arguments. A fetch command is refused by the initiator's own session, unless the
  initiator declares fetch: then its session believes that the service has it, and the service refuses.
\<close>

theorem interop_echo_session:
  assumes "pe_state a = Connected" "pe_session a = Some held" "xs_session_id held = []" "xs_transport held = Some t"
    and "cs_on_negotiate cs_a (from_capabilities (pe_local a) (pe_local a)) = Inr ()"
  shows "\<exists>a1 s eff a2.
    negotiate echo_request cs_a dbg a ec = (Inr (), a1, ec) \<and>
    establish echo_request crc now1 now2 now3 dbg creds h verify a1 ec = (Inr s, eff, a2, ec) \<and>
    pe_session a2 = Some s \<and> xs_session_id s = SESSION_ID \<and> xs_credentials s = SESSION_CREDENTIALS \<and> transfer_wired s \<and>
    (\<forall>nm arguments activity. request_command (\<lambda>_ _ request. fst (echo_request request ec)) s (Generic_Cmd nm arguments activity) =
      Inr (Generic_Resp nm arguments)) \<and>
    (\<forall>cmd. is_fetch_family cmd \<longrightarrow> request_command (\<lambda>_ _ request. fst (echo_request request ec)) s cmd =
      (if declares_fetch (pe_local a) then Inr (response_error FETCH_REFUSED ''interop_peer echo mode does not serve fetch'')
       else Inl fetch_not_negotiated))"
proof -
  let ?ef = "from_capabilities (pe_local a) (pe_local a)"
  let ?a1 = "a\<lparr>pe_remote := pe_local a, pe_emit := ef_emit_events ?ef, pe_fetch := ef_fetch_enabled ?ef, pe_state := Negotiated,
    pe_shared_fetch := ef_fetch_enabled ?ef\<rparr>"
  have n: "negotiate echo_request cs_a dbg a ec = (Inr (), ?a1, ec)"
    using assms(1,5) by (simp add: negotiate_def negotiate_request_def negotiate_reply_def Let_def)
  obtain s eff a2 where s: "bind_session crc now1 now2 now3 h SESSION_ID SESSION_CREDENTIALS ?a1 = (Inr s, eff, a2)"
    using bind_session_succeeds by blast
  have e: "establish echo_request crc now1 now2 now3 dbg creds h verify ?a1 ec = (Inr s, eff, a2, ec)"
    using assms(2) s by (simp add: establish_def establish_request_def establish_reply_def interop_established_def)
  have p: "pe_session ?a1 = Some held"
    using assms(2) by simp
  note shape = bind_session_shape [OF p s]
  have r: "pe_session a2 = Some s" "xs_session_id s = SESSION_ID" "xs_credentials s = SESSION_CREDENTIALS" "transfer_wired s"
      "xs_transport s = Some t" "xs_fetch_enabled s = declares_fetch (pe_local a)"
    using shape assms(3,4) by (simp_all add: fetch_enabled_iff)
  have f: "echo_request (Command cmd) ec = (Inr (response_error FETCH_REFUSED ''interop_peer echo mode does not serve fetch''), ec)"
    if "is_fetch_family cmd" for cmd
    using that by (cases cmd) simp_all
  show ?thesis
    using r(5,6) f
    by (intro exI [of _ ?a1] exI [of _ s] exI [of _ eff] exI [of _ a2] conjI n e r(1-4))
      (simp_all add: request_command_def session_transport_def)
qed

text \<open>
  The fetch modes never transfer anything. The program builds its peer with default capabilities, which do
  not declare fetch. So after the handshake with any initiator, every fetch command of the initiator's session is refused before it is
  sent, and one sent regardless is refused by the peer before the handler that would serve the file. In the
  other mode the program's own session has fetch disabled, and its five attempts fail whatever the other
  side would answer.
\<close>

theorem interop_fetch_unserved:
  assumes "pe_state a = Connected" "pe_session a = Some held" "xs_session_id held = []" "xs_transport held = Some t"
    and "cs_on_negotiate cs_a (from_capabilities (pe_local a) capabilities_default) = Inr ()"
    and "interop_session crc i now1 now2 now3 = (r, eff', own)" and cs_def: "cs = interop_consumer ie dir fresh now session"
  shows "(\<exists>a1 b1 s eff a2 b2.
    negotiate (peer_answer cs None) cs_a dbg a (interop_peer transport i) = (Inr (), a1, b1) \<and>
    establish (peer_answer cs None) crc now1 now2 now3 dbg creds ha verify a1 b1 = (Inr s, eff, a2, b2) \<and> xs_session_id s = SESSION_ID \<and>
    (\<forall>cmd. is_fetch_family cmd \<longrightarrow> request_command (call_peer cs b2) s cmd = Inl fetch_not_negotiated \<and>
      peer_answer cs (Some SESSION_ID) (Command cmd) b2 = (Inr fetch_unavailable_response, b2))) \<and>
    pull_and_report dbg send claimed sha own uri = map (\<lambda>attempt. attempt_failed attempt fetch_not_negotiated) [1..<6] @ [gave_up uri]"
proof -
  have b: "pe_local (interop_peer transport i) = capabilities_default" "\<not> declares_fetch capabilities_default"
    by (simp_all add: interop_peer_def peer_new_def declares_fetch_def capabilities_default_def)
  have cs: "cs_on_negotiate cs ef = Inr ()" "admits cs verify creds SESSION_ID 0 SESSION_CREDENTIALS" for ef
    by (simp_all add: cs_def interop_consumer_def admits_def)
  obtain a1 b1 s eff a2 b2 where h: "negotiate (peer_answer cs None) cs_a dbg a (interop_peer transport i) = (Inr (), a1, b1)"
      "establish (peer_answer cs None) crc now1 now2 now3 dbg creds ha verify a1 b1 = (Inr s, eff, a2, b2)"
      "handshaken (pe_local a) capabilities_default SESSION_ID ha 0 SESSION_CREDENTIALS s a2 b2"
    using handshake_shape [OF assms(1-4) cs(1) _ cs(2), of cs_a "interop_peer transport i" dbg crc now1 now2 now3 ha] assms(5) b(1) by metis
  have "request_command (call_peer cs b2) s cmd = Inl fetch_not_negotiated" if "is_fetch_family cmd" for cmd
    using handshaken_command [OF h(3), of cs cmd] that b(2) by simp
  moreover have "peer_answer cs (Some SESSION_ID) (Command cmd) b2 = (Inr fetch_unavailable_response, b2)" if "is_fetch_family cmd" for cmd
    using h(3) that b(2) by (simp add: peer_answer_def handshaken_def)
  moreover have "xs_session_id s = SESSION_ID"
    using h(3) by (simp add: handshaken_def)
  moreover have "\<not> xs_fetch_enabled own"
    using xs_wire_fetch [OF assms(6) [unfolded interop_session_def]] by (simp add: with_identity_def xsession_new_def)
  then have "pull_and_report dbg send claimed sha own uri = map (\<lambda>attempt. attempt_failed attempt fetch_not_negotiated) [1..<6] @ [gave_up uri]"
    using pull_attempts_fail [of fetch_not_negotiated claimed sha uri 1]
    by (simp add: pull_and_report_def xs_fetch_def request_command_def ATTEMPTS_def)
  ultimately show ?thesis
    using h(1,2) by blast
qed

theorem interop_fetch_unserved_witness:
  "\<exists>a1 b1 s eff a2 b2. let cs = interop_consumer \<lparr>ie_read_file = (\<lambda>_ _. Inr [1]), ie_sha256 = (\<lambda>_. []), ie_debug = (\<lambda>_. [])\<rparr> (Some ''dir'') 5 1 (Some (xsession_new None 0)) in
    negotiate (peer_answer cs None) sample_consumer (\<lambda>_. []) sample_initiator (interop_peer () 1) = (Inr (), a1, b1) \<and>
    establish (peer_answer cs None) sample_crc 1 2 3 (\<lambda>_. []) None 9 (\<lambda>_. Inr ()) a1 b1 = (Inr s, eff, a2, b2) \<and>
    cap_fetch_ext (pe_local sample_initiator) = Some FETCH_EXT_VERSION \<and>
    request_command (call_peer cs b2) s (Fetch ''f'') = Inl fetch_not_negotiated"
proof -
  let ?held = "(xsession_new None 0)\<lparr>xs_transport := Some 0\<rparr>"
  have a: "pe_state sample_initiator = Connected" "pe_session sample_initiator = Some ?held" "xs_session_id ?held = []" "xs_transport ?held = Some 0"
      "cs_on_negotiate sample_consumer (from_capabilities (pe_local sample_initiator) capabilities_default) = Inr ()"
      "cap_fetch_ext (pe_local sample_initiator) = Some FETCH_EXT_VERSION"
    by (simp_all add: sample_initiator_def peer_new_def xsession_new_def sample_consumer_def sample_caps_def)
  obtain r eff' own where own: "interop_session sample_crc 1 1 2 3 = (r, eff', own)"
    by (metis prod_cases3)
  show ?thesis
    using interop_fetch_unserved [OF a(1-5) own refl, of
        "\<lparr>ie_read_file = (\<lambda>_ _. Inr [1]), ie_sha256 = (\<lambda>_. []), ie_debug = (\<lambda>_. [])\<rparr>" "Some ''dir''" 5 1 "Some (xsession_new None 0)"
        "\<lambda>_. []" "()" None 9 "\<lambda>_. Inr ()"] a(6)
    unfolding Let_def by (metis is_fetch_family.simps(1))
qed

theorem interop_echo_session_witness:
  "\<exists>a1 s eff a2. let ec = \<lparr>ec_event_seq = 0, ec_log = []\<rparr> in
    negotiate echo_request sample_consumer (\<lambda>_. []) sample_initiator ec = (Inr (), a1, ec) \<and>
    establish echo_request sample_crc 1 2 3 (\<lambda>_. []) None 9 (\<lambda>_. Inr ()) a1 ec = (Inr s, eff, a2, ec) \<and>
    request_command (\<lambda>_ _ request. fst (echo_request request ec)) s (command_generic ''ping'' JNull) = Inr (Generic_Resp ''ping'' JNull)"
proof -
  let ?held = "(xsession_new None 0)\<lparr>xs_transport := Some 0\<rparr>"
  have a: "pe_state sample_initiator = Connected" "pe_session sample_initiator = Some ?held" "xs_session_id ?held = []" "xs_transport ?held = Some 0"
      "cs_on_negotiate sample_consumer (from_capabilities (pe_local sample_initiator) (pe_local sample_initiator)) = Inr ()"
    by (simp_all add: sample_initiator_def peer_new_def xsession_new_def sample_consumer_def)
  show ?thesis
    using interop_echo_session [OF a, of "\<lambda>_. []" "\<lparr>ec_event_seq = 0, ec_log = []\<rparr>" sample_crc 1 2 3 None 9 "\<lambda>_. Inr ()"]
    unfolding Let_def command_generic_def by blast
qed

end
