(* ===== verification/Spec2Isabelle.thy ===== *)
theory Spec2Isabelle
  imports Fetch_End_To_End Transfer_Carrier Stdio_Transport Interop_Peer
begin

text \<open>
  \<^bold>\<open>xacpp-rs\<close> is a protocol library: sessions exchange JSON envelopes (requests, events, responses) and
  binary transactions over one byte stream. The stream is cut into frames; a reliability layer splits a
  payload into frames, retains it until it is acknowledged, reassembles it on the other side, and resumes
  interrupted transactions when a session is wired to a new transport; an extension pulls resources over
  these transactions. Paths below are under \<open>src/src\<close>.

  \<^bold>\<open>Parts and theories.\<close> In the order of dependence:

  \<^item> \<open>Xacpp_Prelude\<close>: the types shared by all (\<open>u32\<close>, bytes, transaction ids as words), big-endian codecs,
    number texts, tables as association lists behind the locales \<open>hash_table\<close> and \<open>ordered_map\<close>, and the
    locales \<open>invariant_machine\<close> and \<open>traced_machine\<close>, from which the theorems about runs take their induction.
  \<^item> \<open>Wire_Frame\<close> (\<open>wire/frame.rs\<close>): frame types and limits, encoding, the incremental decoder with
    magic scan and resynchronisation (locale \<open>incremental_decoder\<close>).
  \<^item> \<open>Wire_Control\<close> (\<open>wire/control.rs\<close>): the nine control payloads, each an interpretation of \<open>byte_codec\<close>.
  \<^item> \<open>Transaction\<close> (\<open>reliability/transaction.rs\<close>): the sender's copies: framing, retention, ACK and NACK,
    retransmission timeouts, backpressure, pause, abort, declarations and resume verdicts.
  \<^item> \<open>Reassemble\<close> (\<open>reliability/reassemble.rs\<close>): the receiver's slots.
  \<^item> \<open>Wire_Error\<close> (\<open>wire/error.rs\<close> and the error texts); \<open>Binary_Stream\<close> (\<open>reliability/stream.rs\<close>): the
    stream object a consumer reads.
  \<^item> \<open>Session_State\<close> (\<open>transfer/core.rs\<close>), \<open>Session_Inbound\<close> (\<open>transfer/inbound.rs\<close>), \<open>Session_Sink\<close>
    (\<open>transfer/sink.rs\<close>), \<open>Session_Clock\<close> (\<open>transfer/clock.rs\<close>): the transfer session. \<open>Session_Delivery\<close>
    is what its inbound side delivers, \<open>Transfer_Session\<close> its runs, \<open>End_To_End\<close> two of them and the bytes in between.
  \<^item> \<open>Wire_Message\<close> (\<open>wire/message.rs\<close>, \<open>wire/commands\<close>, \<open>wire/events\<close>, \<open>wire/fetch.rs\<close>, \<open>wire/capability.rs\<close>):
    envelopes, requests and responses, capabilities, the text form of transaction ids.
  \<^item> \<open>Egress\<close> (\<open>session/egress.rs\<close>): the two-lane write queue and its drain task. \<open>Socket_Transport\<close>
    (\<open>carrier/socket.rs\<close>, \<open>carrier/mod.rs\<close>) with \<open>Socket_Calls\<close> (every request returns once) and \<open>Socket_Rpc\<close>
    (two transports and the bytes in between); \<open>Transfer_Carrier\<close> mounts transfer sessions on two such transports.
    \<open>Stdio_Transport\<close> (\<open>carrier/stdio.rs\<close>).
  \<^item> \<open>Xacpp_Session\<close> (\<open>session/mod.rs\<close>) and \<open>Peer\<close> (\<open>session/peer.rs\<close>, \<open>session/handler.rs\<close>): the
    logical session and the protocol endpoint with negotiation and establishment (locale \<open>transport_contract\<close>).
    \<open>Interaction\<close> (\<open>wire/events\<close>, \<open>wire/commands/lifecycle.rs\<close>): the payloads of events and commands, the interaction
    commands, and their way from a session to the consumer of the other endpoint. \<open>Handshake\<close> composes two endpoints:
    negotiation and establishment, with and without a challenge, up to the first command and event.
  \<^item> \<open>Fetch_Service\<close>, \<open>Fetch_Puller\<close>, \<open>Fetch_Provider\<close> (\<open>ext/fetch.rs\<close>): the responder, the requester and the
    canned providers of the fetch extension. \<open>Fetch_Serving\<close> is the responder's invariant, \<open>Fetch_Lifecycle\<close> its
    runs, \<open>Fetch_End_To_End\<close> the composition of responder, byte stream and requester.
  \<^item> \<open>Interop_Peer\<close> (\<open>examples/interop_peer.rs\<close>, under \<open>src\<close>): a program on top of the library, as a concrete consumer.

  \<^bold>\<open>How the code is modelled.\<close> A struct is a record, an enum a datatype, a table an association list whose
  order is the iteration order, a \<open>u32\<close> a word; sizes that the code keeps in \<open>usize\<close> or \<open>u64\<close> are natural
  numbers (except in the payload types of \<open>Interaction\<close>, where they are words). A method is a function from state to result, effects and state; effects (writes, callbacks,
  answers) are lists in the order the code makes them. Errors are values of a sum.

  Concurrent code is a state machine whose steps are its critical sections; any interleaving of steps is a run.
  The granularity is that of the locks and awaits: the drain task has one step per \<open>select!\<close>, per finished
  write and for its exit; \<open>connect\<close> is split where it has spawned its tasks and not yet published the
  connection; \<open>send\<close> up to its first wait is one step (the flag test and the enqueueing are not separated);
  the sections of \<open>sink_finish\<close> between two lock releases are definitions of their own, run as one
  step of a session; a fetch handler has one step per critical section, and \<open>provider.resolve\<close> with the
  opening of the sink is one step. An \<open>Arc\<close> whose last reference matters is an index: \<open>serving_alive\<close>
  says whether some table, call or slot still refers to it. A pull and a fetch handler that are dropped where they
  await (by their caller, or by a transport that disconnects) are a step of their own.

  \<^bold>\<open>Parameters.\<close> Code that is not in the repository is an argument: the checksum of crc32fast (any function),
  the JSON text of serde (\<open>codec_for\<close>: parsing gives back what was written), SHA-256 (any function),
  \<open>Uuid\<close> values (fresh ones are inputs; \<open>distinct (new_ids ops)\<close> where a theorem needs that
  they do not collide), the outcome of reads, writes and connection attempts, the clock, the
  consumer's callbacks and the provider of a fetch service.

  \<^bold>\<open>Bounds and fuel.\<close> Every function is total; there is no fuel. Loops over a buffer or a queue have a
  measure. Where a counter may wrap, the theorem bounds the run (\<open>2^64\<close> request ids).

  \<^bold>\<open>What is proved.\<close>

  \<^item> End to end: a payload sent over any segmentation is delivered once and confirmed once, also across a
    lost connection, and when the sessions are mounted on socket transports; a request gets the handler's answer; a fetched
    resource arrives verified; two endpoints shake hands, and a handshake that fails, with any of its sends lost, leaves at most one unused
    route behind (\<open>End_To_End\<close>, \<open>Transfer_Carrier\<close>, \<open>Socket_Rpc\<close>,
    \<open>Fetch_End_To_End\<close>, \<open>Handshake\<close>).
  \<^item> Invariants of every reachable state: sender, reassembler, transfer session, request table, peer facts,
    fetch tables, puller.
  \<^item> Exactly once: completion callbacks, returns of requests, starts and ends of a serving, streams given to
    pulls.
  \<^item> Codecs: frames and control payloads round trip, accept exactly what they encode, and the decoder's
    buffer is bounded.
  \<^item> Exactness of single operations: what is retransmitted and when, what an ACK completes, which gaps a NACK
    reports, how resume verdicts settle, when a sink write parks.
  \<^item> Refinements: streaming through a sink is \<open>send_binary\<close>; the stdio transport is a serial socket
    transport; reassembly in any order is concatenation.
  \<^item> Shortcomings of the code, as theorems: a completion with a hole, a stale drain task that ends a new
    connection, a reconnected peer that keeps its negotiated state, a skipped terminal operation, a lost wakeup, and an
    orphaned placeholder and an unserved begin after a dropped handler in the fetch service, a starving latecomer in the puller, a handler that blocks its own replies on stdio, fetch modes
    of the interoperability peer that never transfer anything.

  \<^bold>\<open>Not modelled.\<close> The JSON form of the wire types: it is produced by the \<open>serde\<close> derives, a parameter here.
  Logging, thread and task scheduling fairness, memory limits. The benchmark programs, the listener loop of
  the interoperability peer, and the tests.
\<close>

end
